(* ===== verification/Prelude.thy ===== *)
theory Prelude
  imports Main "HOL-Library.Char_ord" "HOL-Library.List_Lexorder" "HOL-Library.Word"
begin

text \<open>
  Shared vocabulary of the development: C strings and the search operations of
  \<open>std::string\<close>, ordered associative containers (\<open>std::map\<close> with a comparator), and the
  generic list lemmas the component theories use.  Nothing in this theory models a file of
  the repository; it models what the repository uses of the C and C++ standard libraries.
\<close>

named_theorems strops \<open>defining equations of the standard string operations\<close>
named_theorems inv_intros \<open>preservation of the component invariants\<close>

section \<open>C strings\<close>

abbreviation NUL :: char where "NUL \<equiv> CHR 0x00"
abbreviation NL :: char where "NL \<equiv> CHR 0x0A"
abbreviation CR :: char where "CR \<equiv> CHR 0x0D"
abbreviation TAB :: char where "TAB \<equiv> CHR 0x09"

text \<open>The characters a scan of \<open>s.c_str()\<close> sees before it stops at the terminator.\<close>

definition c_str :: "string \<Rightarrow> string" where
  "c_str s = takeWhile (\<lambda>c. c \<noteq> NUL) s"

definition no_nul :: "string \<Rightarrow> bool" where
  "no_nul s \<longleftrightarrow> NUL \<notin> set s"

lemma c_str_no_nul [simp]: "no_nul (c_str s)"
  by (auto simp: c_str_def no_nul_def dest: set_takeWhileD)

lemma c_str_id [simp]: "no_nul s \<Longrightarrow> c_str s = s"
  unfolding c_str_def no_nul_def by (induction s) auto

lemma no_nul_simps [simp]:
  "no_nul []" "no_nul (c # s) \<longleftrightarrow> c \<noteq> NUL \<and> no_nul s"
  "no_nul (s @ t) \<longleftrightarrow> no_nul s \<and> no_nul t"
  by (auto simp: no_nul_def)

text \<open>
  \<open>std::string(p, n)\<close> for a pointer \<open>p\<close> at offset \<open>i\<close> of a C string: the terminator may be
  read, anything after it is outside the object (\<open>None\<close>).
\<close>

definition read_span :: "string \<Rightarrow> nat \<Rightarrow> nat \<Rightarrow> string option" where
  "read_span s i n =
     (if i + n \<le> length s + 1 then Some (take n (drop i (s @ [NUL]))) else None)"

lemma read_span_in: "i + n \<le> length s \<Longrightarrow> read_span s i n = Some (take n (drop i s))"
  by (simp add: read_span_def)

section \<open>Searching, as std::string does\<close>

fun find_idx :: "('a \<Rightarrow> bool) \<Rightarrow> 'a list \<Rightarrow> nat option" where
  "find_idx P [] = None"
| "find_idx P (x # xs) = (if P x then Some 0 else map_option Suc (find_idx P xs))"

definition find_last_idx :: "('a \<Rightarrow> bool) \<Rightarrow> 'a list \<Rightarrow> nat option" where
  "find_last_idx P xs = map_option (\<lambda>i. length xs - 1 - i) (find_idx P (rev xs))"

definition find_first_of :: "string \<Rightarrow> string \<Rightarrow> nat option" where
  [strops]: "find_first_of s cs = find_idx (\<lambda>c. c \<in> set cs) s"

definition find_first_not_of :: "string \<Rightarrow> string \<Rightarrow> nat option" where
  [strops]: "find_first_not_of s cs = find_idx (\<lambda>c. c \<notin> set cs) s"

definition find_last_of :: "string \<Rightarrow> string \<Rightarrow> nat option" where
  [strops]: "find_last_of s cs = find_last_idx (\<lambda>c. c \<in> set cs) s"

definition find_last_not_of :: "string \<Rightarrow> string \<Rightarrow> nat option" where
  [strops]: "find_last_not_of s cs = find_last_idx (\<lambda>c. c \<notin> set cs) s"

text \<open>\<open>s.find_last_of(cs, pos)\<close>: the last match at an index not above \<open>pos\<close>.\<close>

definition find_last_of_upto :: "string \<Rightarrow> string \<Rightarrow> nat \<Rightarrow> nat option" where
  [strops]: "find_last_of_upto s cs pos = find_last_of (take (pos + 1) s) cs"

text \<open>\<open>s.substr(pos, n)\<close> and \<open>s.substr(pos)\<close>, for \<open>pos\<close> not above the size.\<close>

definition substr :: "string \<Rightarrow> nat \<Rightarrow> nat \<Rightarrow> string" where
  [strops]: "substr s pos n = take n (drop pos s)"

definition substr_from :: "string \<Rightarrow> nat \<Rightarrow> string" where
  [strops]: "substr_from s pos = drop pos s"

lemma find_idx_None: "find_idx P xs = None \<longleftrightarrow> (\<forall>x \<in> set xs. \<not> P x)"
  by (induction xs) auto

lemma find_idx_Some:
  "find_idx P xs = Some i \<longleftrightarrow> i < length xs \<and> P (xs ! i) \<and> (\<forall>j < i. \<not> P (xs ! j))"
proof (induction xs arbitrary: i)
  case Nil
  show ?case by simp
next
  case (Cons x xs)
  show ?case
  proof (cases i)
    case 0
    then show ?thesis by auto
  next
    case (Suc k)
    have "(\<forall>j < Suc k. \<not> P ((x # xs) ! j)) \<longleftrightarrow> \<not> P x \<and> (\<forall>j < k. \<not> P (xs ! j))"
      by (auto simp: less_Suc_eq_0_disj)
    then show ?thesis using Suc Cons.IH[of k] by auto
  qed
qed

lemma find_idx_take: "find_idx P xs = Some i \<Longrightarrow> take i xs = takeWhile (\<lambda>x. \<not> P x) xs"
  by (induction xs arbitrary: i) (auto split: if_splits)

lemma find_idx_drop: "find_idx P xs = Some i \<Longrightarrow> drop i xs = dropWhile (\<lambda>x. \<not> P x) xs"
  by (induction xs arbitrary: i) (auto split: if_splits)

lemma find_idx_less: "find_idx P xs = Some i \<Longrightarrow> i < length xs"
  by (simp add: find_idx_Some)

lemma find_idx_append:
  "find_idx P (xs @ ys) =
     (case find_idx P xs of Some i \<Rightarrow> Some i
      | None \<Rightarrow> map_option (\<lambda>i. length xs + i) (find_idx P ys))"
  by (induction xs)
    (cases "find_idx P ys"; auto split: option.splits)+

lemma find_last_idx_None: "find_last_idx P xs = None \<longleftrightarrow> (\<forall>x \<in> set xs. \<not> P x)"
  by (simp add: find_last_idx_def find_idx_None)

lemmas find_none = find_idx_None find_last_idx_None

lemma find_last_idx_less: "find_last_idx P xs = Some i \<Longrightarrow> i < length xs"
  by (auto simp: find_last_idx_def dest: find_idx_less)

lemma find_last_idx_snoc:
  "find_last_idx P (xs @ [x]) = (if P x then Some (length xs) else find_last_idx P xs)"
  by (auto simp: find_last_idx_def option.map_comp comp_def)

lemma find_last_idx_take:
  "find_last_idx P xs = Some i \<Longrightarrow> take (Suc i) xs = rev (dropWhile (\<lambda>x. \<not> P x) (rev xs))"
proof (induction xs arbitrary: i rule: rev_induct)
  case Nil
  then show ?case by (simp add: find_last_idx_def)
next
  case (snoc x xs)
  then show ?case
    by (auto simp: find_last_idx_snoc split: if_splits dest: find_last_idx_less)
qed

lemma find_last_idx_Some_decomp:
  assumes "find_last_idx P xs = Some i"
  shows "P (xs ! i)" "xs = take i xs @ xs ! i # drop (Suc i) xs" "\<forall>x \<in> set (drop (Suc i) xs). \<not> P x"
  using assms
proof (induction xs arbitrary: i rule: rev_induct)
  case Nil
  {
    case 1 then show ?case by (simp add: find_last_idx_def)
  next
    case 2 then show ?case by (simp add: find_last_idx_def)
  next
    case 3 then show ?case by (simp add: find_last_idx_def)
  }
next
  case (snoc x xs)
  {
    case 1 then show ?case using snoc(1) find_last_idx_less
      by (fastforce simp: find_last_idx_snoc nth_append split: if_splits)
  next
    case 2 then show ?case using find_last_idx_less
      by (metis id_take_nth_drop length_append_singleton less_SucI find_last_idx_less)
  next
    case 3 then show ?case using snoc(3) find_last_idx_less
      by (fastforce simp: find_last_idx_snoc split: if_splits)
  }
qed

section \<open>Joining with a separator\<close>

fun join_with :: "'a \<Rightarrow> 'a list list \<Rightarrow> 'a list" where
  "join_with d [] = []"
| "join_with d [w] = w"
| "join_with d (w # ws) = w @ d # join_with d ws"

lemma join_with_Cons: "ws \<noteq> [] \<Longrightarrow> join_with d (w # ws) = w @ d # join_with d ws"
  by (cases ws) auto

lemma join_with_append:
  "xs \<noteq> [] \<Longrightarrow> ys \<noteq> [] \<Longrightarrow> join_with d (xs @ ys) = join_with d xs @ d # join_with d ys"
proof (induction xs)
  case (Cons x xs)
  then show ?case by (cases "xs = []") (simp_all add: join_with_Cons)
qed simp

lemma set_join_with: "set (join_with d ws) \<subseteq> insert d (\<Union> (set ` set ws))"
  by (induction d ws rule: join_with.induct) auto

lemma set_join_with_sub: "w \<in> set ws \<Longrightarrow> set w \<subseteq> set (join_with d ws)"
  by (induction d ws rule: join_with.induct) auto

lemma find_last_idx_SomeE:
  assumes "find_last_idx P xs = Some i"
  obtains a x b where "xs = a @ x # b" "length a = i" "P x" "\<forall>y \<in> set b. \<not> P y"
proof
  show "xs = take i xs @ xs ! i # drop (Suc i) xs" "P (xs ! i)"
    "\<forall>y \<in> set (drop (Suc i) xs). \<not> P y"
    using find_last_idx_Some_decomp[OF assms] by blast+
  show "length (take i xs) = i"
    using find_last_idx_less[OF assms] by simp
qed

lemma find_last_idx_app:
  "P x \<Longrightarrow> \<forall>y \<in> set b. \<not> P y \<Longrightarrow> find_last_idx P (a @ x # b) = Some (length a)"
proof (induction b rule: rev_induct)
  case Nil
  then show ?case using find_last_idx_snoc[of P a x] by simp
next
  case (snoc y b)
  then show ?case using find_last_idx_snoc[of P "a @ x # b" y] by simp
qed

section \<open>Decimal numbers\<close>

definition isspace_c :: "char \<Rightarrow> bool" where
  "isspace_c c \<longleftrightarrow> c = CHR '' '' \<or> (CHR 0x09 \<le> c \<and> c \<le> CHR 0x0D)"

definition isdigit_c :: "char \<Rightarrow> bool" where
  "isdigit_c c \<longleftrightarrow> CHR ''0'' \<le> c \<and> c \<le> CHR ''9''"

definition digit_c :: "nat \<Rightarrow> char" where
  "digit_c d = char_of (48 + d)"

text \<open>The value of the leading decimal digits, and the digits of a number.\<close>

fun digits_val :: "nat \<Rightarrow> string \<Rightarrow> nat" where
  "digits_val acc [] = acc"
| "digits_val acc (c # cs) =
     (if isdigit_c c then digits_val (10 * acc + (of_char c - 48)) cs else acc)"

fun show_nat :: "nat \<Rightarrow> string" where
  "show_nat n = (if n < 10 then [digit_c n] else show_nat (n div 10) @ [digit_c (n mod 10)])"

declare show_nat.simps [simp del]

text \<open>\<open>printf("%d")\<close>.\<close>

definition show_int :: "int \<Rightarrow> string" where
  "show_int i = (if i < 0 then CHR ''-'' # show_nat (nat (- i)) else show_nat (nat i))"

text \<open>
  \<open>strtol(s, NULL, 10)\<close> saturates at the 64-bit range; \<open>atoi\<close> of the C library truncates
  that to 32 bits.
\<close>

definition strtol_10 :: "string \<Rightarrow> int" where
  "strtol_10 s =
     (let p = dropWhile isspace_c (c_str s);
          v = (case p of [] \<Rightarrow> 0
               | c # q \<Rightarrow> if c = CHR ''-'' then - int (digits_val 0 q)
                        else if c = CHR ''+'' then int (digits_val 0 q) else int (digits_val 0 p))
      in max (- (2 ^ 63)) (min (2 ^ 63 - 1) v))"

definition atoi :: "string \<Rightarrow> int" where
  "atoi s = sint (word_of_int (strtol_10 s) :: 32 word)"

lemma digit_cases: "d < 10 \<Longrightarrow> d \<in> {0, 1, 2, 3, 4, 5, 6, 7, 8, 9 :: nat}"
  by auto

lemma of_char_digit_c: "d < 10 \<Longrightarrow> of_char (digit_c d) = 48 + d"
  by (simp add: digit_c_def)

lemma isdigit_digit_c [simp]: "d < 10 \<Longrightarrow> isdigit_c (digit_c d)"
  by (drule digit_cases) (auto simp: isdigit_c_def digit_c_def less_eq_char_def)

lemma digits_val_app_digit:
  "\<forall>c \<in> set s. isdigit_c c \<Longrightarrow> d < 10 \<Longrightarrow>
   digits_val acc (s @ [digit_c d]) = 10 * digits_val acc s + d"
  by (induction s arbitrary: acc) (auto simp: of_char_digit_c)

lemma show_nat_digits: "c \<in> set (show_nat n) \<Longrightarrow> isdigit_c c"
proof (induction n rule: show_nat.induct)
  case (1 n)
  then show ?case by (subst (asm) (2) show_nat.simps) (auto split: if_splits)
qed

lemma digits_val_show_nat: "digits_val 0 (show_nat n) = n"
proof (induction n rule: show_nat.induct)
  case (1 n)
  show ?case
  proof (cases "n < 10")
    case True
    then show ?thesis by (simp add: show_nat.simps[of n] of_char_digit_c)
  next
    case False
    then show ?thesis using 1 show_nat_digits[of _ "n div 10"]
      by (simp add: show_nat.simps[of n] digits_val_app_digit)
  qed
qed

lemma show_nat_nonempty [simp]: "show_nat n \<noteq> []"
  by (simp add: show_nat.simps[of n])

lemma digit_not_special:
  assumes "isdigit_c c"
  shows "\<not> isspace_c c" "c \<noteq> CHR ''-''" "c \<noteq> CHR ''+''" "c \<noteq> NUL"
  using assms by (auto simp: isdigit_c_def isspace_c_def less_eq_char_def)

lemma show_int_no_nul [simp]: "no_nul (show_int i)"
  using show_nat_digits digit_not_special(4) by (fastforce simp: show_int_def no_nul_def)

lemma show_int_nonempty [simp]: "show_int i \<noteq> []"
  by (simp add: show_int_def)

lemma strtol_show_int:
  assumes "- (2 ^ 63) \<le> i" "i < 2 ^ 63"
  shows "strtol_10 (show_int i) = i"
proof (cases "i < 0")
  case True
  then have "dropWhile isspace_c (c_str (show_int i)) = CHR ''-'' # show_nat (nat (- i))"
    using show_int_no_nul[of i] by (simp add: show_int_def isspace_c_def less_eq_char_def)
  then show ?thesis using True assms by (simp add: strtol_10_def digits_val_show_nat)
next
  case False
  obtain c q where q: "show_nat (nat i) = c # q" by (cases "show_nat (nat i)") auto
  then have "isdigit_c c" using show_nat_digits[of c "nat i"] by simp
  moreover have "dropWhile isspace_c (c_str (show_int i)) = c # q"
    using False q show_int_no_nul[of i] digit_not_special[OF \<open>isdigit_c c\<close>] by (simp add: show_int_def)
  ultimately show ?thesis
    using False assms q digits_val_show_nat[of "nat i"]
    by (simp add: strtol_10_def digit_not_special)
qed

lemma atoi_show_int:
  assumes "- (2 ^ 31) \<le> i" "i < 2 ^ 31"
  shows "atoi (show_int i) = i"
  using assms by (simp add: atoi_def strtol_show_int sint_sbintrunc' signed_take_bit_int_eq_self)

end
