(* ===== verification/OrderedMap.thy ===== *)
theory OrderedMap
  imports Prelude
begin

text \<open>
  \<open>std::map\<close> with a comparator, as the association list its iteration visits: ordered by the
  comparator, one entry per equivalence class of keys.  \<open>m[k] = v\<close> keeps the key already stored
  when an equivalent one is present, which matters for \<open>StringCaseLess\<close>.  The interface of
  a comparator is a locale; its laws give the laws of the container.
\<close>

type_synonym ('k, 'v) omap = "('k \<times> 'v) list"

fun omap_put :: "('k \<Rightarrow> 'k \<Rightarrow> bool) \<Rightarrow> 'k \<Rightarrow> 'v \<Rightarrow> ('k, 'v) omap \<Rightarrow> ('k, 'v) omap" where
  "omap_put lt k v [] = [(k, v)]"
| "omap_put lt k v ((k', v') # m) =
     (if lt k k' then (k, v) # (k', v') # m
      else if lt k' k then (k', v') # omap_put lt k v m
      else (k', v) # m)"

fun omap_get :: "('k \<Rightarrow> 'k \<Rightarrow> bool) \<Rightarrow> 'k \<Rightarrow> ('k, 'v) omap \<Rightarrow> 'v option" where
  "omap_get lt k [] = None"
| "omap_get lt k ((k', v') # m) =
     (if \<not> lt k k' \<and> \<not> lt k' k then Some v' else omap_get lt k m)"

fun omap_erase :: "('k \<Rightarrow> 'k \<Rightarrow> bool) \<Rightarrow> 'k \<Rightarrow> ('k, 'v) omap \<Rightarrow> ('k, 'v) omap" where
  "omap_erase lt k [] = []"
| "omap_erase lt k ((k', v') # m) =
     (if \<not> lt k k' \<and> \<not> lt k' k then m else (k', v') # omap_erase lt k m)"

definition omap_inv :: "('k \<Rightarrow> 'k \<Rightarrow> bool) \<Rightarrow> ('k, 'v) omap \<Rightarrow> bool" where
  "omap_inv lt m \<longleftrightarrow> sorted_wrt (\<lambda>p q. lt (fst p) (fst q)) m"

lemma omap_inv_simps [simp]:
  "omap_inv lt []"
  "omap_inv lt (p # m) \<longleftrightarrow> (\<forall>q \<in> set m. lt (fst p) (fst q)) \<and> omap_inv lt m"
  by (auto simp: omap_inv_def)

section \<open>The laws of a comparator and of the container over it\<close>

locale comparator =
  fixes lt :: "'k \<Rightarrow> 'k \<Rightarrow> bool"
  assumes irrefl: "\<not> lt a a"
    and trans: "lt a b \<Longrightarrow> lt b c \<Longrightarrow> lt a c"
    and incomp_trans:
      "\<not> lt a b \<Longrightarrow> \<not> lt b a \<Longrightarrow> \<not> lt b c \<Longrightarrow> \<not> lt c b \<Longrightarrow> \<not> lt a c \<and> \<not> lt c a"
begin

lemma asym: "lt a b \<Longrightarrow> \<not> lt b a"
  using irrefl trans by blast

lemma equiv_less: "\<not> lt a b \<Longrightarrow> \<not> lt b a \<Longrightarrow> lt b c \<Longrightarrow> lt a c"
  using incomp_trans trans irrefl by blast

lemma less_equiv: "lt a b \<Longrightarrow> \<not> lt b c \<Longrightarrow> \<not> lt c b \<Longrightarrow> lt a c"
  using incomp_trans trans irrefl by blast

lemma put_keys: "q \<in> set (omap_put lt k v m) \<Longrightarrow> fst q = k \<or> fst q \<in> fst ` set m"
  by (induction m rule: omap_put.induct[of _ lt k v]) (auto split: if_splits simp: image_iff; force)+

lemma put_inv: "omap_inv lt m \<Longrightarrow> omap_inv lt (omap_put lt k v m)"
proof (induction m)
  case Nil
  then show ?case by simp
next
  case (Cons p m)
  obtain k' v' where p: "p = (k', v')" by (cases p)
  have *: "\<forall>q \<in> set (omap_put lt k v m). lt k' (fst q)" if "lt k' k"
    using that Cons.prems put_keys[of _ k v m] by (fastforce simp: p)
  show ?case
    using Cons * by (auto simp: p intro: trans)
qed

lemma get_above: "(\<And>q. q \<in> set m \<Longrightarrow> lt k (fst q)) \<Longrightarrow> omap_get lt k m = None"
proof (induction m)
  case (Cons p m)
  then show ?case by (cases p) fastforce
qed simp

lemma get_put_same: "omap_get lt k (omap_put lt k v m) = Some v"
  by (induction m) (auto simp: irrefl dest: asym)

lemma get_equiv: "\<not> lt a b \<Longrightarrow> \<not> lt b a \<Longrightarrow> omap_get lt a m = omap_get lt b m"
proof (induction m)
  case (Cons p m)
  obtain k v where p: "p = (k, v)" by (cases p)
  have "\<not> lt a k \<and> \<not> lt k a \<longleftrightarrow> \<not> lt b k \<and> \<not> lt k b"
    using Cons.prems incomp_trans[of a b k] incomp_trans[of b a k] by blast
  then show ?case using Cons by (simp add: p)
qed simp

lemma get_put_other:
  "lt j k \<or> lt k j \<Longrightarrow> omap_get lt j (omap_put lt k v m) = omap_get lt j m"
proof (induction m)
  case (Cons p m)
  obtain k' v' where p: "p = (k', v')" by (cases p)
  have "lt j k' \<or> lt k' j" if "\<not> lt k k'" "\<not> lt k' k"
    using that Cons.prems less_equiv[of j k k'] equiv_less[of k' k j] by blast
  then show ?case using Cons by (auto simp: p)
qed auto

lemma get_put:
  "omap_get lt j (omap_put lt k v m) =
     (if \<not> lt j k \<and> \<not> lt k j then Some v else omap_get lt j m)"
  using get_put_other get_put_same get_equiv by metis

lemma erase_subset: "set (omap_erase lt k m) \<subseteq> set m"
  by (induction m) (auto split: if_splits)

lemma erase_inv: "omap_inv lt m \<Longrightarrow> omap_inv lt (omap_erase lt k m)"
  using erase_subset by (induction m) fastforce+

lemma get_erase:
  "omap_inv lt m \<Longrightarrow>
     omap_get lt j (omap_erase lt k m) =
       (if \<not> lt j k \<and> \<not> lt k j then None else omap_get lt j m)"
proof (induction m)
  case Nil
  then show ?case by simp
next
  case (Cons p m)
  obtain k' v' where p: "p = (k', v')" by (cases p)
  show ?case
  proof (cases "\<not> lt k k' \<and> \<not> lt k' k")
    case True
    have above: "omap_get lt j m = None" if "\<not> lt j k" "\<not> lt k j"
      using that True Cons.prems equiv_less[of j k] equiv_less[of k k']
      by (intro get_above) (auto simp: p)
    show ?thesis
      using True Cons.prems above incomp_trans[of j k' k] incomp_trans[of j k k'] by (auto simp: p)
  next
    case False
    then show ?thesis
      using Cons incomp_trans[of k' j k] by (auto simp: p)
  qed
qed

lemma get_member: "omap_inv lt m \<Longrightarrow> (k, v) \<in> set m \<Longrightarrow> omap_get lt k m = Some v"
  by (induction m) (auto simp: irrefl)

end

section \<open>std::string's own order\<close>

definition str_lt :: "string \<Rightarrow> string \<Rightarrow> bool" where
  "str_lt a b \<longleftrightarrow> a < b"

interpretation strmap: comparator str_lt
  by unfold_locales (auto simp: str_lt_def)

lemma str_lt_equiv [simp]: "\<not> str_lt a b \<and> \<not> str_lt b a \<longleftrightarrow> a = b"
  by (auto simp: str_lt_def)

text \<open>\<open>std::map<std::string, std::string>\<close>: the \<open>keyval_t\<close> of the code.\<close>

type_synonym keyval = "(string, string) omap"

abbreviation kv_put :: "string \<Rightarrow> string \<Rightarrow> keyval \<Rightarrow> keyval" where
  "kv_put \<equiv> omap_put str_lt"

abbreviation kv_get :: "string \<Rightarrow> keyval \<Rightarrow> string option" where
  "kv_get \<equiv> omap_get str_lt"

lemma kv_get_put [simp]: "kv_get j (kv_put k v m) = (if j = k then Some v else kv_get j m)"
  by (simp only: strmap.get_put str_lt_equiv)

end
