(* ===== verification/HString.thy ===== *)
theory HString
  imports OrderedMap
begin

text \<open>
  \<open>cpputil/hstring.cpp\<close> and \<open>cpputil/hstring.h\<close>: splitting, trimming, replacing and taking
  path names apart.  A pointer that walks \<open>str.c_str()\<close> is modelled by what it has passed
  and what is left, or by its offset where the code reads back through it.
\<close>

section \<open>split and splitKV\<close>

text \<open>The loop of \<open>split\<close>: \<open>v\<close> is the text between \<open>value\<close> and \<open>p\<close>.\<close>

fun split_from :: "char \<Rightarrow> string \<Rightarrow> string \<Rightarrow> string list" where
  "split_from delim v [] = [v]"
| "split_from delim v (c # p) =
     (if c = delim then v # split_from delim [] p else split_from delim (v @ [c]) p)"

definition split :: "string \<Rightarrow> char \<Rightarrow> string list" where
  "split str delim = split_from delim [] (c_str str)"

datatype kv_state = s_key | s_value

record kv_scan =
  kv_st :: kv_state
  kv_key :: nat
  kv_val :: "nat option"
  key_len :: nat
  value_len :: nat
  kv_kvs :: keyval

text \<open>
  \<open>kvs[std::string(key, key_len)] = std::string(value, value_len)\<close>; \<open>None\<close> when a span leaves
  the string it points into (or \<open>value\<close> is still null).
\<close>

definition kv_flush :: "string \<Rightarrow> kv_scan \<Rightarrow> kv_scan option" where
  "kv_flush s st =
     (case (read_span s (kv_key st) (key_len st),
            Option.bind (kv_val st) (\<lambda>i. read_span s i (value_len st))) of
        (Some k, Some v) \<Rightarrow> Some (st\<lparr>kv_kvs := kv_put k v (kv_kvs st), key_len := 0, value_len := 0\<rparr>)
      | _ \<Rightarrow> None)"

definition kv_step :: "string \<Rightarrow> char \<Rightarrow> char \<Rightarrow> nat \<Rightarrow> char \<Rightarrow> kv_scan \<Rightarrow> kv_scan option" where
  "kv_step s kv_kv k_v p c st =
     (if c = kv_kv then
        map_option (\<lambda>st. st\<lparr>kv_st := s_key, kv_key := p + 1\<rparr>)
          (if key_len st \<noteq> 0 \<and> value_len st \<noteq> 0 then kv_flush s st else Some st)
      else if c = k_v then Some (st\<lparr>kv_st := s_value, kv_val := Some (p + 1)\<rparr>)
      else if kv_st st = s_key then Some (st\<lparr>key_len := key_len st + 1\<rparr>)
      else Some (st\<lparr>value_len := value_len st + 1\<rparr>))"

fun splitKV_loop ::
    "string \<Rightarrow> char \<Rightarrow> char \<Rightarrow> nat \<Rightarrow> string \<Rightarrow> kv_scan \<Rightarrow> kv_scan option" where
  "splitKV_loop s kv_kv k_v p [] st =
     (if key_len st \<noteq> 0 \<and> value_len st \<noteq> 0 then kv_flush s st else Some st)"
| "splitKV_loop s kv_kv k_v p (c # cs) st =
     Option.bind (kv_step s kv_kv k_v p c st) (splitKV_loop s kv_kv k_v (p + 1) cs)"

definition splitKV :: "string \<Rightarrow> char \<Rightarrow> char \<Rightarrow> keyval option" where
  "splitKV str kv_kv k_v =
     map_option kv_kvs (splitKV_loop (c_str str) kv_kv k_v 0 (c_str str)
       \<lparr>kv_st = s_key, kv_key = 0, kv_val = None, key_len = 0, value_len = 0, kv_kvs = []\<rparr>)"

section \<open>Trimming and replacing\<close>

definition SPACE_CHARS :: string where
  "SPACE_CHARS = [CHR '' '', TAB, CR, NL]"

definition PAIR_CHARS :: string where
  "PAIR_CHARS = ''{}[]()<>'' @ [CHR 0x22, CHR 0x22, CHR 0x27, CHR 0x27, CHR 0x60, CHR 0x60]"

definition trim :: "string \<Rightarrow> string \<Rightarrow> string" where
  "trim str chars =
     (case find_first_not_of str chars of
        None \<Rightarrow> []
      | Some pos1 \<Rightarrow>
          (case find_last_not_of str chars of
             None \<Rightarrow> substr_from str pos1
           | Some pos2 \<Rightarrow> substr str pos1 (pos2 - pos1 + 1)))"

definition trimL :: "string \<Rightarrow> string \<Rightarrow> string" where
  "trimL str chars =
     (case find_first_not_of str chars of None \<Rightarrow> [] | Some pos \<Rightarrow> substr_from str pos)"

definition trimR :: "string \<Rightarrow> string \<Rightarrow> string" where
  "trimR str chars =
     (case find_last_not_of str chars of None \<Rightarrow> substr str 0 0 | Some pos \<Rightarrow> substr str 0 (pos + 1))"

text \<open>
  \<open>trim_pairs\<close> compares the first character of the buffer (the terminator, for an empty
  string, which no pair starts with) with its last one.
\<close>

fun pairs_match :: "char \<Rightarrow> char \<Rightarrow> string \<Rightarrow> bool" where
  "pairs_match s e (a # b # ps) = (if s = a \<and> e = b then True else pairs_match s e ps)"
| "pairs_match s e _ = False"

definition trim_pairs :: "string \<Rightarrow> string \<Rightarrow> string" where
  "trim_pairs str pairs =
     (if str \<noteq> [] \<and> pairs_match (hd str) (last str) (c_str pairs)
      then substr str 1 (length str - 2) else str)"

text \<open>\<open>res.find(find, pos)\<close>.\<close>

fun find_sub :: "string \<Rightarrow> string \<Rightarrow> nat option" where
  "find_sub f [] = (if f = [] then Some 0 else None)"
| "find_sub f (x # xs) =
     (if take (length f) (x # xs) = f then Some 0 else map_option Suc (find_sub f xs))"

definition find_str :: "string \<Rightarrow> string \<Rightarrow> nat \<Rightarrow> nat option" where
  "find_str s f pos =
     (if pos \<le> length s then map_option ((+) pos) (find_sub f (drop pos s)) else None)"

text \<open>The loop of \<open>replace\<close> may run forever, so its result is an option.\<close>

partial_function (option) replace_loop ::
    "string \<Rightarrow> string \<Rightarrow> string \<Rightarrow> nat \<Rightarrow> string option" where
  "replace_loop f rep res pos =
     (case find_str res f pos of
        None \<Rightarrow> Some res
      | Some p \<Rightarrow>
          replace_loop f rep (take p res @ rep @ drop (p + length f) res) (p + length rep))"

definition replace :: "string \<Rightarrow> string \<Rightarrow> string \<Rightarrow> string option" where
  "replace str f rep = replace_loop f rep str 0"

section \<open>Path names\<close>

definition path_seps :: string where
  "path_seps = [CHR ''/'', CHR 0x5C]"

definition basename :: "string \<Rightarrow> string" where
  "basename str =
     (case find_last_not_of str path_seps of
        None \<Rightarrow> ''/''
      | Some pos1 \<Rightarrow>
          (let pos2 = (case find_last_of_upto str path_seps pos1 of None \<Rightarrow> 0 | Some p \<Rightarrow> p + 1)
           in substr str pos2 (pos1 - pos2 + 1)))"

definition dirname :: "string \<Rightarrow> string" where
  "dirname str =
     (case find_last_not_of str path_seps of
        None \<Rightarrow> ''/''
      | Some pos1 \<Rightarrow>
          (case find_last_of_upto str path_seps pos1 of
             None \<Rightarrow> ''.''
           | Some pos2 \<Rightarrow> substr str 0 (if pos2 = 0 then 1 else pos2)))"

definition last_component :: "string \<Rightarrow> string" where
  "last_component str =
     substr_from str (case find_last_of str path_seps of None \<Rightarrow> 0 | Some p \<Rightarrow> p + 1)"

definition filename :: "string \<Rightarrow> string" where
  "filename str =
     (let file = last_component str
      in case find_last_of file ''.'' of None \<Rightarrow> file | Some pos2 \<Rightarrow> substr file 0 pos2)"

definition suffixname :: "string \<Rightarrow> string" where
  "suffixname str =
     (let file = last_component str
      in case find_last_of file ''.'' of None \<Rightarrow> [] | Some pos2 \<Rightarrow> substr_from file (pos2 + 1))"

section \<open>Case-insensitive keys\<close>

definition tolower_c :: "char \<Rightarrow> char" where
  "tolower_c c = (if CHR ''A'' \<le> c \<and> c \<le> CHR ''Z'' then char_of (of_char c + 32 :: nat) else c)"

text \<open>\<open>strcasecmp(a, b) < 0\<close> on C strings, and the comparator built on it.\<close>

definition strcasekey :: "string \<Rightarrow> string" where
  "strcasekey s = map tolower_c (c_str s)"

definition StringCaseLess :: "string \<Rightarrow> string \<Rightarrow> bool" where
  "StringCaseLess lhs rhs \<longleftrightarrow> strcasekey lhs < strcasekey rhs"

interpretation casemap: comparator StringCaseLess
  by unfold_locales (auto simp: StringCaseLess_def)

lemma StringCaseLess_equiv:
  "\<not> StringCaseLess a b \<and> \<not> StringCaseLess b a \<longleftrightarrow> strcasekey a = strcasekey b"
  by (auto simp: StringCaseLess_def)

section \<open>split\<close>

lemma split_from_app:
  "delim \<notin> set w \<Longrightarrow> split_from delim v (w @ p) = split_from delim (v @ w) p"
  by (induction w arbitrary: v) auto

lemma split_from_nonempty [simp]: "split_from delim v p \<noteq> []"
  by (induction delim v p rule: split_from.induct) auto

lemma join_split_from: "join_with delim (split_from delim v p) = v @ p"
  by (induction delim v p rule: split_from.induct) (auto simp: join_with_Cons)

lemma split_from_clean:
  "delim \<notin> set v \<Longrightarrow> w \<in> set (split_from delim v p) \<Longrightarrow> delim \<notin> set w"
  by (induction delim v p rule: split_from.induct) (auto split: if_splits)

lemma split_from_join:
  assumes "ws \<noteq> []" "\<forall>w \<in> set ws. delim \<notin> set w" "delim \<notin> set v"
  shows "split_from delim v (join_with delim ws) = (v @ hd ws) # tl ws"
  using assms
proof (induction delim ws arbitrary: v rule: join_with.induct)
  case (2 d w)
  then show ?case using split_from_app[of d w v "[]"] by simp
next
  case (3 d w w' ws)
  then show ?case using "3.IH"[of "[]"] by (simp add: split_from_app)
qed simp

text \<open>
  \<open>split\<close> is the inverse of joining with the delimiter: the pieces of any string contain
  no delimiter and join back to it (to what precedes its first NUL), and joining any non-empty
  list of delimiter-free C strings and splitting gives the list back, empty pieces included.
\<close>

theorem split_inverse:
  "join_with delim (split str delim) = c_str str \<and>
   (\<forall>w \<in> set (split str delim). delim \<notin> set w) \<and>
   (ws \<noteq> [] \<longrightarrow> (\<forall>w \<in> set ws. delim \<notin> set w \<and> no_nul w) \<longrightarrow> delim \<noteq> NUL \<longrightarrow>
      split (join_with delim ws) delim = ws)"
proof (intro conjI impI)
  show "join_with delim (split str delim) = c_str str"
    by (simp add: split_def join_split_from)
  show "\<forall>w \<in> set (split str delim). delim \<notin> set w"
    unfolding split_def by (auto dest: split_from_clean[rotated])
next
  assume ws: "ws \<noteq> []" "\<forall>w \<in> set ws. delim \<notin> set w \<and> no_nul w" "delim \<noteq> NUL"
  then have "no_nul (join_with delim ws)"
    using set_join_with[of delim ws] by (fastforce simp: no_nul_def)
  with ws show "split (join_with delim ws) delim = ws"
    by (simp add: split_def split_from_join)
qed

theorem split_inverse_witness:
  "split (join_with (CHR '','') [''ab'', '''', ''c'']) (CHR '','') = [''ab'', '''', ''c'']"
  using split_inverse[of "CHR '',''" "''x''" "[''ab'', '''', ''c'']"] by simp

section \<open>Trimming\<close>

lemma trimL_eq: "trimL str chars = dropWhile (\<lambda>c. c \<in> set chars) str"
proof (cases "find_first_not_of str chars")
  case None
  then have "\<forall>c \<in> set str. c \<in> set chars" by (simp add: strops find_none)
  then have "dropWhile (\<lambda>c. c \<in> set chars) str = []" by simp
  from this[symmetric] show ?thesis by (simp only: trimL_def None option.case)
next
  case (Some i)
  then show ?thesis using find_idx_drop[of "\<lambda>c. c \<notin> set chars" str i]
    by (simp add: trimL_def strops)
qed

lemma trimR_eq: "trimR str chars = rev (dropWhile (\<lambda>c. c \<in> set chars) (rev str))"
proof (cases "find_last_not_of str chars")
  case None
  moreover from None have "\<forall>c \<in> set str. c \<in> set chars" by (simp add: strops find_none)
  ultimately show ?thesis by (simp add: trimR_def substr_def)
next
  case (Some i)
  then show ?thesis using find_last_idx_take[of "\<lambda>c. c \<notin> set chars" str i]
    by (simp add: trimR_def strops)
qed

lemma drop_length_takeWhile:
  "drop (length (takeWhile P xs)) xs = dropWhile P xs"
  by (metis append_eq_conv_conj takeWhile_dropWhile_id)

lemma trim_trimL_trimR: "trim str chars = trimL (trimR str chars) chars"
proof (cases "find_first_not_of str chars")
  case None
  then have all: "\<forall>c \<in> set str. c \<in> set chars" by (simp add: strops find_none)
  then have "trimR str chars = []" by (simp add: trimR_eq)
  with None show ?thesis by (simp add: trim_def trimL_eq)
next
  case (Some i)
  let ?in = "\<lambda>c. c \<in> set chars"
  from Some have i: "i < length str" "str ! i \<notin> set chars" "\<forall>j < i. str ! j \<in> set chars"
    by (auto simp: strops find_idx_Some)
  then obtain j where j: "find_last_not_of str chars = Some j"
    by (cases "find_last_not_of str chars") (auto simp: strops find_none)
  have le: "i \<le> j"
  proof (rule ccontr)
    assume "\<not> i \<le> j"
    then have "drop (Suc j) str ! (i - Suc j) = str ! i" "i - Suc j < length (drop (Suc j) str)"
      using i(1) by auto
    then have "str ! i \<in> set (drop (Suc j) str)"
      using nth_mem by metis
    then show False
      using j i(2) find_last_idx_Some_decomp(3)[of "\<lambda>c. c \<notin> set chars" str j] by (auto simp: strops)
  qed
  have R: "trimR str chars = take (Suc j) str"
    using j by (simp add: trimR_def strops)
  have "find_first_not_of (take (Suc j) str) chars = Some i"
    using i le by (auto simp: strops find_idx_Some)
  then show ?thesis
    using Some j le by (simp add: trim_def trimL_def R substr_def substr_from_def drop_take Suc_diff_le)
qed

lemma trim_decomp:
  "\<exists>l r. str = l @ trim str chars @ r \<and> set l \<subseteq> set chars \<and> set r \<subseteq> set chars"
proof -
  let ?in = "\<lambda>c. c \<in> set chars"
  have "rev (rev str) = rev (dropWhile ?in (rev str)) @ rev (takeWhile ?in (rev str))"
    by (simp flip: rev_append)
  then have "str = trimR str chars @ rev (takeWhile ?in (rev str))"
    by (simp add: trimR_eq)
  moreover have "trimR str chars = takeWhile ?in (trimR str chars) @ trim str chars"
    by (simp add: trim_trimL_trimR trimL_eq)
  ultimately have "str = takeWhile ?in (trimR str chars) @ trim str chars
                          @ rev (takeWhile ?in (rev str))"
    by (metis append.assoc)
  moreover have "set (takeWhile ?in (trimR str chars)) \<subseteq> set chars"
    "set (rev (takeWhile ?in (rev str))) \<subseteq> set chars"
    by (auto dest: set_takeWhileD)
  ultimately show ?thesis by blast
qed

lemma trim_empty: "trim str chars = [] \<longleftrightarrow> set str \<subseteq> set chars"
proof
  assume "trim str chars = []"
  then show "set str \<subseteq> set chars" using trim_decomp[of str chars] by auto
next
  assume "set str \<subseteq> set chars"
  then have "\<forall>c \<in> set str. c \<in> set chars" by auto
  then show "trim str chars = []"
    by (auto simp: trim_trimL_trimR trimL_eq trimR_eq dest: set_dropWhileD)
qed

lemma dropWhile_hd: "dropWhile P xs \<noteq> [] \<Longrightarrow> \<not> P (hd (dropWhile P xs))"
  by (induction xs) auto

lemma trim_ends:
  assumes "trim str chars \<noteq> []"
  shows "hd (trim str chars) \<notin> set chars" "last (trim str chars) \<notin> set chars"
proof -
  let ?in = "\<lambda>c. c \<in> set chars" and ?r = "trimR str chars"
  have t: "trim str chars = dropWhile ?in ?r" by (simp add: trim_trimL_trimR trimL_eq)
  show "hd (trim str chars) \<notin> set chars"
    using assms dropWhile_hd[of ?in ?r] by (simp add: t)
  have split: "?r = takeWhile ?in ?r @ trim str chars"
    by (simp add: t)
  have "last (trim str chars) = last ?r"
    using assms split by (metis last_appendR)
  moreover have "?r \<noteq> []" using assms split by auto
  moreover have "last ?r = hd (dropWhile ?in (rev str))"
    using \<open>?r \<noteq> []\<close> by (simp add: trimR_eq last_rev)
  moreover have "dropWhile ?in (rev str) \<noteq> []"
    using \<open>?r \<noteq> []\<close> by (simp add: trimR_eq)
  ultimately show "last (trim str chars) \<notin> set chars"
    using dropWhile_hd[of ?in "rev str"] by simp
qed

lemma trim_id:
  assumes "str = [] \<or> hd str \<notin> set chars \<and> last str \<notin> set chars"
  shows "trim str chars = str"
proof (cases "str = []")
  case False
  then have "trimR str chars = str"
    using assms by (cases str rule: rev_cases) (auto simp: trimR_eq)
  then show ?thesis
    using assms False by (cases str) (auto simp: trim_trimL_trimR trimL_eq)
qed (simp add: trim_trimL_trimR trimR_eq trimL_eq)

text \<open>
  \<open>trim\<close>, \<open>trimL\<close> and \<open>trimR\<close> cut exactly the leading and trailing runs of the given
  characters: the text splits into a run, the trimmed text and a run; the trimmed text neither
  starts nor ends with one of the characters and is empty only when nothing else was there;
  \<open>trim\<close> is \<open>trimL\<close> after \<open>trimR\<close>, and trimming twice is trimming once.
\<close>

theorem trim_spec:
  "(\<exists>l r. str = l @ trim str chars @ r \<and> set l \<subseteq> set chars \<and> set r \<subseteq> set chars) \<and>
   (trim str chars = [] \<longleftrightarrow> set str \<subseteq> set chars) \<and>
   (trim str chars \<noteq> [] \<longrightarrow>
      hd (trim str chars) \<notin> set chars \<and> last (trim str chars) \<notin> set chars) \<and>
   trim str chars = trimL (trimR str chars) chars \<and>
   trim (trim str chars) chars = trim str chars"
proof (intro conjI impI)
  show "trim (trim str chars) chars = trim str chars"
    by (rule trim_id) (use trim_ends in blast)
qed (use trim_decomp in \<open>simp_all add: trim_empty trim_ends trim_trimL_trimR[symmetric]\<close>)

theorem trim_spec_witness:
  "trim '' a b '' SPACE_CHARS = ''a b'' \<and> hd (trim '' a b '' SPACE_CHARS) \<notin> set SPACE_CHARS"
proof -
  have t: "trim '' a b '' SPACE_CHARS = ''a b''" by code_simp
  show ?thesis
    using trim_spec[of "'' a b ''" SPACE_CHARS, THEN conjunct2, THEN conjunct2, THEN conjunct1]
    by (simp add: t)
qed

section \<open>splitKV\<close>

lemma splitKV_loop_key:
  assumes "kv_st st = s_key" "kv_kv \<notin> set w" "k_v \<notin> set w"
  shows "splitKV_loop s kv_kv k_v p (w @ cs) st =
         splitKV_loop s kv_kv k_v (p + length w) cs (st\<lparr>key_len := key_len st + length w\<rparr>)"
  using assms by (induction w arbitrary: p st) (auto simp: kv_step_def)

lemma splitKV_loop_value:
  assumes "kv_st st = s_value" "kv_kv \<notin> set w" "k_v \<notin> set w"
  shows "splitKV_loop s kv_kv k_v p (w @ cs) st =
         splitKV_loop s kv_kv k_v (p + length w) cs (st\<lparr>value_len := value_len st + length w\<rparr>)"
  using assms by (induction w arbitrary: p st) (auto simp: kv_step_def)

definition kv_start :: "nat \<Rightarrow> nat option \<Rightarrow> keyval \<Rightarrow> kv_scan" where
  "kv_start p v m = \<lparr>kv_st = s_key, kv_key = p, kv_val = v, key_len = 0, value_len = 0, kv_kvs = m\<rparr>"

lemma splitKV_loop_pair:
  assumes s: "s = pre @ k @ k_v # v @ cs" and p: "p = length pre" and sep: "kv_kv \<noteq> k_v"
    and k: "k \<noteq> []" "kv_kv \<notin> set k" "k_v \<notin> set k"
    and v: "v \<noteq> []" "kv_kv \<notin> set v" "k_v \<notin> set v"
  shows "splitKV_loop s kv_kv k_v p (k @ k_v # v @ cs) (kv_start p v0 m) =
         splitKV_loop s kv_kv k_v (p + length k + 1 + length v) cs
           \<lparr>kv_st = s_value, kv_key = p, kv_val = Some (p + length k + 1),
            key_len = length k, value_len = length v, kv_kvs = m\<rparr>"
  using assms by (simp add: splitKV_loop_key splitKV_loop_value kv_start_def kv_step_def)

lemma kv_flush_pair:
  assumes "s = pre @ k @ k_v # v @ cs" "k \<noteq> []" "v \<noteq> []"
  shows "kv_flush s \<lparr>kv_st = st, kv_key = length pre, kv_val = Some (length pre + length k + 1),
            key_len = length k, value_len = length v, kv_kvs = m\<rparr> =
         Some \<lparr>kv_st = st, kv_key = length pre, kv_val = Some (length pre + length k + 1),
            key_len = 0, value_len = 0, kv_kvs = kv_put k v m\<rparr>"
  using assms by (simp add: kv_flush_def read_span_in)

definition kv_text :: "char \<Rightarrow> string \<times> string \<Rightarrow> string" where
  "kv_text k_v p = fst p @ k_v # snd p"

definition kv_pair_ok :: "char \<Rightarrow> char \<Rightarrow> string \<times> string \<Rightarrow> bool" where
  "kv_pair_ok kv_kv k_v p \<longleftrightarrow>
     fst p \<noteq> [] \<and> snd p \<noteq> [] \<and> (\<forall>c \<in> set (fst p @ snd p). c \<noteq> kv_kv \<and> c \<noteq> k_v \<and> c \<noteq> NUL)"

lemma splitKV_loop_pairs:
  assumes "ps \<noteq> []" "\<forall>p \<in> set ps. kv_pair_ok kv_kv k_v p" "kv_kv \<noteq> k_v"
    and "s = pre @ join_with kv_kv (map (kv_text k_v) ps)"
  shows "map_option kv_kvs (splitKV_loop s kv_kv k_v (length pre)
            (join_with kv_kv (map (kv_text k_v) ps)) (kv_start (length pre) v0 m)) =
         Some (fold (\<lambda>(k, v). kv_put k v) ps m)"
  using assms
proof (induction ps arbitrary: pre v0 m)
  case (Cons p ps)
  obtain k v where p: "p = (k, v)" by (cases p)
  have ok: "k \<noteq> []" "kv_kv \<notin> set k" "k_v \<notin> set k" "v \<noteq> []" "kv_kv \<notin> set v" "k_v \<notin> set v"
    using Cons.prems(2) by (auto simp: p kv_pair_ok_def)
  show ?case
  proof (cases "ps = []")
    case True
    then have s: "s = pre @ k @ k_v # v @ []"
      using Cons.prems(4) by (simp add: p kv_text_def)
    then have tx: "join_with kv_kv (map (kv_text k_v) (p # ps)) = k @ k_v # v @ []"
      using True by (simp add: p kv_text_def)
    show ?thesis
      unfolding tx using True ok Cons.prems(3) kv_flush_pair[OF s, of s_value m]
      by (subst splitKV_loop_pair[OF s refl]) (simp_all add: p)
  next
    case False
    let ?rest = "join_with kv_kv (map (kv_text k_v) ps)"
    have tx: "join_with kv_kv (map (kv_text k_v) (p # ps)) = k @ k_v # v @ kv_kv # ?rest"
      using False by (simp add: p kv_text_def join_with_Cons)
    have s: "s = pre @ k @ k_v # v @ kv_kv # ?rest"
      using Cons.prems(4) tx by simp
    have s': "s = (pre @ k @ k_v # v @ [kv_kv]) @ ?rest" by (simp add: s)
    have len: "length pre + length k + 1 + length v + 1 = length (pre @ k @ k_v # v @ [kv_kv])"
      by simp
    have "splitKV_loop s kv_kv k_v (length pre) (k @ k_v # v @ kv_kv # ?rest) (kv_start (length pre) v0 m) =
          splitKV_loop s kv_kv k_v (length (pre @ k @ k_v # v @ [kv_kv])) ?rest
            (kv_start (length (pre @ k @ k_v # v @ [kv_kv])) (Some (length pre + length k + 1)) (kv_put k v m))"
      using ok Cons.prems(3) kv_flush_pair[OF s, of s_value m]
      by (subst splitKV_loop_pair[OF s refl])
        (simp_all add: kv_step_def kv_start_def add.assoc)
    then show ?thesis
      unfolding tx
      using Cons.IH[OF False _ Cons.prems(3) s', of "Some (length pre + length k + 1)" "kv_put k v m"]
        Cons.prems(2) by (simp add: p)
  qed
qed simp

text \<open>
  C29.  \<open>splitKV\<close> reads back any non-empty list of pairs written with the two separators, as
  long as every key and value is non-empty and holds neither separator: the result is the map
  that inserting the pairs in order gives, and no span leaves the string.
\<close>

theorem splitKV_roundtrip:
  assumes "ps \<noteq> []" "\<forall>p \<in> set ps. kv_pair_ok kv_kv k_v p"
    and "kv_kv \<noteq> k_v" "kv_kv \<noteq> NUL" "k_v \<noteq> NUL"
  shows "splitKV (join_with kv_kv (map (kv_text k_v) ps)) kv_kv k_v =
         Some (fold (\<lambda>(k, v). kv_put k v) ps [])"
proof -
  let ?s = "join_with kv_kv (map (kv_text k_v) ps)"
  have "NUL \<notin> set ?s"
    using set_join_with[of kv_kv "map (kv_text k_v) ps"] assms
    by (fastforce simp: kv_text_def kv_pair_ok_def)
  then have "c_str ?s = ?s" by (simp add: no_nul_def)
  then show ?thesis
    using splitKV_loop_pairs[OF assms(1-3), of ?s "[]" None "[]"]
    by (simp add: splitKV_def kv_start_def)
qed

theorem splitKV_roundtrip_witness:
  "splitKV (join_with (CHR ''&'') (map (kv_text (CHR ''='')) [(''user'', ''admin''), (''pswd'', ''123'')]))
     (CHR ''&'') (CHR ''='') = Some [(''pswd'', ''123''), (''user'', ''admin'')]"
  by (subst splitKV_roundtrip) (simp_all add: kv_pair_ok_def str_lt_def)

text \<open>
  A segment without a value is not dropped: its key length stays and is added to the next
  segment's, so \<open>a&b=1\<close> yields the key \<open>b=\<close> rather than \<open>b\<close>.  A second \<open>=\<close> in a segment moves
  the value's start but keeps its length, so \<open>a=b=c\<close> takes the terminator into the value and
  \<open>a=bb=c\<close> reads past the end of the string.
\<close>

theorem splitKV_malformed:
  "splitKV ''a&b=1'' (CHR ''&'') (CHR ''='') = Some [(''b='', ''1'')] \<and>
   splitKV ''a=b=c'' (CHR ''&'') (CHR ''='') = Some [(''a'', ''c'' @ [NUL])] \<and>
   splitKV ''a=bb=c'' (CHR ''&'') (CHR ''='') = None"
  by (simp add: splitKV_def c_str_def kv_step_def kv_flush_def read_span_def)

section \<open>replace\<close>

text \<open>Left to right, without overlap: what \<open>replace\<close> should compute.\<close>

function subst_all :: "string \<Rightarrow> string \<Rightarrow> string \<Rightarrow> string" where
  "subst_all f rep s =
     (if f = [] \<or> s = [] then s
      else if take (length f) s = f then rep @ subst_all f rep (drop (length f) s)
      else hd s # subst_all f rep (tl s))"
  by pat_completeness auto
termination
  by (relation "measure (\<lambda>(f, rep, s). length s)") (auto simp: neq_Nil_conv)

declare subst_all.simps [simp del]

lemma find_sub_None: "f \<noteq> [] \<Longrightarrow> find_sub f s = None \<Longrightarrow> subst_all f rep s = s"
proof (induction s)
  case (Cons x s)
  then show ?case by (auto simp: subst_all.simps[of f rep "x # s"] split: if_splits)
qed (simp add: subst_all.simps)

lemma find_sub_Some:
  "f \<noteq> [] \<Longrightarrow> find_sub f s = Some i \<Longrightarrow>
     i + length f \<le> length s \<and>
     subst_all f rep s = take i s @ rep @ subst_all f rep (drop (i + length f) s)"
proof (induction s arbitrary: i)
  case (Cons x s)
  show ?case
  proof (cases "take (length f) (x # s) = f")
    case True
    then have "length f \<le> length (x # s)" by (metis length_take min.cobounded1)
    with True Cons.prems show ?thesis by (auto simp: subst_all.simps[of f rep "x # s"])
  next
    case False
    with Cons.prems obtain j where "find_sub f s = Some j" "i = Suc j" by auto
    with Cons.IH[of j] Cons.prems False show ?thesis
      by (simp add: subst_all.simps[of f rep "x # s"])
  qed
qed simp

lemma replace_loop_subst:
  "f \<noteq> [] \<Longrightarrow> replace_loop f rep (pre @ s) (length pre) = Some (pre @ subst_all f rep s)"
proof (induction "length s" arbitrary: pre s rule: less_induct)
  case less
  show ?case
  proof (cases "find_sub f s")
    case None
    with less.prems show ?thesis
      by (simp add: replace_loop.simps[of f rep "pre @ s"] find_str_def find_sub_None)
  next
    case (Some i)
    note i = find_sub_Some[OF less.prems Some, of rep]
    have "length (drop (i + length f) s) < length s"
      using i less.prems by (cases s) auto
    from less.hyps[OF this less.prems, of "pre @ take i s @ rep"]
    show ?thesis
      using Some i by (simp add: replace_loop.simps[of f rep "pre @ s"] find_str_def add.assoc)
  qed
qed

lemma replace_loop_empty:
  assumes "replace_loop f rep res pos = Some r"
  shows "f = [] \<longrightarrow> \<not> pos \<le> length res"
proof (rule replace_loop.raw_induct[where P = "\<lambda>f rep res pos r. f = [] \<longrightarrow> \<not> pos \<le> length res",
         OF _ assms])
  fix g f rep res pos r
  assume IH: "\<And>f rep res pos r. g f rep res pos = Some r \<Longrightarrow> f = [] \<longrightarrow> \<not> pos \<le> length res"
    and eq: "(case find_str res f pos of None \<Rightarrow> Some res
      | Some p \<Rightarrow> g f rep (take p res @ rep @ drop (p + length f) res) (p + length rep)) = Some r"
  show "f = [] \<longrightarrow> \<not> pos \<le> length res"
  proof
    assume f: "f = []"
    have "find_sub [] (drop pos res) = Some 0" by (cases "drop pos res") auto
    with eq f IH[of f rep "take pos res @ rep @ drop pos res" "pos + length rep" r]
    show "\<not> pos \<le> length res" by (auto simp: find_str_def)
  qed
qed

text \<open>
  C33.  \<open>replace\<close> returns exactly when the text to find is not empty, and then with every
  non-overlapping occurrence replaced, left to right; with an empty text to find the loop never
  ends, whatever the other arguments.
\<close>

theorem replace_spec:
  "replace str f rep = (if f = [] then None else Some (subst_all f rep str))"
proof (cases "f = []")
  case True
  then show ?thesis
    using replace_loop_empty[of f rep str 0] by (cases "replace str f rep") (auto simp: replace_def)
next
  case False
  then show ?thesis using replace_loop_subst[of f rep "[]" str] by (simp add: replace_def)
qed

section \<open>Path names\<close>

lemma take_upto_last:
  assumes "find_last_idx P xs = Some i"
  shows "find_last_idx Q (take (i + 1) xs) =
         (if Q (xs ! i) then Some i else find_last_idx Q (take i xs))"
  using find_last_idx_snoc[of Q "take i xs" "xs ! i"] find_last_idx_less[OF assms]
  by (simp add: take_Suc_conv_app_nth)

text \<open>
  \<open>basename\<close> and \<open>dirname\<close> take a path apart at its last separator: whenever the path holds
  anything but separators it is a directory part (empty, or ending in a separator), the non-empty
  separator-free base name, and trailing separators; \<open>dirname\<close> is the directory part without
  that separator (\<open>.\<close> when there is none, the separator itself when it is all there is).
\<close>

theorem basename_dirname_parts:
  assumes "\<not> set str \<subseteq> set path_seps"
  shows "\<exists>dir seps. str = dir @ basename str @ seps \<and> set seps \<subseteq> set path_seps \<and>
     basename str \<noteq> [] \<and> set (basename str) \<inter> set path_seps = {} \<and>
     (dir = [] \<or> last dir \<in> set path_seps) \<and>
     dirname str = (if dir = [] then ''.'' else if length dir = 1 then dir else butlast dir)"
proof -
  let ?sep = "\<lambda>c. c \<in> set path_seps"
  obtain p1 where p1: "find_last_idx (\<lambda>c. \<not> ?sep c) str = Some p1"
    using assms by (cases "find_last_idx (\<lambda>c. \<not> ?sep c) str") (auto simp: find_none)
  then obtain a x seps where d: "str = a @ x # seps" "length a = p1" "\<not> ?sep x" "\<forall>c \<in> set seps. ?sep c"
    by (elim find_last_idx_SomeE) auto
  have upto: "find_last_of_upto str path_seps p1 = find_last_idx ?sep a"
    using d take_upto_last[OF p1, of ?sep] by (simp add: strops nth_append)
  show ?thesis
  proof (cases "find_last_idx ?sep a")
    case None
    then have "\<forall>c \<in> set a. \<not> ?sep c" by (simp add: find_none)
    then show ?thesis
      using d None p1 upto
      by (intro exI[of _ "[]"] exI[of _ seps])
        (auto simp: basename_def dirname_def find_last_not_of_def substr_def)
  next
    case (Some p2)
    then obtain b s c where e: "a = b @ s # c" "length b = p2" "?sep s" "\<forall>y \<in> set c. \<not> ?sep y"
      by (elim find_last_idx_SomeE) auto
    have "basename str = c @ [x]"
      using d e Some p1 upto by (simp add: basename_def find_last_not_of_def substr_def)
    moreover have "dirname str = (if length (b @ [s]) = 1 then b @ [s] else butlast (b @ [s]))"
      using d e Some p1 upto by (simp add: dirname_def find_last_not_of_def substr_def)
    ultimately show ?thesis
      using d e by (intro exI[of _ "b @ [s]"] exI[of _ seps]) auto
  qed
qed

theorem basename_dirname_parts_witness:
  "\<not> set ''/mnt/share/'' \<subseteq> set path_seps \<and> basename ''/mnt/share/'' = ''share'' \<and>
   dirname ''/mnt/share/'' = ''/mnt'' \<and>
   (\<exists>dir seps. ''/mnt/share/'' = dir @ basename ''/mnt/share/'' @ seps)"
proof (intro conjI)
  show h: "\<not> set ''/mnt/share/'' \<subseteq> set path_seps" by (simp add: path_seps_def)
  show "basename ''/mnt/share/'' = ''share''" "dirname ''/mnt/share/'' = ''/mnt''" by code_simp+
  show "\<exists>dir seps. ''/mnt/share/'' = dir @ basename ''/mnt/share/'' @ seps"
    using basename_dirname_parts[OF h] by blast
qed

text \<open>
  \<open>filename\<close> and \<open>suffixname\<close> split the last component (the text after the last
  separator) at its last dot: with a dot the component is the file name, the dot and a suffix
  without dots; without one it is the file name and the suffix is empty.
\<close>

theorem filename_suffixname_parts:
  "\<exists>dir. str = dir @ last_component str \<and> (dir = [] \<or> last dir \<in> set path_seps) \<and>
     set (last_component str) \<inter> set path_seps = {} \<and>
     (if CHR ''.'' \<in> set (last_component str)
      then last_component str = filename str @ ''.'' @ suffixname str \<and> CHR ''.'' \<notin> set (suffixname str)
      else filename str = last_component str \<and> suffixname str = [])"
proof -
  let ?sep = "\<lambda>c. c \<in> set path_seps" and ?dot = "\<lambda>c. c \<in> set ''.''"
  have A: "\<exists>dir. str = dir @ last_component str \<and> (dir = [] \<or> last dir \<in> set path_seps) \<and>
     set (last_component str) \<inter> set path_seps = {}"
  proof (cases "find_last_idx ?sep str")
    case None
    then have "\<forall>c \<in> set str. \<not> ?sep c" by (simp add: find_none)
    with None show ?thesis by (auto simp: last_component_def find_last_of_def substr_from_def)
  next
    case (Some p)
    then obtain a x b where "str = a @ x # b" "length a = p" "?sep x" "\<forall>c \<in> set b. \<not> ?sep c"
      by (elim find_last_idx_SomeE)
    then show ?thesis
      using Some by (intro exI[of _ "a @ [x]"])
        (auto simp: last_component_def find_last_of_def substr_from_def)
  qed
  have B: "if CHR ''.'' \<in> set (last_component str)
      then last_component str = filename str @ ''.'' @ suffixname str \<and> CHR ''.'' \<notin> set (suffixname str)
      else filename str = last_component str \<and> suffixname str = []"
  proof (cases "find_last_idx ?dot (last_component str)")
    case None
    then have "CHR ''.'' \<notin> set (last_component str)" by (auto simp: find_none)
    with None show ?thesis
      by (simp add: filename_def suffixname_def find_last_of_def Let_def)
  next
    case (Some p)
    then obtain a x b where d: "last_component str = a @ x # b" "length a = p" "x = CHR ''.''"
      "\<forall>c \<in> set b. c \<noteq> CHR ''.''"
      by (elim find_last_idx_SomeE) auto
    then have "find_last_of (last_component str) ''.'' = Some p"
      using Some by (simp add: find_last_of_def)
    then show ?thesis
      using d by (auto simp: filename_def suffixname_def substr_def substr_from_def Let_def)
  qed
  from A B show ?thesis by blast
qed

end
