(* ===== verification/HBase.thy ===== *)
theory HBase
  imports HString "HOL-Library.Sublist"
begin

unbundle bit_operations_syntax

text \<open>
  \<open>base/hbase.c\<close>: the string helpers, \<open>getboolean\<close>, and the directory walks \<open>hv_mkdir_p\<close>
  and \<open>hv_rmdir_p\<close>.  A \<open>char*\<close> argument is the C string it points to; \<open>size_t\<close> is a 64-bit
  word, so that \<open>--n\<close> wraps as it does in the code.  The system calls of the walks are
  parameters over an abstract file-system state.
\<close>

section \<open>In-place conversions\<close>

definition strupper :: "string \<Rightarrow> string" where
  "strupper str =
     map (\<lambda>c. if CHR ''a'' \<le> c \<and> c \<le> CHR ''z''
              then char_of (unat ((of_nat (of_char c) :: 8 word) AND NOT 0x20)) else c) (c_str str)"

definition strlower :: "string \<Rightarrow> string" where
  "strlower str =
     map (\<lambda>c. if CHR ''A'' \<le> c \<and> c \<le> CHR ''Z''
              then char_of (unat ((of_nat (of_char c) :: 8 word) OR 0x20)) else c) (c_str str)"

text \<open>The two-pointer loop of \<open>strreverse\<close>: \<open>b\<close> and \<open>e\<close> are offsets into the string.\<close>

function strreverse_loop :: "string \<Rightarrow> nat \<Rightarrow> nat \<Rightarrow> string" where
  "strreverse_loop s b e =
     (if b < e then strreverse_loop (s[e := s ! b, b := s ! e]) (b + 1) (e - 1) else s)"
  by pat_completeness auto
termination
  by (relation "measure (\<lambda>(s, b, e). e - b)") auto

declare strreverse_loop.simps [simp del]

definition strreverse :: "string \<Rightarrow> string" where
  "strreverse str = strreverse_loop (c_str str) 0 (length (c_str str) - 1)"

section \<open>Bounded copies\<close>

text \<open>The characters written before the terminator by \<open>while (*src != 0 && --n > 0)\<close>.\<close>

fun strn_loop :: "string \<Rightarrow> 64 word \<Rightarrow> string" where
  "strn_loop [] n = []"
| "strn_loop (c # src) n = (if n - 1 > 0 then c # strn_loop src (n - 1) else [])"

definition safe_strncpy :: "string \<Rightarrow> 64 word \<Rightarrow> string" where
  "safe_strncpy src n = strn_loop (c_str src) n"

text \<open>The contents of \<open>dest\<close> after the call; \<open>n\<close> loses one per character already there.\<close>

definition safe_strncat :: "string \<Rightarrow> string \<Rightarrow> 64 word \<Rightarrow> string" where
  "safe_strncat dest src n = c_str dest @ strn_loop (c_str src) (n - of_nat (length (c_str dest)))"

section \<open>Comparisons\<close>

fun startswith_loop :: "string \<Rightarrow> string \<Rightarrow> bool" where
  "startswith_loop (a # str) (b # start) = (if a = b then startswith_loop str start else False)"
| "startswith_loop str start = (start = [])"

definition strstartswith :: "string \<Rightarrow> string \<Rightarrow> bool" where
  "strstartswith str start = startswith_loop (c_str str) (c_str start)"

text \<open>\<open>strendswith\<close> compares backwards from both terminators, \<open>len2\<close> characters.\<close>

fun endswith_loop :: "string \<Rightarrow> string \<Rightarrow> nat \<Rightarrow> nat \<Rightarrow> nat \<Rightarrow> bool" where
  "endswith_loop s t i j 0 = True"
| "endswith_loop s t i j (Suc len2) =
     (if s ! (i - 1) \<noteq> t ! (j - 1) then False else endswith_loop s t (i - 1) (j - 1) len2)"

definition strendswith :: "string \<Rightarrow> string \<Rightarrow> bool" where
  "strendswith str t =
     (let s = c_str str; e = c_str t
      in if length s < length e then False else endswith_loop s e (length s) (length e) (length e))"

definition strcontains :: "string \<Rightarrow> string \<Rightarrow> bool" where
  "strcontains str sub \<longleftrightarrow> find_sub (c_str sub) (c_str str) \<noteq> None"

section \<open>File names and booleans\<close>

text \<open>\<open>strrchr_dir\<close> returns an offset into the path, or null.\<close>

definition strrchr_dir :: "string \<Rightarrow> nat option" where
  "strrchr_dir filepath = find_last_idx (\<lambda>c. c = CHR ''/'') (c_str filepath)"

definition hv_basename :: "string \<Rightarrow> string" where
  "hv_basename filepath =
     (case strrchr_dir filepath of None \<Rightarrow> c_str filepath | Some pos \<Rightarrow> drop (pos + 1) (c_str filepath))"

definition strrchr_dot :: "string \<Rightarrow> nat option" where
  "strrchr_dot s = find_last_idx (\<lambda>c. c = CHR ''.'') (c_str s)"

definition hv_suffixname :: "string \<Rightarrow> string" where
  "hv_suffixname fname =
     (case strrchr_dot fname of None \<Rightarrow> [] | Some pos \<Rightarrow> drop (pos + 1) (c_str fname))"

definition stricmp_eq :: "string \<Rightarrow> string \<Rightarrow> bool" where
  "stricmp_eq a b \<longleftrightarrow> strcasekey a = strcasekey b"

definition getboolean :: "string option \<Rightarrow> bool" where
  "getboolean str =
     (case str of
        None \<Rightarrow> False
      | Some s0 \<Rightarrow>
          (let s = c_str s0; len = length s
           in if len = 0 then False
              else if len = 1 then hd s = CHR ''1'' \<or> hd s = CHR ''y'' \<or> hd s = CHR ''Y''
              else if len = 2 then stricmp_eq s ''on''
              else if len = 3 then stricmp_eq s ''yes''
              else if len = 4 then stricmp_eq s ''true''
              else if len = 6 then stricmp_eq s ''enable''
              else False))"

section \<open>Directory walks\<close>

definition MAX_PATH :: nat where "MAX_PATH = 260"

text \<open>
  The loop of \<open>hv_mkdir_p\<close>: \<open>pre\<close> is what \<open>p\<close> has passed.  At every slash the text before it
  is made a directory; the results of these calls are ignored.
\<close>

fun mkdir_loop :: "(string \<Rightarrow> 'fs \<Rightarrow> bool \<times> 'fs) \<Rightarrow> string \<Rightarrow> string \<Rightarrow> 'fs \<Rightarrow> 'fs" where
  "mkdir_loop mkdir pre [] fs = fs"
| "mkdir_loop mkdir pre (c # p) fs =
     mkdir_loop mkdir (pre @ [c]) p (if c = CHR ''/'' then snd (mkdir pre fs) else fs)"

datatype errno = EOK | EEXIST | EPERM | ENOENT

definition hv_mkdir_p ::
    "(string \<Rightarrow> 'fs \<Rightarrow> bool) \<Rightarrow> (string \<Rightarrow> 'fs \<Rightarrow> bool \<times> 'fs) \<Rightarrow> string \<Rightarrow> 'fs \<Rightarrow> errno \<times> 'fs" where
  "hv_mkdir_p access mkdir dir fs =
     (if access (c_str dir) fs then (EEXIST, fs)
      else
        let tmp = safe_strncpy dir (of_nat MAX_PATH);
            fs1 = mkdir_loop mkdir [] tmp fs;
            (ok, fs2) = mkdir tmp fs1
        in (if ok then EOK else EPERM, fs2))"

text \<open>
  The loop of \<open>hv_rmdir_p\<close>: \<open>rs\<close> is the text before \<open>p\<close>, reversed; at every slash the text
  before it is removed, until a removal fails.
\<close>

fun rmdir_loop :: "(string \<Rightarrow> 'fs \<Rightarrow> bool \<times> 'fs) \<Rightarrow> string \<Rightarrow> 'fs \<Rightarrow> 'fs" where
  "rmdir_loop rmdir [] fs = fs"
| "rmdir_loop rmdir (c # rs) fs =
     (if c = CHR ''/'' then
        (let (ok, fs1) = rmdir (rev rs) fs in if ok then rmdir_loop rmdir rs fs1 else fs1)
      else rmdir_loop rmdir rs fs)"

definition hv_rmdir_p ::
    "(string \<Rightarrow> 'fs \<Rightarrow> bool) \<Rightarrow> (string \<Rightarrow> 'fs \<Rightarrow> bool \<times> 'fs) \<Rightarrow> string \<Rightarrow> 'fs \<Rightarrow> errno \<times> 'fs" where
  "hv_rmdir_p access rmdir dir fs =
     (if \<not> access (c_str dir) fs then (ENOENT, fs)
      else
        let (ok, fs1) = rmdir (c_str dir) fs
        in if \<not> ok then (EPERM, fs1)
           else (EOK, rmdir_loop rmdir (rev (safe_strncpy dir (of_nat MAX_PATH))) fs1))"

section \<open>Bounded copies stay in their buffers\<close>

lemma strn_loop_take: "0 < n \<Longrightarrow> strn_loop src n = take (unat n - 1) src"
proof (induction src arbitrary: n)
  case (Cons c src)
  then have n: "1 \<le> unat n" by (simp add: word_less_nat_alt)
  then have d: "unat (n - 1) = unat n - 1" by (simp add: unat_sub word_le_nat_alt)
  show ?case
  proof (cases "n - 1 > 0")
    case True
    with d have "unat n - 1 = Suc (unat n - 2)" by (simp add: word_less_nat_alt)
    with True Cons.IH[OF True] d show ?thesis by (simp add: numeral_2_eq_2)
  next
    case False
    with d have "unat n - 1 = 0" by (simp add: word_less_nat_alt)
    with False show ?thesis by simp
  qed
qed simp

text \<open>
  With a buffer of \<open>n > 0\<close> bytes \<open>safe_strncpy\<close> stores the first \<open>n - 1\<close> characters of the
  source, and \<open>safe_strncat\<close>, when the text already in the buffer leaves room for its
  terminator, the first \<open>n - 1\<close> characters of the concatenation: with the terminator neither
  writes more than \<open>n\<close> bytes.
\<close>

theorem safe_copies_bounded:
  assumes "length (c_str dest) < unat n"
  shows "safe_strncpy src n = take (unat n - 1) (c_str src) \<and>
         safe_strncat dest src n = take (unat n - 1) (c_str dest @ c_str src) \<and>
         length (safe_strncpy src n) + 1 \<le> unat n \<and> length (safe_strncat dest src n) + 1 \<le> unat n"
proof -
  let ?k = "length (c_str dest)"
  have n: "0 < n" using assms by (simp add: word_less_nat_alt)
  have k: "unat (of_nat ?k :: 64 word) = ?k"
    using assms by (metis le_unat_uoi nless_le)
  then have d: "unat (n - of_nat ?k) = unat n - ?k"
    using assms by (simp add: unat_sub word_le_nat_alt)
  then have "0 < n - of_nat ?k" using assms by (simp add: word_less_nat_alt)
  then have cat: "safe_strncat dest src n = take (unat n - 1) (c_str dest @ c_str src)"
    using assms d by (simp add: safe_strncat_def strn_loop_take)
  have cpy: "safe_strncpy src n = take (unat n - 1) (c_str src)"
    by (simp add: safe_strncpy_def strn_loop_take[OF n])
  show ?thesis using assms cat cpy by auto
qed

theorem safe_copies_bounded_witness:
  "safe_strncpy ''abcdef'' 4 = ''abc'' \<and> safe_strncat ''ab'' ''cdef'' 4 = ''abc''"
proof -
  have c: "c_str ''ab'' = ''ab''" "c_str ''abcdef'' = ''abcdef''" "c_str ''cdef'' = ''cdef''"
    by code_simp+
  have "length (c_str ''ab'') < unat (4 :: 64 word)" by (simp add: c)
  from safe_copies_bounded[OF this, of "''abcdef''"] safe_copies_bounded[OF this, of "''cdef''"]
  show ?thesis by (simp add: c)
qed

declare strn_loop.simps [simp del]

section \<open>The hand-written loops compute the standard notions\<close>

lemma strreverse_loop_rev:
  "length pre = length suf \<Longrightarrow>
   strreverse_loop (pre @ m @ suf) (length pre) (length pre + length m - 1) = pre @ rev m @ suf"
proof (induction "length m" arbitrary: pre m suf rule: less_induct)
  case less
  show ?case
  proof (cases "length m \<le> 1")
    case True
    then have "rev m = m" by (cases m) auto
    moreover have "\<not> length pre < length pre + length m - 1" using True by simp
    ultimately show ?thesis by (subst strreverse_loop.simps) simp
  next
    case False
    then obtain x m' y where m: "m = x # m' @ [y]"
      by (metis Suc_leI Suc_lessI append_butlast_last_id length_0_conv length_Suc_conv
          length_greater_0_conv linorder_not_le list.exhaust list.size(3) One_nat_def)
    let ?e = "length pre + length m - 1"
    have e: "?e = length pre + 1 + length m'" by (simp add: m)
    have swap: "(pre @ m @ suf)[?e := (pre @ m @ suf) ! length pre, length pre := (pre @ m @ suf) ! ?e]
       = (pre @ [y]) @ m' @ (x # suf)"
      by (simp add: m e nth_append list_update_append)
    have "strreverse_loop ((pre @ [y]) @ m' @ (x # suf)) (length (pre @ [y]))
            (length (pre @ [y]) + length m' - 1) = (pre @ [y]) @ rev m' @ (x # suf)"
      by (rule less.hyps) (simp_all add: m less.prems)
    then show ?thesis
      using swap e by (subst strreverse_loop.simps) (simp add: m)
  qed
qed

lemma startswith_loop_prefix: "startswith_loop s t = prefix t s"
  by (induction s t rule: startswith_loop.induct) (auto simp: prefix_Cons)

lemma endswith_loop_all:
  "endswith_loop s t i j n = (\<forall>k < n. s ! (i - 1 - k) = t ! (j - 1 - k))"
proof (induction n arbitrary: i j)
  case (Suc n)
  have "(\<forall>k < Suc n. s ! (i - 1 - k) = t ! (j - 1 - k)) \<longleftrightarrow>
        s ! (i - 1) = t ! (j - 1) \<and> (\<forall>k < n. s ! (i - 1 - Suc k) = t ! (j - 1 - Suc k))"
    by (auto simp: less_Suc_eq_0_disj)
  then show ?case by (simp add: Suc.IH)
qed simp

lemma suffix_nth:
  assumes "length t \<le> length s"
  shows "suffix t s \<longleftrightarrow> (\<forall>k < length t. s ! (length s - 1 - k) = t ! (length t - 1 - k))"
proof -
  let ?P = "\<lambda>k. s ! (length s - 1 - k) = t ! (length t - 1 - k)"
  have "suffix t s \<longleftrightarrow> prefix (rev t) (rev s)" by (rule suffix_to_prefix)
  also have "\<dots> \<longleftrightarrow> take (length t) (rev s) = rev t"
    using assms by (metis append_eq_conv_conj length_rev prefix_def take_is_prefix)
  also have "\<dots> \<longleftrightarrow> (\<forall>k < length t. ?P k)"
    using assms by (auto simp: list_eq_iff_nth_eq rev_nth)
  finally show ?thesis .
qed

lemma strendswith_short:
  assumes "length (c_str s) < length (c_str t)"
  shows "\<not> strendswith s t" "\<not> suffix (c_str t) (c_str s)"
  using assms by (auto simp: strendswith_def Let_def dest: suffix_length_le)

lemma strendswith_long:
  assumes le: "length (c_str t) \<le> length (c_str s)"
  shows "strendswith s t \<longleftrightarrow> suffix (c_str t) (c_str s)"
proof -
  have F: "\<not> length (c_str s) < length (c_str t)" using le by simp
  note q = suffix_nth[OF le]
  show ?thesis
    unfolding strendswith_def Let_def endswith_loop_all if_not_P[OF F] by (rule q[symmetric])
qed

lemma strendswith_suffix: "strendswith s t \<longleftrightarrow> suffix (c_str t) (c_str s)"
  using strendswith_short strendswith_long by (meson not_less)

lemma find_sub_sublist: "find_sub t s \<noteq> None \<longleftrightarrow> sublist t s"
proof (induction s)
  case (Cons x s)
  have "take (length t) (x # s) = t \<longleftrightarrow> prefix t (x # s)"
    by (metis append_eq_conv_conj prefix_def take_is_prefix)
  then show ?case using Cons by (auto simp: sublist_Cons_right)
qed auto

text \<open>
  The pointer loops compute the standard notions: \<open>strreverse\<close> reverses, \<open>strstartswith\<close>,
  \<open>strendswith\<close> and \<open>strcontains\<close> decide prefix, suffix and substring, and \<open>hv_basename\<close> returns
  the text after the last slash.
\<close>

theorem string_loops_correct:
  "strreverse s = rev (c_str s) \<and>
   (strstartswith s t \<longleftrightarrow> prefix (c_str t) (c_str s)) \<and>
   (strendswith s t \<longleftrightarrow> suffix (c_str t) (c_str s)) \<and>
   (strcontains s t \<longleftrightarrow> sublist (c_str t) (c_str s)) \<and>
   (\<exists>dir. c_str s = dir @ hv_basename s \<and> (dir = [] \<or> last dir = CHR ''/'') \<and>
      CHR ''/'' \<notin> set (hv_basename s))"
proof (intro conjI)
  show "strreverse s = rev (c_str s)"
    using strreverse_loop_rev[of "[]" "[]" "c_str s"] by (simp add: strreverse_def)
  show "strstartswith s t \<longleftrightarrow> prefix (c_str t) (c_str s)"
    by (simp add: strstartswith_def startswith_loop_prefix)
  show "strendswith s t \<longleftrightarrow> suffix (c_str t) (c_str s)"
    by (rule strendswith_suffix)
  show "strcontains s t \<longleftrightarrow> sublist (c_str t) (c_str s)"
    by (simp add: strcontains_def find_sub_sublist del: not_None_eq)
  show "\<exists>dir. c_str s = dir @ hv_basename s \<and> (dir = [] \<or> last dir = CHR ''/'') \<and>
      CHR ''/'' \<notin> set (hv_basename s)"
  proof (cases "strrchr_dir s")
    case None
    then have "CHR ''/'' \<notin> set (c_str s)" by (auto simp: strrchr_dir_def find_none)
    with None show ?thesis by (simp add: hv_basename_def)
  next
    case (Some p)
    then obtain a x b where "c_str s = a @ x # b" "length a = p" "x = CHR ''/''"
      "\<forall>y \<in> set b. y \<noteq> CHR ''/''"
      unfolding strrchr_dir_def by (rule find_last_idx_SomeE)
    with Some show ?thesis
      by (intro exI[of _ "a @ [x]"]) (auto simp: hv_basename_def)
  qed
qed

lemma strcasekey_length: "length (strcasekey s) = length (c_str s)"
  by (simp add: strcasekey_def)

lemma strcasekey_c_str [simp]: "strcasekey (c_str s) = strcasekey s"
  by (simp add: strcasekey_def)

text \<open>
  \<open>getboolean\<close> accepts exactly \<open>1\<close>, \<open>y\<close>, \<open>Y\<close> and, in any letter case, \<open>on\<close>, \<open>yes\<close>, \<open>true\<close>
  and \<open>enable\<close>.
\<close>

theorem getboolean_spec:
  "getboolean (Some s) \<longleftrightarrow>
     c_str s \<in> {''1'', ''y'', ''Y''} \<or>
     strcasekey s \<in> {''on'', ''yes'', ''true'', ''enable''}"
proof -
  have k: "strcasekey ''on'' = ''on''" "strcasekey ''yes'' = ''yes''" "strcasekey ''true'' = ''true''"
    "strcasekey ''enable'' = ''enable''" by code_simp+
  have one: "length (c_str s) = 1 \<Longrightarrow> c_str s = [hd (c_str s)]" by (cases "c_str s") auto
  show ?thesis
    using one strcasekey_length[of s]
    by (auto simp: getboolean_def Let_def stricmp_eq_def k)
qed

section \<open>Directory walks\<close>

text \<open>
  What \<open>mkdir(2)\<close> is documented to do, on the set of directories that exist: it fails on one
  that exists, and makes one whose parent exists (or is the working directory).
\<close>

definition parent_dir :: "string \<Rightarrow> string option" where
  "parent_dir d = map_option (\<lambda>p. take p d) (find_last_idx (\<lambda>c. c = CHR ''/'') d)"

definition mkdir_documented :: "(string \<Rightarrow> string set \<Rightarrow> bool \<times> string set) \<Rightarrow> bool" where
  "mkdir_documented mkdir \<longleftrightarrow>
     (\<forall>d S. d \<in> S \<longrightarrow> mkdir d S = (False, S)) \<and>
     (\<forall>d S. d \<notin> S \<longrightarrow> d \<noteq> [] \<longrightarrow> (\<forall>p. parent_dir d = Some p \<longrightarrow> p \<in> S) \<longrightarrow>
        mkdir d S = (True, insert d S))"

abbreviation path_of :: "string list \<Rightarrow> string" where
  "path_of \<equiv> join_with (CHR ''/'')"

definition component_ok :: "string \<Rightarrow> bool" where
  "component_ok c \<longleftrightarrow> c \<noteq> [] \<and> CHR ''/'' \<notin> set c \<and> no_nul c"

lemma path_of_snoc: "cs \<noteq> [] \<Longrightarrow> path_of (cs @ [c]) = path_of cs @ CHR ''/'' # c"
  by (simp add: join_with_append)

lemma path_of_nonempty: "cs \<noteq> [] \<Longrightarrow> \<forall>c \<in> set cs. component_ok c \<Longrightarrow> path_of cs \<noteq> []"
  by (cases cs rule: list.exhaust; cases "tl cs") (auto simp: component_ok_def join_with_Cons)

lemma path_of_no_nul: "\<forall>c \<in> set cs. component_ok c \<Longrightarrow> no_nul (path_of cs)"
  using set_join_with[of "CHR ''/''" cs] by (fastforce simp: no_nul_def component_ok_def)

lemma parent_path_of:
  assumes "component_ok c"
  shows "parent_dir (path_of (cs @ [c])) = (if cs = [] then None else Some (path_of cs))"
proof -
  have c: "\<forall>y \<in> set c. \<not> (y = CHR ''/'')" using assms by (auto simp: component_ok_def)
  then have "find_last_idx (\<lambda>c. c = CHR ''/'') c = None" by (simp add: find_none)
  moreover have "find_last_idx (\<lambda>c. c = CHR ''/'') (path_of cs @ CHR ''/'' # c) = Some (length (path_of cs))"
    by (rule find_last_idx_app[OF refl c])
  ultimately show ?thesis by (simp add: parent_dir_def path_of_snoc)
qed

lemma mkdir_loop_append:
  "mkdir_loop mkdir pre (p @ q) fs = mkdir_loop mkdir (pre @ p) q (mkdir_loop mkdir pre p fs)"
  by (induction p arbitrary: pre fs) auto

lemma mkdir_loop_plain: "CHR ''/'' \<notin> set p \<Longrightarrow> mkdir_loop mkdir pre p fs = fs"
  by (induction p arbitrary: pre) auto

text \<open>The directories on the way to a path, the path included.\<close>

definition dirs_of :: "string list \<Rightarrow> string set" where
  "dirs_of cs = path_of ` (set (prefixes cs) - {[]})"

lemma dirs_of_Nil [simp]: "dirs_of [] = {}"
  by (simp add: dirs_of_def)

lemma dirs_of_snoc [simp]: "dirs_of (cs @ [c]) = insert (path_of (cs @ [c])) (dirs_of cs)"
  by (simp add: dirs_of_def insert_Diff_if)

lemma dirs_of_self: "cs \<noteq> [] \<Longrightarrow> path_of cs \<in> dirs_of cs"
  by (cases cs rule: rev_cases) simp_all

lemma dirs_of_shorter: "d \<in> dirs_of cs \<Longrightarrow> length d < length (path_of (cs @ [c]))"
proof (induction cs arbitrary: c rule: rev_induct)
  case (snoc b cs)
  then show ?case
    using path_of_snoc[of "cs @ [b]" c] snoc.IH[of b] by fastforce
qed simp

text \<open>After the loop over a path every directory on the way to it exists.\<close>

lemma mkdir_existing: "mkdir_documented mkdir \<Longrightarrow> d \<in> S \<Longrightarrow> mkdir d S = (False, S)"
  by (simp add: mkdir_documented_def)

lemma mkdir_next:
  assumes "mkdir_documented mkdir" "\<forall>c \<in> set (cs @ [c]). component_ok c"
    and "dirs_of cs \<subseteq> S" "path_of (cs @ [c]) \<notin> S"
  shows "mkdir (path_of (cs @ [c])) S = (True, insert (path_of (cs @ [c])) S)"
proof -
  have "component_ok c" using assms(2) by simp
  then have "\<forall>p. parent_dir (path_of (cs @ [c])) = Some p \<longrightarrow> p \<in> S"
    using parent_path_of[of c cs] dirs_of_self[of cs] assms(3) by auto
  moreover have "path_of (cs @ [c]) \<noteq> []"
    using path_of_nonempty[of "cs @ [c]"] assms(2) by simp
  ultimately show ?thesis
    using assms(1,4) unfolding mkdir_documented_def by blast
qed

lemma mkdir_loop_dirs:
  assumes "mkdir_documented mkdir" "\<forall>c \<in> set (cs @ [c]). component_ok c"
  shows "mkdir_loop mkdir [] (path_of (cs @ [c])) S = S \<union> dirs_of cs"
  using assms(2)
proof (induction cs arbitrary: c rule: rev_induct)
  case Nil
  then show ?case by (simp add: mkdir_loop_plain component_ok_def)
next
  case (snoc b cs)
  let ?S = "S \<union> dirs_of cs" and ?d = "path_of (cs @ [b])"
  have ok: "\<forall>c \<in> set (cs @ [b]). component_ok c" using snoc.prems by simp
  have "CHR ''/'' \<notin> set c" using snoc.prems by (simp add: component_ok_def)
  then have "mkdir_loop mkdir [] (path_of ((cs @ [b]) @ [c])) S = snd (mkdir ?d ?S)"
    using snoc.IH[OF ok] path_of_snoc[of "cs @ [b]" c]
    by (simp add: mkdir_loop_append mkdir_loop_plain)
  also have "\<dots> = insert ?d ?S"
    using mkdir_existing[OF assms(1), of ?d ?S] mkdir_next[OF assms(1) ok, of ?S]
    by (cases "?d \<in> ?S") (simp_all add: insert_absorb)
  finally show ?case by simp
qed

lemma path_of_fits:
  assumes "\<forall>c \<in> set cs. component_ok c" "length (path_of cs) < MAX_PATH"
  shows "c_str (path_of cs) = path_of cs" "safe_strncpy (path_of cs) (of_nat MAX_PATH) = path_of cs"
proof -
  show c: "c_str (path_of cs) = path_of cs" by (simp add: path_of_no_nul assms(1))
  have "0 < (of_nat MAX_PATH :: 64 word)" "unat (of_nat MAX_PATH :: 64 word) = MAX_PATH"
    by (simp_all add: MAX_PATH_def)
  then show "safe_strncpy (path_of cs) (of_nat MAX_PATH) = path_of cs"
    using assms(2) by (simp add: safe_strncpy_def strn_loop_take c)
qed

text \<open>
  C34.  On a path of components that fits the buffer, \<open>hv_mkdir_p\<close> with a documented \<open>mkdir\<close>
  does nothing and reports \<open>EEXIST\<close> if the path exists, and otherwise reports success and leaves
  exactly the old directories and those on the way to the path.
\<close>

theorem hv_mkdir_p_makes_path:
  assumes "mkdir_documented mkdir" "\<forall>c \<in> set (cs @ [c]). component_ok c"
    and "length (path_of (cs @ [c])) < MAX_PATH"
  shows "hv_mkdir_p (\<lambda>d S. d \<in> S) mkdir (path_of (cs @ [c])) S =
     (if path_of (cs @ [c]) \<in> S then (EEXIST, S) else (EOK, S \<union> dirs_of (cs @ [c])))"
proof (cases "path_of (cs @ [c]) \<in> S")
  case True
  then show ?thesis by (simp add: hv_mkdir_p_def path_of_fits(1)[OF assms(2,3)])
next
  case False
  let ?d = "path_of (cs @ [c])"
  have "?d \<notin> S \<union> dirs_of cs"
    using False dirs_of_shorter[of ?d cs c] by blast
  then have "mkdir ?d (S \<union> dirs_of cs) = (True, insert ?d (S \<union> dirs_of cs))"
    using mkdir_next[OF assms(1,2), of "S \<union> dirs_of cs"] by blast
  with False show ?thesis
    by (simp add: hv_mkdir_p_def path_of_fits[OF assms(2,3)] mkdir_loop_dirs[OF assms(1,2)])
qed

theorem hv_mkdir_p_makes_path_witness:
  "hv_mkdir_p (\<lambda>d S. d \<in> S)
     (\<lambda>d S. if d \<in> S then (False, S)
            else case parent_dir d of None \<Rightarrow> (True, insert d S)
                 | Some p \<Rightarrow> if p \<in> S then (True, insert d S) else (False, S))
     ''out/logs'' {''out''} = (EOK, {''out'', ''out/logs''})"
proof -
  let ?mkdir = "\<lambda>d S. if d \<in> S then (False, S)
            else case parent_dir d of None \<Rightarrow> (True, insert d S)
                 | Some p \<Rightarrow> if p \<in> S then (True, insert d S) else (False, S)"
  have "mkdir_documented ?mkdir"
    by (auto simp: mkdir_documented_def split: option.splits)
  moreover have "\<forall>c \<in> set ([''out''] @ [''logs'']). component_ok c"
    by (simp add: component_ok_def)
  moreover have "length (path_of ([''out''] @ [''logs''])) < MAX_PATH"
    by (simp add: MAX_PATH_def)
  ultimately have "hv_mkdir_p (\<lambda>d S. d \<in> S) ?mkdir (path_of ([''out''] @ [''logs''])) {''out''} =
     (if path_of ([''out''] @ [''logs'']) \<in> {''out''} then (EEXIST, {''out''})
      else (EOK, {''out''} \<union> dirs_of ([''out''] @ [''logs''])))"
    by (rule hv_mkdir_p_makes_path)
  then show ?thesis by (simp add: dirs_of_def insert_commute)
qed

definition mkdir_slashes :: "string \<Rightarrow> string set \<Rightarrow> bool \<times> string set" where
  "mkdir_slashes d S =
     (let d' = trimR d ''/'' in if d' = [] \<or> d' \<in> S then (False, S) else (True, insert d' S))"

text \<open>
  A trailing slash makes \<open>hv_mkdir_p\<close> report \<open>EPERM\<close> for directories it has just made: the
  loop makes the whole path at the last slash, and the final call finds it there.
\<close>

theorem hv_mkdir_p_trailing_slash:
  "hv_mkdir_p (\<lambda>d S. trimR d ''/'' \<in> S) mkdir_slashes ''a/b/'' {} = (EPERM, {''a'', ''a/b''})"
proof -
  have c: "c_str ''a/b/'' = ''a/b/''" by code_simp
  have t: "trimR ''a'' ''/'' = ''a''" "trimR ''a/b'' ''/'' = ''a/b''" "trimR ''a/b/'' ''/'' = ''a/b''"
    by (simp_all add: trimR_eq)
  have "0 < (of_nat MAX_PATH :: 64 word)" "unat (of_nat MAX_PATH :: 64 word) = 260"
    by (simp_all add: MAX_PATH_def)
  then have "safe_strncpy ''a/b/'' (of_nat MAX_PATH) = ''a/b/''"
    by (simp add: safe_strncpy_def c strn_loop_take)
  then show ?thesis
    by (simp add: hv_mkdir_p_def c t mkdir_slashes_def Let_def insert_commute)
qed

end
