(* ===== verification/HBuf.thy ===== *)
theory HBuf
  imports Prelude
begin

text \<open>
  \<open>base/hbuf.h\<close>: the growable buffer \<open>HBuf\<close>, the variable-length buffer \<open>HVLBuf\<close> (a window
  \<open>[_offset, _offset + _size)\<close> into its storage) and the ring buffer \<open>HRingBuf\<close>.  Storage is the
  list of its bytes (so \<open>len\<close> is the length of the list); \<open>safe_realloc\<close> keeps the old bytes
  and zeroes the new ones.  A copy through a pointer outside the storage is \<open>None\<close>.
\<close>

type_synonym byte = "8 word"

section \<open>Storage\<close>

definition safe_realloc :: "byte list \<Rightarrow> nat \<Rightarrow> byte list" where
  "safe_realloc base newsize = take newsize base @ replicate (newsize - length base) 0"

text \<open>\<open>memcpy(base + i, xs, n)\<close> and reading \<open>n\<close> bytes at \<open>base + i\<close>.\<close>

definition store_at :: "byte list \<Rightarrow> nat \<Rightarrow> byte list \<Rightarrow> byte list option" where
  "store_at base i xs =
     (if i + length xs \<le> length base
      then Some (take i base @ xs @ drop (i + length xs) base) else None)"

definition load_at :: "byte list \<Rightarrow> nat \<Rightarrow> nat \<Rightarrow> byte list option" where
  "load_at base i n = (if i + n \<le> length base then Some (take n (drop i base)) else None)"

lemma length_safe_realloc [simp]: "length (safe_realloc base n) = n"
  by (simp add: safe_realloc_def)

lemma store_at_length: "store_at base i xs = Some base' \<Longrightarrow> length base' = length base"
  by (auto simp: store_at_def split: if_splits)

record hbuf =
  hb_base :: "byte list"
  hb_cleanup :: bool

definition HBuf_resize :: "hbuf \<Rightarrow> nat \<Rightarrow> hbuf" where
  "HBuf_resize b cap =
     (if cap = length (hb_base b) then b
      else b\<lparr>hb_base := safe_realloc (hb_base b) cap, hb_cleanup := True\<rparr>)"

definition HBuf_cleanup :: "hbuf \<Rightarrow> hbuf" where
  "HBuf_cleanup b = (if hb_cleanup b then b\<lparr>hb_base := [], hb_cleanup := False\<rparr> else b)"

definition HBuf_copy :: "hbuf \<Rightarrow> byte list \<Rightarrow> hbuf option" where
  "HBuf_copy b xs =
     (let b' = HBuf_resize b (length xs)
      in map_option (\<lambda>base. b'\<lparr>hb_base := base\<rparr>) (store_at (hb_base b') 0 xs))"

section \<open>HVLBuf\<close>

record vlbuf =
  vl_base :: "byte list"
  vl_offset :: nat
  vl_size :: nat

definition HVLBuf_new :: "nat \<Rightarrow> vlbuf" where
  "HVLBuf_new cap = \<lparr>vl_base = replicate cap 0, vl_offset = 0, vl_size = 0\<rparr>"

definition HVLBuf_of :: "byte list \<Rightarrow> vlbuf" where
  "HVLBuf_of xs = \<lparr>vl_base = xs, vl_offset = 0, vl_size = length xs\<rparr>"

definition vl_grow :: "nat \<Rightarrow> vlbuf \<Rightarrow> vlbuf" where
  "vl_grow n b = b\<lparr>vl_base := safe_realloc (vl_base b) (max (length (vl_base b)) n * 2)\<rparr>"

text \<open>\<open>memmove(base + to, data(), _size)\<close> followed by \<open>_offset = to\<close>.\<close>

definition vl_move :: "nat \<Rightarrow> vlbuf \<Rightarrow> vlbuf option" where
  "vl_move to b =
     Option.bind (load_at (vl_base b) (vl_offset b) (vl_size b)) (\<lambda>xs.
     map_option (\<lambda>base. b\<lparr>vl_base := base, vl_offset := to\<rparr>) (store_at (vl_base b) to xs))"

definition push_front :: "byte list \<Rightarrow> vlbuf \<Rightarrow> vlbuf option" where
  "push_front xs b0 =
     (let n = length xs;
          b1 = (if n > length (vl_base b0) - vl_size b0 then vl_grow n b0 else b0)
      in Option.bind (if vl_offset b1 < n then vl_move (length (vl_base b1) - vl_size b1) b1 else Some b1)
           (\<lambda>b2. if n > vl_offset b2 then None
             else map_option (\<lambda>base. b2\<lparr>vl_base := base, vl_offset := vl_offset b2 - n,
                                        vl_size := vl_size b2 + n\<rparr>)
                    (store_at (vl_base b2) (vl_offset b2 - n) xs)))"

definition push_back :: "byte list \<Rightarrow> vlbuf \<Rightarrow> vlbuf option" where
  "push_back xs b0 =
     (let n = length xs
      in Option.bind
           (if n > length (vl_base b0) - vl_size b0 then Some (vl_grow n b0)
            else if n > length (vl_base b0) - vl_offset b0 - vl_size b0 then vl_move 0 b0
            else Some b0)
           (\<lambda>b1. map_option (\<lambda>base. b1\<lparr>vl_base := base, vl_size := vl_size b1 + n\<rparr>)
                   (store_at (vl_base b1) (vl_offset b1 + vl_size b1) xs)))"

text \<open>The popped bytes (those copied to \<open>ptr\<close>) and the buffer; a pop of more than the buffer
  holds does nothing.\<close>

definition pop_front :: "nat \<Rightarrow> vlbuf \<Rightarrow> (byte list \<times> vlbuf) option" where
  "pop_front n b =
     (if n \<le> vl_size b then
        map_option (\<lambda>xs. (xs, b\<lparr>vl_offset := (if vl_offset b + n \<ge> length (vl_base b) then 0 else vl_offset b + n),
                               vl_size := vl_size b - n\<rparr>))
          (load_at (vl_base b) (vl_offset b) n)
      else Some ([], b))"

definition pop_back :: "nat \<Rightarrow> vlbuf \<Rightarrow> (byte list \<times> vlbuf) option" where
  "pop_back n b =
     (if n \<le> vl_size b then
        map_option (\<lambda>xs. (xs, b\<lparr>vl_size := vl_size b - n\<rparr>))
          (load_at (vl_base b) (vl_offset b + vl_size b - n) n)
      else Some ([], b))"

definition HVLBuf_clear :: "vlbuf \<Rightarrow> vlbuf" where
  "HVLBuf_clear b = b\<lparr>vl_offset := 0, vl_size := 0\<rparr>"

definition vl_inv :: "vlbuf \<Rightarrow> bool" where
  "vl_inv b \<longleftrightarrow> vl_offset b + vl_size b \<le> length (vl_base b)"

definition vl_content :: "vlbuf \<Rightarrow> byte list" where
  "vl_content b = take (vl_size b) (drop (vl_offset b) (vl_base b))"

section \<open>HRingBuf\<close>

record ringbuf =
  rb_len :: nat
  rb_head :: nat
  rb_tail :: nat
  rb_size :: nat

definition HRingBuf_new :: "nat \<Rightarrow> ringbuf" where
  "HRingBuf_new cap = \<lparr>rb_len = cap, rb_head = 0, rb_tail = 0, rb_size = 0\<rparr>"

text \<open>\<open>alloc\<close> returns the offset of the block it hands out, or null.\<close>

definition rb_alloc :: "nat \<Rightarrow> ringbuf \<Rightarrow> nat option \<times> ringbuf" where
  "rb_alloc n r =
     (let (ret, tail') =
        (if rb_head r < rb_tail r \<or> rb_size r = 0 then
           if rb_len r - rb_tail r \<ge> n
           then (Some (rb_tail r), if rb_tail r + n = rb_len r then 0 else rb_tail r + n)
           else if rb_head r \<ge> n then (Some 0, n)
           else (None, rb_tail r)
         else
           if rb_head r - rb_tail r \<ge> n then (Some (rb_tail r), rb_tail r + n)
           else (None, rb_tail r))
      in (ret, r\<lparr>rb_tail := tail', rb_size := rb_size r + (if ret = None then 0 else n)\<rparr>))"

definition rb_free :: "nat \<Rightarrow> ringbuf \<Rightarrow> ringbuf" where
  "rb_free n r =
     r\<lparr>rb_size := rb_size r - n,
       rb_head := (if n \<le> rb_len r - rb_head r
                   then (if rb_head r + n = rb_len r then 0 else rb_head r + n)
                   else n)\<rparr>"

definition rb_clear :: "ringbuf \<Rightarrow> ringbuf" where
  "rb_clear r = r\<lparr>rb_head := 0, rb_tail := 0, rb_size := 0\<rparr>"

section \<open>HVLBuf behaves as a sequence of bytes\<close>

lemma vl_grow_inv [simp]: "vl_inv b \<Longrightarrow> vl_inv (vl_grow n b)"
  by (auto simp: vl_inv_def vl_grow_def)

lemma vl_grow_content [simp]: "vl_inv b \<Longrightarrow> vl_content (vl_grow n b) = vl_content b"
  by (auto simp: vl_inv_def vl_content_def vl_grow_def safe_realloc_def drop_append)

lemma vl_grow_sel [simp]:
  "vl_offset (vl_grow n b) = vl_offset b" "vl_size (vl_grow n b) = vl_size b"
  "length (vl_base (vl_grow n b)) = max (length (vl_base b)) n * 2"
  by (simp_all add: vl_grow_def)

lemma vl_move_Some:
  assumes "vl_inv b" "to + vl_size b \<le> length (vl_base b)"
  obtains b' where "vl_move to b = Some b'" "vl_inv b'" "vl_content b' = vl_content b"
    "vl_offset b' = to" "vl_size b' = vl_size b" "length (vl_base b') = length (vl_base b)"
  using assms
  by (auto simp: vl_move_def load_at_def store_at_def vl_inv_def vl_content_def)

lemma store_front:
  assumes "vl_inv b" "length xs \<le> vl_offset b"
  shows "\<exists>base. store_at (vl_base b) (vl_offset b - length xs) xs = Some base \<and>
     (let b' = b\<lparr>vl_base := base, vl_offset := vl_offset b - length xs, vl_size := vl_size b + length xs\<rparr>
      in vl_inv b' \<and> vl_content b' = xs @ vl_content b)"
  using assms by (simp add: store_at_def vl_inv_def vl_content_def)

lemma store_back:
  assumes "vl_inv b" "vl_offset b + vl_size b + length xs \<le> length (vl_base b)"
  shows "\<exists>base. store_at (vl_base b) (vl_offset b + vl_size b) xs = Some base \<and>
     (let b' = b\<lparr>vl_base := base, vl_size := vl_size b + length xs\<rparr>
      in vl_inv b' \<and> vl_content b' = vl_content b @ xs)"
proof -
  have "take (vl_size b + length xs)
      (drop (vl_offset b) (take (vl_offset b + vl_size b) (vl_base b) @ xs @ r)) =
      take (vl_size b) (drop (vl_offset b) (vl_base b)) @ xs" for r
    using assms by (simp add: drop_take)
  with assms show ?thesis by (simp add: store_at_def vl_inv_def vl_content_def)
qed

lemma push_front_ok:
  assumes "vl_inv b"
  shows "\<exists>b'. push_front xs b = Some b' \<and> vl_inv b' \<and> vl_content b' = xs @ vl_content b"
proof -
  let ?n = "length xs"
  let ?b1 = "if ?n > length (vl_base b) - vl_size b then vl_grow ?n b else b"
  have b1: "vl_inv ?b1" "vl_content ?b1 = vl_content b" using assms by simp_all
  have room: "?n + vl_size ?b1 \<le> length (vl_base ?b1)"
    using assms by (auto simp: vl_inv_def)
  obtain b2 where b2: "(if vl_offset ?b1 < ?n then vl_move (length (vl_base ?b1) - vl_size ?b1) ?b1
      else Some ?b1) = Some b2" "vl_inv b2" "vl_content b2 = vl_content b" "?n \<le> vl_offset b2"
  proof (cases "vl_offset ?b1 < ?n")
    case True
    have "length (vl_base ?b1) - vl_size ?b1 + vl_size ?b1 \<le> length (vl_base ?b1)"
      using room by linarith
    then obtain b' where "vl_move (length (vl_base ?b1) - vl_size ?b1) ?b1 = Some b'" "vl_inv b'"
      "vl_content b' = vl_content ?b1" "vl_offset b' = length (vl_base ?b1) - vl_size ?b1"
      by (rule vl_move_Some[OF b1(1)])
    with True b1(2) room show ?thesis by (intro that[of b']) simp_all
  next
    case False
    with b1 show ?thesis by (intro that[of ?b1]) simp_all
  qed
  from store_front[OF b2(2,4)] show ?thesis
    using b2 by (auto simp: push_front_def Let_def)
qed

lemma push_back_ok:
  assumes "vl_inv b"
  shows "\<exists>b'. push_back xs b = Some b' \<and> vl_inv b' \<and> vl_content b' = vl_content b @ xs"
proof -
  let ?n = "length xs"
  obtain b1 where b1: "(if ?n > length (vl_base b) - vl_size b then Some (vl_grow ?n b)
      else if ?n > length (vl_base b) - vl_offset b - vl_size b then vl_move 0 b else Some b) = Some b1"
    "vl_inv b1" "vl_content b1 = vl_content b" "vl_offset b1 + vl_size b1 + ?n \<le> length (vl_base b1)"
  proof -
    consider "?n > length (vl_base b) - vl_size b"
      | "?n \<le> length (vl_base b) - vl_size b" "?n > length (vl_base b) - vl_offset b - vl_size b"
      | "?n \<le> length (vl_base b) - vl_size b" "?n \<le> length (vl_base b) - vl_offset b - vl_size b"
      by linarith
    then show ?thesis
    proof cases
      case 1
      then show ?thesis using assms by (intro that[of "vl_grow ?n b"]) (auto simp: vl_inv_def)
    next
      case 2
      have "0 + vl_size b \<le> length (vl_base b)" using assms by (simp add: vl_inv_def)
      then obtain b' where "vl_move 0 b = Some b'" "vl_inv b'" "vl_content b' = vl_content b"
        "vl_offset b' = 0" "vl_size b' = vl_size b" "length (vl_base b') = length (vl_base b)"
        by (rule vl_move_Some[OF assms])
      with 2 assms show ?thesis by (intro that[of b']) (auto simp: vl_inv_def)
    next
      case 3
      then show ?thesis using assms by (intro that[of b]) (auto simp: vl_inv_def)
    qed
  qed
  from store_back[OF b1(2,4)] show ?thesis
    using b1 by (auto simp: push_back_def Let_def)
qed

lemma pop_front_ok:
  assumes "vl_inv b"
  shows "\<exists>b'. pop_front n b = Some (if n \<le> length (vl_content b) then take n (vl_content b) else [], b') \<and>
     vl_inv b' \<and> vl_content b' = (if n \<le> length (vl_content b) then drop n (vl_content b) else vl_content b)"
  using assms
  by (auto simp: pop_front_def load_at_def vl_inv_def vl_content_def drop_take add.commute)

lemma vl_content_length: "vl_inv b \<Longrightarrow> length (vl_content b) = vl_size b"
  by (simp add: vl_content_def vl_inv_def)

lemma pop_back_ok:
  assumes inv: "vl_inv b" and n: "n \<le> length (vl_content b)"
  shows "\<exists>b'. pop_back n b = Some (drop (length (vl_content b) - n) (vl_content b), b') \<and>
     vl_inv b' \<and> vl_content b' = take (length (vl_content b) - n) (vl_content b)"
proof -
  have n: "n \<le> vl_size b" using n by (simp add: vl_content_length[OF inv])
  then have at: "vl_offset b + vl_size b - n = vl_offset b + (vl_size b - n)" by simp
  have "drop (vl_size b - n) (vl_content b) = take n (drop (vl_offset b + (vl_size b - n)) (vl_base b))"
    using n by (simp add: vl_content_def drop_take add.commute)
  then have "pop_back n b = Some (drop (vl_size b - n) (vl_content b), b\<lparr>vl_size := vl_size b - n\<rparr>)"
    unfolding pop_back_def at load_at_def using inv n by (simp add: vl_inv_def)
  moreover have "vl_inv (b\<lparr>vl_size := vl_size b - n\<rparr>)"
    using inv by (simp add: vl_inv_def)
  moreover have "vl_content (b\<lparr>vl_size := vl_size b - n\<rparr>) = take (vl_size b - n) (vl_content b)"
    by (simp add: vl_content_def)
  ultimately show ?thesis
    unfolding vl_content_length[OF inv] by blast
qed

text \<open>
  C13.  \<open>HVLBuf\<close> refines a double-ended byte sequence: on any buffer whose window lies in its
  storage, pushing at either end always succeeds (growing or moving the window as needed, never
  copying outside the storage) and puts exactly those bytes there; a pop of available bytes
  takes exactly the first or last ones; a pop of more than the buffer holds changes nothing.
\<close>

theorem HVLBuf_refines_sequence:
  assumes "vl_inv b"
  shows "(\<exists>b'. push_front xs b = Some b' \<and> vl_inv b' \<and> vl_content b' = xs @ vl_content b) \<and>
    (\<exists>b'. push_back xs b = Some b' \<and> vl_inv b' \<and> vl_content b' = vl_content b @ xs) \<and>
    (n \<le> length (vl_content b) \<longrightarrow>
      (\<exists>b'. pop_front n b = Some (take n (vl_content b), b') \<and> vl_inv b' \<and>
         vl_content b' = drop n (vl_content b)) \<and>
      (\<exists>b'. pop_back n b = Some (drop (length (vl_content b) - n) (vl_content b), b') \<and> vl_inv b' \<and>
         vl_content b' = take (length (vl_content b) - n) (vl_content b))) \<and>
    (n > length (vl_content b) \<longrightarrow> pop_front n b = Some ([], b) \<and> pop_back n b = Some ([], b))"
proof (intro conjI impI)
  assume "length (vl_content b) < n"
  moreover have "length (vl_content b) = vl_size b"
    using assms by (simp add: vl_content_def vl_inv_def)
  ultimately show "pop_front n b = Some ([], b)" "pop_back n b = Some ([], b)"
    by (simp_all add: pop_front_def pop_back_def)
next
  assume "n \<le> length (vl_content b)"
  then show "\<exists>b'. pop_front n b = Some (take n (vl_content b), b') \<and> vl_inv b' \<and>
         vl_content b' = drop n (vl_content b)"
    using pop_front_ok[OF assms, of n] by simp
qed (simp_all add: push_front_ok[OF assms] push_back_ok[OF assms] pop_back_ok[OF assms])

theorem HVLBuf_refines_sequence_witness:
  "vl_inv (HVLBuf_of [1, 2, 3]) \<and>
   (\<exists>b'. push_front [9, 8] (HVLBuf_of [1, 2, 3]) = Some b' \<and> vl_content b' = [9, 8, 1, 2, 3])"
proof -
  have i: "vl_inv (HVLBuf_of [1, 2, 3])" by (simp add: vl_inv_def HVLBuf_of_def)
  have "vl_content (HVLBuf_of [1, 2, 3]) = [1, 2, 3]" by (simp add: vl_content_def HVLBuf_of_def)
  with i HVLBuf_refines_sequence[OF i, of "[9, 8]"] show ?thesis by auto
qed

section \<open>First in, first out\<close>

text \<open>What a stream reader relies on in a byte buffer.\<close>

datatype 'a buf_op = Put "'a list" | Get nat

fun run_ops ::
    "('a list \<Rightarrow> 'b \<Rightarrow> 'b option) \<Rightarrow> (nat \<Rightarrow> 'b \<Rightarrow> ('a list \<times> 'b) option) \<Rightarrow>
     'a buf_op list \<Rightarrow> 'b \<Rightarrow> ('a list \<times> 'b) option" where
  "run_ops put get [] b = Some ([], b)"
| "run_ops put get (Put xs # ops) b = Option.bind (put xs b) (run_ops put get ops)"
| "run_ops put get (Get n # ops) b =
     Option.bind (get n b) (\<lambda>(out, b1).
       map_option (\<lambda>(out', b2). (out @ out', b2)) (run_ops put get ops b1))"

fun all_put :: "'a buf_op list \<Rightarrow> 'a list" where
  "all_put [] = []"
| "all_put (Put xs # ops) = xs @ all_put ops"
| "all_put (Get n # ops) = all_put ops"

locale fifo_buffer =
  fixes inv :: "'b \<Rightarrow> bool"
    and content :: "'b \<Rightarrow> 'a list"
    and put :: "'a list \<Rightarrow> 'b \<Rightarrow> 'b option"
    and get :: "nat \<Rightarrow> 'b \<Rightarrow> ('a list \<times> 'b) option"
  assumes put_ok: "inv b \<Longrightarrow> \<exists>b'. put xs b = Some b' \<and> inv b' \<and> content b' = content b @ xs"
    and get_ok: "inv b \<Longrightarrow> \<exists>out b'. get n b = Some (out, b') \<and> inv b' \<and> out @ content b' = content b"
begin

lemma run_fifo:
  "inv b \<Longrightarrow>
   \<exists>out b'. run_ops put get ops b = Some (out, b') \<and> inv b' \<and>
      out @ content b' = content b @ all_put ops"
proof (induction ops arbitrary: b)
  case (Cons op ops)
  show ?case
  proof (cases op)
    case (Put xs)
    obtain b1 where "put xs b = Some b1" "inv b1" "content b1 = content b @ xs"
      using put_ok[OF Cons.prems] by blast
    with Cons.IH[of b1] Put show ?thesis by auto
  next
    case (Get n)
    obtain out b1 where g: "get n b = Some (out, b1)" "inv b1" "out @ content b1 = content b"
      using get_ok[OF Cons.prems] by blast
    obtain out' b2 where "run_ops put get ops b1 = Some (out', b2)" "inv b2"
      "out' @ content b2 = content b1 @ all_put ops"
      using Cons.IH[OF g(2)] by blast
    with g Get show ?thesis by (auto simp flip: g(3))
  qed
qed simp

end

interpretation vlbuf: fifo_buffer vl_inv vl_content push_back pop_front
proof unfold_locales
  fix b :: vlbuf and n
  assume "vl_inv b"
  from pop_front_ok[OF this, of n]
  show "\<exists>out b'. pop_front n b = Some (out, b') \<and> vl_inv b' \<and> out @ vl_content b' = vl_content b"
    by (cases "n \<le> length (vl_content b)") auto
qed (rule push_back_ok)

text \<open>
  Used as a stream, \<open>HVLBuf\<close> neither loses, duplicates nor reorders bytes: any sequence of
  appends and front pops on a fresh buffer runs without a copy outside the storage, and the
  bytes popped followed by those still held are the bytes appended.
\<close>

theorem HVLBuf_stream:
  "\<exists>out b. run_ops push_back pop_front ops (HVLBuf_new cap) = Some (out, b) \<and> vl_inv b \<and>
     out @ vl_content b = all_put ops"
proof -
  have "vl_inv (HVLBuf_new cap)" "vl_content (HVLBuf_new cap) = []"
    by (simp_all add: HVLBuf_new_def vl_inv_def vl_content_def)
  with vlbuf.run_fifo[of "HVLBuf_new cap" ops] show ?thesis by simp
qed

section \<open>HRingBuf never hands out overlapping blocks\<close>

text \<open>
  The outstanding blocks, oldest first, are ghost state: \<open>alloc\<close> adds one, and a client of a ring
  buffer frees the oldest one, giving its length.
\<close>

type_synonym block = "nat \<times> nat"

inductive rb_reach :: "nat \<Rightarrow> ringbuf \<Rightarrow> block list \<Rightarrow> bool" for cap where
  rb_new: "0 < cap \<Longrightarrow> rb_reach cap (HRingBuf_new cap) []"
| rb_alloc: "rb_reach cap r bs \<Longrightarrow> 0 < n \<Longrightarrow> rb_alloc n r = (Some a, r') \<Longrightarrow> rb_reach cap r' (bs @ [(a, n)])"
| rb_full: "rb_reach cap r bs \<Longrightarrow> 0 < n \<Longrightarrow> rb_alloc n r = (None, r') \<Longrightarrow> rb_reach cap r' bs"
| rb_free: "rb_reach cap r ((a, n) # bs) \<Longrightarrow> rb_reach cap (rb_free n r) bs"
| rb_clear: "rb_reach cap r bs \<Longrightarrow> rb_reach cap (rb_clear r) []"

fun chain :: "nat \<Rightarrow> block list \<Rightarrow> nat \<Rightarrow> bool" where
  "chain s [] e = (s = e)"
| "chain s ((a, n) # bs) e = (a = s \<and> 0 < n \<and> chain (s + n) bs e)"

text \<open>
  Where the outstanding blocks lie, for head \<open>h\<close> and tail \<open>t\<close>: back to back from the head to the
  tail; or up to the end of the storage, with the tail at its start; or some up to an offset
  \<open>e\<close> where the gap left is too small for the next block, which lies at the start.
\<close>

definition rb_layout :: "nat \<Rightarrow> nat \<Rightarrow> nat \<Rightarrow> block list \<Rightarrow> bool" where
  "rb_layout cap h t bs \<longleftrightarrow>
     chain h bs t \<or>
     (t = 0 \<and> bs \<noteq> [] \<and> chain h bs cap) \<or>
     (\<exists>xs ys e. bs = xs @ ys \<and> ys \<noteq> [] \<and> chain h xs e \<and> e \<le> cap \<and>
        cap < e + snd (hd ys) \<and> chain 0 ys t \<and> t \<le> h)"

definition rb_inv :: "nat \<Rightarrow> ringbuf \<Rightarrow> block list \<Rightarrow> bool" where
  "rb_inv cap r bs \<longleftrightarrow>
     rb_len r = cap \<and> rb_head r < cap \<and> rb_tail r < cap \<and> rb_size r = sum_list (map snd bs) \<and>
     rb_layout cap (rb_head r) (rb_tail r) bs"

lemma layout_flat: "chain h bs t \<Longrightarrow> rb_layout cap h t bs"
  by (simp add: rb_layout_def)

lemma layout_edge: "bs \<noteq> [] \<Longrightarrow> chain h bs cap \<Longrightarrow> rb_layout cap h 0 bs"
  by (simp add: rb_layout_def)

lemma layout_wrap:
  "ys \<noteq> [] \<Longrightarrow> chain h xs e \<Longrightarrow> e \<le> cap \<Longrightarrow> cap < e + snd (hd ys) \<Longrightarrow> chain 0 ys t \<Longrightarrow> t \<le> h \<Longrightarrow>
   rb_layout cap h t (xs @ ys)"
  unfolding rb_layout_def by blast

lemma rb_layoutE:
  assumes "rb_layout cap h t bs"
  obtains (flat) "chain h bs t"
    | (edge) "t = 0" "bs \<noteq> []" "chain h bs cap"
    | (wrap) xs ys e where "bs = xs @ ys" "ys \<noteq> []" "chain h xs e" "e \<le> cap"
        "cap < e + snd (hd ys)" "chain 0 ys t" "t \<le> h"
  using assms unfolding rb_layout_def by (elim disjE exE conjE) assumption+

lemma chain_le: "chain s bs e \<Longrightarrow> s \<le> e"
  by (induction s bs e rule: chain.induct) auto

lemma chain_less: "chain s bs e \<Longrightarrow> bs \<noteq> [] \<Longrightarrow> s < e"
  using chain_le by (cases bs) fastforce+

lemma chain_snoc: "chain s bs e \<Longrightarrow> 0 < n \<Longrightarrow> chain s (bs @ [(e, n)]) (e + n)"
  by (induction s bs e rule: chain.induct) auto

lemma chain_size: "chain s bs e \<Longrightarrow> sum_list (map snd bs) = e - s"
  by (induction s bs e rule: chain.induct) (auto dest: chain_le)

lemma chain_within: "chain s bs e \<Longrightarrow> (a, n) \<in> set bs \<Longrightarrow> s \<le> a \<and> a + n \<le> e"
  by (induction s bs e rule: chain.induct) (auto dest: chain_le)

abbreviation blocks_apart :: "block \<Rightarrow> block \<Rightarrow> bool" where
  "blocks_apart p q \<equiv> fst p + snd p \<le> fst q \<or> fst q + snd q \<le> fst p"

lemma chain_apart: "chain s bs e \<Longrightarrow> sorted_wrt blocks_apart bs"
proof (induction s bs e rule: chain.induct)
  case (2 s a n bs e)
  then show ?case by (auto dest: chain_within)
qed simp

lemma chain_sum_pos: "chain s bs e \<Longrightarrow> bs \<noteq> [] \<Longrightarrow> 0 < sum_list (map snd bs)"
  using chain_size chain_less by (metis zero_less_diff)

lemma rb_inv_alloc:
  assumes inv: "rb_inv cap r bs" and n: "0 < n" and al: "rb_alloc n r = (ret, r')"
  shows "case ret of Some a \<Rightarrow> rb_inv cap r' (bs @ [(a, n)]) | None \<Rightarrow> rb_inv cap r' bs"
proof -
  have base: "rb_len r = cap" "rb_head r < cap" "rb_tail r < cap" "rb_size r = sum_list (map snd bs)"
    and layout: "rb_layout cap (rb_head r) (rb_tail r) bs"
    using inv by (simp_all add: rb_inv_def)
  from layout show ?thesis
  proof (cases rule: rb_layoutE)
    case flat
    have cond: "rb_head r < rb_tail r \<or> rb_size r = 0"
      using chain_less[OF flat] base(4) by (cases "bs = []") simp_all
    consider "n \<le> cap - rb_tail r" | "\<not> n \<le> cap - rb_tail r" "n \<le> rb_head r"
      | "\<not> n \<le> cap - rb_tail r" "\<not> n \<le> rb_head r" by blast
    then show ?thesis
    proof cases
      case 1
      have "rb_layout cap (rb_head r) (rb_tail r + n) (bs @ [(rb_tail r, n)])"
        by (rule layout_flat[OF chain_snoc[OF flat n]])
      moreover have "rb_layout cap (rb_head r) 0 (bs @ [(rb_tail r, n)])" if "rb_tail r + n = cap"
        using chain_snoc[OF flat n] that by (intro layout_edge) simp_all
      moreover have "rb_tail r + n < cap" if "rb_tail r + n \<noteq> cap"
        using that 1 base by linarith
      ultimately show ?thesis
        using cond al base 1 by (auto simp: rb_alloc_def rb_inv_def Let_def)
    next
      case 2
      have "rb_layout cap (rb_head r) n (bs @ [(0, n)])"
        using 2 base n by (intro layout_wrap[OF _ flat]) auto
      then show ?thesis
        using 2 cond al base by (auto simp: rb_alloc_def Let_def rb_inv_def)
    next
      case 3
      then show ?thesis
        using cond al base layout by (auto simp: rb_alloc_def Let_def rb_inv_def)
    qed
  next
    case edge
    have cond: "\<not> (rb_head r < rb_tail r \<or> rb_size r = 0)"
      unfolding base(4) using edge(1) chain_sum_pos[OF edge(3,2)] by linarith
    have "rb_layout cap (rb_head r) n (bs @ [(0, n)])" if "n \<le> rb_head r"
      using that base n by (intro layout_wrap[OF _ edge(3)]) auto
    then show ?thesis
      using al[unfolded rb_alloc_def Let_def if_not_P[OF cond]] base layout edge(1)
      by (auto simp: rb_inv_def split: if_splits)
  next
    case (wrap xs ys e)
    have "0 < sum_list (map snd bs)"
      using chain_sum_pos[OF wrap(6,2)] unfolding wrap(1) map_append sum_list_append by linarith
    then have cond: "\<not> (rb_head r < rb_tail r \<or> rb_size r = 0)"
      unfolding base(4) using wrap(7) by linarith
    have "rb_layout cap (rb_head r) (rb_tail r + n) (xs @ ys @ [(rb_tail r, n)])"
      if "n \<le> rb_head r - rb_tail r"
      using that wrap n chain_snoc[OF wrap(6) n] by (intro layout_wrap[OF _ wrap(3,4)]) auto
    then show ?thesis
      using al[unfolded rb_alloc_def Let_def if_not_P[OF cond]] base layout wrap(1)
      by (auto simp: rb_inv_def split: if_splits)
  qed
qed

lemma rb_inv_free:
  assumes inv: "rb_inv cap r ((a, n) # bs)"
  shows "rb_inv cap (rb_free n r) bs"
proof -
  have base: "rb_len r = cap" "rb_head r < cap" "rb_tail r < cap" "rb_size r = n + sum_list (map snd bs)"
    and layout: "rb_layout cap (rb_head r) (rb_tail r) ((a, n) # bs)"
    using inv by (simp_all add: rb_inv_def)
  from layout show ?thesis
  proof (cases rule: rb_layoutE)
    case flat
    then have "chain (rb_head r + n) bs (rb_tail r)" by simp
    with chain_le[OF this] base show ?thesis
      by (auto simp: rb_free_def rb_inv_def intro: layout_flat)
  next
    case edge
    then have c: "chain (rb_head r + n) bs cap" by simp
    show ?thesis
    proof (cases "bs = []")
      case True
      with c edge base show ?thesis
        by (auto simp: rb_free_def rb_inv_def intro: layout_flat)
    next
      case False
      with c edge(1) base chain_less[OF c False] show ?thesis
        by (auto simp: rb_free_def rb_inv_def intro: layout_edge)
    qed
  next
    case (wrap xs ys e)
    show ?thesis
    proof (cases xs)
      case Nil
      with wrap have "rb_head r = e" "hd ys = (a, n)" "chain n bs (rb_tail r)" by auto
      with chain_le[of n bs "rb_tail r"] wrap base show ?thesis
        by (auto simp: rb_free_def rb_inv_def intro: layout_flat)
    next
      case (Cons x xs')
      with wrap have c: "chain (rb_head r + n) xs' e" and bs: "bs = xs' @ ys" by auto
      show ?thesis
      proof (cases "rb_head r + n = cap")
        case True
        with c wrap(4) chain_le[OF c] chain_less[OF c] have "xs' = []" by fastforce
        with True bs wrap base show ?thesis
          by (auto simp: rb_free_def rb_inv_def intro: layout_flat)
      next
        case False
        have "rb_layout cap (rb_head r + n) (rb_tail r) bs"
          unfolding bs using wrap by (intro layout_wrap[OF _ c]) auto
        with False chain_le[OF c] wrap(4) base show ?thesis
          by (auto simp: rb_free_def rb_inv_def)
      qed
    qed
  qed
qed

lemma rb_reach_inv: "rb_reach cap r bs \<Longrightarrow> rb_inv cap r bs"
proof (induction rule: rb_reach.induct)
  case (rb_alloc r bs n a r')
  then show ?case using rb_inv_alloc[of cap r bs n "Some a" r'] by simp
next
  case (rb_full r bs n r')
  then show ?case using rb_inv_alloc[of cap r bs n None r'] by simp
next
  case (rb_clear r bs)
  then show ?case by (auto simp: rb_inv_def rb_clear_def intro: layout_flat)
next
  case (rb_free r a n bs)
  then show ?case by (intro rb_inv_free)
qed (auto simp: rb_inv_def HRingBuf_new_def intro: layout_flat)

lemma layout_blocks:
  assumes "rb_layout cap h t bs" "h < cap" "t < cap"
  shows "sorted_wrt blocks_apart bs \<and> (\<forall>(a, n) \<in> set bs. a + n \<le> cap)"
  using assms(1)
proof (cases rule: rb_layoutE)
  case flat
  then show ?thesis using chain_apart[OF flat] chain_within[OF flat] assms(3) by fastforce
next
  case edge
  then show ?thesis using chain_apart[OF edge(3)] chain_within[OF edge(3)] by fastforce
next
  case (wrap xs ys e)
  have x: "\<And>a n. (a, n) \<in> set xs \<Longrightarrow> h \<le> a \<and> a + n \<le> e" using chain_within[OF wrap(3)] by blast
  have y: "\<And>a n. (a, n) \<in> set ys \<Longrightarrow> a + n \<le> t" using chain_within[OF wrap(6)] by blast
  have "\<forall>p \<in> set xs. \<forall>q \<in> set ys. blocks_apart p q"
    using x y wrap(7) by fastforce
  then have "sorted_wrt blocks_apart bs"
    using chain_apart[OF wrap(3)] chain_apart[OF wrap(6)] by (simp add: wrap(1) sorted_wrt_append)
  moreover have "\<forall>(a, n) \<in> set bs. a + n \<le> cap"
    using x y wrap(4) assms(3) by (fastforce simp: wrap(1))
  ultimately show ?thesis by blast
qed

text \<open>
  C14.  However a client allocates, frees its oldest block and clears, the blocks a ring buffer
  has handed out lie inside its storage and never overlap, its size is the sum of theirs, and a
  failed \<open>alloc\<close> changes nothing.
\<close>

theorem HRingBuf_blocks_disjoint:
  assumes "rb_reach cap r bs"
  shows "sorted_wrt blocks_apart bs \<and> (\<forall>(a, n) \<in> set bs. a + n \<le> cap) \<and>
         rb_size r = sum_list (map snd bs) \<and>
         (\<forall>n. fst (rb_alloc n r) = None \<longrightarrow> snd (rb_alloc n r) = r)"
proof -
  from rb_reach_inv[OF assms] have "rb_layout cap (rb_head r) (rb_tail r) bs" "rb_head r < cap"
    "rb_tail r < cap" "rb_size r = sum_list (map snd bs)" by (simp_all add: rb_inv_def)
  moreover have "fst (rb_alloc n r) = None \<Longrightarrow> snd (rb_alloc n r) = r" for n
    by (auto simp: rb_alloc_def Let_def split: if_splits)
  ultimately show ?thesis using layout_blocks by blast
qed

theorem HRingBuf_blocks_disjoint_witness:
  "\<exists>r. rb_reach 10 r [(6, 3), (0, 4)] \<and> rb_size r = 7 \<and> sorted_wrt blocks_apart [(6, 3), (0, 4)]"
proof -
  let ?r1 = "snd (rb_alloc 6 (HRingBuf_new 10))" and ?r2 = "snd (rb_alloc 3 (snd (rb_alloc 6 (HRingBuf_new 10))))"
  have "rb_reach 10 (HRingBuf_new 10) []" by (rule rb_new) simp
  then have "rb_reach 10 ?r1 ([] @ [(0, 6)])"
    by (rule rb_alloc) (simp_all add: rb_alloc_def HRingBuf_new_def)
  then have "rb_reach 10 ?r2 (([] @ [(0, 6)]) @ [(6, 3)])"
    by (rule rb_alloc) (simp_all add: rb_alloc_def HRingBuf_new_def)
  then have "rb_reach 10 (rb_free 6 ?r2) [(6, 3)]"
    by (intro rb_free[of 10 _ 0 6]) simp
  then have r: "rb_reach 10 (snd (rb_alloc 4 (rb_free 6 ?r2))) ([(6, 3)] @ [(0, 4)])"
    by (rule rb_alloc) (simp_all add: rb_alloc_def rb_free_def HRingBuf_new_def)
  from r HRingBuf_blocks_disjoint[OF r] show ?thesis
    by (intro exI[of _ "snd (rb_alloc 4 (rb_free 6 ?r2))"]) simp
qed

end
