(* ===== verification/HeapH.thy ===== *)
theory HeapH
  imports OrderedMap "HOL-Library.Multiset"
begin

text \<open>
  \<open>base/heap.h\<close>: the binary heap of the timers, a complete binary tree threaded through its nodes
  by parent and child pointers.  A node is its address, the memory maps it to its three
  pointers, \<open>NULL\<close> is \<open>None\<close>.  Reading through \<open>NULL\<close> and a failed assertion are the result
  \<open>None\<close>.  The element count is a natural number; the code keeps it in an \<open>int\<close>, so it is below
  \<open>2 ^ 31\<close>, and so is the path of the last node.
\<close>

section \<open>Nodes and operations\<close>

record heap_node =
  hn_parent :: "nat option"
  hn_left :: "nat option"
  hn_right :: "nat option"

type_synonym node_mem = "nat \<Rightarrow> heap_node"

record heap =
  hp_root :: "nat option"
  hp_nelts :: nat
  hp_compare :: "(nat \<Rightarrow> nat \<Rightarrow> bool) option"

definition heap_init :: "(nat \<Rightarrow> nat \<Rightarrow> bool) option \<Rightarrow> heap" where
  "heap_init fn = \<lparr>hp_root = None, hp_nelts = 0, hp_compare = fn\<rparr>"

text \<open>Writing one pointer of a node, when there is a node.\<close>

definition put_parent :: "nat option \<Rightarrow> nat option \<Rightarrow> node_mem \<Rightarrow> node_mem" where
  "put_parent p v m = (case p of Some a \<Rightarrow> m(a := (m a)\<lparr>hn_parent := v\<rparr>) | None \<Rightarrow> m)"

text \<open>The child pointer of \<open>p\<close> that points to \<open>s\<close>, or the root, is set to \<open>r\<close>.\<close>

definition relink :: "nat option \<Rightarrow> nat \<Rightarrow> nat option \<Rightarrow> heap \<Rightarrow> node_mem \<Rightarrow> heap \<times> node_mem" where
  "relink p s r h m =
     (case p of
        None \<Rightarrow> (h\<lparr>hp_root := r\<rparr>, m)
      | Some a \<Rightarrow>
          if hn_left (m a) = Some s then (h, m(a := (m a)\<lparr>hn_left := r\<rparr>))
          else if hn_right (m a) = Some s then (h, m(a := (m a)\<lparr>hn_right := r\<rparr>))
          else (h, m))"

definition heap_replace :: "heap \<Rightarrow> nat \<Rightarrow> nat option \<Rightarrow> node_mem \<Rightarrow> heap \<times> node_mem" where
  "heap_replace h s r m =
     (let (h, m) = relink (hn_parent (m s)) s r h m;
          m = put_parent (hn_left (m s)) r m;
          m = put_parent (hn_right (m s)) r m
      in (h, case r of None \<Rightarrow> m
                     | Some a \<Rightarrow> m(a := \<lparr>hn_parent = hn_parent (m s), hn_left = hn_left (m s), hn_right = hn_right (m s)\<rparr>)))"

definition heap_swap :: "heap \<Rightarrow> nat \<Rightarrow> nat \<Rightarrow> node_mem \<Rightarrow> (heap \<times> node_mem) option" where
  "heap_swap h parent child m =
     (if hn_parent (m child) = Some parent \<and> (hn_left (m parent) = Some child \<or> hn_right (m parent) = Some child) then
        (let pparent = hn_parent (m parent); lchild = hn_left (m child); rchild = hn_right (m child);
             (h, m) = relink pparent parent (Some child) h m;
             m = put_parent lchild (Some parent) m;
             m = put_parent rchild (Some parent) m;
             (sibling, m) =
               (if hn_left (m parent) = Some child
                then (hn_right (m parent), m(child := \<lparr>hn_parent = pparent, hn_left = Some parent, hn_right = hn_right (m parent)\<rparr>))
                else (hn_left (m parent), m(child := \<lparr>hn_parent = pparent, hn_left = hn_left (m parent), hn_right = Some parent\<rparr>)));
             m = put_parent sibling (Some child) m
         in Some (h, m(parent := \<lparr>hn_parent = Some child, hn_left = lchild, hn_right = rchild\<rparr>)))
      else None)"

text \<open>The path of the last node: its depth, and the turns, the first one in the lowest bit.\<close>

fun path_loop :: "nat \<Rightarrow> nat \<Rightarrow> nat \<Rightarrow> nat \<times> nat" where
  "path_loop d path n = (if n \<ge> 2 then path_loop (d + 1) (2 * path + n mod 2) (n div 2) else (d, path))"

declare path_loop.simps [simp del]

fun walk :: "node_mem \<Rightarrow> nat \<Rightarrow> nat \<Rightarrow> nat option \<Rightarrow> (nat option \<times> nat) option" where
  "walk m d path parent =
     (if d > 1 then
        Option.bind parent (\<lambda>p. walk m (d - 1) (path div 2) (if odd path then hn_right (m p) else hn_left (m p)))
      else Some (parent, path))"

declare walk.simps [simp del]

text \<open>\<open>while (v->parent && compare(v, v->parent)) swap\<close>: it may not end if the pointers form a cycle.\<close>

partial_function (option) sift_up :: "(nat \<Rightarrow> nat \<Rightarrow> bool) \<Rightarrow> heap \<Rightarrow> nat \<Rightarrow> node_mem \<Rightarrow> (heap \<times> node_mem) option" where
  "sift_up lt h v m =
     (case hn_parent (m v) of
        None \<Rightarrow> Some (h, m)
      | Some p \<Rightarrow>
          if lt v p then Option.bind (heap_swap h p v m) (\<lambda>(h, m). sift_up lt h v m)
          else Some (h, m))"

text \<open>The smallest of a node and its children, a child winning against an equal node.\<close>

definition pick_child :: "(nat \<Rightarrow> nat \<Rightarrow> bool) \<Rightarrow> nat \<Rightarrow> nat option \<Rightarrow> nat" where
  "pick_child lt est c = (case c of Some a \<Rightarrow> if lt est a then est else a | None \<Rightarrow> est)"

partial_function (option) sift_down :: "(nat \<Rightarrow> nat \<Rightarrow> bool) \<Rightarrow> heap \<Rightarrow> nat \<Rightarrow> node_mem \<Rightarrow> (heap \<times> node_mem) option" where
  "sift_down lt h v m =
     (let est = pick_child lt (pick_child lt v (hn_left (m v))) (hn_right (m v))
      in if est = v then Some (h, m)
         else Option.bind (heap_swap h v est m) (\<lambda>(h, m). sift_down lt h v m))"

definition heap_insert :: "heap \<Rightarrow> nat \<Rightarrow> node_mem \<Rightarrow> (heap \<times> node_mem) option" where
  "heap_insert h node m =
     (let h = h\<lparr>hp_nelts := hp_nelts h + 1\<rparr>;
          (d, path) = path_loop 0 0 (hp_nelts h)
      in Option.bind (walk m d path (hp_root h)) (\<lambda>(parent, path).
           (let m = m(node := (m node)\<lparr>hn_parent := parent\<rparr>);
                (h, m) = (case parent of
                            None \<Rightarrow> (h\<lparr>hp_root := Some node\<rparr>, m)
                          | Some p \<Rightarrow> (h, if odd path then m(p := (m p)\<lparr>hn_right := Some node\<rparr>)
                                          else m(p := (m p)\<lparr>hn_left := Some node\<rparr>)))
            in case hp_compare h of None \<Rightarrow> Some (h, m) | Some lt \<Rightarrow> sift_up lt h node m)))"

text \<open>Taking the last node out of the tree: the node, if there is one.\<close>

definition take_last :: "nat \<Rightarrow> nat \<Rightarrow> node_mem \<Rightarrow> nat option \<times> node_mem" where
  "take_last parent path m =
     (if odd path then (hn_right (m parent), m(parent := (m parent)\<lparr>hn_right := None\<rparr>))
      else (hn_left (m parent), m(parent := (m parent)\<lparr>hn_left := None\<rparr>)))"

definition heap_remove :: "heap \<Rightarrow> nat \<Rightarrow> node_mem \<Rightarrow> (heap \<times> node_mem) option" where
  "heap_remove h node m =
     (if hp_nelts h = 0 then Some (h, m)
      else (case path_loop 0 0 (hp_nelts h) of
              (d, path) \<Rightarrow>
                (let h = h\<lparr>hp_nelts := hp_nelts h - 1\<rparr>
                 in Option.bind (walk m d path (hp_root h)) (\<lambda>(parent, path).
                      (case parent of
                         None \<Rightarrow> Some (h, m)
                       | Some p \<Rightarrow>
                           (case take_last p path m of
                              (None, m) \<Rightarrow> Some (if hp_root h = Some node then h\<lparr>hp_root := None\<rparr> else h, m)
                            | (Some lst, m) \<Rightarrow>
                                (case heap_replace h node (Some lst) m of
                                   (h, m) \<Rightarrow>
                                     (let m = m(node := \<lparr>hn_parent = None, hn_left = None, hn_right = None\<rparr>)
                                      in case hp_compare h of
                                           None \<Rightarrow> Some (h, m)
                                         | Some lt \<Rightarrow>
                                             Option.bind (sift_down lt h lst m) (\<lambda>(h, m). sift_up lt h lst m)))))))))"

text \<open>Dequeuing reads through the root, which is \<open>NULL\<close> in an empty heap, but then nothing is done.\<close>

definition heap_dequeue :: "heap \<Rightarrow> node_mem \<Rightarrow> (heap \<times> node_mem) option" where
  "heap_dequeue h m = (if hp_nelts h = 0 then Some (h, m) else Option.bind (hp_root h) (\<lambda>r. heap_remove h r m))"

section \<open>The array heap\<close>

text \<open>The complete tree as the list of its nodes, level by level; an index outside has no node.\<close>

definition at :: "'a list \<Rightarrow> nat \<Rightarrow> 'a option" where
  "at xs k = (if k < length xs then Some (xs ! k) else None)"

definition swap_at :: "nat \<Rightarrow> nat \<Rightarrow> 'a list \<Rightarrow> 'a list" where
  "swap_at i j xs = xs[i := xs ! j, j := xs ! i]"

lemma length_swap_at [simp]: "length (swap_at i j xs) = length xs"
  by (simp add: swap_at_def)

lemma nth_swap_at: "i < length xs \<Longrightarrow> j < length xs \<Longrightarrow> k < length xs \<Longrightarrow>
    swap_at i j xs ! k = (if k = i then xs ! j else if k = j then xs ! i else xs ! k)"
  by (auto simp: swap_at_def nth_list_update)

lemma mset_swap_at: "i < length xs \<Longrightarrow> j < length xs \<Longrightarrow> mset (swap_at i j xs) = mset xs"
  by (simp add: swap_at_def mset_swap)

fun array_up :: "('a \<Rightarrow> 'a \<Rightarrow> bool) \<Rightarrow> 'a list \<Rightarrow> nat \<Rightarrow> 'a list" where
  "array_up lt xs i =
     (if 0 < i \<and> lt (xs ! i) (xs ! ((i - 1) div 2)) then array_up lt (swap_at ((i - 1) div 2) i xs) ((i - 1) div 2) else xs)"

declare array_up.simps [simp del]

lemma mset_array_up: "i < length xs \<Longrightarrow> mset (array_up lt xs i) = mset xs"
proof (induction lt xs i rule: array_up.induct)
  case (1 lt xs i)
  have "(i - 1) div 2 < length xs" using 1(2) by linarith
  then show ?case using 1 mset_swap_at[of "(i - 1) div 2" xs i] by (subst array_up.simps) (simp del: One_nat_def)
qed

lemma length_array_up: "length (array_up lt xs i) = length xs"
proof (induction lt xs i rule: array_up.induct)
  case (1 lt xs i)
  then show ?case by (subst array_up.simps) (simp del: One_nat_def)
qed

definition pick_index :: "('a \<Rightarrow> 'a \<Rightarrow> bool) \<Rightarrow> 'a list \<Rightarrow> nat \<Rightarrow> nat \<Rightarrow> nat" where
  "pick_index lt xs e k = (if k < length xs \<and> \<not> lt (xs ! e) (xs ! k) then k else e)"

definition smallest :: "('a \<Rightarrow> 'a \<Rightarrow> bool) \<Rightarrow> 'a list \<Rightarrow> nat \<Rightarrow> nat" where
  "smallest lt xs k = pick_index lt xs (pick_index lt xs k (2 * k + 1)) (2 * k + 2)"

lemma smallest_cases: "smallest lt xs k = k \<or> (smallest lt xs k \<in> {2 * k + 1, 2 * k + 2} \<and> smallest lt xs k < length xs)"
  by (auto simp: smallest_def pick_index_def)

function array_down :: "('a \<Rightarrow> 'a \<Rightarrow> bool) \<Rightarrow> 'a list \<Rightarrow> nat \<Rightarrow> 'a list \<times> nat" where
  "array_down lt xs k =
     (if smallest lt xs k = k then (xs, k) else array_down lt (swap_at k (smallest lt xs k) xs) (smallest lt xs k))"
  by pat_completeness auto
termination
proof (relation "measure (\<lambda>(lt, xs, k). length xs - k)")
  fix lt :: "'a \<Rightarrow> 'a \<Rightarrow> bool" and xs k
  assume "smallest lt xs k \<noteq> k"
  then show "((lt, swap_at k (smallest lt xs k) xs, smallest lt xs k), lt, xs, k) \<in> measure (\<lambda>(lt, xs, k). length xs - k)"
    using smallest_cases[of lt xs k] by auto
qed simp

declare array_down.simps [simp del]

lemma array_down_index: "array_down lt xs k = (ys, j) \<Longrightarrow> k < length xs \<Longrightarrow> j < length ys \<and> ys ! j = xs ! k \<and> mset ys = mset xs"
proof (induction lt xs k rule: array_down.induct)
  case (1 lt xs k)
  have "smallest lt xs k < length xs" using 1(3) smallest_cases[of lt xs k] by auto
  then show ?case
    using 1 by (cases "smallest lt xs k = k") (auto simp: array_down.simps[of lt xs k] mset_swap_at nth_swap_at)
qed

definition array_insert :: "('a \<Rightarrow> 'a \<Rightarrow> bool) \<Rightarrow> 'a list \<Rightarrow> 'a \<Rightarrow> 'a list" where
  "array_insert lt xs x = array_up lt (xs @ [x]) (length xs)"

definition array_remove :: "('a \<Rightarrow> 'a \<Rightarrow> bool) \<Rightarrow> 'a list \<Rightarrow> nat \<Rightarrow> 'a list" where
  "array_remove lt xs k =
     (if k = length xs - 1 then butlast xs
      else case array_down lt ((butlast xs)[k := last xs]) k of (ys, j) \<Rightarrow> array_up lt ys j)"

section \<open>The pointers represent the array\<close>

definition node_at :: "nat list \<Rightarrow> nat \<Rightarrow> heap_node" where
  "node_at xs k = \<lparr>hn_parent = (if k = 0 then None else Some (xs ! ((k - 1) div 2))),
     hn_left = at xs (2 * k + 1), hn_right = at xs (2 * k + 2)\<rparr>"

definition rep :: "node_mem \<Rightarrow> nat list \<Rightarrow> bool" where
  "rep m xs \<longleftrightarrow> distinct xs \<and> (\<forall>k < length xs. m (xs ! k) = node_at xs k)"

definition heap_rep :: "heap \<Rightarrow> node_mem \<Rightarrow> nat list \<Rightarrow> bool" where
  "heap_rep h m xs \<longleftrightarrow> hp_root h = at xs 0 \<and> hp_nelts h = length xs \<and> rep m xs"

lemma index_cases: "(0 :: nat) < i \<Longrightarrow> i = 2 * ((i - 1) div 2) + 1 \<or> i = 2 * ((i - 1) div 2) + 2"
  by presburger

lemma put_parent_at: "put_parent (at xs j) v m = (if j < length xs then m(xs ! j := (m (xs ! j))\<lparr>hn_parent := v\<rparr>) else m)"
  by (simp add: put_parent_def at_def)

lemma put_parent_out: "a \<notin> set xs \<Longrightarrow> put_parent (at xs j) v m a = m a"
  by (auto simp: put_parent_at)

lemma heap_swap_eq:
  assumes "hn_parent (m c) = Some q" "relink (hn_parent (m q)) q (Some c) h m = (h1, m1)"
    and "put_parent (hn_right (m c)) (Some q) (put_parent (hn_left (m c)) (Some q) m1) = m3" "m3 q = m q"
  shows "hn_left (m q) = Some c \<Longrightarrow> heap_swap h q c m = Some (h1,
      (put_parent (hn_right (m q)) (Some c) (m3(c := \<lparr>hn_parent = hn_parent (m q), hn_left = Some q, hn_right = hn_right (m q)\<rparr>)))
      (q := \<lparr>hn_parent = Some c, hn_left = hn_left (m c), hn_right = hn_right (m c)\<rparr>))"
    and "hn_left (m q) \<noteq> Some c \<Longrightarrow> hn_right (m q) = Some c \<Longrightarrow> heap_swap h q c m = Some (h1,
      (put_parent (hn_left (m q)) (Some c) (m3(c := \<lparr>hn_parent = hn_parent (m q), hn_left = hn_left (m q), hn_right = Some q\<rparr>)))
      (q := \<lparr>hn_parent = Some c, hn_left = hn_left (m c), hn_right = hn_right (m c)\<rparr>))"
  using assms by (simp_all add: heap_swap_def Let_def)

text \<open>The pointers of a node around a swap, from the changes made to it.\<close>

lemma node_links:
  assumes "\<not> (S \<and> C)" "k = 0 \<longrightarrow> \<not> S \<and> \<not> C" "\<not> (L \<and> R)"
    and "X = (if L then (node_at xs k)\<lparr>hn_left := c\<rparr> else if R then (node_at xs k)\<lparr>hn_right := c\<rparr> else node_at xs k)"
    and "Y = (if C then X\<lparr>hn_parent := q\<rparr> else X)"
  shows "(if S then Y\<lparr>hn_parent := c\<rparr> else Y) =
    \<lparr>hn_parent = (if k = 0 then None else if S then c else if C then q else Some (xs ! ((k - 1) div 2))),
     hn_left = (if L then c else at xs (2 * k + 1)), hn_right = (if R then c else at xs (2 * k + 2))\<rparr>"
  using assms(1-3) unfolding assms(4,5) by (cases "k = 0"; cases S; cases C; cases L; cases R; simp add: node_at_def)

lemma rep_nth:
  "rep m xs \<Longrightarrow> k < length xs \<Longrightarrow> m (xs ! k) = node_at xs k"
  "rep m xs \<Longrightarrow> j < length xs \<Longrightarrow> k < length xs \<Longrightarrow> (xs ! j = xs ! k) = (j = k)"
  by (auto simp: rep_def nth_eq_iff_index_eq)

text \<open>The link from above: the node with the index \<open>g\<close>, of which the node \<open>p\<close> is a child.\<close>

lemma relink_rep:
  assumes r: "rep m xs" and p: "p < length xs" and g: "p = 0 \<or> p = 2 * g + 1 \<or> p = 2 * g + 2"
  obtains m1 where "relink (hn_parent (m (xs ! p))) (xs ! p) (Some c) h m = (if p = 0 then h\<lparr>hp_root := Some c\<rparr> else h, m1)"
    and "\<And>k. k < length xs \<Longrightarrow> m1 (xs ! k) = (if p \<noteq> 0 \<and> k = g \<and> p = 2 * g + 1 then (node_at xs k)\<lparr>hn_left := Some c\<rparr>
      else if p \<noteq> 0 \<and> k = g \<and> p = 2 * g + 2 then (node_at xs k)\<lparr>hn_right := Some c\<rparr> else node_at xs k)"
    and "\<And>a. a \<notin> set xs \<Longrightarrow> m1 a = m a"
proof -
  note M = rep_nth[OF r]
  define m1 where "m1 = (if p = 0 then m else if p = 2 * g + 1 then m(xs ! g := (node_at xs g)\<lparr>hn_left := Some c\<rparr>)
     else m(xs ! g := (node_at xs g)\<lparr>hn_right := Some c\<rparr>))"
  have "relink (hn_parent (m (xs ! p))) (xs ! p) (Some c) h m = (if p = 0 then h\<lparr>hp_root := Some c\<rparr> else h, m1)"
    using g p by (elim disjE; simp add: M relink_def node_at_def m1_def at_def)
  moreover have "m1 a = m a" if "a \<notin> set xs" for a using that g p nth_mem[of g xs] by (auto simp: m1_def)
  moreover have "m1 (xs ! k) = (if p \<noteq> 0 \<and> k = g \<and> p = 2 * g + 1 then (node_at xs k)\<lparr>hn_left := Some c\<rparr>
      else if p \<noteq> 0 \<and> k = g \<and> p = 2 * g + 2 then (node_at xs k)\<lparr>hn_right := Some c\<rparr> else node_at xs k)"
    if "k < length xs" for k
    using that g p by (auto simp: m1_def M)
  ultimately show thesis using that by blast
qed

lemma children_rep:
  assumes "rep m xs"
  shows "k < length xs \<Longrightarrow> put_parent (at xs (2 * i + 2)) v (put_parent (at xs (2 * i + 1)) v m1) (xs ! k) =
      (if k = 2 * i + 1 \<or> k = 2 * i + 2 then (m1 (xs ! k))\<lparr>hn_parent := v\<rparr> else m1 (xs ! k))"
    and "a \<notin> set xs \<Longrightarrow> put_parent (at xs (2 * i + 2)) v (put_parent (at xs (2 * i + 1)) v m1) a = m1 a"
  by (auto simp: put_parent_at rep_nth[OF assms])

lemma parent_index: "0 < k \<Longrightarrow> ((k - 1) div 2 = j) = (k = 2 * j + 1 \<or> k = 2 * j + 2)" for k j :: nat
  by presburger

lemma child_index:
  fixes p k g :: nat
  assumes "p = 0 \<or> p = 2 * g + 1 \<or> p = 2 * g + 2"
  shows "(2 * k + 1 = p) = (p \<noteq> 0 \<and> k = g \<and> p = 2 * g + 1)" "(2 * k + 2 = p) = (p \<noteq> 0 \<and> k = g \<and> p = 2 * g + 2)"
  using assms by presburger+

text \<open>A node away from a swap has the links that were written.\<close>

lemma node_at_swap:
  assumes p: "p < i" "i < length xs" and i: "i = 2 * p + 1 \<or> i = 2 * p + 2" and g: "p = 0 \<or> p = 2 * g + 1 \<or> p = 2 * g + 2"
    and k: "k < length xs" "k \<noteq> p" "k \<noteq> i"
  shows "node_at (swap_at p i xs) k =
     \<lparr>hn_parent = (if k = 0 then None else if k = 2 * p + 1 \<or> k = 2 * p + 2 then Some (xs ! i)
        else if k = 2 * i + 1 \<or> k = 2 * i + 2 then Some (xs ! p) else Some (xs ! ((k - 1) div 2))),
      hn_left = (if p \<noteq> 0 \<and> k = g \<and> p = 2 * g + 1 then Some (xs ! i) else at xs (2 * k + 1)),
      hn_right = (if p \<noteq> 0 \<and> k = g \<and> p = 2 * g + 2 then Some (xs ! i) else at xs (2 * k + 2))\<rparr>"
proof -
  have "2 * k + 1 \<noteq> i" "2 * k + 2 \<noteq> i" using i k(2) by presburger+
  then have "at (swap_at p i xs) (2 * k + 1) = (if 2 * k + 1 = p then Some (xs ! i) else at xs (2 * k + 1))"
    "at (swap_at p i xs) (2 * k + 2) = (if 2 * k + 2 = p then Some (xs ! i) else at xs (2 * k + 2))"
    using p by (auto simp: at_def nth_swap_at)
  moreover have "hn_parent (node_at (swap_at p i xs) k) = (if k = 0 then None else if k = 2 * p + 1 \<or> k = 2 * p + 2 then Some (xs ! i)
      else if k = 2 * i + 1 \<or> k = 2 * i + 2 then Some (xs ! p) else Some (xs ! ((k - 1) div 2)))"
    using k p parent_index[of k] by (simp add: node_at_def nth_swap_at)
  ultimately show ?thesis unfolding child_index[OF g] by (simp add: node_at_def)
qed

text \<open>The memory after a swap; \<open>s\<close> is the index of the sibling.\<close>

lemma swap_links:
  assumes r: "rep m xs" and p: "p < i" "i < length xs" "i = 2 * p + 1 \<or> i = 2 * p + 2"
    and g: "p = 0 \<or> p = 2 * g + 1 \<or> p = 2 * g + 2" and s: "s = (if i = 2 * p + 1 then 2 * p + 2 else 2 * p + 1)"
    and m1: "\<And>k. k < length xs \<Longrightarrow> m1 (xs ! k) = (if p \<noteq> 0 \<and> k = g \<and> p = 2 * g + 1 then (node_at xs k)\<lparr>hn_left := Some (xs ! i)\<rparr>
      else if p \<noteq> 0 \<and> k = g \<and> p = 2 * g + 2 then (node_at xs k)\<lparr>hn_right := Some (xs ! i)\<rparr> else node_at xs k)"
    and m3: "m3 = put_parent (at xs (2 * i + 2)) (Some (xs ! p)) (put_parent (at xs (2 * i + 1)) (Some (xs ! p)) m1)"
    and m6: "m6 = (put_parent (at xs s) (Some (xs ! i)) (m3(xs ! i := \<lparr>hn_parent = hn_parent (node_at xs p),
        hn_left = (if i = 2 * p + 1 then Some (xs ! p) else at xs s), hn_right = (if i = 2 * p + 1 then at xs s else Some (xs ! p))\<rparr>)))
        (xs ! p := \<lparr>hn_parent = Some (xs ! i), hn_left = at xs (2 * i + 1), hn_right = at xs (2 * i + 2)\<rparr>)"
    and k: "k < length xs"
  shows "m6 (swap_at p i xs ! k) = node_at (swap_at p i xs) k"
proof -
  note inj = rep_nth(2)[OF r]
  have nth: "swap_at p i xs ! k = (if k = p then xs ! i else if k = i then xs ! p else xs ! k)" if "k < length xs" for k
    using that p by (simp add: nth_swap_at)
  have at: "at (swap_at p i xs) k = (if k = p then Some (xs ! i) else if k = i then Some (xs ! p) else at xs k)" for k
    using p by (auto simp: at_def nth)
  have sp: "s \<noteq> p" "s \<noteq> i" using s p by auto
  consider "k = p" | "k = i" | "k \<noteq> p" "k \<noteq> i" by blast
  then show ?thesis
  proof cases
    case 1
    have "0 < p \<Longrightarrow> (p - 1) div 2 < p" by linarith
    then show ?thesis using 1 p sp s k by (auto simp: nth m6 put_parent_at inj node_at_def at)
  next
    case 2
    have "(i - 1) div 2 = p" using p(3) by auto
    then show ?thesis using 2 p k by (auto simp: nth m6 node_at_def at)
  next
    case 3
    have A: "m6 (xs ! k) = (if k = s then (m3 (xs ! k))\<lparr>hn_parent := Some (xs ! i)\<rparr> else m3 (xs ! k))"
      using 3 k p sp by (simp add: m6 put_parent_at inj)
    have B: "\<not> (k = s \<and> (k = 2 * i + 1 \<or> k = 2 * i + 2))" using p(3) s by auto
    have C: "(k = 2 * p + 1 \<or> k = 2 * p + 2) = (k = s)" using 3 p(3) s by auto
    show ?thesis
      unfolding nth[OF k, simplified 3 if_False] node_at_swap[OF p g k 3] A C m3 children_rep(1)[OF r k] m1[OF k]
      by (rule node_links[OF B _ _ refl refl]) (use s in auto)
  qed
qed

lemma heap_swap_rep:
  assumes r: "rep m xs" and "hp_root h = at xs 0" "0 < i" "i < length xs" "p = (i - 1) div 2"
  shows "\<exists>m'. heap_swap h (xs ! p) (xs ! i) m = Some (h\<lparr>hp_root := at (swap_at p i xs) 0\<rparr>, m') \<and>
    rep m' (swap_at p i xs) \<and> (\<forall>a. a \<notin> set xs \<longrightarrow> m' a = m a)"
proof -
  have p: "p < i" "p < length xs" and i: "i = 2 * p + 1 \<or> i = 2 * p + 2" using assms(3-5) index_cases[of i] by auto
  let ?ys = "swap_at p i xs" and ?s = "if i = 2 * p + 1 then 2 * p + 2 else 2 * p + 1"
  obtain g where g: "p = 0 \<or> p = 2 * g + 1 \<or> p = 2 * g + 2" using index_cases[of p] by auto
  have root: "h\<lparr>hp_root := at ?ys 0\<rparr> = (if p = 0 then h\<lparr>hp_root := Some (xs ! i)\<rparr> else h)"
    using assms(2,4) p by (cases xs) (auto simp: at_def nth_swap_at)
  obtain m1 where R: "relink (hn_parent (m (xs ! p))) (xs ! p) (Some (xs ! i)) h m =
      (if p = 0 then h\<lparr>hp_root := Some (xs ! i)\<rparr> else h, m1)"
    and m1: "\<And>k. k < length xs \<Longrightarrow> m1 (xs ! k) = (if p \<noteq> 0 \<and> k = g \<and> p = 2 * g + 1 then (node_at xs k)\<lparr>hn_left := Some (xs ! i)\<rparr>
      else if p \<noteq> 0 \<and> k = g \<and> p = 2 * g + 2 then (node_at xs k)\<lparr>hn_right := Some (xs ! i)\<rparr> else node_at xs k)"
    and out: "\<And>a. a \<notin> set xs \<Longrightarrow> m1 a = m a"
    by (rule relink_rep[OF r p(2) g, where h = h]) (rule that)
  define m3 where m3: "m3 = put_parent (at xs (2 * i + 2)) (Some (xs ! p)) (put_parent (at xs (2 * i + 1)) (Some (xs ! p)) m1)"
  define m6 where m6: "m6 = (put_parent (at xs ?s) (Some (xs ! i)) (m3(xs ! i := \<lparr>hn_parent = hn_parent (node_at xs p),
        hn_left = (if i = 2 * p + 1 then Some (xs ! p) else at xs ?s), hn_right = (if i = 2 * p + 1 then at xs ?s else Some (xs ! p))\<rparr>)))
        (xs ! p := \<lparr>hn_parent = Some (xs ! i), hn_left = at xs (2 * i + 1), hn_right = at xs (2 * i + 2)\<rparr>)"
  note L = swap_links[OF r p(1) assms(4) i g refl m1 m3 m6]
  have "mset ?ys = mset xs" using p assms(4) by (intro mset_swap_at)
  then have D: "distinct ?ys" using r mset_eq_imp_distinct_iff by (auto simp: rep_def)
  have m3p: "m3 (xs ! p) = m (xs ! p)" unfolding m3 children_rep(1)[OF r p(2)] m1[OF p(2)] rep_nth(1)[OF r p(2)] using p by auto
  have c: "hn_parent (m (xs ! i)) = Some (xs ! p)" "hn_left (m (xs ! i)) = at xs (2 * i + 1)" "hn_right (m (xs ! i)) = at xs (2 * i + 2)"
    and q: "hn_left (m (xs ! p)) = at xs (2 * p + 1)" "hn_right (m (xs ! p)) = at xs (2 * p + 2)"
    using assms(3-5) p by (simp_all add: rep_nth(1)[OF r] node_at_def)
  have "put_parent (hn_right (m (xs ! i))) (Some (xs ! p)) (put_parent (hn_left (m (xs ! i))) (Some (xs ! p)) m1) = m3"
    by (simp only: c m3)
  note E = heap_swap_eq[OF c(1) R[folded root] this m3p]
  have "heap_swap h (xs ! p) (xs ! i) m = Some (h\<lparr>hp_root := at ?ys 0\<rparr>, m6)"
    using E assms(4) i unfolding m6 rep_nth(1)[OF r p(2), symmetric] c q by (elim disjE) (auto simp: at_def rep_nth(2)[OF r])
  moreover have "m6 a = m a" if "a \<notin> set xs" for a
  proof -
    have "a \<noteq> xs ! p" "a \<noteq> xs ! i" using that p(2) assms(4) by auto
    then have "m6 a = m3 a" unfolding m6 by (simp add: put_parent_out[OF that])
    then show ?thesis unfolding m3 children_rep(2)[OF r that] out[OF that] .
  qed
  ultimately show ?thesis using D L by (intro exI[of _ m6]) (simp add: rep_def)
qed

section \<open>Sifting\<close>

lemma set_swap_at: "i < length xs \<Longrightarrow> j < length xs \<Longrightarrow> set (swap_at i j xs) = set xs"
  using mset_swap_at by (metis set_mset_mset)

lemma root_same: "hp_root h = r \<Longrightarrow> h\<lparr>hp_root := r\<rparr> = h"
  by simp

text \<open>Both loops on the pointers return, and do what the loops on the array do.\<close>

lemma sift_up_rep:
  assumes "rep m xs" "hp_root h = at xs 0" "i < length xs"
  shows "\<exists>m'. sift_up lt h (xs ! i) m = Some (h\<lparr>hp_root := at (array_up lt xs i) 0\<rparr>, m') \<and>
    rep m' (array_up lt xs i) \<and> (\<forall>a. a \<notin> set xs \<longrightarrow> m' a = m a)"
  using assms
proof (induction lt xs i arbitrary: h m rule: array_up.induct)
  case (1 lt xs i)
  let ?p = "(i - 1) div 2"
  have P: "hn_parent (m (xs ! i)) = (if i = 0 then None else Some (xs ! ?p))"
    using 1(2,4) by (simp add: rep_def node_at_def)
  show ?case
  proof (cases "0 < i \<and> lt (xs ! i) (xs ! ?p)")
    case True
    then obtain m1 where m1: "heap_swap h (xs ! ?p) (xs ! i) m = Some (h\<lparr>hp_root := at (swap_at ?p i xs) 0\<rparr>, m1)"
      "rep m1 (swap_at ?p i xs)" "\<forall>a. a \<notin> set xs \<longrightarrow> m1 a = m a"
      using heap_swap_rep[OF 1(2,3) _ 1(4) refl] by blast
    have p: "?p < length xs" using 1(4) by linarith
    then have v: "swap_at ?p i xs ! ?p = xs ! i" using 1(4) by (simp add: nth_swap_at)
    from 1(1)[OF True m1(2), of "h\<lparr>hp_root := at (swap_at ?p i xs) 0\<rparr>"] p obtain m2 where
      "sift_up lt (h\<lparr>hp_root := at (swap_at ?p i xs) 0\<rparr>) (xs ! i) m1 =
         Some (h\<lparr>hp_root := at (array_up lt (swap_at ?p i xs) ?p) 0\<rparr>, m2)"
      "rep m2 (array_up lt (swap_at ?p i xs) ?p)" "\<forall>a. a \<notin> set xs \<longrightarrow> m2 a = m1 a"
      using set_swap_at[OF p 1(4)] by (auto simp: v simp del: One_nat_def)
    then show ?thesis
      using True P m1 by (subst sift_up.simps, subst (1 2) array_up.simps) (simp del: One_nat_def)
  next
    case False
    then show ?thesis
      using P 1(2,3) by (subst sift_up.simps, subst (1 2) array_up.simps) (auto simp: root_same)
  qed
qed

lemma pick_child_index:
  assumes "distinct xs" "e < length xs" "k < length xs \<Longrightarrow> k \<noteq> e"
  shows "pick_child lt (xs ! e) (at xs k) = xs ! pick_index lt xs e k" "pick_index lt xs e k < length xs"
  using assms by (auto simp: pick_child_def at_def pick_index_def)

lemma sift_down_rep:
  assumes "rep m xs" "hp_root h = at xs 0" "k < length xs" "array_down lt xs k = (ys, j)"
  shows "\<exists>m'. sift_down lt h (xs ! k) m = Some (h\<lparr>hp_root := at ys 0\<rparr>, m') \<and> rep m' ys \<and>
    (\<forall>a. a \<notin> set xs \<longrightarrow> m' a = m a) \<and> j < length ys \<and> ys ! j = xs ! k \<and> mset ys = mset xs"
  using assms
proof (induction lt xs k arbitrary: h m rule: array_down.induct)
  case (1 lt xs k)
  let ?e = "smallest lt xs k" and ?c = "pick_index lt xs k (2 * k + 1)"
  have d: "distinct xs" using 1(2) by (simp add: rep_def)
  have L: "hn_left (m (xs ! k)) = at xs (2 * k + 1)" "hn_right (m (xs ! k)) = at xs (2 * k + 2)"
    using 1(2,4) by (simp_all add: rep_def node_at_def)
  note c = pick_child_index[OF d 1(4), of "2 * k + 1" lt]
  have "2 * k + 2 \<noteq> ?c" by (simp add: pick_index_def)
  then have E: "pick_child lt (pick_child lt (xs ! k) (hn_left (m (xs ! k)))) (hn_right (m (xs ! k))) = xs ! ?e"
    and e: "?e < length xs"
    using c pick_child_index[OF d c(2), of "2 * k + 2" lt] by (simp_all add: L smallest_def)
  have eq: "(xs ! ?e = xs ! k) = (?e = k)" using d e 1(4) nth_eq_iff_index_eq by blast
  show ?case
  proof (cases "?e = k")
    case True
    then have "ys = xs" "j = k" using 1(5) by (simp_all add: array_down.simps[of lt xs k])
    then show ?thesis
      using True E 1(2,3,4) by (subst sift_down.simps) (auto simp: root_same)
  next
    case False
    then have p: "k = (?e - 1) div 2" "0 < ?e" using smallest_cases[of lt xs k] by auto
    obtain m1 where m1: "heap_swap h (xs ! k) (xs ! ?e) m = Some (h\<lparr>hp_root := at (swap_at k ?e xs) 0\<rparr>, m1)"
      "rep m1 (swap_at k ?e xs)" "\<forall>a. a \<notin> set xs \<longrightarrow> m1 a = m a"
      using heap_swap_rep[OF 1(2,3) p(2) e p(1)] by blast
    have v: "swap_at k ?e xs ! ?e = xs ! k" using e 1(4) by (simp add: nth_swap_at)
    have dn: "array_down lt (swap_at k ?e xs) ?e = (ys, j)" using 1(5) False by (simp add: array_down.simps[of lt xs k])
    from 1(1)[OF False m1(2) _ _ dn, of "h\<lparr>hp_root := at (swap_at k ?e xs) 0\<rparr>"] e obtain m2 where
      "sift_down lt (h\<lparr>hp_root := at (swap_at k ?e xs) 0\<rparr>) (xs ! k) m1 = Some (h\<lparr>hp_root := at ys 0\<rparr>, m2)"
      "rep m2 ys" "\<forall>a. a \<notin> set xs \<longrightarrow> m2 a = m1 a" "j < length ys" "ys ! j = xs ! k" "mset ys = mset xs"
      using set_swap_at[OF 1(4) e] mset_swap_at[OF 1(4) e] by (auto simp: v)
    then show ?thesis
      using False E eq m1 by (subst sift_down.simps) simp
  qed
qed

section \<open>The last node\<close>

text \<open>The number of the node (the root is 1) that \<open>d\<close> turns from number \<open>v\<close> lead to.\<close>

fun turns :: "nat \<Rightarrow> nat \<Rightarrow> nat \<Rightarrow> nat" where
  "turns 0 path v = v"
| "turns (Suc d) path v = turns d (path div 2) (2 * v + path mod 2)"

lemma path_loop_turns:
  "1 \<le> n \<Longrightarrow> path_loop d path n = (d', path') \<Longrightarrow> turns d' path' 1 = turns d path n"
proof (induction d path n rule: path_loop.induct)
  case (1 d path n)
  show ?case
  proof (cases "n \<ge> 2")
    case True
    then have "turns d' path' 1 = turns (d + 1) (2 * path + n mod 2) (n div 2)"
      using 1 by (auto simp: path_loop.simps[of d path n])
    moreover have "(2 * path + n mod 2) div 2 = path" "(2 * path + n mod 2) mod 2 = n mod 2" by presburger+
    moreover have "2 * (n div 2) + n mod 2 = n" by presburger
    ultimately show ?thesis by simp
  next
    case False
    then have "n = 1" using 1(2) by simp
    then show ?thesis using 1(3) by (simp add: path_loop.simps[of d path "Suc 0"])
  qed
qed

lemma turns_grow: "2 ^ d * v \<le> turns d path v"
proof (induction d path v rule: turns.induct)
  case (2 d path v)
  have "2 ^ Suc d * v \<le> 2 ^ d * (2 * v + path mod 2)" by (simp add: algebra_simps)
  from order.trans[OF this 2] show ?case by simp
qed simp

lemma walk_rep:
  assumes "rep m xs" "1 \<le> v" "v \<le> length xs" "1 \<le> d" "turns d path v \<le> length xs + 1"
  shows "\<exists>path'. walk m d path (Some (xs ! (v - 1))) = Some (Some (xs ! (turns d path v div 2 - 1)), path') \<and>
    odd path' = odd (turns d path v)"
  using assms(2-5)
proof (induction d arbitrary: path v)
  case (Suc d)
  show ?case
  proof (cases "d = 0")
    case True
    have "(2 * v + path mod 2) div 2 = v" "odd (2 * v + path mod 2) = odd path" by presburger+
    then show ?thesis using True by (simp add: walk.simps[of m "Suc 0"])
  next
    case False
    let ?c = "2 * v + path mod 2"
    have "(2::nat) \<le> 2 ^ d" using False by (cases d) simp_all
    from mult_le_mono1[OF this, of ?c] have "2 * ?c \<le> 2 ^ d * ?c" .
    also have "\<dots> \<le> length xs + 1" using turns_grow[of d ?c "path div 2"] Suc.prems(4) by simp
    finally have "2 * ?c \<le> length xs + 1" .
    moreover have "2 \<le> ?c" using Suc.prems(1) by simp
    ultimately have c: "?c \<le> length xs" "1 \<le> ?c" by simp_all
    have "m (xs ! (v - 1)) = node_at xs (v - 1)" using assms(1) Suc.prems(1,2) by (simp add: rep_def)
    then have link: "(if odd path then hn_right (m (xs ! (v - 1))) else hn_left (m (xs ! (v - 1)))) = Some (xs ! (?c - 1))"
    proof (cases "odd path")
      case True
      then have "2 * (v - 1) + 2 = ?c - 1" using Suc.prems(1) by (simp add: odd_iff_mod_2_eq_one)
      moreover have "?c - 1 < length xs" using c by simp
      ultimately show ?thesis using True \<open>m (xs ! (v - 1)) = node_at xs (v - 1)\<close> by (simp add: node_at_def at_def)
    next
      case False
      then have "2 * (v - 1) + 1 = ?c - 1" using Suc.prems(1) by (simp add: even_iff_mod_2_eq_zero)
      moreover have "?c - 1 < length xs" using c by simp
      ultimately show ?thesis using False \<open>m (xs ! (v - 1)) = node_at xs (v - 1)\<close> by (simp add: node_at_def at_def)
    qed
    have "\<exists>path'. walk m d (path div 2) (Some (xs ! (?c - 1))) =
        Some (Some (xs ! (turns d (path div 2) ?c div 2 - 1)), path') \<and> odd path' = odd (turns d (path div 2) ?c)"
      using Suc.prems(4) c False by (intro Suc.IH) auto
    moreover have W: "walk m (Suc d) path (Some (xs ! (v - 1))) =
        walk m d (path div 2) (if odd path then hn_right (m (xs ! (v - 1))) else hn_left (m (xs ! (v - 1))))"
      using False by (subst walk.simps) simp
    ultimately show ?thesis unfolding W link turns.simps(2) by simp
  qed
qed simp

text \<open>The walk that \<open>heap_insert\<close> and \<open>heap_remove\<close> do for the \<open>n\<close>-th node.\<close>

lemma walk_last:
  assumes "rep m xs" "2 \<le> n" "n \<le> length xs + 1" "path_loop 0 0 n = (d, path)"
  shows "\<exists>path'. walk m d path (at xs 0) = Some (Some (xs ! (n div 2 - 1)), path') \<and> odd path' = odd n"
proof -
  have t: "turns d path 1 = n" using path_loop_turns[of n 0 0 d path] assms(2,4) by simp
  have "1 \<le> d" using t assms(2) by (cases d) simp_all
  moreover have "at xs 0 = Some (xs ! (1 - 1))" using assms(2,3) by (cases xs) (simp_all add: at_def)
  ultimately show ?thesis using walk_rep[OF assms(1), of 1 d path] t assms(2,3) by auto
qed

lemma path_loop_1: "path_loop 0 0 (Suc 0) = (0, 0)"
  by (simp add: path_loop.simps)

lemma at_append: "at (xs @ [x]) k = (if k = length xs then Some x else at xs k)"
  by (auto simp: at_def nth_append)

text \<open>Hanging a node behind the last one.\<close>

lemma append_rep:
  assumes "rep m xs" "x \<notin> set xs" "xs \<noteq> []" "q = (length xs + 1) div 2 - 1" "hn_left (m x) = None" "hn_right (m x) = None"
    and "odd b = odd (length xs + 1)" "m1 = m(x := (m x)\<lparr>hn_parent := Some (xs ! q)\<rparr>)"
  shows "rep (if odd b then m1(xs ! q := (m1 (xs ! q))\<lparr>hn_right := Some x\<rparr>) else m1(xs ! q := (m1 (xs ! q))\<lparr>hn_left := Some x\<rparr>)) (xs @ [x])"
    (is "rep ?m (xs @ [x])")
proof -
  have d: "distinct xs" and M: "\<And>k. k < length xs \<Longrightarrow> m (xs ! k) = node_at xs k" using assms(1) by (simp_all add: rep_def)
  have q: "q < length xs" using assms(3,4) by (cases xs) auto
  have pos: "0 < length xs" using assms(3) by simp
  have links: "(2 * q + 1 = length xs) = even b" "(2 * q + 2 = length xs) = odd b"
    using pos assms(4,7) by presburger+
  have "?m ((xs @ [x]) ! k) = node_at (xs @ [x]) k" if k: "k < length xs" for k
  proof -
    have x: "xs ! k \<noteq> x" "xs ! q \<noteq> x" using k q assms(2) by auto
    have par: "0 < k \<Longrightarrow> (k - 1) div 2 < length xs" using k by linarith
    have own: "(2 * k + 1 = length xs) = (k = q \<and> even b)" "(2 * k + 2 = length xs) = (k = q \<and> odd b)"
      using links by (cases "even b"; simp; presburger)+
    show ?thesis
      using k q x d par links by (auto simp: assms(8) M node_at_def nth_append at_append nth_eq_iff_index_eq own)
  qed
  moreover have "?m x = node_at (xs @ [x]) (length xs)"
  proof -
    have x: "x \<noteq> xs ! q" using q assms(2) by auto
    have "(length xs - 1) div 2 = q" using assms(3,4) by (cases xs) auto
    then show ?thesis using x assms(3,5,6) q by (simp add: assms(8) node_at_def nth_append at_def)
  qed
  ultimately show ?thesis using d assms(2) by (auto simp: rep_def nth_append less_Suc_eq)
qed

section \<open>The operations on the pointers are the operations on the array\<close>

lemma rep_out: "rep m xs \<Longrightarrow> (\<And>a. a \<in> set xs \<Longrightarrow> m' a = m a) \<Longrightarrow> rep m' xs"
  by (simp add: rep_def)

lemma heap_insert_rep:
  assumes "heap_rep h m xs" "hp_compare h = Some lt" "x \<notin> set xs" "hn_left (m x) = None" "hn_right (m x) = None"
  shows "\<exists>h' m'. heap_insert h x m = Some (h', m') \<and> heap_rep h' m' (array_insert lt xs x) \<and> hp_compare h' = Some lt \<and>
    (\<forall>a. a \<notin> insert x (set xs) \<longrightarrow> m' a = m a)"
proof -
  have r: "rep m xs" and root: "hp_root h = at xs 0" and n: "hp_nelts h = length xs"
    using assms(1) by (simp_all add: heap_rep_def)
  let ?h = "h\<lparr>hp_nelts := length xs + 1, hp_root := at (xs @ [x]) 0\<rparr>"
  have "\<exists>m1. heap_insert h x m = sift_up lt ?h x m1 \<and> rep m1 (xs @ [x]) \<and> (\<forall>a. a \<notin> insert x (set xs) \<longrightarrow> m1 a = m a)"
  proof (cases "xs = []")
    case True
    let ?m = "m(x := (m x)\<lparr>hn_parent := None\<rparr>)"
    have "heap_insert h x m = sift_up lt ?h x ?m"
      using True root n assms(2) by (simp add: heap_insert_def path_loop_1 walk.simps at_def)
    moreover have "rep ?m (xs @ [x])" using True assms(4,5) by (simp add: rep_def node_at_def at_def)
    ultimately show ?thesis by (intro exI[of _ ?m]) auto
  next
    case False
    let ?n = "length xs + 1" and ?q = "(length xs + 1) div 2 - 1"
    obtain d path where P: "path_loop 0 0 ?n = (d, path)" by fastforce
    have "2 \<le> ?n" using False by (cases xs) auto
    from walk_last[OF r this _ P] obtain b where b: "walk m d path (at xs 0) = Some (Some (xs ! ?q), b)" "odd b = odd ?n" by auto
    let ?m1 = "m(x := (m x)\<lparr>hn_parent := Some (xs ! ?q)\<rparr>)"
    let ?m = "if odd b then ?m1(xs ! ?q := (?m1 (xs ! ?q))\<lparr>hn_right := Some x\<rparr>) else ?m1(xs ! ?q := (?m1 (xs ! ?q))\<lparr>hn_left := Some x\<rparr>)"
    have "h\<lparr>hp_nelts := Suc (length xs)\<rparr> = ?h" using root False by (cases xs) (simp_all add: at_def)
    then have "heap_insert h x m = sift_up lt ?h x ?m"
      using b(1) P root n assms(2) by (simp add: heap_insert_def Let_def)
    moreover have "rep ?m (xs @ [x])" by (rule append_rep[OF r assms(3) False refl assms(4,5) b(2) refl])
    moreover have "?m a = m a" if "a \<notin> insert x (set xs)" for a
    proof -
      have "?q < length xs" using False by (cases xs) auto
      then have "a \<noteq> xs ! ?q" using that by auto
      then show ?thesis using that by auto
    qed
    ultimately show ?thesis by (intro exI[of _ ?m]) blast
  qed
  then obtain m1 where m1: "heap_insert h x m = sift_up lt ?h x m1" "rep m1 (xs @ [x])" "\<forall>a. a \<notin> insert x (set xs) \<longrightarrow> m1 a = m a"
    by blast
  from sift_up_rep[OF m1(2), of ?h "length xs" lt] obtain m2 where
    "sift_up lt ?h x m1 = Some (?h\<lparr>hp_root := at (array_insert lt xs x) 0\<rparr>, m2)" "rep m2 (array_insert lt xs x)"
    "\<forall>a. a \<notin> insert x (set xs) \<longrightarrow> m2 a = m1 a"
    by (auto simp: array_insert_def)
  moreover have "length (array_insert lt xs x) = length xs + 1" by (simp add: array_insert_def length_array_up)
  ultimately show ?thesis
    using m1 assms(2) by (intro exI[of _ "?h\<lparr>hp_root := at (array_insert lt xs x) 0\<rparr>"] exI[of _ m2]) (simp add: heap_rep_def)
qed

lemma heap_replace_eq:
  assumes "relink (hn_parent (m s)) s (Some x) h m = (h1, m1)" "put_parent (hn_left (m1 s)) (Some x) m1 = m2"
    and "put_parent (hn_right (m2 s)) (Some x) m2 = m3" "m3 s = nd"
  shows "heap_replace h s (Some x) m = (h1, m3(x := nd))"
  using assms by (cases nd) (simp add: heap_replace_def)

text \<open>A node outside takes the place of the node with the index \<open>k\<close>.\<close>

lemma heap_replace_rep:
  assumes r: "rep m zs" and k: "k < length zs" and x: "x \<notin> set zs" and root: "hp_root h = at zs 0"
  shows "\<exists>m'. heap_replace h (zs ! k) (Some x) m = (h\<lparr>hp_root := at (zs[k := x]) 0\<rparr>, m') \<and> rep m' (zs[k := x]) \<and>
    (\<forall>a. a \<notin> insert x (set zs) \<longrightarrow> m' a = m a)"
proof -
  obtain g where g: "k = 0 \<or> k = 2 * g + 1 \<or> k = 2 * g + 2" using index_cases[of k] by auto
  obtain m1 where R: "relink (hn_parent (m (zs ! k))) (zs ! k) (Some x) h m = (if k = 0 then h\<lparr>hp_root := Some x\<rparr> else h, m1)"
    and m1: "\<And>j. j < length zs \<Longrightarrow> m1 (zs ! j) = (if k \<noteq> 0 \<and> j = g \<and> k = 2 * g + 1 then (node_at zs j)\<lparr>hn_left := Some x\<rparr>
      else if k \<noteq> 0 \<and> j = g \<and> k = 2 * g + 2 then (node_at zs j)\<lparr>hn_right := Some x\<rparr> else node_at zs j)"
    and out: "\<And>a. a \<notin> set zs \<Longrightarrow> m1 a = m a"
    by (rule relink_rep[OF r k g, where h = h]) (rule that)
  define m3 where m3: "m3 = put_parent (at zs (2 * k + 2)) (Some x) (put_parent (at zs (2 * k + 1)) (Some x) m1)"
  have m1k: "m1 (zs ! k) = node_at zs k" using k g by (auto simp: m1)
  have m3k: "m3 (zs ! k) = node_at zs k" unfolding m3 children_rep(1)[OF r k] m1k by simp
  have left: "put_parent (hn_left (m1 (zs ! k))) (Some x) m1 = put_parent (at zs (2 * k + 1)) (Some x) m1"
    by (simp add: m1k node_at_def)
  have "put_parent (at zs (2 * k + 1)) (Some x) m1 (zs ! k) = m1 (zs ! k)"
    using k by (simp add: put_parent_at rep_nth(2)[OF r])
  then have right: "put_parent (hn_right (put_parent (at zs (2 * k + 1)) (Some x) m1 (zs ! k))) (Some x)
      (put_parent (at zs (2 * k + 1)) (Some x) m1) = m3"
    by (simp add: m1k node_at_def m3)
  let ?m = "m3(x := node_at zs k)"
  have h: "h\<lparr>hp_root := at (zs[k := x]) 0\<rparr> = (if k = 0 then h\<lparr>hp_root := Some x\<rparr> else h)"
    using root k by (cases zs; cases k) (auto simp: at_def nth_list_update)
  have "heap_replace h (zs ! k) (Some x) m = (h\<lparr>hp_root := at (zs[k := x]) 0\<rparr>, ?m)"
    by (rule heap_replace_eq[OF R[folded h] left right m3k])
  moreover have "?m (zs[k := x] ! j) = node_at (zs[k := x]) j" if j: "j < length zs" for j
  proof (cases "j = k")
    case True
    have "0 < k \<Longrightarrow> (k - 1) div 2 < k" by linarith
    then show ?thesis using True k by (auto simp: node_at_def at_def)
  next
    case False
    have x': "zs ! j \<noteq> x" using j x by auto
    have C: "0 < j \<Longrightarrow> ((j - 1) div 2 = k) = (j = 2 * k + 1 \<or> j = 2 * k + 2)" by (rule parent_index)
    have par: "0 < j \<Longrightarrow> (j - 1) div 2 < length zs" using j by linarith
    have "node_at (zs[k := x]) j =
       \<lparr>hn_parent = (if j = 0 then None else if False then Some x
          else if j = 2 * k + 1 \<or> j = 2 * k + 2 then Some x else Some (zs ! ((j - 1) div 2))),
        hn_left = (if k \<noteq> 0 \<and> j = g \<and> k = 2 * g + 1 then Some x else at zs (2 * j + 1)),
        hn_right = (if k \<noteq> 0 \<and> j = g \<and> k = 2 * g + 2 then Some x else at zs (2 * j + 2))\<rparr>"
    proof -
      have "at (zs[k := x]) (2 * j + 1) = (if 2 * j + 1 = k then Some x else at zs (2 * j + 1))"
        "at (zs[k := x]) (2 * j + 2) = (if 2 * j + 2 = k then Some x else at zs (2 * j + 2))"
        using k by (auto simp: at_def)
      moreover have "hn_parent (node_at (zs[k := x]) j) = (if j = 0 then None
          else if j = 2 * k + 1 \<or> j = 2 * k + 2 then Some x else Some (zs ! ((j - 1) div 2)))"
      proof (cases "j = 0")
        case False
        then have "zs[k := x] ! ((j - 1) div 2) = (if (j - 1) div 2 = k then x else zs ! ((j - 1) div 2))"
          using par k by (simp add: nth_list_update del: One_nat_def)
        then show ?thesis using C False by (simp add: node_at_def del: One_nat_def)
      qed (simp add: node_at_def)
      ultimately show ?thesis unfolding child_index[OF g] by (simp add: node_at_def)
    qed
    moreover have "?m (zs[k := x] ! j) = (if False then (m3 (zs ! j))\<lparr>hn_parent := Some x\<rparr> else m3 (zs ! j))"
      using False x' by simp
    ultimately show ?thesis
      unfolding m3 children_rep(1)[OF r j] m1[OF j] by (simp only:) (rule node_links[OF _ _ _ refl refl]; auto)
  qed
  moreover have "?m a = m a" if "a \<notin> insert x (set zs)" for a
    using that out unfolding m3 by (simp add: put_parent_out)
  moreover have "distinct (zs[k := x])" using r x by (simp add: rep_def distinct_list_update)
  ultimately show ?thesis by (intro exI[of _ ?m]) (simp add: rep_def)
qed

text \<open>Taking off the last node.\<close>

lemma take_last_rep:
  assumes r: "rep m (ys @ [x])" and ne: "ys \<noteq> []" and b: "odd b = odd (length ys + 1)"
  shows "\<exists>m1. take_last (ys ! ((length ys + 1) div 2 - 1)) b m = (Some x, m1) \<and> rep m1 ys \<and> (\<forall>a. a \<notin> set ys \<longrightarrow> m1 a = m a)"
proof -
  define q where q_def: "q = (length ys + 1) div 2 - 1"
  have d: "distinct ys" and M: "\<And>k. k < length ys \<Longrightarrow> m (ys ! k) = node_at (ys @ [x]) k"
    using r by (auto simp: rep_def nth_append less_Suc_eq)
  have q: "q < length ys" using ne by (cases ys) (auto simp: q_def)
  have pos: "0 < length ys" using ne by simp
  have links: "(2 * q + 1 = length ys) = even b" "(2 * q + 2 = length ys) = odd b"
    using pos b unfolding q_def by presburger+
  let ?m = "if odd b then m(ys ! q := (m (ys ! q))\<lparr>hn_right := None\<rparr>) else m(ys ! q := (m (ys ! q))\<lparr>hn_left := None\<rparr>)"
  have "take_last (ys ! q) b m = (Some x, ?m)"
    using links by (simp add: take_last_def M[OF q] node_at_def at_append)
  moreover have "?m (ys ! k) = node_at ys k" if k: "k < length ys" for k
  proof -
    have par: "0 < k \<Longrightarrow> (k - 1) div 2 < length ys" using k by linarith
    have own: "(2 * k + 1 = length ys) = (k = q \<and> even b)" "(2 * k + 2 = length ys) = (k = q \<and> odd b)"
      using links by (cases "even b"; simp; presburger)+
    have "at ys (length ys) = None" by (simp add: at_def)
    then show ?thesis
      using k q d par own by (auto simp: M node_at_def nth_append at_append nth_eq_iff_index_eq)
  qed
  moreover have "?m a = m a" if "a \<notin> set ys" for a using that q by auto
  ultimately show ?thesis using d unfolding q_def[symmetric] by (intro exI[of _ ?m]) (simp add: rep_def)
qed

lemma heap_remove_unfold:
  assumes "heap_rep h m (ys @ [x])" "ys \<noteq> []"
  shows "\<exists>m1. rep m1 ys \<and> (\<forall>a. a \<notin> set ys \<longrightarrow> m1 a = m a) \<and>
    heap_remove h node m = (case heap_replace (h\<lparr>hp_nelts := length ys\<rparr>) node (Some x) m1 of (h, m) \<Rightarrow>
      (let m = m(node := \<lparr>hn_parent = None, hn_left = None, hn_right = None\<rparr>)
       in case hp_compare h of None \<Rightarrow> Some (h, m)
          | Some lt \<Rightarrow> Option.bind (sift_down lt h x m) (\<lambda>(h, m). sift_up lt h x m)))"
proof -
  have r: "rep m (ys @ [x])" and root: "hp_root h = at (ys @ [x]) 0" and n: "hp_nelts h = length ys + 1"
    using assms(1) by (simp_all add: heap_rep_def)
  let ?n = "length ys + 1"
  obtain d path where P: "path_loop 0 0 ?n = (d, path)" by fastforce
  have "2 \<le> ?n" using assms(2) by (cases ys) auto
  from walk_last[OF r this _ P] obtain b where
    b: "walk m d path (at (ys @ [x]) 0) = Some (Some ((ys @ [x]) ! (?n div 2 - 1)), b)" "odd b = odd ?n" by auto
  have "?n div 2 - 1 < length ys" using assms(2) by (cases ys) auto
  then have q: "(ys @ [x]) ! (?n div 2 - 1) = ys ! (?n div 2 - 1)" by (simp add: nth_append)
  obtain m1 where m1: "take_last (ys ! (?n div 2 - 1)) b m = (Some x, m1)" "rep m1 ys" "\<forall>a. a \<notin> set ys \<longrightarrow> m1 a = m a"
    using take_last_rep[OF r assms(2) b(2)] by blast
  then show ?thesis
    using b(1) P root n unfolding q by (intro exI[of _ m1]) (simp add: heap_remove_def)
qed

text \<open>The node to remove is the last one itself: it has no children, and the link to it is cut already.\<close>

lemma heap_replace_last:
  assumes r: "rep m ys" and x: "x \<notin> set ys" "m x = node_at (ys @ [x]) (length ys)" and ne: "ys \<noteq> []"
  shows "heap_replace h x (Some x) m = (h, m)"
proof -
  define q where "q = (length ys - 1) div 2"
  have q: "q < length ys" using ne unfolding q_def by (cases ys) auto
  have "at ys j \<noteq> Some x" for j using x by (auto simp: at_def)
  then have "hn_left (m (ys ! q)) \<noteq> Some x" "hn_right (m (ys ! q)) \<noteq> Some x"
    unfolding rep_nth(1)[OF r q] by (simp_all add: node_at_def)
  moreover have "hn_parent (m x) = Some (ys ! q)"
    using ne q unfolding x q_def by (simp add: node_at_def nth_append)
  ultimately have "relink (hn_parent (m x)) x (Some x) h m = (h, m)"
    by (simp add: relink_def)
  moreover have "hn_left (m x) = None" "hn_right (m x) = None" by (simp_all add: x node_at_def at_def)
  ultimately show ?thesis
    using heap_replace_eq[of m x x h h m m m "m x"] by (simp add: put_parent_def)
qed

lemma heap_remove_rep:
  assumes "heap_rep h m xs" "hp_compare h = Some lt" "k < length xs"
  shows "\<exists>h' m'. heap_remove h (xs ! k) m = Some (h', m') \<and> heap_rep h' m' (array_remove lt xs k) \<and> hp_compare h' = Some lt \<and>
    (\<forall>a. a \<notin> set xs \<longrightarrow> m' a = m a) \<and> hn_left (m' (xs ! k)) = None \<and> hn_right (m' (xs ! k)) = None"
proof -
  obtain ys x where xs: "xs = ys @ [x]" using assms(3) by (cases xs rule: rev_cases) auto
  have r: "rep m (ys @ [x])" and root: "hp_root h = at (ys @ [x]) 0" and n: "hp_nelts h = length ys + 1"
    using assms(1) by (simp_all add: heap_rep_def xs)
  have x: "x \<notin> set ys" using r by (simp add: rep_def)
  show ?thesis
  proof (cases "ys = []")
    case True
    then have mx: "m x = \<lparr>hn_parent = None, hn_left = None, hn_right = None\<rparr>" using r by (simp add: rep_def node_at_def at_def)
    let ?h = "h\<lparr>hp_nelts := 0, hp_root := None\<rparr>"
    have "heap_remove h x m = Some (?h, m(x := m x))"
      using True root n by (simp add: heap_remove_def path_loop_1 walk.simps at_def take_last_def mx)
    then show ?thesis
      using True assms(2,3) mx by (simp add: xs heap_rep_def array_remove_def rep_def at_def)
  next
    case False
    obtain m1 where m1: "rep m1 ys" "\<forall>a. a \<notin> set ys \<longrightarrow> m1 a = m a" and
      H: "heap_remove h (xs ! k) m = (case heap_replace (h\<lparr>hp_nelts := length ys\<rparr>) (xs ! k) (Some x) m1 of (h, m) \<Rightarrow>
        (let m = m(xs ! k := \<lparr>hn_parent = None, hn_left = None, hn_right = None\<rparr>)
         in case hp_compare h of None \<Rightarrow> Some (h, m)
            | Some lt \<Rightarrow> Option.bind (sift_down lt h x m) (\<lambda>(h, m). sift_up lt h x m)))"
      using heap_remove_unfold[OF assms(1)[unfolded xs] False, of "xs ! k"] by blast
    let ?h = "h\<lparr>hp_nelts := length ys\<rparr>"
    have h: "hp_root ?h = at ys 0" using root False by (simp add: at_append)
    show ?thesis
    proof (cases "k = length ys")
      case True
      then have k: "xs ! k = x" "array_remove lt xs k = ys" by (simp_all add: xs array_remove_def)
      have mx: "m1 x = node_at (ys @ [x]) (length ys)" using rep_nth(1)[OF r, of "length ys"] x m1(2) by simp
      let ?none = "\<lparr>hn_parent = None, hn_left = None, hn_right = None\<rparr>"
      have "heap_remove h (xs ! k) m = Some (?h, m1(x := ?none))"
        unfolding H unfolding k heap_replace_last[OF m1(1) x mx False]
        by (simp add: assms(2) sift_down.simps[of lt ?h] sift_up.simps[of lt ?h] pick_child_def)
      moreover have "rep (m1(x := ?none)) ys"
        using x by (intro rep_out[OF m1(1)]) auto
      ultimately show ?thesis using k h m1(2) assms(2) by (simp add: xs heap_rep_def)
    next
      case False
      then have k: "k < length ys" "xs ! k = ys ! k" using assms(3) by (simp_all add: xs nth_append)
      let ?zs = "ys[k := x]"
      obtain m2 where m2: "heap_replace ?h (ys ! k) (Some x) m1 = (?h\<lparr>hp_root := at ?zs 0\<rparr>, m2)" "rep m2 ?zs"
        "\<forall>a. a \<notin> insert x (set ys) \<longrightarrow> m2 a = m1 a"
        using heap_replace_rep[OF m1(1) k(1) x h] by blast
      let ?m3 = "m2(ys ! k := \<lparr>hn_parent = None, hn_left = None, hn_right = None\<rparr>)" and ?h2 = "?h\<lparr>hp_root := at ?zs 0\<rparr>"
      have d: "distinct ys" using m1(1) by (simp add: rep_def)
      have sub: "set ?zs \<subseteq> insert x (set ys)" by (rule set_update_subset_insert)
      have out: "ys ! k \<notin> set ?zs" using d x k(1) by (auto simp: in_set_conv_nth nth_list_update nth_eq_iff_index_eq)
      have r3: "rep ?m3 ?zs" using out by (intro rep_out[OF m2(2)]) auto
      obtain us j where D: "array_down lt ?zs k = (us, j)" by fastforce
      obtain m4 where m4: "sift_down lt ?h2 x ?m3 = Some (?h2\<lparr>hp_root := at us 0\<rparr>, m4)" "rep m4 us"
        "\<forall>a. a \<notin> set ?zs \<longrightarrow> m4 a = ?m3 a" and us: "j < length us" "us ! j = x" "mset us = mset ?zs"
        using sift_down_rep[OF r3, of ?h2 k lt us j] k(1) D by auto
      have len: "length us = length ys" "set us = set ?zs" using us(3) by (metis length_list_update mset_eq_length, metis set_mset_mset)
      obtain m5 where m5: "sift_up lt (?h2\<lparr>hp_root := at us 0\<rparr>) x m4 = Some (?h2\<lparr>hp_root := at (array_up lt us j) 0\<rparr>, m5)"
        "rep m5 (array_up lt us j)" "\<forall>a. a \<notin> set us \<longrightarrow> m5 a = m4 a"
        using sift_up_rep[OF m4(2), of "?h2\<lparr>hp_root := at us 0\<rparr>" j lt] us by auto
      have "heap_remove h (xs ! k) m = Some (?h2\<lparr>hp_root := at (array_up lt us j) 0\<rparr>, m5)"
        unfolding H unfolding k(2) m2(1) using m4(1) m5(1) by (simp add: assms(2))
      moreover have "array_remove lt xs k = array_up lt us j" using False by (simp add: xs array_remove_def D)
      moreover have "m5 a = m a" if "a \<notin> set xs" for a
      proof -
        have "a \<notin> set us" "a \<noteq> ys ! k" using that sub k(1) by (auto simp: xs len)
        then show ?thesis using that m5(3) m4(3) m2(3) m1(2) by (simp add: xs len)
      qed
      moreover have "m5 (ys ! k) = ?m3 (ys ! k)" using out m5(3) m4(3) by (simp add: len)
      ultimately show ?thesis
        using m5(2) assms(2) len k(2)
        by (intro exI[of _ "?h2\<lparr>hp_root := at (array_up lt us j) 0\<rparr>"] exI[of _ m5]) (simp add: heap_rep_def length_array_up)
    qed
  qed
qed

section \<open>The order of the heap\<close>

abbreviation par :: "nat \<Rightarrow> nat" where
  "par i \<equiv> (i - 1) div 2"

text \<open>No node is less than its parent; \<open>hole\<close> exempts the node \<open>k\<close> from it, \<open>gap\<close> its children too.\<close>

definition ordered :: "('a \<Rightarrow> 'a \<Rightarrow> bool) \<Rightarrow> 'a list \<Rightarrow> bool" where
  "ordered lt xs \<longleftrightarrow> (\<forall>j < length xs. 0 < j \<longrightarrow> \<not> lt (xs ! j) (xs ! par j))"

definition under :: "('a \<Rightarrow> 'a \<Rightarrow> bool) \<Rightarrow> 'a list \<Rightarrow> nat \<Rightarrow> bool" where
  "under lt xs k \<longleftrightarrow> (\<forall>j < length xs. 0 < j \<and> 0 < k \<and> par j = k \<longrightarrow> \<not> lt (xs ! j) (xs ! par k))"

definition hole :: "('a \<Rightarrow> 'a \<Rightarrow> bool) \<Rightarrow> 'a list \<Rightarrow> nat \<Rightarrow> bool" where
  "hole lt xs k \<longleftrightarrow> (\<forall>j < length xs. 0 < j \<and> j \<noteq> k \<longrightarrow> \<not> lt (xs ! j) (xs ! par j)) \<and> under lt xs k"

definition gap :: "('a \<Rightarrow> 'a \<Rightarrow> bool) \<Rightarrow> 'a list \<Rightarrow> nat \<Rightarrow> bool" where
  "gap lt xs k \<longleftrightarrow> (\<forall>j < length xs. 0 < j \<and> j \<noteq> k \<and> par j \<noteq> k \<longrightarrow> \<not> lt (xs ! j) (xs ! par j)) \<and> under lt xs k"

lemma par_less: "0 < j \<Longrightarrow> par j < j"
  by linarith

context comparator begin

lemma neg_trans: "\<not> lt a b \<Longrightarrow> \<not> lt b c \<Longrightarrow> \<not> lt a c"
  using equiv_less trans by blast

lemma hole_swap:
  assumes H: "hole lt xs i" and i: "0 < i" "i < length xs" and l: "lt (xs ! i) (xs ! par i)"
  shows "hole lt (swap_at (par i) i xs) (par i)"
proof -
  define p where "p = par i"
  have p: "p < i" "p < length xs" using i by (auto simp: p_def)
  have A: "\<not> lt (xs ! j) (xs ! par j)" if "j < length xs" "0 < j" "j \<noteq> i" for j
    using H that by (simp add: hole_def)
  have U: "\<not> lt (xs ! j) (xs ! p)" if "j < length xs" "0 < j" "par j = i" for j
    using H that i by (simp add: hole_def under_def p_def)
  have nth: "swap_at p i xs ! j = (if j = p then xs ! i else if j = i then xs ! p else xs ! j)" if "j < length xs" for j
    using that p i by (simp add: nth_swap_at)
  have sib: "\<not> lt (xs ! j) (xs ! i)" if "j < length xs" "0 < j" "par j = p" "j \<noteq> i" for j
    using A[OF that(1,2,4)] l trans unfolding that(3) p_def by blast
  have "\<not> lt (swap_at p i xs ! j) (swap_at p i xs ! par j)" if j: "j < length xs" "0 < j" "j \<noteq> p" for j
  proof -
    have pj: "par j < length xs" "par j < j" using j par_less[of j] by auto
    consider "j = i" | "j \<noteq> i" "par j = p" | "j \<noteq> i" "par j = i" | "j \<noteq> i" "par j \<noteq> p" "par j \<noteq> i" by blast
    then show ?thesis
    proof cases
      case 1
      then show ?thesis using asym[OF l] i j p unfolding p_def by (simp add: nth[unfolded p_def] del: One_nat_def)
    qed (use A[OF j(1,2)] U[OF j(1,2)] sib[OF j(1,2)] p j pj in \<open>simp_all add: nth del: One_nat_def\<close>)
  qed
  moreover have "\<not> lt (swap_at p i xs ! j) (swap_at p i xs ! par p)" if j: "j < length xs" "0 < j" "0 < p" "par j = p" for j
  proof -
    have pp: "par p < p" using par_less[OF j(3)] .
    have jp: "j \<noteq> p" using par_less[OF j(2)] j(4) by auto
    have up: "\<not> lt (xs ! p) (xs ! par p)" using A[OF p(2) j(3)] p by simp
    show ?thesis
    proof (cases "j = i")
      case True
      then show ?thesis using up pp p i jp by (simp add: nth del: One_nat_def)
    next
      case False
      then show ?thesis using neg_trans[OF _ up] A[OF j(1,2) False] pp p jp j by (simp add: nth del: One_nat_def)
    qed
  qed
  ultimately show ?thesis unfolding hole_def under_def p_def[symmetric] by simp
qed

lemma array_up_ordered: "hole lt xs i \<Longrightarrow> i < length xs \<Longrightarrow> ordered lt (array_up lt xs i)"
proof (induction i arbitrary: xs rule: less_induct)
  case (less i)
  show ?case
  proof (cases "0 < i \<and> lt (xs ! i) (xs ! par i)")
    case True
    then have "hole lt (swap_at (par i) i xs) (par i)" "par i < i" using hole_swap less.prems par_less by blast+
    then show ?thesis using less True by (subst array_up.simps) (simp del: One_nat_def)
  next
    case False
    then have "ordered lt xs" using less.prems unfolding ordered_def hole_def by blast
    moreover have "array_up lt xs i = xs" using False by (subst array_up.simps) (simp only: if_False)
    ultimately show ?thesis by simp
  qed
qed

lemma pick_index_least:
  "\<not> lt (xs ! e) (xs ! pick_index lt xs e i)" "i < length xs \<Longrightarrow> \<not> lt (xs ! i) (xs ! pick_index lt xs e i)"
  using asym irrefl by (auto simp: pick_index_def)

lemma smallest_least:
  assumes "j < length xs" "0 < j" "par j = k"
  shows "\<not> lt (xs ! j) (xs ! smallest lt xs k)"
proof -
  have "j = 2 * k + 1 \<or> j = 2 * k + 2" using index_cases[OF assms(2)] assms(3) by simp
  then show ?thesis
    using neg_trans[OF pick_index_least(2) pick_index_least(1), of j xs k] pick_index_least(2)[of j xs] assms(1)
    unfolding smallest_def by blast
qed

lemma gap_swap:
  assumes G: "gap lt xs k" and k: "k < length xs" and e: "e = smallest lt xs k" "e \<noteq> k"
  shows "gap lt (swap_at k e xs) e"
proof -
  have pe: "par e = k" "e < length xs" "k < e" "0 < e" using smallest_cases[of lt xs k] e by auto
  have A: "\<not> lt (xs ! j) (xs ! par j)" if "j < length xs" "0 < j" "j \<noteq> k" "par j \<noteq> k" for j
    using G that by (simp add: gap_def)
  have U: "\<not> lt (xs ! e) (xs ! par k)" if "0 < k"
    using G that pe by (simp add: gap_def under_def)
  have S: "\<not> lt (xs ! j) (xs ! e)" if "j < length xs" "0 < j" "par j = k" "j \<noteq> e" for j
    using smallest_least[OF that(1-3)] unfolding e(1) .
  have nth: "swap_at k e xs ! j = (if j = k then xs ! e else if j = e then xs ! k else xs ! j)" if "j < length xs" for j
    using that pe k by (simp add: nth_swap_at)
  have "\<not> lt (swap_at k e xs ! j) (swap_at k e xs ! par j)" if j: "j < length xs" "0 < j" "j \<noteq> e" "par j \<noteq> e" for j
  proof -
    have pj: "par j < length xs" "par j < j" using j par_less[of j] by auto
    consider "j = k" | "j \<noteq> k" "par j = k" | "j \<noteq> k" "par j \<noteq> k" by blast
    then show ?thesis
    proof cases
      case 1
      then show ?thesis using U j pj pe k by (simp add: nth del: One_nat_def)
    qed (use A[OF j(1,2)] S[OF j(1,2)] j pj in \<open>simp_all add: nth del: One_nat_def\<close>)
  qed
  moreover have "\<not> lt (swap_at k e xs ! j) (swap_at k e xs ! par e)" if j: "j < length xs" "0 < j" "par j = e" for j
  proof -
    have "j \<noteq> k" "j \<noteq> e" "par j \<noteq> k" using par_less[OF j(2)] j(3) pe by auto
    then show ?thesis using A[OF j(1,2)] pe k j by (simp add: nth del: One_nat_def)
  qed
  ultimately show ?thesis unfolding gap_def under_def by simp
qed

lemma array_down_hole: "gap lt xs k \<Longrightarrow> k < length xs \<Longrightarrow> array_down lt xs k = (ys, j) \<Longrightarrow> hole lt ys j"
proof (induction "length xs - k" arbitrary: xs k rule: less_induct)
  case less
  show ?case
  proof (cases "smallest lt xs k = k")
    case True
    then have "\<not> lt (xs ! i) (xs ! par i)" if "i < length xs" "0 < i" "i \<noteq> k" for i
      using less.prems(1) smallest_least[OF that(1,2), of k] that unfolding gap_def True by (cases "par i = k") blast+
    moreover have "ys = xs" "j = k" using True less.prems(3) by (simp_all add: array_down.simps[of lt xs k])
    ultimately show ?thesis using less.prems(1) unfolding hole_def gap_def by blast
  next
    case False
    have "array_down lt (swap_at k (smallest lt xs k) xs) (smallest lt xs k) = (ys, j)"
      using False less.prems(3) by (simp add: array_down.simps[of lt xs k])
    moreover have "k < smallest lt xs k" "smallest lt xs k < length xs" using False smallest_cases[of lt xs k] by auto
    ultimately show ?thesis
      using less.prems(2) by (intro less.hyps[OF _ gap_swap[OF less.prems(1,2) refl False]]) simp_all
  qed
qed

lemma ordered_init: "ordered lt (ys @ [x]) \<Longrightarrow> ordered lt ys"
proof -
  assume O: "ordered lt (ys @ [x])"
  have "\<not> lt (ys ! j) (ys ! par j)" if j: "j < length ys" "0 < j" for j
  proof -
    have p: "par j < length ys" using j par_less[OF j(2)] by linarith
    have "\<not> lt ((ys @ [x]) ! j) ((ys @ [x]) ! par j)" using O j unfolding ordered_def by simp
    then show ?thesis unfolding nth_append_left[OF j(1)] nth_append_left[OF p] .
  qed
  then show ?thesis by (simp add: ordered_def)
qed

lemma array_insert_ordered:
  assumes O: "ordered lt xs"
  shows "ordered lt (array_insert lt xs x)"
proof -
  have "\<not> lt ((xs @ [x]) ! j) ((xs @ [x]) ! par j)" if j: "j < length xs + 1" "0 < j" "j \<noteq> length xs" for j
  proof -
    have "j < length xs" "par j < length xs" using j par_less[OF j(2)] by linarith+
    then show ?thesis using O j(2) by (simp add: ordered_def nth_append del: One_nat_def)
  qed
  moreover have "par j \<noteq> length xs" if "j < length xs + 1" "0 < j" for j
    using that par_less[OF that(2)] by linarith
  moreover have "length (xs @ [x]) = length xs + 1" by simp
  ultimately have "hole lt (xs @ [x]) (length xs)"
    unfolding hole_def under_def by metis
  then show ?thesis unfolding array_insert_def by (rule array_up_ordered) simp
qed

lemma array_remove_gap:
  assumes O: "ordered lt (ys @ [x])" and k: "k < length ys"
  shows "gap lt (ys[k := x]) k"
proof -
  have A: "\<not> lt (ys ! j) (ys ! par j)" if "j < length ys" "0 < j" for j
    using ordered_init[OF O] that by (simp add: ordered_def)
  have "\<not> lt (ys[k := x] ! j) (ys[k := x] ! par k)" if j: "j < length ys" "0 < j" "0 < k" "par j = k" for j
  proof -
    have "j \<noteq> k" "par k \<noteq> k" using par_less[OF j(2)] par_less[OF j(3)] j(4) by auto
    then show ?thesis using neg_trans[OF A[OF j(1,2), unfolded j(4)] A[OF k j(3)]] by (simp del: One_nat_def)
  qed
  moreover have "\<not> lt (ys[k := x] ! j) (ys[k := x] ! par j)" if "j < length ys" "0 < j" "j \<noteq> k" "par j \<noteq> k" for j
    using A[OF that(1,2)] that(3,4) by (metis nth_list_update_neq)
  ultimately show ?thesis unfolding gap_def under_def length_list_update by blast
qed

lemma array_remove_ordered:
  assumes "ordered lt xs" "k < length xs"
  shows "ordered lt (array_remove lt xs k)"
proof -
  obtain ys x where xs: "xs = ys @ [x]" using assms(2) by (cases xs rule: rev_cases) auto
  show ?thesis
  proof (cases "k = length ys")
    case True
    then show ?thesis using ordered_init[OF assms(1)[unfolded xs]] by (simp add: xs array_remove_def)
  next
    case False
    then have k: "k < length ys" using assms(2) by (simp add: xs)
    obtain us j where D: "array_down lt (ys[k := x]) k = (us, j)" by fastforce
    from array_down_hole[OF array_remove_gap[OF assms(1)[unfolded xs] k] _ D] k have "hole lt us j" by simp
    moreover have "j < length us" using array_down_index[OF D] k by simp
    ultimately show ?thesis using False array_up_ordered by (simp add: xs array_remove_def D)
  qed
qed

lemma ordered_root: "ordered lt xs \<Longrightarrow> i < length xs \<Longrightarrow> \<not> lt (xs ! i) (xs ! 0)"
proof (induction i rule: less_induct)
  case (less i)
  show ?case
  proof (cases "i = 0")
    case False
    then have "par i < i" "par i < length xs" "\<not> lt (xs ! i) (xs ! par i)"
      using less.prems par_less[of i] by (auto simp: ordered_def)
    then show ?thesis using less neg_trans by blast
  qed (simp add: irrefl)
qed

end

lemma mset_array_insert: "mset (array_insert lt xs x) = add_mset x (mset xs)"
  by (simp add: array_insert_def mset_array_up)

lemma mset_array_remove:
  assumes "k < length xs"
  shows "add_mset (xs ! k) (mset (array_remove lt xs k)) = mset xs"
proof -
  obtain ys x where xs: "xs = ys @ [x]" using assms by (cases xs rule: rev_cases) auto
  show ?thesis
  proof (cases "k = length ys")
    case False
    then have k: "k < length ys" using assms by (simp add: xs)
    obtain us j where D: "array_down lt (ys[k := x]) k = (us, j)" by fastforce
    note d = array_down_index[OF D]
    show ?thesis using False k d mset_update[OF k, of x]
      by (simp add: xs array_remove_def D mset_array_up nth_append)
  qed (simp add: xs array_remove_def)
qed

section \<open>The contract of the heap\<close>

text \<open>
  What a timer loop relies on: a queue of elements under a comparison that may change for the
  elements outside the queue.  \<open>models lt q S\<close> says that \<open>q\<close> holds the set \<open>S\<close> in the order \<open>lt\<close>.
\<close>

locale min_queue =
  fixes models :: "('a \<Rightarrow> 'a \<Rightarrow> bool) \<Rightarrow> 'q \<Rightarrow> 'a set \<Rightarrow> bool"
    and ins :: "('a \<Rightarrow> 'a \<Rightarrow> bool) \<Rightarrow> 'q \<Rightarrow> 'a \<Rightarrow> 'q option"
    and rem :: "('a \<Rightarrow> 'a \<Rightarrow> bool) \<Rightarrow> 'q \<Rightarrow> 'a \<Rightarrow> 'q option"
    and top :: "'q \<Rightarrow> 'a option"
    and count :: "'q \<Rightarrow> nat"
  assumes ins_models: "comparator lt \<Longrightarrow> models lt q S \<Longrightarrow> x \<notin> S \<Longrightarrow> \<exists>q'. ins lt q x = Some q' \<and> models lt q' (insert x S)"
    and rem_models: "comparator lt \<Longrightarrow> models lt q S \<Longrightarrow> x \<in> S \<Longrightarrow> \<exists>q'. rem lt q x = Some q' \<and> models lt q' (S - {x})"
    and top_empty: "models lt q S \<Longrightarrow> top q = None \<Longrightarrow> S = {}"
    and top_least: "comparator lt \<Longrightarrow> models lt q S \<Longrightarrow> top q = Some x \<Longrightarrow> x \<in> S \<and> (\<forall>y \<in> S. \<not> lt y x)"
    and count_card: "models lt q S \<Longrightarrow> finite S \<and> count q = card S"
    and recompare: "models lt q S \<Longrightarrow> (\<And>a b. a \<in> S \<Longrightarrow> b \<in> S \<Longrightarrow> lt' a b = lt a b) \<Longrightarrow> models lt' q S"
begin

lemma top_none_iff: "comparator lt \<Longrightarrow> models lt q S \<Longrightarrow> top q = None \<longleftrightarrow> S = {}"
  using top_empty top_least by (cases "top q") blast+

lemma pop_models:
  "comparator lt \<Longrightarrow> models lt q S \<Longrightarrow> top q = Some x \<Longrightarrow> \<exists>q'. rem lt q x = Some q' \<and> models lt q' (S - {x})"
  using rem_models top_least by blast

text \<open>An element is taken out, the comparison changes for it alone, and it is put back.\<close>

lemma reinsert_models:
  assumes "comparator lt" "comparator lt'" "models lt q S" "x \<in> S"
    and "\<And>a b. a \<in> S - {x} \<Longrightarrow> b \<in> S - {x} \<Longrightarrow> lt' a b = lt a b"
  shows "\<exists>q' q''. rem lt q x = Some q' \<and> ins lt' q' x = Some q'' \<and> models lt' q'' S"
proof -
  obtain q' where q': "rem lt q x = Some q'" "models lt q' (S - {x})" using rem_models assms(1,3,4) by blast
  have "models lt' q' (S - {x})" using recompare[OF q'(2)] assms(5) by blast
  then obtain q'' where "ins lt' q' x = Some q''" "models lt' q'' (insert x (S - {x}))" using ins_models[OF assms(2)] by blast
  then show ?thesis using q' assms(4) by (auto simp: insert_absorb)
qed

lemma ins_changed:
  assumes "comparator lt'" "models lt q S" "x \<notin> S" "\<And>a b. a \<in> S \<Longrightarrow> b \<in> S \<Longrightarrow> lt' a b = lt a b"
  shows "\<exists>q'. ins lt' q x = Some q' \<and> models lt' q' (insert x S)"
  using ins_models[OF assms(1) recompare[OF assms(2,4)] assms(3)] by blast

end

text \<open>The heap with its memory: the nodes outside are cleared, as \<open>HV_ALLOC\<close> and \<open>heap_remove\<close> leave them.\<close>

definition heap_models :: "(nat \<Rightarrow> nat \<Rightarrow> bool) \<Rightarrow> heap \<times> node_mem \<Rightarrow> nat set \<Rightarrow> bool" where
  "heap_models lt q S = (case q of (h, m) \<Rightarrow>
     (\<exists>xs. heap_rep h m xs \<and> ordered lt xs \<and> set xs = S) \<and> (\<forall>a. a \<notin> S \<longrightarrow> hn_left (m a) = None \<and> hn_right (m a) = None))"

definition heap_ins :: "(nat \<Rightarrow> nat \<Rightarrow> bool) \<Rightarrow> heap \<times> node_mem \<Rightarrow> nat \<Rightarrow> (heap \<times> node_mem) option" where
  "heap_ins lt q x = (case q of (h, m) \<Rightarrow> heap_insert (h\<lparr>hp_compare := Some lt\<rparr>) x m)"

definition heap_rem :: "(nat \<Rightarrow> nat \<Rightarrow> bool) \<Rightarrow> heap \<times> node_mem \<Rightarrow> nat \<Rightarrow> (heap \<times> node_mem) option" where
  "heap_rem lt q x = (case q of (h, m) \<Rightarrow> heap_remove (h\<lparr>hp_compare := Some lt\<rparr>) x m)"

lemma heap_rep_compare [simp]: "heap_rep (h\<lparr>hp_compare := c\<rparr>) m xs = heap_rep h m xs"
  by (simp add: heap_rep_def)

lemma heap_ins_models:
  assumes "comparator lt" "heap_models lt q S" "x \<notin> S"
  shows "\<exists>q'. heap_ins lt q x = Some q' \<and> heap_models lt q' (insert x S)"
proof -
  obtain h m xs where q: "q = (h, m)" "heap_rep h m xs" "ordered lt xs" "set xs = S"
    and out: "\<forall>a. a \<notin> S \<longrightarrow> hn_left (m a) = None \<and> hn_right (m a) = None"
    using assms(2) by (auto simp: heap_models_def)
  obtain h' m' where I: "heap_insert (h\<lparr>hp_compare := Some lt\<rparr>) x m = Some (h', m')" "heap_rep h' m' (array_insert lt xs x)"
    "\<forall>a. a \<notin> insert x (set xs) \<longrightarrow> m' a = m a"
    using heap_insert_rep[of "h\<lparr>hp_compare := Some lt\<rparr>" m xs lt x] q out assms(3) by auto
  have "set (array_insert lt xs x) = insert x S"
    using mset_array_insert[of lt xs x] q(4) by (metis set_mset_add_mset_insert set_mset_mset)
  then show ?thesis
    using I q out comparator.array_insert_ordered[OF assms(1) q(3), of x]
    by (intro exI[of _ "(h', m')"]) (auto simp: heap_ins_def heap_models_def)
qed

lemma heap_rem_models:
  assumes "comparator lt" "heap_models lt q S" "x \<in> S"
  shows "\<exists>q'. heap_rem lt q x = Some q' \<and> heap_models lt q' (S - {x})"
proof -
  obtain h m xs where q: "q = (h, m)" "heap_rep h m xs" "ordered lt xs" "set xs = S"
    and out: "\<forall>a. a \<notin> S \<longrightarrow> hn_left (m a) = None \<and> hn_right (m a) = None"
    using assms(2) by (auto simp: heap_models_def)
  obtain k where k: "k < length xs" "x = xs ! k" using assms(3) q(4) by (metis in_set_conv_nth)
  obtain h' m' where R: "heap_remove (h\<lparr>hp_compare := Some lt\<rparr>) x m = Some (h', m')" "heap_rep h' m' (array_remove lt xs k)"
    "\<forall>a. a \<notin> set xs \<longrightarrow> m' a = m a" "hn_left (m' x) = None" "hn_right (m' x) = None"
    using heap_remove_rep[of "h\<lparr>hp_compare := Some lt\<rparr>" m xs lt k] q k by auto
  have M: "mset xs = add_mset x (mset (array_remove lt xs k))" using mset_array_remove[OF k(1)] k(2) by simp
  have "distinct xs" using q(2) by (simp add: heap_rep_def rep_def)
  then have "distinct (x # array_remove lt xs k)" using M by (metis mset.simps(2) mset_eq_imp_distinct_iff)
  moreover have "set (x # array_remove lt xs k) = S" using M q(4) by (metis mset.simps(2) set_mset_mset)
  ultimately have "set (array_remove lt xs k) = S - {x}" by auto
  then show ?thesis
    using R q out comparator.array_remove_ordered[OF assms(1) q(3) k(1)]
    by (intro exI[of _ "(h', m')"]) (auto simp: heap_rem_def heap_models_def)
qed

lemma heap_top:
  assumes "heap_models lt q S"
  shows "hp_root (fst q) = None \<Longrightarrow> S = {}"
    and "comparator lt \<Longrightarrow> hp_root (fst q) = Some x \<Longrightarrow> x \<in> S \<and> (\<forall>y \<in> S. \<not> lt y x)"
    and "finite S \<and> hp_nelts (fst q) = card S"
proof -
  obtain h m xs where q: "q = (h, m)" "heap_rep h m xs" "ordered lt xs" "set xs = S"
    using assms by (auto simp: heap_models_def)
  have root: "hp_root h = at xs 0" "hp_nelts h = length xs" "distinct xs" using q(2) by (simp_all add: heap_rep_def rep_def)
  show "hp_root (fst q) = None \<Longrightarrow> S = {}" using q root by (cases xs) (auto simp: at_def)
  show "finite S \<and> hp_nelts (fst q) = card S" using q root by (auto simp: distinct_card)
  show "x \<in> S \<and> (\<forall>y \<in> S. \<not> lt y x)" if c: "comparator lt" and x: "hp_root (fst q) = Some x"
  proof -
    have "0 < length xs" "x = xs ! 0" using x root q(1) by (auto simp: at_def split: if_splits)
    then show ?thesis
      using comparator.ordered_root[OF c q(3)] q(4) by (auto simp: in_set_conv_nth simp flip: q(4))
  qed
qed

lemma heap_recompare:
  assumes "heap_models lt q S" "\<And>a b. a \<in> S \<Longrightarrow> b \<in> S \<Longrightarrow> lt' a b = lt a b"
  shows "heap_models lt' q S"
proof -
  obtain h m xs where q: "q = (h, m)" "heap_rep h m xs" "ordered lt xs" "set xs = S"
    and out: "\<forall>a. a \<notin> S \<longrightarrow> hn_left (m a) = None \<and> hn_right (m a) = None"
    using assms(1) by (auto simp: heap_models_def)
  have "ordered lt' xs" unfolding ordered_def
  proof (intro allI impI)
    fix j assume j: "j < length xs" "0 < j"
    then have "par j < length xs" using par_less[OF j(2)] by linarith
    then have "xs ! j \<in> S" "xs ! par j \<in> S" using j q(4) nth_mem by blast+
    then show "\<not> lt' (xs ! j) (xs ! par j)" using assms(2) q(3) j by (simp add: ordered_def)
  qed
  then show ?thesis using q out by (auto simp: heap_models_def)
qed

interpretation hq: min_queue heap_models heap_ins heap_rem "\<lambda>q. hp_root (fst q)" "\<lambda>q. hp_nelts (fst q)"
proof
  show "heap_models lt' q S" if "heap_models lt q S" "\<And>a b. a \<in> S \<Longrightarrow> b \<in> S \<Longrightarrow> lt' a b = lt a b" for lt lt' q S
    using heap_recompare that by blast
qed (rule heap_ins_models heap_rem_models heap_top; assumption)+

lemma heap_init_models: "(\<And>a. hn_left (m a) = None \<and> hn_right (m a) = None) \<Longrightarrow> heap_models lt (heap_init c, m) {}"
  by (auto simp: heap_models_def heap_init_def heap_rep_def rep_def ordered_def at_def)

section \<open>Sequences of operations\<close>

datatype heap_op = Insert nat | Remove nat | Dequeue

fun heap_step :: "heap_op \<Rightarrow> heap \<times> node_mem \<Rightarrow> (heap \<times> node_mem) option" where
  "heap_step (Insert x) (h, m) = heap_insert h x m"
| "heap_step (Remove x) (h, m) = heap_remove h x m"
| "heap_step Dequeue (h, m) = heap_dequeue h m"

fun heap_run :: "heap_op list \<Rightarrow> heap \<times> node_mem \<Rightarrow> (heap \<times> node_mem) option" where
  "heap_run [] s = Some s"
| "heap_run (p # ps) s = Option.bind (heap_step p s) (heap_run ps)"

text \<open>The same operations on the array; those a caller may not do have no result.\<close>

fun index_of :: "'a \<Rightarrow> 'a list \<Rightarrow> nat option" where
  "index_of x [] = None"
| "index_of x (y # ys) = (if x = y then Some 0 else map_option Suc (index_of x ys))"

fun array_op :: "(nat \<Rightarrow> nat \<Rightarrow> bool) \<Rightarrow> heap_op \<Rightarrow> nat list \<Rightarrow> nat list option" where
  "array_op lt (Insert x) xs = (if x \<in> set xs then None else Some (array_insert lt xs x))"
| "array_op lt (Remove x) xs = map_option (array_remove lt xs) (index_of x xs)"
| "array_op lt Dequeue xs = Some (if xs = [] then [] else array_remove lt xs 0)"

fun array_run :: "(nat \<Rightarrow> nat \<Rightarrow> bool) \<Rightarrow> heap_op list \<Rightarrow> nat list \<Rightarrow> nat list option" where
  "array_run lt [] xs = Some xs"
| "array_run lt (p # ps) xs = Option.bind (array_op lt p xs) (array_run lt ps)"

lemma index_of_nth: "index_of x xs = Some k \<Longrightarrow> k < length xs \<and> xs ! k = x"
  by (induction xs arbitrary: k) (auto split: if_splits)

text \<open>The heap with its nodes: every node outside is cleared.\<close>

definition heap_sim :: "(nat \<Rightarrow> nat \<Rightarrow> bool) \<Rightarrow> heap \<times> node_mem \<Rightarrow> nat list \<Rightarrow> bool" where
  "heap_sim lt q xs \<longleftrightarrow> heap_rep (fst q) (snd q) xs \<and> hp_compare (fst q) = Some lt \<and>
     (\<forall>a. a \<notin> set xs \<longrightarrow> hn_left (snd q a) = None \<and> hn_right (snd q a) = None)"

lemma set_array_remove:
  assumes "distinct xs" "k < length xs"
  shows "set (array_remove lt xs k) = set xs - {xs ! k}"
proof -
  note M = mset_array_remove[OF assms(2), of lt]
  then have "distinct (xs ! k # array_remove lt xs k)" using assms(1) by (metis mset.simps(2) mset_eq_imp_distinct_iff)
  moreover have "set (xs ! k # array_remove lt xs k) = set xs" using M by (metis mset.simps(2) set_mset_mset)
  ultimately show ?thesis by auto
qed

lemma set_array_insert: "set (array_insert lt xs x) = insert x (set xs)"
  using mset_array_insert[of lt xs x] by (metis set_mset_add_mset_insert set_mset_mset)

lemma heap_sim_remove:
  assumes "heap_sim lt (h, m) xs" "k < length xs"
  shows "\<exists>q. heap_remove h (xs ! k) m = Some q \<and> heap_sim lt q (array_remove lt xs k)"
proof -
  have "distinct xs" using assms(1) by (simp add: heap_sim_def heap_rep_def rep_def)
  from set_array_remove[OF this assms(2)] heap_remove_rep[of h m xs lt k] assms show ?thesis
    by (fastforce simp: heap_sim_def)
qed

lemma heap_step_sim:
  assumes S: "heap_sim lt q xs" and A: "array_op lt p xs = Some ys"
  shows "\<exists>q'. heap_step p q = Some q' \<and> heap_sim lt q' ys"
proof -
  obtain h m where q: "q = (h, m)" by (cases q)
  note S = S[unfolded q]
  show ?thesis
  proof (cases p)
    case (Insert x)
    then have x: "x \<notin> set xs" "ys = array_insert lt xs x" using A by (auto split: if_splits)
    then show ?thesis
      using heap_insert_rep[of h m xs lt x] S Insert q unfolding heap_sim_def by (auto simp: set_array_insert)
  next
    case (Remove x)
    then obtain k where "index_of x xs = Some k" "ys = array_remove lt xs k" using A by auto
    then show ?thesis using index_of_nth[of x xs k] heap_sim_remove[OF S, of k] Remove q by auto
  next
    case Dequeue
    then show ?thesis
      using A heap_sim_remove[OF S, of 0] S q
      by (cases xs) (auto simp: heap_dequeue_def heap_sim_def heap_rep_def at_def)
  qed
qed

lemma heap_run_sim: "heap_sim lt q xs \<Longrightarrow> array_run lt ps xs = Some ys \<Longrightarrow> \<exists>q'. heap_run ps q = Some q' \<and> heap_sim lt q' ys"
proof (induction ps arbitrary: q xs)
  case (Cons p ps)
  then obtain zs where "array_op lt p xs = Some zs" "array_run lt ps zs = Some ys" by (auto simp: bind_eq_Some_conv)
  then show ?case using heap_step_sim[OF Cons.prems(1)] Cons.IH by fastforce
qed simp

definition clear_nodes :: node_mem where
  "clear_nodes a = \<lparr>hn_parent = None, hn_left = None, hn_right = None\<rparr>"

lemma heap_sim_init: "heap_sim lt (heap_init (Some lt), clear_nodes) []"
  by (simp add: heap_sim_def heap_init_def heap_rep_def rep_def at_def clear_nodes_def)

text \<open>
  C5.  Any sequence of insertions, removals and dequeues from an empty heap does on the pointers
  what the array heap does: no pointer is read through \<open>NULL\<close>, no assertion fails, every loop
  ends, and the nodes are linked as the complete binary tree of the array, each to its parent and
  its two children; the child pointers of a
  removed node are cleared.
\<close>

theorem heap_refines_array:
  assumes "array_run lt ps [] = Some xs"
  shows "\<exists>h m. heap_run ps (heap_init (Some lt), clear_nodes) = Some (h, m) \<and> heap_rep h m xs \<and>
    (\<forall>a. a \<notin> set xs \<longrightarrow> hn_left (m a) = None \<and> hn_right (m a) = None)"
  using heap_run_sim[OF heap_sim_init assms] by (auto simp: heap_sim_def)

theorem heap_refines_array_witness:
  "\<exists>h m. heap_run [Insert 5, Insert 3, Insert 4, Insert 1, Remove 3, Dequeue, Insert 2] (heap_init (Some (<)), clear_nodes) = Some (h, m) \<and>
    heap_rep h m [2, 5, 4] \<and> (\<forall>a. a \<notin> {2, 5, 4} \<longrightarrow> hn_left (m a) = None \<and> hn_right (m a) = None)"
proof -
  have "array_run (<) [Insert 5, Insert 3, Insert 4, Insert 1, Remove 3, Dequeue, Insert 2] [] = Some [2, 5, 4]"
    by code_simp
  from heap_refines_array[OF this] show ?thesis by simp
qed

section \<open>The heap is a priority queue\<close>

text \<open>The abstract queue: dequeuing takes some element that no other is less than.\<close>

inductive queue_run :: "(nat \<Rightarrow> nat \<Rightarrow> bool) \<Rightarrow> heap_op list \<Rightarrow> nat set \<Rightarrow> nat set \<Rightarrow> bool" for lt where
  queue_done: "queue_run lt [] S S"
| queue_insert: "x \<notin> S \<Longrightarrow> queue_run lt ps (insert x S) T \<Longrightarrow> queue_run lt (Insert x # ps) S T"
| queue_remove: "x \<in> S \<Longrightarrow> queue_run lt ps (S - {x}) T \<Longrightarrow> queue_run lt (Remove x # ps) S T"
| queue_dequeue: "x \<in> S \<Longrightarrow> \<forall>y \<in> S. \<not> lt y x \<Longrightarrow> queue_run lt ps (S - {x}) T \<Longrightarrow> queue_run lt (Dequeue # ps) S T"
| queue_empty: "queue_run lt ps {} T \<Longrightarrow> queue_run lt (Dequeue # ps) {} T"

inductive_simps queue_run_simps: "queue_run lt [] S T" "queue_run lt (Insert x # ps) S T" "queue_run lt (Remove x # ps) S T"

lemma distinct_array_op:
  assumes "distinct xs" "array_op lt p xs = Some ys"
  shows "distinct ys"
proof (cases p)
  case (Insert x)
  then have "mset ys = mset (x # xs)" "distinct (x # xs)" using assms by (auto simp: mset_array_insert split: if_splits)
  then show ?thesis using mset_eq_imp_distinct_iff by blast
next
  case (Remove x)
  then obtain k where "index_of x xs = Some k" "ys = array_remove lt xs k" using assms by auto
  then have "mset (xs ! k # ys) = mset xs" using mset_array_remove[of k xs lt] index_of_nth[of x xs k] by simp
  then show ?thesis using assms(1) mset_eq_imp_distinct_iff by (metis distinct.simps(2))
next
  case Dequeue
  show ?thesis
  proof (cases xs)
    case (Cons x zs)
    then have "mset (x # ys) = mset xs" using Dequeue assms(2) mset_array_remove[of 0 xs lt] by auto
    then show ?thesis using assms(1) mset_eq_imp_distinct_iff by (metis distinct.simps(2))
  qed (use Dequeue assms(2) in simp)
qed

lemma array_run_queue:
  assumes "comparator lt"
  shows "array_run lt ps xs = Some ys \<Longrightarrow> ordered lt xs \<Longrightarrow> distinct xs \<Longrightarrow> queue_run lt ps (set xs) (set ys) \<and> ordered lt ys"
proof (induction ps arbitrary: xs)
  case (Cons p ps)
  then obtain zs where z: "array_op lt p xs = Some zs" and run: "array_run lt ps zs = Some ys" by (auto simp: bind_eq_Some_conv)
  note d = distinct_array_op[OF Cons.prems(3) z]
  have IH: "ordered lt zs \<Longrightarrow> queue_run lt ps (set zs) (set ys) \<and> ordered lt ys" using Cons.IH[OF run] d by blast
  note rm = set_array_remove[OF Cons.prems(3)] comparator.array_remove_ordered[OF assms Cons.prems(2)]
  show ?case
  proof (cases p)
    case (Insert x)
    then show ?thesis using z IH comparator.array_insert_ordered[OF assms Cons.prems(2)]
      by (auto simp: queue_run_simps set_array_insert split: if_splits)
  next
    case (Remove x)
    then obtain k where "index_of x xs = Some k" "zs = array_remove lt xs k" using z by auto
    then show ?thesis using index_of_nth[of x xs k] rm[of k] IH Remove by (auto simp: queue_run_simps)
  next
    case Dequeue
    show ?thesis
    proof (cases "xs = []")
      case False
      then have "zs = array_remove lt xs 0" "0 < length xs" using Dequeue z by auto
      moreover have "\<forall>y \<in> set xs. \<not> lt y (xs ! 0)"
        using comparator.ordered_root[OF assms Cons.prems(2)] by (auto simp: in_set_conv_nth)
      ultimately show ?thesis using rm[of 0] IH Dequeue queue_dequeue[of "xs ! 0" "set xs" lt ps] by auto
    qed (use Dequeue z IH queue_empty in \<open>auto simp: ordered_def\<close>)
  qed
qed (simp add: queue_done)

text \<open>
  C4.  With a strict weak order the heap is a priority queue: every sequence of operations takes the
  set of its nodes through the steps of the abstract queue, where dequeuing takes a least element;
  at the end the heap counts its nodes, the root is one that no node is less than, and it is
  \<open>NULL\<close> only when the queue is empty.
\<close>

theorem heap_priority_queue:
  assumes "comparator lt" "array_run lt ps [] = Some xs"
  shows "\<exists>h m. heap_run ps (heap_init (Some lt), clear_nodes) = Some (h, m) \<and> queue_run lt ps {} (set xs) \<and>
    hp_nelts h = card (set xs) \<and>
    (case hp_root h of None \<Rightarrow> set xs = {} | Some r \<Rightarrow> r \<in> set xs \<and> (\<forall>y \<in> set xs. \<not> lt y r))"
proof -
  obtain h m where H: "heap_run ps (heap_init (Some lt), clear_nodes) = Some (h, m)" "heap_sim lt (h, m) xs"
    using heap_run_sim[OF heap_sim_init assms(2)] by auto
  have Q: "queue_run lt ps {} (set xs)" "ordered lt xs"
    using array_run_queue[OF assms] by (simp_all add: ordered_def)
  then have M: "heap_models lt (h, m) (set xs)" using H(2) by (auto simp: heap_models_def heap_sim_def)
  have "case hp_root h of None \<Rightarrow> set xs = {} | Some r \<Rightarrow> r \<in> set xs \<and> (\<forall>y \<in> set xs. \<not> lt y r)"
    using hq.top_empty[OF M] hq.top_least[OF assms(1) M] by (auto split: option.split)
  then show ?thesis using H(1) Q(1) hq.count_card[OF M] by auto
qed

lemma less_comparator: "comparator (\<lambda>a b. (f a :: 'k :: linorder) < f b)"
  by unfold_locales auto

theorem heap_priority_queue_witness:
  "\<exists>h m. heap_run [Insert 5, Insert 3, Insert 4, Dequeue, Insert 1] (heap_init (Some (\<lambda>a b. a < b)), clear_nodes) = Some (h, m) \<and>
    queue_run (\<lambda>a b. a < b) [Insert 5, Insert 3, Insert 4, Dequeue, Insert 1] {} (set [1, 5, 4]) \<and> hp_nelts h = card (set [1, 5, 4 :: nat]) \<and>
    (case hp_root h of None \<Rightarrow> set [1, 5, 4 :: nat] = {} | Some r \<Rightarrow> r \<in> set [1, 5, 4] \<and> (\<forall>y \<in> set [1, 5, 4]. \<not> y < r))"
proof -
  have "array_run (\<lambda>a b. a < b) [Insert 5, Insert 3, Insert 4, Dequeue, Insert 1] [] = Some [1, 5, 4]" by code_simp
  from heap_priority_queue[OF less_comparator[where f = id, simplified] this] show ?thesis .
qed

end
