(* ===== verification/HTime.thy ===== *)
theory HTime
  imports HString "HOL-Library.Signed_Division"
begin

text \<open>
  \<open>base/htime.c\<close>: dates, names of months and days, formatted times, and the next time of a periodic
  timer.  The calendar of the C library (\<open>gmtime\<close>, \<open>mktime\<close>) is modelled for times from 1970 on, the local
  time zone as a fixed offset \<open>tz\<close> in seconds.  The readings of the clock are arguments.  Years and
  counts are unbounded integers.
\<close>

section \<open>Days of the calendar\<close>

definition IS_LEAP_YEAR :: "int \<Rightarrow> bool" where
  "IS_LEAP_YEAR y \<longleftrightarrow> y mod 4 = 0 \<and> y mod 100 \<noteq> 0 \<or> y mod 400 = 0"

definition s_days :: "int list" where
  "s_days = [31, 28, 31, 30, 31, 30, 31, 31, 30, 31, 30, 31]"

definition days_of_month :: "int \<Rightarrow> int \<Rightarrow> int" where
  "days_of_month month year =
     (if month < 1 \<or> month > 12 then 0
      else (let days = s_days ! nat (month - 1) in if month = 2 \<and> IS_LEAP_YEAR year then days + 1 else days))"

record datetime =
  dt_year :: int
  dt_month :: int
  dt_day :: int
  dt_hour :: int
  dt_min :: int
  dt_sec :: int
  dt_ms :: int

text \<open>The loops end for the dates of the calendar; for others they may not.\<close>

partial_function (option) past_loop :: "datetime \<Rightarrow> int \<Rightarrow> datetime option" where
  "past_loop dt sub =
     (if sub = 0 then Some dt
      else if dt_day dt > sub then Some (dt\<lparr>dt_day := dt_day dt - sub\<rparr>)
      else (let s = sub - dt_day dt;
                m = dt_month dt - 1;
                y = (if m = 0 then dt_year dt - 1 else dt_year dt);
                m = (if m = 0 then 12 else m)
            in past_loop (dt\<lparr>dt_year := y, dt_month := m, dt_day := days_of_month m y\<rparr>) s))"

definition datetime_past :: "datetime \<Rightarrow> int \<Rightarrow> datetime option" where
  "datetime_past dt days = (if days \<ge> 0 then past_loop dt days else None)"

partial_function (option) future_loop :: "datetime \<Rightarrow> int \<Rightarrow> datetime option" where
  "future_loop dt sub =
     (if sub = 0 then Some dt
      else (let mdays = days_of_month (dt_month dt) (dt_year dt)
            in if dt_day dt + sub \<le> mdays then Some (dt\<lparr>dt_day := dt_day dt + sub\<rparr>)
               else (let s = sub - (mdays - dt_day dt + 1);
                         m = dt_month dt + 1;
                         y = (if m > 12 then dt_year dt + 1 else dt_year dt);
                         m = (if m > 12 then 1 else m)
                     in future_loop (dt\<lparr>dt_year := y, dt_month := m, dt_day := 1\<rparr>) s)))"

definition datetime_future :: "datetime \<Rightarrow> int \<Rightarrow> datetime option" where
  "datetime_future dt days = (if days \<ge> 0 then future_loop dt days else None)"

text \<open>The number of a day: the days before its year, and the days before its month.\<close>

definition year_days :: "int \<Rightarrow> int" where
  "year_days y = (if IS_LEAP_YEAR y then 366 else 365)"

definition days_before_year :: "int \<Rightarrow> int" where
  "days_before_year y = 365 * (y - 1) + (y - 1) div 4 - (y - 1) div 100 + (y - 1) div 400"

definition days_before_month :: "int \<Rightarrow> int \<Rightarrow> int" where
  "days_before_month m y = sum_list (map (\<lambda>k. days_of_month k y) [1..m - 1])"

definition day_no :: "int \<Rightarrow> int \<Rightarrow> int \<Rightarrow> int" where
  "day_no y m d = days_before_year y + days_before_month m y + d"

definition valid_date :: "int \<Rightarrow> int \<Rightarrow> int \<Rightarrow> bool" where
  "valid_date y m d \<longleftrightarrow> 1 \<le> m \<and> m \<le> 12 \<and> 1 \<le> d \<and> d \<le> days_of_month m y"

lemma div_step: "(0 :: int) < k \<Longrightarrow> y div k = (y - 1) div k + (if y mod k = 0 then 1 else 0)"
proof -
  assume k: "0 < k"
  have y: "y = k * (y div k) + y mod k" by simp
  have m: "0 \<le> y mod k" "y mod k < k" using k by simp_all
  show ?thesis
  proof (cases "y mod k = 0")
    case True
    have "(y - 1) div k = y div k - 1"
      by (rule int_div_pos_eq[where r = "k - 1"]) (use y True k in \<open>simp_all add: algebra_simps\<close>)
    then show ?thesis using True by simp
  next
    case False
    have "(y - 1) div k = y div k"
      by (rule int_div_pos_eq[where r = "y mod k - 1"]) (use m False in simp_all)
    then show ?thesis using False by simp
  qed
qed

lemma next_year: "days_before_year (y + 1) = days_before_year y + year_days y"
proof -
  have L: "y mod 400 = 0 \<longrightarrow> y mod 100 = 0" "y mod 100 = 0 \<longrightarrow> y mod 4 = 0"
    using dvd_trans[of 100 "400 :: int" y] dvd_trans[of 4 "100 :: int" y] by (simp_all add: mod_eq_0_iff_dvd)
  note D = div_step[of 4 y] div_step[of 100 y] div_step[of 400 y]
  define a b c where "a = (y - 1) div 4" "b = (y - 1) div 100" "c = (y - 1) div 400"
  have E: "days_before_year (y + 1) = 365 * y + y div 4 - y div 100 + y div 400"
    "days_before_year y = 365 * (y - 1) + a - b + c"
    by (simp_all add: days_before_year_def a_b_c_def)
  show ?thesis
    using D L unfolding E year_days_def IS_LEAP_YEAR_def a_b_c_def[symmetric]
    by (cases "y mod 4 = 0"; cases "y mod 100 = 0"; cases "y mod 400 = 0") simp_all
qed

lemma next_month: "1 \<le> m \<Longrightarrow> days_before_month (m + 1) y = days_before_month m y + days_of_month m y"
  unfolding days_before_month_def using upto_rec2[of 1 m] by simp

lemma first_month [simp]: "days_before_month 1 y = 0"
  by (simp add: days_before_month_def)

lemma days_of_month_pos: "1 \<le> m \<Longrightarrow> m \<le> 12 \<Longrightarrow> 28 \<le> days_of_month m y \<and> days_of_month m y \<le> 31"
proof -
  assume "1 \<le> m" "m \<le> 12"
  then have "m \<in> set [1..12]" by simp
  moreover have "[1..12] = [1, 2, 3, 4, 5, 6, 7, 8, 9, 10, 11, 12 :: int]" by (simp add: upto_rec1)
  ultimately show ?thesis by (auto simp: days_of_month_def s_days_def)
qed

lemma year_months: "days_before_month 13 y = year_days y"
proof -
  have "[1..12] = [1, 2, 3, 4, 5, 6, 7, 8, 9, 10, 11, 12 :: int]" by (simp add: upto_rec1)
  then show ?thesis by (simp add: days_before_month_def days_of_month_def s_days_def year_days_def)
qed

lemma future_step:
  assumes "valid_date y m d"
  shows "day_no (if m + 1 > 12 then y + 1 else y) (if m + 1 > 12 then 1 else m + 1) 1 = day_no y m (days_of_month m y) + 1"
    and "valid_date (if m + 1 > 12 then y + 1 else y) (if m + 1 > 12 then 1 else m + 1) 1"
proof -
  have m: "1 \<le> m" "m \<le> 12" using assms by (simp_all add: valid_date_def)
  note N = next_month[OF m(1), of y]
  have "m = 12 \<Longrightarrow> days_before_month 12 y + days_of_month 12 y = year_days y"
    using next_month[of 12 y] year_months[of y] by simp
  then show "day_no (if m + 1 > 12 then y + 1 else y) (if m + 1 > 12 then 1 else m + 1) 1 = day_no y m (days_of_month m y) + 1"
    using m N by (cases "m = 12") (simp_all add: day_no_def next_year)
  show "valid_date (if m + 1 > 12 then y + 1 else y) (if m + 1 > 12 then 1 else m + 1) 1"
    using m days_of_month_pos[of "m + 1" y] days_of_month_pos[of 1 "y + 1"] by (auto simp: valid_date_def)
qed

lemma past_step:
  assumes "valid_date y m d"
  shows "day_no (if m - 1 = 0 then y - 1 else y) (if m - 1 = 0 then 12 else m - 1)
      (days_of_month (if m - 1 = 0 then 12 else m - 1) (if m - 1 = 0 then y - 1 else y)) = day_no y m 0"
    and "valid_date (if m - 1 = 0 then y - 1 else y) (if m - 1 = 0 then 12 else m - 1)
      (days_of_month (if m - 1 = 0 then 12 else m - 1) (if m - 1 = 0 then y - 1 else y))"
proof -
  have m: "1 \<le> m" "m \<le> 12" using assms by (simp_all add: valid_date_def)
  have "days_before_month 12 (y - 1) + days_of_month 12 (y - 1) = year_days (y - 1)"
    using next_month[of 12 "y - 1"] year_months[of "y - 1"] by simp
  then show "day_no (if m - 1 = 0 then y - 1 else y) (if m - 1 = 0 then 12 else m - 1)
      (days_of_month (if m - 1 = 0 then 12 else m - 1) (if m - 1 = 0 then y - 1 else y)) = day_no y m 0"
    using m next_month[of "m - 1" y] next_year[of "y - 1"] by (cases "m = 1") (simp_all add: day_no_def)
  show "valid_date (if m - 1 = 0 then y - 1 else y) (if m - 1 = 0 then 12 else m - 1)
      (days_of_month (if m - 1 = 0 then 12 else m - 1) (if m - 1 = 0 then y - 1 else y))"
    using m days_of_month_pos[of "m - 1" y] days_of_month_pos[of 12 "y - 1"] by (auto simp: valid_date_def)
qed

abbreviation dt_no :: "datetime \<Rightarrow> int" where
  "dt_no dt \<equiv> day_no (dt_year dt) (dt_month dt) (dt_day dt)"

abbreviation dt_valid :: "datetime \<Rightarrow> bool" where
  "dt_valid dt \<equiv> valid_date (dt_year dt) (dt_month dt) (dt_day dt)"

abbreviation dt_time :: "datetime \<Rightarrow> int \<times> int \<times> int \<times> int" where
  "dt_time dt \<equiv> (dt_hour dt, dt_min dt, dt_sec dt, dt_ms dt)"

lemma past_loop_spec:
  "dt_valid dt \<Longrightarrow> 0 \<le> n \<Longrightarrow> \<exists>dt'. past_loop dt n = Some dt' \<and> dt_valid dt' \<and> dt_no dt' = dt_no dt - n \<and> dt_time dt' = dt_time dt"
proof (induction "nat n" arbitrary: dt n rule: less_induct)
  case less
  let ?y = "if dt_month dt - 1 = 0 then dt_year dt - 1 else dt_year dt" and ?m = "if dt_month dt - 1 = 0 then 12 else dt_month dt - 1"
  let ?dt = "dt\<lparr>dt_year := ?y, dt_month := ?m, dt_day := days_of_month ?m ?y\<rparr>"
  note P = past_step[OF less.prems(1)]
  have d: "1 \<le> dt_day dt" using less.prems(1) by (simp add: valid_date_def)
  consider "n = 0" | "n \<noteq> 0" "dt_day dt > n" | "n \<noteq> 0" "dt_day dt \<le> n" by linarith
  then show ?case
  proof cases
    case 3
    have "nat (n - dt_day dt) < nat n" "0 \<le> n - dt_day dt" using 3 d by linarith+
    from less.hyps[OF this(1) _ this(2), of ?dt] P(2) obtain dt' where
      "past_loop ?dt (n - dt_day dt) = Some dt'" "dt_valid dt'" "dt_no dt' = dt_no ?dt - (n - dt_day dt)" "dt_time dt' = dt_time ?dt"
      by auto
    moreover have "dt_no ?dt = dt_no dt - dt_day dt" using P(1) by (simp add: day_no_def)
    ultimately show ?thesis using 3 by (subst past_loop.simps) (simp add: Let_def)
  qed (use less.prems in \<open>subst past_loop.simps; simp add: valid_date_def day_no_def\<close>)+
qed

lemma future_loop_spec:
  "dt_valid dt \<Longrightarrow> 0 \<le> n \<Longrightarrow> \<exists>dt'. future_loop dt n = Some dt' \<and> dt_valid dt' \<and> dt_no dt' = dt_no dt + n \<and> dt_time dt' = dt_time dt"
proof (induction "nat n" arbitrary: dt n rule: less_induct)
  case less
  let ?y = "if dt_month dt + 1 > 12 then dt_year dt + 1 else dt_year dt" and ?m = "if dt_month dt + 1 > 12 then 1 else dt_month dt + 1"
  let ?dt = "dt\<lparr>dt_year := ?y, dt_month := ?m, dt_day := 1\<rparr>" and ?k = "days_of_month (dt_month dt) (dt_year dt) - dt_day dt + 1"
  note F = future_step[OF less.prems(1)]
  have d: "dt_day dt \<le> days_of_month (dt_month dt) (dt_year dt)" using less.prems(1) by (simp add: valid_date_def)
  consider "n = 0" | "n \<noteq> 0" "?k > n" | "n \<noteq> 0" "?k \<le> n" by linarith
  then show ?case
  proof cases
    case 3
    have "nat (n - ?k) < nat n" "0 \<le> n - ?k" using 3 d by linarith+
    from less.hyps[OF this(1) _ this(2), of ?dt] F(2) obtain dt' where
      "future_loop ?dt (n - ?k) = Some dt'" "dt_valid dt'" "dt_no dt' = dt_no ?dt + (n - ?k)" "dt_time dt' = dt_time ?dt"
      by auto
    moreover have "dt_no ?dt = dt_no dt + ?k" using F(1) by (simp add: day_no_def)
    ultimately show ?thesis using 3 by (subst future_loop.simps) (simp add: Let_def)
  qed (use less.prems in \<open>subst future_loop.simps; simp add: valid_date_def day_no_def\<close>)+
qed

text \<open>Different dates have different numbers.\<close>

lemma year_mono: "y \<le> z \<Longrightarrow> days_before_year y \<le> days_before_year z"
proof (induction z rule: int_ge_induct)
  case (step z)
  then show ?case using next_year[of z] by (simp add: year_days_def split: if_splits)
qed simp

lemma month_mono: "m \<le> k \<Longrightarrow> 1 \<le> m \<Longrightarrow> days_before_month m y \<le> days_before_month k y"
proof (induction k rule: int_ge_induct)
  case (step k)
  have "0 \<le> days_of_month k y" using days_of_month_pos[of k y] by (cases "1 \<le> k \<and> k \<le> 12") (auto simp: days_of_month_def)
  then show ?case using step next_month[of k y] by simp
qed simp

lemma day_in_year:
  assumes "valid_date y m d"
  shows "days_before_year y < day_no y m d" "day_no y m d \<le> days_before_year (y + 1)"
    "days_before_month m y < day_no y m d - days_before_year y" "day_no y m d - days_before_year y \<le> days_before_month (m + 1) y"
proof -
  have m: "1 \<le> m" "m \<le> 12" "1 \<le> d" "d \<le> days_of_month m y" using assms by (simp_all add: valid_date_def)
  show low: "days_before_month m y < day_no y m d - days_before_year y" using m by (simp add: day_no_def)
  show high: "day_no y m d - days_before_year y \<le> days_before_month (m + 1) y"
    using m next_month[of m y] by (simp add: day_no_def)
  show "days_before_year y < day_no y m d" using low month_mono[of 1 m y] m by simp
  show "day_no y m d \<le> days_before_year (y + 1)"
    using high month_mono[of "m + 1" 13 y] m next_year[of y] year_months[of y] by simp
qed

lemma day_no_inj:
  assumes "valid_date y m d" "valid_date y' m' d'" "day_no y m d = day_no y' m' d'"
  shows "y = y' \<and> m = m' \<and> d = d'"
proof -
  note A = day_in_year[OF assms(1)] and B = day_in_year[OF assms(2)]
  have "\<not> y < y'" "\<not> y' < y" using year_mono[of "y + 1" y'] year_mono[of "y' + 1" y] A(1,2) B(1,2) assms(3) by linarith+
  then have y: "y = y'" by simp
  have v: "1 \<le> m" "1 \<le> m'" using assms(1,2) by (simp_all add: valid_date_def)
  have "\<not> m < m'" "\<not> m' < m"
    using month_mono[of "m + 1" m' y] month_mono[of "m' + 1" m y] A(3,4) B(3,4) assms(3) v y by auto
  then show ?thesis using assms(3) y by (simp add: day_no_def)
qed

text \<open>
  C12.  Moving a date of the calendar back or forward by a number of days returns, gives a date of the
  calendar with that many days between, and keeps the time of day; going forward and back again
  gives the date itself.
\<close>

theorem datetime_move:
  assumes "dt_valid dt" "0 \<le> n"
  shows "\<exists>p f. datetime_past dt n = Some p \<and> dt_valid p \<and> dt_no p = dt_no dt - n \<and> dt_time p = dt_time dt \<and>
    datetime_future dt n = Some f \<and> dt_valid f \<and> dt_no f = dt_no dt + n \<and> dt_time f = dt_time dt \<and>
    datetime_past f n = Some dt \<and> datetime_future p n = Some dt"
proof -
  obtain p where p: "past_loop dt n = Some p" "dt_valid p" "dt_no p = dt_no dt - n" "dt_time p = dt_time dt"
    using past_loop_spec[OF assms] by blast
  obtain f where f: "future_loop dt n = Some f" "dt_valid f" "dt_no f = dt_no dt + n" "dt_time f = dt_time dt"
    using future_loop_spec[OF assms] by blast
  have same: "e = dt" if "dt_valid e" "dt_no e = dt_no dt" "dt_time e = dt_time dt" for e
    using day_no_inj[OF that(1) assms(1) that(2)] that(3) by simp
  have "past_loop f n = Some dt" using past_loop_spec[OF f(2) assms(2)] f(3,4) same by fastforce
  moreover have "future_loop p n = Some dt" using future_loop_spec[OF p(2) assms(2)] p(3,4) same by fastforce
  ultimately show ?thesis using p f assms(2) unfolding datetime_past_def datetime_future_def by simp
qed

definition demo_date :: datetime where
  "demo_date = \<lparr>dt_year = 2024, dt_month = 2, dt_day = 28, dt_hour = 12, dt_min = 30, dt_sec = 5, dt_ms = 0\<rparr>"

theorem datetime_move_witness:
  "\<exists>p f. datetime_past demo_date 400 = Some p \<and> dt_valid p \<and> dt_no p = dt_no demo_date - 400 \<and> dt_time p = dt_time demo_date \<and>
    datetime_future demo_date 400 = Some f \<and> dt_valid f \<and> dt_no f = dt_no demo_date + 400 \<and> dt_time f = dt_time demo_date \<and>
    datetime_past f 400 = Some demo_date \<and> datetime_future p 400 = Some demo_date"
proof (rule datetime_move)
  show "dt_valid demo_date" by code_simp
qed simp

section \<open>The C library's calendar\<close>

record tm =
  tm_sec :: int
  tm_min :: int
  tm_hour :: int
  tm_mday :: int
  tm_mon :: int
  tm_year :: int
  tm_wday :: int
  tm_yday :: int

text \<open>The year, counted from \<open>y\<close>, and the month that hold the \<open>n\<close>-th day.\<close>

function find_year :: "int \<Rightarrow> int \<Rightarrow> int \<times> int" where
  "find_year y n = (if n < year_days y then (y, n) else find_year (y + 1) (n - year_days y))"
  by pat_completeness auto
termination by (relation "measure (\<lambda>(y, n). nat n)") (auto simp: year_days_def split: if_splits)

function find_month :: "int \<Rightarrow> int \<Rightarrow> int \<Rightarrow> int \<times> int" where
  "find_month y m n = (if n < days_of_month m y \<or> m \<ge> 12 then (m, n) else find_month y (m + 1) (n - days_of_month m y))"
  by pat_completeness auto
termination by (relation "measure (\<lambda>(y, m, n). nat (12 - m))") auto

declare find_year.simps [simp del] find_month.simps [simp del]

definition EPOCH_DAY :: int where
  "EPOCH_DAY = 719163"

definition gmtime :: "int \<Rightarrow> tm" where
  "gmtime t =
     (let days = t div 86400; s = t mod 86400;
          (y, yday) = find_year 1970 days;
          (m, mday) = find_month y 1 yday
      in \<lparr>tm_sec = s mod 60, tm_min = s div 60 mod 60, tm_hour = s div 3600, tm_mday = mday + 1, tm_mon = m - 1, tm_year = y - 1900,
          tm_wday = (days + 4) mod 7, tm_yday = yday\<rparr>)"

text \<open>\<open>mktime\<close> accepts fields out of their ranges; those of the week and year day are ignored.\<close>

definition timegm :: "tm \<Rightarrow> int" where
  "timegm tm =
     (day_no (tm_year tm + 1900 + tm_mon tm div 12) (tm_mon tm mod 12 + 1) (tm_mday tm) - EPOCH_DAY) * 86400
       + tm_hour tm * 3600 + tm_min tm * 60 + tm_sec tm"

definition localtime :: "int \<Rightarrow> int \<Rightarrow> tm" where
  "localtime tz t = gmtime (t + tz)"

definition mktime :: "int \<Rightarrow> tm \<Rightarrow> int" where
  "mktime tz tm = timegm tm - tz"

definition tm_ok :: "tm \<Rightarrow> bool" where
  "tm_ok tm \<longleftrightarrow> valid_date (tm_year tm + 1900) (tm_mon tm + 1) (tm_mday tm) \<and> 0 \<le> tm_hour tm \<and> tm_hour tm < 24 \<and>
     0 \<le> tm_min tm \<and> tm_min tm < 60 \<and> 0 \<le> tm_sec tm \<and> tm_sec tm < 60"

lemma epoch: "days_before_year 1970 + 1 = EPOCH_DAY"
  by (simp add: days_before_year_def EPOCH_DAY_def)

lemma find_year_spec:
  "0 \<le> n \<Longrightarrow> find_year y n = (z, k) \<Longrightarrow> days_before_year z + k = days_before_year y + n \<and> 0 \<le> k \<and> k < year_days z"
proof (induction y n rule: find_year.induct)
  case (1 y n)
  show ?case
  proof (cases "n < year_days y")
    case True
    then show ?thesis using 1(2,3) by (subst (asm) find_year.simps) simp
  next
    case False
    then have "find_year (y + 1) (n - year_days y) = (z, k)" using 1(3) by (subst (asm) find_year.simps) simp
    then show ?thesis using 1(1)[OF False] next_year[of y] False by simp
  qed
qed

lemma find_month_spec:
  "1 \<le> m \<Longrightarrow> m \<le> 12 \<Longrightarrow> 0 \<le> n \<Longrightarrow> days_before_month m y + n < days_before_month 13 y \<Longrightarrow> find_month y m n = (z, k) \<Longrightarrow>
    days_before_month z y + k = days_before_month m y + n \<and> valid_date y z (k + 1)"
proof (induction y m n rule: find_month.induct)
  case (1 y m n)
  show ?case
  proof (cases "n < days_of_month m y \<or> m \<ge> 12")
    case True
    have "n < days_of_month m y" using True 1(3,5) next_month[of 12 y] by (cases "m = 12") auto
    then show ?thesis using True 1(2-4,6) by (subst (asm) find_month.simps) (auto simp: valid_date_def)
  next
    case False
    then have "find_month y (m + 1) (n - days_of_month m y) = (z, k)" using 1(6) by (subst (asm) find_month.simps) simp
    then show ?thesis using 1(1)[OF False] 1(2-5) next_month[of m y] False by simp
  qed
qed

lemma gmtime_spec:
  assumes "0 \<le> t"
  shows "tm_ok (gmtime t)" "timegm (gmtime t) = t"
    "tm_hour (gmtime t) * 3600 + tm_min (gmtime t) * 60 + tm_sec (gmtime t) = t mod 86400"
    "tm_wday (gmtime t) = (t div 86400 + 4) mod 7"
proof -
  define days s where "days = t div 86400" "s = t mod 86400"
  obtain y yday where Y: "find_year 1970 days = (y, yday)" by fastforce
  obtain m mday where M: "find_month y 1 yday = (m, mday)" by fastforce
  have d: "0 \<le> days" using assms by (simp add: days_s_def)
  note y = find_year_spec[OF d Y]
  note m = find_month_spec[OF _ _ _ _ M, simplified, unfolded year_months]
  have G: "gmtime t = \<lparr>tm_sec = s mod 60, tm_min = s div 60 mod 60, tm_hour = s div 3600, tm_mday = mday + 1, tm_mon = m - 1,
      tm_year = y - 1900, tm_wday = (days + 4) mod 7, tm_yday = yday\<rparr>"
    using Y M by (simp add: gmtime_def days_s_def Let_def)
  have s: "0 \<le> s" "s < 86400" by (simp_all add: days_s_def)
  have hms: "s div 3600 * 3600 + s div 60 mod 60 * 60 + s mod 60 = s"
  proof -
    have "s div 3600 = s div 60 div 60" using zdiv_zmult2_eq[of 60 s 60] by simp
    then show ?thesis using div_mult_mod_eq[of s 60] div_mult_mod_eq[of "s div 60" 60] by linarith
  qed
  have range: "0 \<le> s div 3600" "s div 3600 < 24" using s by simp_all
  have V: "valid_date y m (mday + 1)" using m y by simp
  then have "1 \<le> m" "m \<le> 12" by (simp_all add: valid_date_def)
  then have mon: "(m - 1) div 12 = 0" "(m - 1) mod 12 = m - 1" by simp_all
  have D: "day_no y m (mday + 1) = days + EPOCH_DAY" using m y epoch by (simp add: day_no_def)
  show "tm_ok (gmtime t)" using V range by (simp add: G tm_ok_def)
  show "tm_hour (gmtime t) * 3600 + tm_min (gmtime t) * 60 + tm_sec (gmtime t) = t mod 86400"
    using hms by (simp add: G days_s_def)
  show "tm_wday (gmtime t) = (t div 86400 + 4) mod 7" by (simp add: G days_s_def)
  have "days * 86400 + s = t" by (simp add: days_s_def)
  then show "timegm (gmtime t) = t" using hms by (simp add: G timegm_def mon D)
qed

lemma tm_ok_mon: "tm_ok tm \<Longrightarrow> tm_mon tm div 12 = 0 \<and> tm_mon tm mod 12 = tm_mon tm"
  by (auto simp: tm_ok_def valid_date_def)

lemma timegm_ok:
  "tm_ok tm \<Longrightarrow> timegm tm = (day_no (tm_year tm + 1900) (tm_mon tm + 1) (tm_mday tm) - EPOCH_DAY) * 86400
     + (tm_hour tm * 3600 + tm_min tm * 60 + tm_sec tm)"
  by (simp add: timegm_def tm_ok_mon)

text \<open>The time of day and the date of a time are determined by it.\<close>

lemma time_parts:
  fixes D D' S S' :: int
  assumes "D * 86400 + S = D' * 86400 + S'" "0 \<le> S" "S < 86400" "0 \<le> S'" "S' < 86400"
  shows "D = D'" "S = S'"
proof -
  show "D = D'" using assms by linarith
  then show "S = S'" using assms(1) by simp
qed

lemma clock_parts:
  fixes h m s :: int
  assumes "h * 3600 + m * 60 + s = h' * 3600 + m' * 60 + s'" "0 \<le> m" "m < 60" "0 \<le> s" "s < 60" "0 \<le> m'" "m' < 60" "0 \<le> s'" "s' < 60"
  shows "h = h'" "m = m'" "s = s'"
proof -
  show h: "h = h'" using assms by linarith
  show m: "m = m'" using assms h by linarith
  show "s = s'" using assms(1) h m by simp
qed

lemma timegm_inj:
  assumes "tm_ok a" "tm_ok b" "timegm a = timegm b"
  shows "tm_year a = tm_year b \<and> tm_mon a = tm_mon b \<and> tm_mday a = tm_mday b \<and> tm_hour a = tm_hour b \<and> tm_min a = tm_min b \<and> tm_sec a = tm_sec b"
proof -
  define S S' where "S = tm_hour a * 3600 + tm_min a * 60 + tm_sec a" "S' = tm_hour b * 3600 + tm_min b * 60 + tm_sec b"
  have r: "0 \<le> S" "S < 86400" "0 \<le> S'" "S' < 86400" using assms(1,2) by (simp_all add: S_S'_def tm_ok_def)
  from time_parts[OF assms(3)[unfolded timegm_ok[OF assms(1)] timegm_ok[OF assms(2)] S_S'_def[symmetric]] r]
  have D: "day_no (tm_year a + 1900) (tm_mon a + 1) (tm_mday a) = day_no (tm_year b + 1900) (tm_mon b + 1) (tm_mday b)" and "S = S'" by simp_all
  then show ?thesis
    using day_no_inj[OF _ _ D] clock_parts[of "tm_hour a" "tm_min a" "tm_sec a" "tm_hour b" "tm_min b" "tm_sec b"] assms(1,2)
    unfolding tm_ok_def S_S'_def by simp
qed

text \<open>The fields that \<open>mktime\<close> leaves in its argument are those of the time it returns.\<close>

lemma local_mktime:
  assumes "tm_ok tm" "0 \<le> mktime tz tm + tz"
  shows "tm_year (localtime tz (mktime tz tm)) = tm_year tm" "tm_mon (localtime tz (mktime tz tm)) = tm_mon tm"
    "tm_mday (localtime tz (mktime tz tm)) = tm_mday tm" "tm_hour (localtime tz (mktime tz tm)) = tm_hour tm"
    "tm_min (localtime tz (mktime tz tm)) = tm_min tm" "tm_sec (localtime tz (mktime tz tm)) = tm_sec tm"
  using timegm_inj[OF gmtime_spec(1)[OF assms(2)] assms(1)] gmtime_spec(2)[OF assms(2)]
  by (simp_all add: localtime_def mktime_def)

section \<open>Periodic timers\<close>

datatype period_type = UNKOWN | HOURLY | DAILY | WEEKLY | MONTHLY | YEARLY

definition SECONDS_PER_HOUR :: int where "SECONDS_PER_HOUR = 3600"
definition SECONDS_PER_DAY :: int where "SECONDS_PER_DAY = 86400"
definition SECONDS_PER_WEEK :: int where "SECONDS_PER_WEEK = 604800"

text \<open>The period, from the fields that are given (not negative), and the fields of the time looked for.\<close>

definition period_of :: "int \<Rightarrow> int \<Rightarrow> int \<Rightarrow> int \<Rightarrow> int \<Rightarrow> period_type" where
  "period_of minute hour day week month =
     (if week \<ge> 0 then WEEKLY
      else if day > 0 then (if month > 0 then YEARLY else MONTHLY)
      else if hour \<ge> 0 then DAILY
      else if minute \<ge> 0 then HOURLY
      else UNKOWN)"

definition cron_fields :: "int \<Rightarrow> int \<Rightarrow> int \<Rightarrow> int \<Rightarrow> int \<Rightarrow> tm \<Rightarrow> tm" where
  "cron_fields minute hour day week month tm =
     (let tm = tm\<lparr>tm_sec := 0\<rparr>;
          tm = (if minute \<ge> 0 then tm\<lparr>tm_min := minute\<rparr> else tm);
          tm = (if hour \<ge> 0 then tm\<lparr>tm_hour := hour\<rparr> else tm)
      in if \<not> week \<ge> 0 \<and> day > 0 then
           (let tm = tm\<lparr>tm_mday := day\<rparr> in if month > 0 then tm\<lparr>tm_mon := month - 1\<rparr> else tm)
         else tm)"

definition cron_next_timeout :: "int \<Rightarrow> int \<Rightarrow> int \<Rightarrow> int \<Rightarrow> int \<Rightarrow> int \<Rightarrow> int \<Rightarrow> int" where
  "cron_next_timeout tz tt minute hour day week month =
     (let period_type = period_of minute hour day week month;
          tm = cron_fields minute hour day week month (localtime tz tt)
      in if period_type = UNKOWN then - 1
         else
           (let tt_round = mktime tz tm;
                tm = localtime tz tt_round;
                tt_round = (if week \<ge> 0 then tt + (week - tm_wday tm) * SECONDS_PER_DAY else tt_round)
            in if tt_round > tt then tt_round
               else (case period_type of
                       HOURLY \<Rightarrow> tt_round + SECONDS_PER_HOUR
                     | DAILY \<Rightarrow> tt_round + SECONDS_PER_DAY
                     | WEEKLY \<Rightarrow> tt_round + SECONDS_PER_WEEK
                     | MONTHLY \<Rightarrow>
                         mktime tz (let tm = tm\<lparr>tm_mon := tm_mon tm + 1\<rparr>
                                    in if tm_mon tm = 12 then tm\<lparr>tm_mon := 0, tm_year := tm_year tm + 1\<rparr> else tm)
                     | YEARLY \<Rightarrow> mktime tz (tm\<lparr>tm_year := tm_year tm + 1\<rparr>)
                     | UNKOWN \<Rightarrow> - 1)))"

text \<open>The clock of a time, and later dates.\<close>

lemma minute_of_day: "t mod 86400 div 60 mod 60 = t div 60 mod (60 :: int)"
proof -
  have q: "t = 86400 * (t div 86400) + t mod 86400" by simp
  have "t = 86400 * q + r \<Longrightarrow> a * 60 + b = r \<Longrightarrow> t = 60 * ((q * 24) * 60 + a) + b" for q r a b :: int by simp
  from this[OF q div_mult_mod_eq] have "t div 60 = (t div 86400 * 24) * 60 + t mod 86400 div 60"
    by (rule int_div_pos_eq) simp_all
  then show ?thesis by (simp only: mod_mult_self3)
qed

lemma gmtime_clock:
  "tm_sec (gmtime t) = t mod 60" "tm_min (gmtime t) = t div 60 mod 60" "tm_hour (gmtime t) = t mod 86400 div 3600"
proof -
  have "t mod 86400 mod 60 = t mod 60" by (simp add: mod_mod_cancel)
  then show "tm_sec (gmtime t) = t mod 60" "tm_min (gmtime t) = t div 60 mod 60" "tm_hour (gmtime t) = t mod 86400 div 3600"
    by (simp_all add: gmtime_def Let_def minute_of_day split: prod.split)
qed

lemma day_no_less:
  assumes "valid_date y m d" "valid_date y' m' d'" "y < y' \<or> y = y' \<and> m < m'"
  shows "day_no y m d < day_no y' m' d'"
proof -
  note A = day_in_year[OF assms(1)] and B = day_in_year[OF assms(2)]
  have m: "1 \<le> m" using assms(1) by (simp add: valid_date_def)
  from assms(3) show ?thesis
  proof
    assume "y < y'"
    then show ?thesis using year_mono[of "y + 1" y'] A(2) B(1) by simp
  next
    assume "y = y' \<and> m < m'"
    then show ?thesis using month_mono[of "m + 1" m' y] A(4) B(3) m by simp
  qed
qed

lemma parts_order:
  fixes D D' S S' K :: int
  shows "D < D' \<Longrightarrow> S < 86400 \<Longrightarrow> 0 \<le> S' \<Longrightarrow> (D - K) * 86400 + S < (D' - K) * 86400 + S'"
    and "K \<le> D \<Longrightarrow> 0 \<le> S \<Longrightarrow> 0 \<le> (D - K) * 86400 + S"
    and "0 \<le> (D - K) * 86400 + S \<Longrightarrow> S < 86400 \<Longrightarrow> K \<le> D"
  by (simp_all add: left_diff_distrib)

lemma timegm_less:
  assumes "tm_ok a" "tm_ok b"
    and "day_no (tm_year a + 1900) (tm_mon a + 1) (tm_mday a) < day_no (tm_year b + 1900) (tm_mon b + 1) (tm_mday b)"
  shows "timegm a < timegm b"
proof -
  have "tm_hour a * 3600 + tm_min a * 60 + tm_sec a < 86400" "0 \<le> tm_hour b * 3600 + tm_min b * 60 + tm_sec b"
    using assms(1,2) by (simp_all add: tm_ok_def)
  then show ?thesis using assms(3) unfolding timegm_ok[OF assms(1)] timegm_ok[OF assms(2)] by (intro parts_order(1))
qed

lemma timegm_from_1970: "tm_ok a \<Longrightarrow> 70 \<le> tm_year a \<Longrightarrow> 0 \<le> timegm a"
proof -
  assume a: "tm_ok a" "70 \<le> tm_year a"
  have "0 \<le> tm_hour a * 3600 + tm_min a * 60 + tm_sec a" using a(1) by (simp add: tm_ok_def)
  moreover have "EPOCH_DAY \<le> day_no (tm_year a + 1900) (tm_mon a + 1) (tm_mday a)"
    using day_in_year(1)[of "tm_year a + 1900"] year_mono[of 1970 "tm_year a + 1900"] a epoch by (fastforce simp: tm_ok_def)
  ultimately show ?thesis unfolding timegm_ok[OF a(1)] by (intro parts_order(2))
qed

lemma gmtime_year: "0 \<le> t \<Longrightarrow> 70 \<le> tm_year (gmtime t)"
proof -
  assume t: "0 \<le> t"
  let ?g = "gmtime t"
  note G = gmtime_spec(1,2)[OF t]
  have S: "tm_hour ?g * 3600 + tm_min ?g * 60 + tm_sec ?g < 86400" using G(1) by (simp add: tm_ok_def)
  have "EPOCH_DAY \<le> day_no (tm_year ?g + 1900) (tm_mon ?g + 1) (tm_mday ?g)"
    using parts_order(3)[OF _ S] G(2) t unfolding timegm_ok[OF G(1)] by metis
  moreover have "day_no (tm_year ?g + 1900) (tm_mon ?g + 1) (tm_mday ?g) \<le> days_before_year (tm_year ?g + 1900 + 1)"
    by (rule day_in_year(2)) (use G(1) in \<open>simp add: tm_ok_def\<close>)
  ultimately show ?thesis using year_mono[of "tm_year ?g + 1900 + 1" 1970] epoch by linarith
qed

text \<open>What a caller asks for: ranges of the fields, days that every month has, and no day of the week.\<close>

definition cron_ok :: "int \<Rightarrow> int \<Rightarrow> int \<Rightarrow> int \<Rightarrow> bool" where
  "cron_ok minute hour day month \<longleftrightarrow> minute \<le> 59 \<and> hour \<le> 23 \<and> day \<le> 28 \<and> month \<le> 12 \<and> (0 \<le> minute \<or> 0 \<le> hour \<or> 0 < day)"

lemma cron_fields_simps [simp]:
  "tm_sec (cron_fields minute hour day w month tm) = 0"
  "tm_min (cron_fields minute hour day w month tm) = (if 0 \<le> minute then minute else tm_min tm)"
  "tm_hour (cron_fields minute hour day w month tm) = (if 0 \<le> hour then hour else tm_hour tm)"
  "tm_mday (cron_fields minute hour day w month tm) = (if w < 0 \<and> 0 < day then day else tm_mday tm)"
  "tm_mon (cron_fields minute hour day w month tm) = (if w < 0 \<and> 0 < day \<and> 0 < month then month - 1 else tm_mon tm)"
  "tm_year (cron_fields minute hour day w month tm) = tm_year tm"
  by (simp_all add: cron_fields_def Let_def)

lemma cron_fields_ok:
  assumes "cron_ok minute hour day month" "tm_ok tm"
  shows "tm_ok (cron_fields minute hour day (- 1) month tm)"
proof -
  have "1 \<le> tm_mon tm + 1" "tm_mon tm + 1 \<le> 12" using assms(2) by (simp_all add: tm_ok_def valid_date_def)
  from days_of_month_pos[OF this, of "tm_year tm + 1900"] days_of_month_pos[of month "tm_year tm + 1900"] show ?thesis
    using assms by (auto simp: cron_ok_def tm_ok_def valid_date_def)
qed

lemma month_later:
  assumes "tm_ok tm" "tm_mday tm \<le> 28"
    and n: "n = (let tm = tm\<lparr>tm_mon := tm_mon tm + 1\<rparr> in if tm_mon tm = 12 then tm\<lparr>tm_mon := 0, tm_year := tm_year tm + 1\<rparr> else tm)"
  shows "tm_ok n" "tm_year tm < tm_year n \<or> tm_year tm = tm_year n \<and> tm_mon tm < tm_mon n"
    "tm_mday n = tm_mday tm" "tm_hour n = tm_hour tm" "tm_min n = tm_min tm" "tm_sec n = tm_sec tm"
proof -
  have m: "0 \<le> tm_mon tm" "tm_mon tm \<le> 11" using assms(1) by (simp_all add: tm_ok_def valid_date_def)
  show "tm_year tm < tm_year n \<or> tm_year tm = tm_year n \<and> tm_mon tm < tm_mon n" "tm_mday n = tm_mday tm"
    "tm_hour n = tm_hour tm" "tm_min n = tm_min tm" "tm_sec n = tm_sec tm"
    by (simp_all add: n Let_def)
  have "28 \<le> days_of_month (tm_mon n + 1) (tm_year n + 1900)"
    using m days_of_month_pos[of "tm_mon n + 1" "tm_year n + 1900"] by (simp add: n Let_def)
  then show "tm_ok n" using assms(1,2) m by (auto simp: tm_ok_def valid_date_def n Let_def)
qed

lemma year_later:
  assumes "tm_ok tm" "tm_mday tm \<le> 28"
  shows "tm_ok (tm\<lparr>tm_year := tm_year tm + 1\<rparr>)"
  using assms days_of_month_pos[of "tm_mon tm + 1" "tm_year tm + 1 + 1900"] by (auto simp: tm_ok_def valid_date_def)

text \<open>\<open>mktime\<close> sees only the fields of the date and the clock.\<close>

lemma timegm_cong:
  "tm_year a = tm_year b \<Longrightarrow> tm_mon a = tm_mon b \<Longrightarrow> tm_mday a = tm_mday b \<Longrightarrow> tm_hour a = tm_hour b \<Longrightarrow>
    tm_min a = tm_min b \<Longrightarrow> tm_sec a = tm_sec b \<Longrightarrow> timegm a = timegm b"
  by (simp add: timegm_def)

text \<open>A time that the local clock shows with the fields asked for.\<close>

definition cron_match :: "int \<Rightarrow> int \<Rightarrow> int \<Rightarrow> int \<Rightarrow> int \<Rightarrow> int \<Rightarrow> bool" where
  "cron_match tz minute hour day month r \<longleftrightarrow>
     (let tm = localtime tz r
      in tm_sec tm = 0 \<and> (minute < 0 \<or> tm_min tm = minute) \<and> (hour < 0 \<or> tm_hour tm = hour) \<and>
         (day \<le> 0 \<or> tm_mday tm = day \<and> (month \<le> 0 \<or> tm_mon tm = month - 1)))"

lemma cron_match_mktime:
  assumes "tm_ok tm" "70 \<le> tm_year tm" "tm_sec tm = 0" "minute < 0 \<or> tm_min tm = minute" "hour < 0 \<or> tm_hour tm = hour"
    and "day \<le> 0 \<or> tm_mday tm = day \<and> (month \<le> 0 \<or> tm_mon tm = month - 1)"
  shows "cron_match tz minute hour day month (mktime tz tm)"
proof -
  have "0 \<le> mktime tz tm + tz" using timegm_from_1970[OF assms(1,2)] by (simp add: mktime_def)
  then show ?thesis using assms by (simp add: cron_match_def Let_def local_mktime)
qed

lemma clock_shift:
  fixes x :: int
  shows "(x + 3600) mod 60 = x mod 60" "(x + 3600) div 60 mod 60 = x div 60 mod 60"
    "(x + 86400) mod 60 = x mod 60" "(x + 86400) div 60 mod 60 = x div 60 mod 60" "(x + 86400) mod 86400 = x mod 86400"
proof -
  show "(x + 3600) mod 60 = x mod 60" using mod_mult_self1[of x 60 60] by simp
  show "(x + 86400) mod 60 = x mod 60" using mod_mult_self1[of x 1440 60] by simp
  show "(x + 86400) mod 86400 = x mod 86400" by simp
  have "(x + 3600) div 60 = 1 * 60 + x div 60" using div_mult_self1[of 60 x 60] by simp
  then show "(x + 3600) div 60 mod 60 = x div 60 mod 60" by (simp only: mod_mult_self3)
  have "(x + 86400) div 60 = 24 * 60 + x div 60" using div_mult_self1[of 60 x 1440] by simp
  then show "(x + 86400) div 60 mod 60 = x div 60 mod 60" by (simp only: mod_mult_self3)
qed

lemma cron_match_shift:
  assumes "cron_match tz minute hour day month r" "day \<le> 0"
  shows "hour < 0 \<Longrightarrow> cron_match tz minute hour day month (r + 3600)" "cron_match tz minute hour day month (r + 86400)"
proof -
  have e: "r + 3600 + tz = (r + tz) + 3600" "r + 86400 + tz = (r + tz) + 86400" by simp_all
  show "hour < 0 \<Longrightarrow> cron_match tz minute hour day month (r + 3600)" "cron_match tz minute hour day month (r + 86400)"
    using assms unfolding cron_match_def Let_def localtime_def gmtime_clock e clock_shift by simp_all
qed

text \<open>The first guess, and the time now on the same day.\<close>

lemma cron_same_day:
  assumes t: "0 \<le> tt + tz" and c: "cron_ok minute hour day month" and d: "day \<le> 0"
    and r: "r = mktime tz (cron_fields minute hour day (- 1) month (localtime tz tt))"
  shows "hour < 0 \<Longrightarrow> r \<le> tt + 3600 \<and> tt < r + 3600" "r \<le> tt + 86400 \<and> tt < r + 86400"
proof -
  let ?g = "localtime tz tt" and ?c = "cron_fields minute hour day (- 1) month (localtime tz tt)"
  note G = gmtime_spec(1,2)[OF t, folded localtime_def]
  note C = cron_fields_ok[OF c G(1)]
  have T: "timegm ?c - timegm ?g = (tm_hour ?c - tm_hour ?g) * 3600 + (tm_min ?c - tm_min ?g) * 60 - tm_sec ?g"
    using d by (simp add: timegm_ok[OF G(1)] timegm_ok[OF C] left_diff_distrib)
  have R: "r - tt = timegm ?c - timegm ?g" using G(2) by (simp add: r mktime_def)
  have B: "0 \<le> tm_min ?c" "tm_min ?c < 60" "0 \<le> tm_min ?g" "tm_min ?g < 60" "0 \<le> tm_sec ?g" "tm_sec ?g < 60"
    "0 \<le> tm_hour ?c" "tm_hour ?c < 24" "0 \<le> tm_hour ?g" "tm_hour ?g < 24"
    using G(1) C by (simp_all add: tm_ok_def)
  show "r \<le> tt + 86400 \<and> tt < r + 86400" using R T B by auto
  have "tm_hour ?c = tm_hour ?g" if "hour < 0" using that by simp
  then show "r \<le> tt + 3600 \<and> tt < r + 3600" if "hour < 0" using R T B that by auto
qed

lemma cron_first_guess:
  assumes "0 \<le> tt + tz" "cron_ok minute hour day month"
    and "c = cron_fields minute hour day (- 1) month (localtime tz tt)"
  shows "tm_ok c" "70 \<le> tm_year c" "cron_match tz minute hour day month (mktime tz c)" "0 < day \<Longrightarrow> tm_mday c \<le> 28"
proof -
  show c: "tm_ok c" using cron_fields_ok[OF assms(2)] gmtime_spec(1)[OF assms(1)] by (simp add: assms(3) localtime_def)
  show y: "70 \<le> tm_year c" using gmtime_year[OF assms(1)] by (simp add: assms(3) localtime_def)
  show "cron_match tz minute hour day month (mktime tz c)"
    by (rule cron_match_mktime[OF c y]) (auto simp: assms(3))
  show "0 < day \<Longrightarrow> tm_mday c \<le> 28" using assms(2) by (simp add: assms(3) cron_ok_def)
qed

text \<open>A later month or year with the same day and clock is later than every time of the month now.\<close>

lemma cron_later:
  assumes t: "0 \<le> tt + tz" and n: "tm_ok n"
    and l: "tm_year (localtime tz tt) < tm_year n \<or> tm_year (localtime tz tt) = tm_year n \<and> tm_mon (localtime tz tt) < tm_mon n"
  shows "tt < mktime tz n"
proof -
  note G = gmtime_spec(1,2)[OF t, folded localtime_def]
  have "day_no (tm_year (localtime tz tt) + 1900) (tm_mon (localtime tz tt) + 1) (tm_mday (localtime tz tt))
      < day_no (tm_year n + 1900) (tm_mon n + 1) (tm_mday n)"
    by (rule day_no_less) (use G(1) n l in \<open>auto simp: tm_ok_def\<close>)
  from timegm_less[OF G(1) n this] G(2) show ?thesis by (simp add: mktime_def)
qed

text \<open>
  C11.  For a periodic timer without a day of the week the next time is later than now and the local clock
  shows the minute, the hour, the day and the month asked for, with no seconds (the day up to 28, so
  that every month has it); an hourly timer waits an hour at most and a daily one a day.
\<close>

theorem cron_next_time:
  assumes "0 \<le> tt + tz" "cron_ok minute hour day month"
  shows "\<exists>r. cron_next_timeout tz tt minute hour day (- 1) month = r \<and> tt < r \<and> cron_match tz minute hour day month r \<and>
    (0 < day \<or> r \<le> tt + 86400) \<and> (0 < day \<or> 0 \<le> hour \<or> r \<le> tt + 3600)"
proof -
  define c where "c = cron_fields minute hour day (- 1) month (localtime tz tt)"
  define r tm where "r = mktime tz c" "tm = localtime tz r"
  note C = cron_first_guess[OF assms c_def]
  have "0 \<le> r + tz" using timegm_from_1970[OF C(1,2)] by (simp add: r_tm_def mktime_def)
  note L = local_mktime[OF C(1) this[unfolded r_tm_def], folded r_tm_def(1), folded r_tm_def(2)]
  have cong: "mktime tz tm' = mktime tz c'" if "tm_year tm' = tm_year c'" "tm_mon tm' = tm_mon c'" "tm_mday tm' = tm_mday c'"
    "tm_hour tm' = tm_hour c'" "tm_min tm' = tm_min c'" "tm_sec tm' = tm_sec c'" for tm' c'
    using timegm_cong[OF that] by (simp add: mktime_def)
  have E: "cron_next_timeout tz tt minute hour day (- 1) month = (if r > tt then r
      else if 0 < day then (if 0 < month then mktime tz (tm\<lparr>tm_year := tm_year tm + 1\<rparr>)
        else mktime tz (let tm = tm\<lparr>tm_mon := tm_mon tm + 1\<rparr> in if tm_mon tm = 12 then tm\<lparr>tm_mon := 0, tm_year := tm_year tm + 1\<rparr> else tm))
      else if 0 \<le> hour then r + 86400 else r + 3600)"
    using assms(2) by (auto simp: cron_next_timeout_def period_of_def Let_def SECONDS_PER_DAY_def SECONDS_PER_HOUR_def cron_ok_def
      simp flip: c_def r_tm_def)
  show ?thesis
  proof (cases "0 < day")
    case True
    note d = C(4)[OF True]
    have tm: "tm_ok tm" "tm_mday tm \<le> 28" "70 \<le> tm_year tm" using C(1,2) L d by (simp_all add: tm_ok_def)
    have f: "tm_year tm = tm_year (localtime tz tt)" "month \<le> 0 \<Longrightarrow> tm_mon tm = tm_mon (localtime tz tt)"
      "tm_sec tm = 0" "minute < 0 \<or> tm_min tm = minute" "hour < 0 \<or> tm_hour tm = hour" "tm_mday tm = day"
      "0 < month \<Longrightarrow> tm_mon tm = month - 1"
      using L True by (auto simp: c_def)
    have good: "tt < mktime tz n \<and> cron_match tz minute hour day month (mktime tz n)"
      if n: "tm_ok n" "tm_year tm < tm_year n \<or> tm_year tm = tm_year n \<and> tm_mon tm < tm_mon n \<and> month \<le> 0"
        "month \<le> 0 \<or> tm_mon n = tm_mon tm" "tm_mday n = tm_mday tm" "tm_hour n = tm_hour tm" "tm_min n = tm_min tm" "tm_sec n = tm_sec tm" for n
    proof
      show "tt < mktime tz n" using cron_later[OF assms(1) n(1)] n(2) f(1,2) by auto
      have "month \<le> 0 \<or> tm_mon n = month - 1" using n(3) f(7) by (cases "month \<le> 0") auto
      then show "cron_match tz minute hour day month (mktime tz n)"
        using n f(3-6) tm(3) by (intro cron_match_mktime) auto
    qed
    define n where n: "n = (let tm = tm\<lparr>tm_mon := tm_mon tm + 1\<rparr> in if tm_mon tm = 12 then tm\<lparr>tm_mon := 0, tm_year := tm_year tm + 1\<rparr> else tm)"
    have "month \<le> 0 \<Longrightarrow> tt < mktime tz n \<and> cron_match tz minute hour day month (mktime tz n)"
      using good[of n] month_later[OF tm(1,2) n] by blast
    moreover have "tt < mktime tz (tm\<lparr>tm_year := tm_year tm + 1\<rparr>) \<and> cron_match tz minute hour day month (mktime tz (tm\<lparr>tm_year := tm_year tm + 1\<rparr>))"
      using good[of "tm\<lparr>tm_year := tm_year tm + 1\<rparr>"] year_later[OF tm(1,2)] by simp
    ultimately show ?thesis unfolding E n[symmetric] using C(3) True by (auto simp flip: r_tm_def)
  next
    case False
    then have d: "day \<le> 0" by simp
    note S = cron_same_day[OF assms d r_tm_def(1)[unfolded c_def]] and M = cron_match_shift[OF C(3)[folded r_tm_def] d]
    show ?thesis unfolding E using False S M C(3) by (cases "tt < r"; cases "0 \<le> hour") (auto simp flip: r_tm_def)
  qed
qed

theorem cron_next_time_witness:
  "\<exists>r. cron_next_timeout 3600 1709166605 30 1 28 (- 1) 2 = r \<and> 1709166605 < r \<and> cron_match 3600 30 1 28 2 r \<and>
    (0 < (28 :: int) \<or> r \<le> 1709166605 + 86400) \<and> (0 < (28 :: int) \<or> 0 \<le> (1 :: int) \<or> r \<le> 1709166605 + 3600)"
  by (rule cron_next_time) (simp_all add: cron_ok_def)

lemma gmtime_wday: "tm_wday (gmtime t) = (t div 86400 + 4) mod 7"
  by (simp add: gmtime_def Let_def split: prod.split)

lemma cron_fields_same_day:
  assumes "0 \<le> tt + tz" "minute \<le> 59" "hour \<le> 23" "0 \<le> week"
  shows "(mktime tz (cron_fields minute hour day week month (localtime tz tt)) + tz) div 86400 = (tt + tz) div 86400"
proof -
  let ?g = "localtime tz tt" and ?c = "cron_fields minute hour day week month (localtime tz tt)"
  note G = gmtime_spec(1,2)[OF assms(1), folded localtime_def]
  have C: "tm_ok ?c" using G(1) assms by (auto simp: tm_ok_def)
  define S S' where "S = tm_hour ?c * 3600 + tm_min ?c * 60 + tm_sec ?c" "S' = tm_hour ?g * 3600 + tm_min ?g * 60 + tm_sec ?g"
  have r: "0 \<le> S" "S < 86400" "0 \<le> S'" "S' < 86400" using G(1) C by (simp_all add: S_S'_def tm_ok_def)
  let ?D = "day_no (tm_year ?g + 1900) (tm_mon ?g + 1) (tm_mday ?g) - EPOCH_DAY"
  have A: "mktime tz ?c + tz = 86400 * ?D + S" using assms(4) by (simp add: mktime_def timegm_ok[OF C] S_S'_def)
  have B: "tt + tz = 86400 * ?D + S'" using G(2) by (simp add: timegm_ok[OF G(1)] S_S'_def)
  show ?thesis using int_div_pos_eq[OF A r(1,2)] int_div_pos_eq[OF B r(3,4)] by simp
qed

lemma week_shift: "0 \<le> w \<Longrightarrow> w \<le> 6 \<Longrightarrow> (q + (w - (q + 4) mod 7 + 7 * k) + 4) mod 7 = (w :: int)"
  by presburger

lemma cron_weekly:
  assumes "0 \<le> tt + tz" "0 \<le> week" "week \<le> 6" "minute \<le> 59" "hour \<le> 23"
  shows "\<exists>r. cron_next_timeout tz tt minute hour day week month = r \<and> tt < r \<and> r \<le> tt + 604800 \<and>
    (r - tt) mod 86400 = 0 \<and> tm_wday (localtime tz r) = week"
proof -
  define q where "q = (tt + tz) div 86400"
  define w where "w = (q + 4) mod 7"
  have w: "tm_wday (localtime tz (mktime tz (cron_fields minute hour day week month (localtime tz tt)))) = w"
    using cron_fields_same_day[OF assms(1,4,5,2)] by (simp add: localtime_def gmtime_wday q_def w_def)
  have r: "0 \<le> w" "w \<le> 6" by (simp_all add: w_def)
  define k :: int where "k = (if w < week then 0 else 1)"
  have E: "cron_next_timeout tz tt minute hour day week month = tt + (week - w + 7 * k) * 86400"
    using assms(2) w by (simp add: cron_next_timeout_def period_of_def Let_def SECONDS_PER_DAY_def SECONDS_PER_WEEK_def k_def)
  have "(tt + (week - w + 7 * k) * 86400 + tz) div 86400 = q + (week - w + 7 * k)"
    using div_mult_self2[of 86400 "tt + tz" "week - w + 7 * k"] by (simp add: q_def algebra_simps)
  then have "tm_wday (localtime tz (tt + (week - w + 7 * k) * 86400)) = week"
    using week_shift[OF assms(2,3), of q k] by (simp add: localtime_def gmtime_wday w_def)
  then show ?thesis unfolding E using assms(2,3) r by (simp add: k_def)
qed

text \<open>
  C37.  A timer with a day of the week does not use its minute and hour: the next time is on the day
  asked for, within a week, at the time of day it is now.
\<close>

theorem cron_weekly_time_of_day:
  assumes "0 \<le> tt + tz" "0 \<le> week" "week \<le> 6" "minute \<le> 59" "hour \<le> 23"
  shows "\<exists>r. cron_next_timeout tz tt minute hour day week month = r \<and> tt < r \<and> r \<le> tt + 604800 \<and>
    (r - tt) mod 86400 = 0 \<and> tm_wday (localtime tz r) = week"
  by (rule cron_weekly[OF assms])

theorem cron_weekly_time_of_day_witness:
  "\<exists>r. cron_next_timeout 0 1709166605 30 1 (- 1) 0 (- 1) = r \<and> 1709166605 < r \<and> r \<le> 1709166605 + 604800 \<and>
    (r - 1709166605) mod 86400 = 0 \<and> tm_wday (localtime 0 r) = 0"
  by (rule cron_weekly_time_of_day) simp_all

text \<open>
  Every period that \<open>htimer_add_period\<close> admits, with a day up to 31: the next time is later than now, whether \<open>mktime\<close> moved a day
  the month does not have into the next month or not.  The number of the day and the seconds of the day of a broken-down time:
\<close>

definition tm_day :: "tm \<Rightarrow> int" where
  "tm_day tm = day_no (tm_year tm + 1900) (tm_mon tm + 1) (tm_mday tm)"

definition tm_clock :: "tm \<Rightarrow> int" where
  "tm_clock tm = tm_hour tm * 3600 + tm_min tm * 60 + tm_sec tm"

definition tm_near :: "tm \<Rightarrow> bool" where
  "tm_near tm \<longleftrightarrow> 0 \<le> tm_mon tm \<and> tm_mon tm \<le> 11 \<and> 1 \<le> tm_mday tm \<and> tm_mday tm \<le> 31 \<and> 0 \<le> tm_clock tm \<and> tm_clock tm < 86400"

lemma tm_ok_near: "tm_ok tm \<Longrightarrow> tm_near tm"
  using days_of_month_pos[of "tm_mon tm + 1" "tm_year tm + 1900"] by (auto simp: tm_ok_def tm_near_def tm_clock_def valid_date_def)

lemma timegm_near: "tm_near tm \<Longrightarrow> timegm tm = (tm_day tm - EPOCH_DAY) * 86400 + tm_clock tm"
  by (simp add: timegm_def tm_near_def tm_day_def tm_clock_def)

lemma tm_day_bounds:
  assumes "tm_near tm"
  shows "days_before_year (tm_year tm + 1900) < tm_day tm" "tm_day tm \<le> days_before_year (tm_year tm + 1900) + 397"
proof -
  have m: "1 \<le> tm_mon tm + 1" "tm_mon tm + 1 \<le> 13" "1 \<le> tm_mday tm" "tm_mday tm \<le> 31" using assms by (simp_all add: tm_near_def)
  have "0 \<le> days_before_month (tm_mon tm + 1) (tm_year tm + 1900)" using month_mono[of 1 "tm_mon tm + 1"] m by simp
  moreover have "days_before_month (tm_mon tm + 1) (tm_year tm + 1900) \<le> 366"
    using month_mono[of "tm_mon tm + 1" 13 "tm_year tm + 1900"] m year_months[of "tm_year tm + 1900"] by (auto simp: year_days_def split: if_splits)
  ultimately show "days_before_year (tm_year tm + 1900) < tm_day tm" "tm_day tm \<le> days_before_year (tm_year tm + 1900) + 397"
    using m unfolding tm_day_def day_no_def by linarith+
qed

lemma day_order:
  fixes D D' S S' K :: int
  assumes "0 \<le> S" "S < 86400" "0 \<le> S'" "S' < 86400"
  shows "(D - K) * 86400 + S \<le> (D' - K) * 86400 + S' \<Longrightarrow> D \<le> D'"
    and "D < D' \<Longrightarrow> (D - K) * 86400 + S < (D' - K) * 86400 + S'"
    and "D' \<le> D + n \<Longrightarrow> (D' - K) * 86400 + S' \<le> (D - K) * 86400 + S + (n + 1) * 86400"
  using assms by (simp_all add: left_diff_distrib distrib_right)

lemma cron_monthly_later:
  assumes t: "0 \<le> tt + tz" and f: "minute \<le> 59" "hour \<le> 23" "0 < day" "day \<le> 31" "month \<le> 12"
  shows "\<exists>r. cron_next_timeout tz tt minute hour day (- 1) month = r \<and> tt < r \<and> r \<le> tt + 2 ^ 26"
proof -
  define g c where "g = localtime tz tt" "c = cron_fields minute hour day (- 1) month g"
  define r tm where "r = mktime tz c" "tm = localtime tz r"
  define Y where "Y = tm_year g + 1900"
  have g: "tm_ok g" "tm_near g" "timegm g = tt + tz" "70 \<le> tm_year g"
    using gmtime_spec(1,2)[OF t] gmtime_year[OF t] tm_ok_near by (simp_all add: g_c_def localtime_def)
  have c: "tm_near c" "tm_year c = tm_year g" "tm_mday c = day" "tm_mon c = (if 0 < month then month - 1 else tm_mon g)"
    using g(1,2) f by (auto simp: g_c_def(2) tm_near_def tm_clock_def tm_ok_def)
  have r: "r + tz = (tm_day c - EPOCH_DAY) * 86400 + tm_clock c" by (simp add: r_tm_def mktime_def timegm_near[OF c(1)])
  have now: "tt + tz = (tm_day g - EPOCH_DAY) * 86400 + tm_clock g" using g(3) timegm_near[OF g(2)] by simp
  have S: "0 \<le> tm_clock c" "tm_clock c < 86400" "0 \<le> tm_clock g" "tm_clock g < 86400" using c(1) g(2) by (simp_all add: tm_near_def)
  have year: "days_before_year (Y + 1) \<le> days_before_year Y + 366"
    using next_year[of Y] by (auto simp: year_days_def split: if_splits)
  have "valid_date Y (tm_mon g + 1) (tm_mday g)" using g(1) by (simp add: tm_ok_def Y_def)
  note gd = day_in_year[OF this, folded tm_day_def[of g, folded Y_def]]
  have later: "tt < mktime tz n \<and> mktime tz n \<le> tt + 2 ^ 26" if n: "tm_near n" "tm_year n \<le> tm_year g + 1" "tm_day g < tm_day n" for n
  proof -
    have N: "0 \<le> tm_clock n" "tm_clock n < 86400" using n(1) by (simp_all add: tm_near_def)
    have "days_before_year (tm_year n + 1900) \<le> days_before_year (Y + 1)" using n(2) by (intro year_mono) (simp add: Y_def)
    then have "tm_day n \<le> tm_day g + 763" using tm_day_bounds(2)[OF n(1)] gd(1) year by linarith
    from day_order(3)[OF S(3,4) N this] day_order(2)[OF S(3,4) N n(3)] show ?thesis
      using now timegm_near[OF n(1)] by (simp add: mktime_def)
  qed
  have E: "cron_next_timeout tz tt minute hour day (- 1) month = (if r > tt then r
      else if 0 < month then mktime tz (tm\<lparr>tm_year := tm_year tm + 1\<rparr>)
      else mktime tz (let tm = tm\<lparr>tm_mon := tm_mon tm + 1\<rparr> in if tm_mon tm = 12 then tm\<lparr>tm_mon := 0, tm_year := tm_year tm + 1\<rparr> else tm))"
    using f(3) by (auto simp: cron_next_timeout_def period_of_def Let_def simp flip: g_c_def r_tm_def)
  show ?thesis
  proof (cases "tt < r")
    case True
    have "tm_day c \<le> tm_day g + 763" using tm_day_bounds(2)[OF c(1)] gd(1) by (simp add: c(2) flip: Y_def)
    from day_order(3)[OF S(3,4,1,2) this, of EPOCH_DAY] show ?thesis unfolding E using True r now by simp
  next
    case False
    have "EPOCH_DAY \<le> days_before_year Y + 1" using year_mono[of 1970 Y] g(4) epoch by (simp add: Y_def)
    then have "EPOCH_DAY \<le> tm_day c" using tm_day_bounds(1)[OF c(1)] by (simp add: c(2) flip: Y_def)
    then have r0: "0 \<le> r + tz" unfolding r using S by (intro parts_order(2))
    have tm: "tm_ok tm" "tm_near tm" "timegm tm = r + tz" using gmtime_spec(1,2)[OF r0] tm_ok_near by (simp_all add: r_tm_def localtime_def)
    have ST: "0 \<le> tm_clock tm" "tm_clock tm < 86400" using tm(2) by (simp_all add: tm_near_def)
    have "(tm_day tm - EPOCH_DAY) * 86400 + tm_clock tm = (tm_day c - EPOCH_DAY) * 86400 + tm_clock c"
      using tm(3) r timegm_near[OF tm(2)] by simp
    from time_parts(1)[OF this ST S(1,2)] have D: "tm_day tm = tm_day c" by simp
    have le: "tm_day c \<le> tm_day g" using day_order(1)[OF S] r now False by (metis add_le_cancel_right not_less)
    have V: "valid_date (tm_year tm + 1900) (tm_mon tm + 1) (tm_mday tm)" using tm(1) by (simp add: tm_ok_def)
    note td = day_in_year[OF V, folded tm_day_def]
    have "\<not> tm_year tm + 1900 < Y"
      using year_mono[of "tm_year tm + 1900 + 1" Y] td(2) tm_day_bounds(1)[OF c(1)] D by (auto simp: c(2) simp flip: Y_def)
    moreover have "\<not> Y < tm_year tm + 1900" using year_mono[of "Y + 1" "tm_year tm + 1900"] td(1) D le gd(2) by auto
    ultimately have y: "tm_year tm = tm_year g" by (simp add: Y_def)
    show ?thesis
    proof (cases "0 < month")
      case True
      let ?n = "tm\<lparr>tm_year := tm_year tm + 1\<rparr>"
      have n: "tm_near ?n" using tm(2) by (simp add: tm_near_def tm_clock_def)
      have "tm_day g < tm_day ?n" using tm_day_bounds(1)[OF n] gd(2) by (simp add: y Y_def algebra_simps)
      then show ?thesis unfolding E using later[OF n] y True False by simp
    next
      case False
      then have m: "tm_mon c = tm_mon g" by (simp add: c(4))
      have "days_before_month (tm_mon g + 1) Y + day \<le> days_before_month (tm_mon g + 1 + 1) Y"
        using le gd(4) by (simp add: tm_day_def[of c] day_no_def c(2,3) m flip: Y_def)
      moreover have mg: "0 \<le> tm_mon g" "tm_mon g \<le> 11" using g(2) by (simp_all add: tm_near_def)
      ultimately have "valid_date Y (tm_mon g + 1) day" using next_month[of "tm_mon g + 1" Y] f(3) by (simp add: valid_date_def)
      from day_no_inj[OF V this] D have tmon: "tm_mon tm = tm_mon g" by (simp add: tm_day_def c(2,3) m flip: Y_def)
      define n where "n = (let tm = tm\<lparr>tm_mon := tm_mon tm + 1\<rparr> in if tm_mon tm = 12 then tm\<lparr>tm_mon := 0, tm_year := tm_year tm + 1\<rparr> else tm)"
      have n: "tm_near n" "tm_year n \<le> tm_year g + 1" using tm(2) y by (auto simp: n_def Let_def tm_near_def tm_clock_def)
      have "tm_day g < tm_day n"
      proof (cases "tm_mon g = 11")
        case True
        then have "tm_year n + 1900 = Y + 1" by (simp add: n_def Let_def tmon y Y_def)
        from tm_day_bounds(1)[OF n(1), unfolded this] show ?thesis using gd(2) by simp
      next
        case False
        then have "tm_year n = tm_year g" "tm_mon n = tm_mon g + 1" "1 \<le> tm_mday n" using tm(2) by (simp_all add: n_def Let_def tmon y tm_near_def)
        then show ?thesis using gd(4) by (simp add: tm_day_def[of n] day_no_def flip: Y_def)
      qed
      from later[OF n this] show ?thesis unfolding E n_def[symmetric] using False \<open>\<not> tt < r\<close> by simp
    qed
  qed
qed

lemma cron_next_later:
  assumes t: "0 \<le> tt + tz" and f: "minute \<le> 59" "hour \<le> 23" "day \<le> 31" "week \<le> 6" "month \<le> 12"
  shows "cron_next_timeout tz tt minute hour day week month = - 1 \<or>
    tt < cron_next_timeout tz tt minute hour day week month \<and> cron_next_timeout tz tt minute hour day week month \<le> tt + 2 ^ 26"
proof (cases "0 \<le> week")
  case True
  from cron_weekly[OF t True f(4,1,2), of day month] show ?thesis by auto
next
  case False
  then have w: "cron_next_timeout tz tt minute hour day week month = cron_next_timeout tz tt minute hour day (- 1) month"
    by (simp add: cron_next_timeout_def cron_fields_def period_of_def)
  consider (date) "0 < day" | (none) "day \<le> 0" "hour < 0" "minute < 0" | (time) "day \<le> 0" "0 \<le> hour \<or> 0 \<le> minute" by linarith
  then show ?thesis
  proof cases
    case date
    from cron_monthly_later[OF t f(1,2) date f(3,5)] show ?thesis unfolding w by auto
  next
    case none
    then show ?thesis unfolding w by (simp add: cron_next_timeout_def period_of_def)
  next
    case time
    define r where "r = mktime tz (cron_fields minute hour day (- 1) month (localtime tz tt))"
    have ok: "cron_ok minute hour day month" using f time by (auto simp: cron_ok_def)
    have "cron_next_timeout tz tt minute hour day (- 1) month = (if r > tt then r else if 0 \<le> hour then r + 86400 else r + 3600)"
      using time by (auto simp: cron_next_timeout_def period_of_def Let_def SECONDS_PER_DAY_def SECONDS_PER_HOUR_def simp flip: r_def)
    then show ?thesis using cron_same_day[OF t ok time(1) r_def] unfolding w by auto
  qed
qed

text \<open>A day that the month does not have moves the timer into the next month: the 31st, asked for in February.\<close>

lemma cron_month_end:
  "cron_match 0 30 1 2 (- 1) (cron_next_timeout 0 1709166605 30 1 31 (- 1) (- 1))"
  by code_simp

section \<open>Dates from clocks\<close>

text \<open>\<open>datetime_now\<close> with the reading of \<open>gettimeofday\<close>: seconds and microseconds.\<close>

definition datetime_now :: "int \<Rightarrow> int \<Rightarrow> int \<Rightarrow> datetime" where
  "datetime_now tz tv_sec tv_usec =
     (let tm = localtime tz tv_sec
      in \<lparr>dt_year = tm_year tm + 1900, dt_month = tm_mon tm + 1, dt_day = tm_mday tm, dt_hour = tm_hour tm, dt_min = tm_min tm,
          dt_sec = tm_sec tm, dt_ms = tv_usec div 1000\<rparr>)"

text \<open>The year of the argument is stored in \<open>tm_yday\<close>, which \<open>mktime\<close> ignores.\<close>

definition datetime_mktime :: "int \<Rightarrow> int \<Rightarrow> datetime \<Rightarrow> int" where
  "datetime_mktime tz now dt =
     mktime tz ((localtime tz now)\<lparr>tm_yday := dt_year dt - 1900, tm_mon := dt_month dt - 1, tm_mday := dt_day dt, tm_hour := dt_hour dt,
       tm_min := dt_min dt, tm_sec := dt_sec dt\<rparr>)"

text \<open>
  The date of now, turned into a time again, is now; but every other year is taken for the
  current one: the result does not depend on the year of the date.
\<close>

theorem datetime_mktime_year_ignored:
  assumes "0 \<le> now + tz"
  shows "datetime_mktime tz now (datetime_now tz now usec) = now \<and>
    datetime_mktime tz now (dt\<lparr>dt_year := y\<rparr>) = datetime_mktime tz now dt"
proof -
  have "timegm ((gmtime (now + tz))\<lparr>tm_yday := k\<rparr>) = now + tz" for k
    using gmtime_spec(2)[OF assms] timegm_cong[of "(gmtime (now + tz))\<lparr>tm_yday := k\<rparr>" "gmtime (now + tz)"] by simp
  then show ?thesis by (simp add: datetime_mktime_def datetime_now_def Let_def mktime_def localtime_def timegm_def)
qed

theorem datetime_mktime_year_ignored_witness:
  "datetime_mktime 3600 1709166605 (datetime_now 3600 1709166605 0) = 1709166605 \<and>
    datetime_mktime 3600 1709166605 (demo_date\<lparr>dt_year := 1999\<rparr>) = datetime_mktime 3600 1709166605 demo_date"
  by (rule datetime_mktime_year_ignored) simp

section \<open>Names and formats\<close>

definition s_weekdays :: "string list" where
  "s_weekdays = [''Sunday'', ''Monday'', ''Tuesday'', ''Wednesday'', ''Thursday'', ''Friday'', ''Saturday'']"

definition s_months :: "string list" where
  "s_months = [''January'', ''February'', ''March'', ''April'', ''May'', ''June'', ''July'', ''August'', ''September'', ''October'',
     ''November'', ''December'']"

text \<open>\<open>strnicmp(s, name, strlen(s)) == 0\<close>.\<close>

definition prefix_icase :: "string \<Rightarrow> string \<Rightarrow> bool" where
  "prefix_icase s name \<longleftrightarrow> map tolower_c s = map tolower_c (take (length s) name)"

definition month_atoi :: "string \<Rightarrow> int" where
  "month_atoi month = (case find_idx (prefix_icase (c_str month)) s_months of Some i \<Rightarrow> int i + 1 | None \<Rightarrow> 0)"

definition month_itoa :: "int \<Rightarrow> string option" where
  "month_itoa month = (if 1 \<le> month \<and> month \<le> 12 then Some (s_months ! nat (month - 1)) else None)"

definition weekday_atoi :: "string \<Rightarrow> int" where
  "weekday_atoi weekday = (case find_idx (prefix_icase (c_str weekday)) s_weekdays of Some i \<Rightarrow> int i | None \<Rightarrow> 0)"

definition weekday_itoa :: "int \<Rightarrow> string option" where
  "weekday_itoa weekday =
     (if 0 \<le> weekday \<and> weekday \<le> 7 then Some (s_weekdays ! nat (if weekday = 7 then 0 else weekday)) else None)"

text \<open>\<open>printf("%0wd")\<close>.\<close>

definition fmt_0d :: "nat \<Rightarrow> int \<Rightarrow> string" where
  "fmt_0d w n =
     (if n < 0 then CHR ''-'' # replicate (w - 1 - length (show_nat (nat (- n)))) (CHR ''0'') @ show_nat (nat (- n))
      else replicate (w - length (show_nat (nat n))) (CHR ''0'') @ show_nat (nat n))"

definition TIME_FMT_BUFLEN :: nat where "TIME_FMT_BUFLEN = 12"
definition DATETIME_FMT_BUFLEN :: nat where "DATETIME_FMT_BUFLEN = 24"
definition GMTIME_FMT_BUFLEN :: nat where "GMTIME_FMT_BUFLEN = 30"

definition duration_fmt :: "int \<Rightarrow> string" where
  "duration_fmt sec =
     (let m = sec sdiv 60; s = sec smod 60; h = m sdiv 60; m = m smod 60
      in fmt_0d 2 h @ '':'' @ fmt_0d 2 m @ '':'' @ fmt_0d 2 s)"

definition datetime_fmt :: "datetime \<Rightarrow> string" where
  "datetime_fmt dt =
     fmt_0d 4 (dt_year dt) @ ''-'' @ fmt_0d 2 (dt_month dt) @ ''-'' @ fmt_0d 2 (dt_day dt) @ '' '' @
       fmt_0d 2 (dt_hour dt) @ '':'' @ fmt_0d 2 (dt_min dt) @ '':'' @ fmt_0d 2 (dt_sec dt)"

definition gmtime_fmt :: "int \<Rightarrow> string" where
  "gmtime_fmt time =
     (let tm = gmtime time
      in take 3 (s_weekdays ! nat (tm_wday tm)) @ '', '' @ fmt_0d 2 (tm_mday tm) @ '' '' @ take 3 (s_months ! nat (tm_mon tm)) @ '' '' @
         fmt_0d 4 (tm_year tm + 1900) @ '' '' @ fmt_0d 2 (tm_hour tm) @ '':'' @ fmt_0d 2 (tm_min tm) @ '':'' @ fmt_0d 2 (tm_sec tm) @ '' GMT'')"

lemma length_show_nat: "n < 10 ^ Suc k \<Longrightarrow> length (show_nat n) \<le> Suc k"
proof (induction k arbitrary: n)
  case (Suc k)
  then have "n div 10 < 10 ^ Suc k" by (simp add: less_mult_imp_div_less)
  then show ?case using Suc.IH[of "n div 10"] by (subst show_nat.simps) simp
qed (subst show_nat.simps; simp)

lemma length_fmt_0d: "0 \<le> n \<Longrightarrow> n < 10 ^ Suc k \<Longrightarrow> length (fmt_0d (Suc k) n) = Suc k"
proof -
  assume "0 \<le> n" "n < 10 ^ Suc k"
  then have "nat n < 10 ^ Suc k" by (simp add: nat_less_iff)
  from length_show_nat[OF this] \<open>0 \<le> n\<close> show ?thesis by (simp add: fmt_0d_def)
qed

lemma length_fmt_02d: "0 \<le> n \<Longrightarrow> n < 100 \<Longrightarrow> length (fmt_0d 2 n) = 2"
  using length_fmt_0d[of n 1] by (simp add: numeral_2_eq_2)

lemma length_fmt_04d: "0 \<le> n \<Longrightarrow> n < 10000 \<Longrightarrow> length (fmt_0d 4 n) = 4"
  using length_fmt_0d[of n 3] by (simp add: eval_nat_numeral)

lemma digits_val_zeros: "digits_val 0 (replicate k (CHR ''0'') @ s) = digits_val 0 s"
  by (induction k) (simp_all add: isdigit_c_def)

lemma digits_val_fmt: "0 \<le> n \<Longrightarrow> digits_val 0 (fmt_0d w n) = nat n"
  by (simp add: fmt_0d_def digits_val_zeros digits_val_show_nat)

lemma name_lengths: "w \<in> set s_weekdays \<or> w \<in> set s_months \<Longrightarrow> length (take 3 w) = 3"
  by (auto simp: s_weekdays_def s_months_def)

lemma gmtime_year_bound: "0 \<le> t \<Longrightarrow> t < 253402300800 \<Longrightarrow> tm_year (gmtime t) + 1900 < 10000"
proof (rule ccontr)
  assume t: "0 \<le> t" "t < 253402300800" and "\<not> tm_year (gmtime t) + 1900 < 10000"
  then have y: "days_before_year 10000 \<le> days_before_year (tm_year (gmtime t) + 1900)" by (intro year_mono) simp
  note G = gmtime_spec(1,2)[OF t(1)]
  have "days_before_year (tm_year (gmtime t) + 1900) < day_no (tm_year (gmtime t) + 1900) (tm_mon (gmtime t) + 1) (tm_mday (gmtime t))"
    by (rule day_in_year(1)) (use G(1) in \<open>simp add: tm_ok_def\<close>)
  moreover have "0 \<le> tm_hour (gmtime t) * 3600 + tm_min (gmtime t) * 60 + tm_sec (gmtime t)" using G(1) by (simp add: tm_ok_def)
  moreover have "days_before_year 10000 = 3652059" by (simp add: days_before_year_def)
  ultimately show False using G(2) t(2) y unfolding timegm_ok[OF G(1)] EPOCH_DAY_def left_diff_distrib by simp
qed

lemma gmtime_fmt_length:
  assumes "0 \<le> t" "t < 253402300800"
  shows "length (gmtime_fmt t) = 29"
proof -
  let ?g = "gmtime t"
  have ok: "tm_ok ?g" using gmtime_spec(1)[OF assms(1)] .
  then have m: "0 \<le> tm_mon ?g" "tm_mon ?g < 12" and d: "1 \<le> tm_mday ?g" "tm_mday ?g < 100"
    using days_of_month_pos[of "tm_mon ?g + 1" "tm_year ?g + 1900"] by (auto simp: tm_ok_def valid_date_def)
  have y: "0 \<le> tm_year ?g + 1900" "tm_year ?g + 1900 < 10000" using gmtime_year[OF assms(1)] gmtime_year_bound[OF assms] by simp_all
  have "nat (tm_wday ?g) < length s_weekdays" by (simp add: gmtime_wday s_weekdays_def nat_less_iff)
  moreover have "nat (tm_mon ?g) < length s_months" using m by (simp add: s_months_def nat_less_iff)
  ultimately have n: "length (take 3 (s_weekdays ! nat (tm_wday ?g))) = 3" "length (take 3 (s_months ! nat (tm_mon ?g))) = 3"
    using name_lengths nth_mem by blast+
  show ?thesis
    using ok d y n unfolding gmtime_fmt_def Let_def length_append by (simp add: length_fmt_02d length_fmt_04d tm_ok_def del: length_take)
qed

lemma duration_fmt_length:
  assumes "0 \<le> sec" "sec < 360000000"
  shows "length (duration_fmt sec) \<le> 11"
proof -
  have h: "0 \<le> sec div 60 div 60" "sec div 60 div 60 < 10 ^ Suc 4"
    using assms zdiv_zmult2_eq[of 60 sec 60] by (simp_all add: pos_imp_zdiv_nonneg_iff)
  have hours: "length (fmt_0d 2 (sec div 60 div 60)) \<le> 5"
    using length_show_nat[of "nat (sec div 60 div 60)" 4] h by (simp add: fmt_0d_def nat_less_iff split: nat_diff_split)
  have two: "length (fmt_0d 2 (k mod 60)) = 2" for k
    using pos_mod_bound[of 60 k] pos_mod_sign[of 60 k] by (intro length_fmt_02d) linarith+
  have "sec sdiv 60 = sec div 60" "sec smod 60 = sec mod 60" "(sec div 60) sdiv 60 = sec div 60 div 60"
    "(sec div 60) smod 60 = sec div 60 mod 60"
    using assms(1) by (simp_all add: signed_divide_int_def signed_modulo_int_def minus_div_mult_eq_mod sgn_if pos_imp_zdiv_nonneg_iff)
  then have "duration_fmt sec = fmt_0d 2 (sec div 60 div 60) @ '':'' @ fmt_0d 2 (sec div 60 mod 60) @ '':'' @ fmt_0d 2 (sec mod 60)"
    by (simp add: duration_fmt_def Let_def)
  then show ?thesis using hours by (simp add: two)
qed

lemma duration_fmt_long: "length (duration_fmt 360000000) = 12"
  by (simp add: duration_fmt_def Let_def signed_divide_int_def signed_modulo_int_def fmt_0d_def show_nat.simps)

text \<open>
  The formatted times fit the buffers their callers declare, with the terminator: a time before the
  year 10000 fills the one of 30 bytes, a date and a duration of less than 100000 hours leave room
  in theirs; a duration of 100000 hours does not fit.
\<close>

theorem formats_fit:
  assumes "0 \<le> t" "t < 253402300800" "0 \<le> sec" "sec < 360000000"
    and "dt_valid dt" "0 \<le> dt_year dt" "dt_year dt < 10000" "0 \<le> dt_hour dt" "dt_hour dt < 24" "0 \<le> dt_min dt" "dt_min dt < 60"
    and "0 \<le> dt_sec dt" "dt_sec dt \<le> 60"
  shows "length (gmtime_fmt t) + 1 = GMTIME_FMT_BUFLEN \<and> length (datetime_fmt dt) + 1 \<le> DATETIME_FMT_BUFLEN \<and>
    length (duration_fmt sec) + 1 \<le> TIME_FMT_BUFLEN \<and> length (duration_fmt 360000000) + 1 > TIME_FMT_BUFLEN"
proof -
  have "dt_day dt < 100" "1 \<le> dt_day dt" "1 \<le> dt_month dt" "dt_month dt < 100"
    using assms(5) days_of_month_pos[of "dt_month dt" "dt_year dt"] by (auto simp: valid_date_def)
  then have "length (datetime_fmt dt) = 19"
    using assms unfolding datetime_fmt_def by (simp add: length_fmt_02d length_fmt_04d)
  moreover have "length (duration_fmt sec) \<le> 11" by (rule duration_fmt_length[OF assms(3,4)])
  moreover have "length (duration_fmt 360000000) = 12" by (rule duration_fmt_long)
  ultimately show ?thesis
    using gmtime_fmt_length[OF assms(1,2)] by (simp add: GMTIME_FMT_BUFLEN_def DATETIME_FMT_BUFLEN_def TIME_FMT_BUFLEN_def)
qed

theorem formats_fit_witness:
  "length (gmtime_fmt 1709166605) + 1 = GMTIME_FMT_BUFLEN \<and> length (datetime_fmt demo_date) + 1 \<le> DATETIME_FMT_BUFLEN \<and>
    length (duration_fmt 86399) + 1 \<le> TIME_FMT_BUFLEN \<and> length (duration_fmt 360000000) + 1 > TIME_FMT_BUFLEN"
proof (rule formats_fit)
  show "dt_valid demo_date" by code_simp
qed (simp_all add: demo_date_def)

text \<open>The names in any case, in full or cut after three letters or more, give their numbers.\<close>

lemma name_found:
  assumes D: "distinct (map (\<lambda>n. map tolower_c (take 3 n)) names)" and L: "\<forall>n \<in> set names. 3 \<le> length n"
    and j: "j < length names" and s: "3 \<le> k" "map tolower_c s = map tolower_c (take k (names ! j))"
  shows "find_idx (prefix_icase s) names = Some j"
proof -
  have l3: "3 \<le> length (names ! j)" using L j nth_mem by blast
  have len: "length s = min k (length (names ! j))" using arg_cong[OF s(2), of length] by simp
  have s3: "map tolower_c (take 3 s) = map tolower_c (take 3 (names ! j))"
    using arg_cong[OF s(2), of "take 3"] s(1) by (simp add: take_map min_def)
  have here: "prefix_icase s (names ! j)" using s(2) by (simp add: prefix_icase_def len min_def)
  have only: "i = j" if i: "i < length names" "prefix_icase s (names ! i)" for i
  proof -
    have "take 3 (map tolower_c s) = take 3 (map tolower_c (take (length s) (names ! i)))" using i(2) by (simp add: prefix_icase_def)
    moreover have "3 \<le> length s" using len s(1) l3 by simp
    ultimately have "map tolower_c (take 3 (names ! i)) = map tolower_c (take 3 (names ! j))" using s3 by (simp add: take_map min_def)
    then show ?thesis using D i(1) j nth_eq_iff_index_eq[OF D, of i j] by simp
  qed
  show ?thesis
  proof (cases "find_idx (prefix_icase s) names")
    case None
    then show ?thesis using here nth_mem[OF j] by (auto simp: find_idx_None)
  next
    case (Some i)
    then show ?thesis using only find_idx_less[OF Some] by (simp add: find_idx_Some)
  qed
qed

lemma month_atoi_name:
  assumes "1 \<le> m" "m \<le> 12" "3 \<le> k" "map tolower_c s = map tolower_c (take k (s_months ! nat (m - 1)))" "no_nul s"
  shows "month_atoi s = m"
proof -
  have "find_idx (prefix_icase s) s_months = Some (nat (m - 1))"
    by (rule name_found[OF _ _ _ assms(3,4)]) (use assms(1,2) in \<open>simp_all add: s_months_def tolower_c_def nat_less_iff\<close>)
  then show ?thesis using assms(1,5) by (simp add: month_atoi_def)
qed

lemma weekday_atoi_name:
  assumes "0 \<le> w" "w \<le> 6" "3 \<le> k" "map tolower_c s = map tolower_c (take k (s_weekdays ! nat w))" "no_nul s"
  shows "weekday_atoi s = w"
proof -
  have "find_idx (prefix_icase s) s_weekdays = Some (nat w)"
    by (rule name_found[OF _ _ _ assms(3,4)]) (use assms(1,2) in \<open>simp_all add: s_weekdays_def tolower_c_def nat_less_iff\<close>)
  then show ?thesis using assms(1,5) by (simp add: weekday_atoi_def)
qed

lemma month_atoi_itoa: "1 \<le> m \<Longrightarrow> m \<le> 12 \<Longrightarrow> \<exists>s. month_itoa m = Some s \<and> month_atoi s = m"
proof -
  assume m: "1 \<le> m" "m \<le> 12"
  let ?s = "s_months ! nat (m - 1)"
  have "\<forall>n \<in> set s_months. no_nul n \<and> length n \<le> 9" by (simp add: s_months_def)
  moreover have "?s \<in> set s_months" using m by (intro nth_mem) (simp add: s_months_def nat_less_iff)
  ultimately have "no_nul ?s" "take 9 ?s = ?s" by simp_all
  then show ?thesis using m month_atoi_name[OF m, of 9 ?s] by (simp add: month_itoa_def)
qed

end
