(* ===== verification/Timers.thy ===== *)
theory Timers
  imports HeapH HTime "HOL-Library.Word"
begin

text \<open>
  The timers, idle events and pending events of \<open>event/hloop.c\<close> with the macros of \<open>hevent.h\<close>.  An event is its address; \<open>HV_FREE\<close>
  takes it out of the map of events, and every access to an event that is not there - a use after
  free - is the result \<open>None\<close>.  The address of a new event is an argument, as \<open>malloc\<close> chooses it.
  The timers are in the pointer heap of \<open>HeapH\<close>, whose nodes are fields of the events; the list of
  idle events is the sequence that the operations of \<open>list.h\<close> implement (\<open>ListH\<close>).  Callbacks are
  a parameter.  Inputs and outputs, custom events and event identifiers are left out.
\<close>

section \<open>Events and the loop\<close>

text \<open>The type of an event, with the fields of \<open>htimeout_t\<close> and \<open>hperiod_t\<close> (minute, hour, day, week, month).\<close>

datatype event_type = IdleEvent | TimeoutEvent "32 word" | PeriodEvent int int int int int

record hevent =
  ev_type :: event_type
  ev_cb :: "nat option"
  ev_priority :: int
  ev_pending_next :: "nat option"
  ev_destroy :: bool
  ev_active :: bool
  ev_pending :: bool
  ev_repeat :: "32 word"
  ev_next_timeout :: "64 word"

datatype hloop_status = LoopStop | LoopRunning | LoopPause

record hloop =
  lp_status :: hloop_status
  lp_start_ms :: "64 word"
  lp_start_hrtime :: "64 word"
  lp_cur_hrtime :: "64 word"
  lp_nactives :: "32 word"
  lp_npendings :: "32 word"
  lp_pendings :: "nat option list"
  lp_idles :: "nat list"
  lp_nidles :: "32 word"
  lp_timers :: heap
  lp_ntimers :: "32 word"
  lp_events :: "nat \<rightharpoonup> hevent"
  lp_nodes :: node_mem

text \<open>A reading of the clocks: \<open>gethrtime_us\<close>, \<open>gettimeofday_ms\<close>, \<open>time\<close>, and the offset of the time zone.\<close>

record clock =
  ck_hrtime :: "64 word"
  ck_ms :: "64 word"
  ck_time :: int
  ck_tz :: int

definition HLOOP_MAX_BLOCK_TIME :: int where "HLOOP_MAX_BLOCK_TIME = 900"
definition INFINITE :: "32 word" where "INFINITE = - 1"
definition HEVENT_LOWEST_PRIORITY :: int where "HEVENT_LOWEST_PRIORITY = - 5"
definition HEVENT_HIGH_PRIORITY :: int where "HEVENT_HIGH_PRIORITY = 3"
definition HEVENT_HIGHEST_PRIORITY :: int where "HEVENT_HIGHEST_PRIORITY = 5"
definition HEVENT_PRIORITY_SIZE :: nat where "HEVENT_PRIORITY_SIZE = 11"

section \<open>Time\<close>

definition hloop_now :: "hloop \<Rightarrow> 64 word" where
  "hloop_now l = lp_start_ms l div 1000 + (lp_cur_hrtime l - lp_start_hrtime l) div 1000000"

definition hloop_now_ms :: "hloop \<Rightarrow> 64 word" where
  "hloop_now_ms l = lp_start_ms l + (lp_cur_hrtime l - lp_start_hrtime l) div 1000"

definition hloop_now_hrtime :: "hloop \<Rightarrow> 64 word" where
  "hloop_now_hrtime l = lp_start_ms l * 1000 + (lp_cur_hrtime l - lp_start_hrtime l)"

definition hloop_update_time :: "clock \<Rightarrow> hloop \<Rightarrow> hloop" where
  "hloop_update_time ck l =
     (let l = l\<lparr>lp_cur_hrtime := ck_hrtime ck\<rparr>
      in if \<bar>sint (hloop_now l) - ck_time ck\<bar> > 1
         then l\<lparr>lp_start_ms := ck_ms ck - (lp_cur_hrtime l - lp_start_hrtime l) div 1000\<rparr> else l)"

section \<open>Flags of events\<close>

definition put_event :: "nat \<Rightarrow> hevent \<Rightarrow> hloop \<Rightarrow> hloop" where
  "put_event a e l = l\<lparr>lp_events := (lp_events l)(a \<mapsto> e)\<rparr>"

definition event_active :: "nat \<Rightarrow> hloop \<Rightarrow> hloop option" where
  "event_active a l = Option.bind (lp_events l a) (\<lambda>e.
     if \<not> ev_active e then Some ((put_event a (e\<lparr>ev_active := True\<rparr>) l)\<lparr>lp_nactives := lp_nactives l + 1\<rparr>) else Some l)"

definition event_inactive :: "nat \<Rightarrow> hloop \<Rightarrow> hloop option" where
  "event_inactive a l = Option.bind (lp_events l a) (\<lambda>e.
     if ev_active e then Some ((put_event a (e\<lparr>ev_active := False\<rparr>) l)\<lparr>lp_nactives := lp_nactives l - 1\<rparr>) else Some l)"

text \<open>Pushing an event on the list of its priority; an index outside the array is undefined.\<close>

definition event_pending :: "nat \<Rightarrow> hloop \<Rightarrow> hloop option" where
  "event_pending a l = Option.bind (lp_events l a) (\<lambda>e.
     if \<not> ev_pending e then
       (let i = ev_priority e - HEVENT_LOWEST_PRIORITY
        in if 0 \<le> i \<and> nat i < HEVENT_PRIORITY_SIZE then
             Some ((put_event a (e\<lparr>ev_pending := True, ev_pending_next := lp_pendings l ! nat i\<rparr>) l)
               \<lparr>lp_npendings := lp_npendings l + 1, lp_pendings := (lp_pendings l)[nat i := Some a]\<rparr>)
           else None)
     else Some l)"

definition event_add :: "nat option \<Rightarrow> nat \<Rightarrow> hloop \<Rightarrow> hloop option" where
  "event_add cb a l = Option.bind (lp_events l a) (\<lambda>e. event_active a (put_event a (e\<lparr>ev_cb := cb\<rparr>) l))"

definition free_event :: "nat \<Rightarrow> hloop \<Rightarrow> hloop" where
  "free_event a l = l\<lparr>lp_events := (lp_events l)(a := None)\<rparr>"

definition event_del :: "nat \<Rightarrow> hloop \<Rightarrow> hloop option" where
  "event_del a l = Option.bind (event_inactive a l) (\<lambda>l. Option.bind (lp_events l a) (\<lambda>e.
     if \<not> ev_pending e then Some (free_event a l) else Some l))"

definition event_reset :: "nat \<Rightarrow> hloop \<Rightarrow> hloop option" where
  "event_reset a l = Option.bind (lp_events l a) (\<lambda>e.
     Option.bind (event_active a (put_event a (e\<lparr>ev_destroy := False\<rparr>) l)) (\<lambda>l.
     Option.bind (lp_events l a) (\<lambda>e. Some (put_event a (e\<lparr>ev_pending := False\<rparr>) l))))"

text \<open>\<open>HV_ALLOC_SIZEOF\<close>: a zeroed event.\<close>

definition alloc_event :: "nat \<Rightarrow> event_type \<Rightarrow> int \<Rightarrow> 32 word \<Rightarrow> hloop \<Rightarrow> hloop" where
  "alloc_event a ty prio repeat l = put_event a
     \<lparr>ev_type = ty, ev_cb = None, ev_priority = prio, ev_pending_next = None, ev_destroy = False, ev_active = False, ev_pending = False,
      ev_repeat = repeat, ev_next_timeout = 0\<rparr> (l\<lparr>lp_nodes := (lp_nodes l)(a := clear_nodes a)\<rparr>)"

section \<open>Idle events\<close>

definition hidle_add :: "nat \<Rightarrow> nat option \<Rightarrow> 32 word \<Rightarrow> hloop \<Rightarrow> hloop option" where
  "hidle_add a cb repeat l =
     (let l = alloc_event a IdleEvent HEVENT_LOWEST_PRIORITY repeat l;
          l = l\<lparr>lp_idles := a # lp_idles l\<rparr>
      in map_option (\<lambda>l. l\<lparr>lp_nidles := lp_nidles l + 1\<rparr>) (event_add cb a l))"

definition hidle_unlink :: "nat \<Rightarrow> hloop \<Rightarrow> hloop option" where
  "hidle_unlink a l = Option.bind (lp_events l a) (\<lambda>e.
     if ev_destroy e then Some l
     else Some ((put_event a (e\<lparr>ev_destroy := True\<rparr>) l)\<lparr>lp_idles := remove1 a (lp_idles l), lp_nidles := lp_nidles l - 1\<rparr>))"

definition hidle_del :: "nat \<Rightarrow> hloop \<Rightarrow> hloop option" where
  "hidle_del a l = Option.bind (lp_events l a) (\<lambda>e.
     if \<not> ev_active e then Some l else Option.bind (hidle_unlink a l) (event_del a))"

text \<open>\<open>--repeat\<close> unless it is infinite.\<close>

definition count_down :: "nat \<Rightarrow> hloop \<Rightarrow> hloop option" where
  "count_down a l = Option.bind (lp_events l a) (\<lambda>e.
     Some (if ev_repeat e \<noteq> INFINITE then put_event a (e\<lparr>ev_repeat := ev_repeat e - 1\<rparr>) l else l))"

fun idles_loop :: "nat list \<Rightarrow> nat \<Rightarrow> hloop \<Rightarrow> (nat \<times> hloop) option" where
  "idles_loop [] n l = Some (n, l)"
| "idles_loop (a # as) n l =
     Option.bind (count_down a l) (\<lambda>l. Option.bind (lp_events l a) (\<lambda>e.
       Option.bind (if ev_repeat e = 0 then hidle_unlink a l else Some l) (\<lambda>l.
       Option.bind (event_pending a l) (idles_loop as (n + 1)))))"

definition hloop_process_idles :: "hloop \<Rightarrow> (nat \<times> hloop) option" where
  "hloop_process_idles l = idles_loop (lp_idles l) 0 l"

section \<open>Timers\<close>

text \<open>
  The comparison reads the memory of the loop; the heap is called with it.  A freed event would count as
  one with the time 0, but the heap never holds one (\<open>loop_inv\<close> below).
\<close>

definition timer_key :: "(nat \<rightharpoonup> hevent) \<Rightarrow> nat \<Rightarrow> 64 word" where
  "timer_key E a = (case E a of Some e \<Rightarrow> ev_next_timeout e | None \<Rightarrow> 0)"

definition timers_compare :: "(nat \<rightharpoonup> hevent) \<Rightarrow> nat \<Rightarrow> nat \<Rightarrow> bool" where
  "timers_compare E lhs rhs \<longleftrightarrow> timer_key E lhs < timer_key E rhs"

definition timers_insert :: "nat \<Rightarrow> hloop \<Rightarrow> hloop option" where
  "timers_insert a l = map_option (\<lambda>(h, m). l\<lparr>lp_timers := h, lp_nodes := m\<rparr>)
     (heap_ins (timers_compare (lp_events l)) (lp_timers l, lp_nodes l) a)"

definition timers_remove :: "nat \<Rightarrow> hloop \<Rightarrow> hloop option" where
  "timers_remove a l = map_option (\<lambda>(h, m). l\<lparr>lp_timers := h, lp_nodes := m\<rparr>)
     (heap_rem (timers_compare (lp_events l)) (lp_timers l, lp_nodes l) a)"

definition timers_dequeue :: "hloop \<Rightarrow> hloop option" where
  "timers_dequeue l = map_option (\<lambda>(h, m). l\<lparr>lp_timers := h, lp_nodes := m\<rparr>)
     (heap_dequeue ((lp_timers l)\<lparr>hp_compare := Some (timers_compare (lp_events l))\<rparr>) (lp_nodes l))"

text \<open>\<open>timeout * 1000\<close> is a product of 32 bits in \<open>htimer_add\<close> and \<open>htimer_reset\<close>.\<close>

definition timeout_from :: "64 word \<Rightarrow> 32 word \<Rightarrow> 64 word" where
  "timeout_from now timeout = now + ucast (timeout * 1000)"

definition set_next :: "nat \<Rightarrow> 64 word \<Rightarrow> hloop \<Rightarrow> hloop option" where
  "set_next a t l = map_option (\<lambda>e. put_event a (e\<lparr>ev_next_timeout := t\<rparr>) l) (lp_events l a)"

definition htimer_add :: "clock \<Rightarrow> nat \<Rightarrow> nat option \<Rightarrow> 32 word \<Rightarrow> 32 word \<Rightarrow> hloop \<Rightarrow> (nat option \<times> hloop) option" where
  "htimer_add ck a cb timeout repeat l =
     (if timeout = 0 then Some (None, l)
      else (let l = alloc_event a (TimeoutEvent timeout) HEVENT_HIGHEST_PRIORITY repeat l;
                l = hloop_update_time ck l
            in Option.bind (set_next a (timeout_from (hloop_now_hrtime l) timeout) l) (\<lambda>l.
               Option.bind (timers_insert a l) (\<lambda>l.
               map_option (\<lambda>l. (Some a, l\<lparr>lp_ntimers := lp_ntimers l + 1\<rparr>)) (event_add cb a l)))))"

text \<open>\<open>(uint64_t)cron_next_timeout(...) * 1000000\<close>.\<close>

definition period_next :: "clock \<Rightarrow> int \<Rightarrow> int \<Rightarrow> int \<Rightarrow> int \<Rightarrow> int \<Rightarrow> 64 word" where
  "period_next ck minute hour day week month =
     of_int (cron_next_timeout (ck_tz ck) (ck_time ck) minute hour day week month) * 1000000"

definition htimer_add_period :: "clock \<Rightarrow> nat \<Rightarrow> nat option \<Rightarrow> int \<Rightarrow> int \<Rightarrow> int \<Rightarrow> int \<Rightarrow> int \<Rightarrow> 32 word \<Rightarrow> hloop \<Rightarrow>
    (nat option \<times> hloop) option" where
  "htimer_add_period ck a cb minute hour day week month repeat l =
     (if minute > 59 \<or> hour > 23 \<or> day > 31 \<or> week > 6 \<or> month > 12 then Some (None, l)
      else (let l = alloc_event a (PeriodEvent minute hour day week month) HEVENT_HIGH_PRIORITY repeat l
            in Option.bind (set_next a (period_next ck minute hour day week month) l) (\<lambda>l.
               Option.bind (timers_insert a l) (\<lambda>l.
               map_option (\<lambda>l. (Some a, l\<lparr>lp_ntimers := lp_ntimers l + 1\<rparr>)) (event_add cb a l)))))"

definition htimer_unlink :: "nat \<Rightarrow> hloop \<Rightarrow> hloop option" where
  "htimer_unlink a l = Option.bind (lp_events l a) (\<lambda>e.
     if ev_destroy e then Some l
     else Option.bind (timers_remove a l) (\<lambda>l.
            Some (put_event a (e\<lparr>ev_destroy := True\<rparr>) (l\<lparr>lp_ntimers := lp_ntimers l - 1\<rparr>))))"

definition htimer_del :: "nat \<Rightarrow> hloop \<Rightarrow> hloop option" where
  "htimer_del a l = Option.bind (lp_events l a) (\<lambda>e.
     if \<not> ev_active e then Some l else Option.bind (htimer_unlink a l) (event_del a))"

definition htimer_reset :: "nat \<Rightarrow> hloop \<Rightarrow> hloop option" where
  "htimer_reset a l = Option.bind (lp_events l a) (\<lambda>e.
     (case ev_type e of
        TimeoutEvent timeout \<Rightarrow>
          Option.bind (if ev_destroy e then Some (l\<lparr>lp_ntimers := lp_ntimers l + 1\<rparr>) else timers_remove a l) (\<lambda>l.
          Option.bind (set_next a (timeout_from (hloop_now_hrtime l) timeout)
              (put_event a (e\<lparr>ev_repeat := if ev_repeat e = 0 then 1 else ev_repeat e\<rparr>) l)) (\<lambda>l.
          Option.bind (timers_insert a l) (event_reset a)))
      | _ \<Rightarrow> Some l))"

text \<open>\<open>while (next_timeout <= now) next_timeout += (uint64_t)timeout * 1000\<close>.\<close>

partial_function (option) advance :: "64 word \<Rightarrow> 64 word \<Rightarrow> 64 word \<Rightarrow> 64 word option" where
  "advance now step t = (if t \<le> now then advance now step (t + step) else Some t)"

definition next_time :: "clock \<Rightarrow> 64 word \<Rightarrow> hevent \<Rightarrow> 64 word option" where
  "next_time ck now e =
     (case ev_type e of
        TimeoutEvent timeout \<Rightarrow> advance now (ucast timeout * 1000) (ev_next_timeout e)
      | PeriodEvent minute hour day week month \<Rightarrow> Some (period_next ck minute hour day week month)
      | IdleEvent \<Rightarrow> Some (ev_next_timeout e))"

text \<open>What is done with a timer that is due, before it is made pending.\<close>

definition timer_due :: "clock \<Rightarrow> 64 word \<Rightarrow> nat \<Rightarrow> hloop \<Rightarrow> hloop option" where
  "timer_due ck now a l =
     Option.bind (count_down a l) (\<lambda>l. Option.bind (lp_events l a) (\<lambda>e.
       if ev_repeat e = 0 then htimer_unlink a l
       else Option.bind (timers_dequeue l) (\<lambda>l.
            Option.bind (next_time ck now e) (\<lambda>t.
            Option.bind (set_next a t l) (timers_insert a)))))"

partial_function (option) timers_loop :: "clock \<Rightarrow> 64 word \<Rightarrow> nat \<Rightarrow> hloop \<Rightarrow> (nat \<times> hloop) option" where
  "timers_loop ck now n l =
     (case hp_root (lp_timers l) of
        None \<Rightarrow> Some (n, l)
      | Some a \<Rightarrow> Option.bind (lp_events l a) (\<lambda>e.
          if ev_next_timeout e > now then Some (n, l)
          else Option.bind (timer_due ck now a l) (\<lambda>l. Option.bind (event_pending a l) (timers_loop ck now (n + 1)))))"

definition hloop_process_timers :: "clock \<Rightarrow> hloop \<Rightarrow> (nat \<times> hloop) option" where
  "hloop_process_timers ck l = timers_loop ck (hloop_now_hrtime l) 0 l"

section \<open>Pending events\<close>

text \<open>Running the callback, clearing the flag, and the delayed deletion; then the next event, read before the callback.\<close>

definition run_pending :: "(nat \<Rightarrow> nat \<Rightarrow> hloop \<Rightarrow> hloop option) \<Rightarrow> nat \<Rightarrow> hevent \<Rightarrow> nat \<Rightarrow> hloop \<Rightarrow> (nat \<times> hloop) option" where
  "run_pending call a e n l =
     (if ev_pending e then
        Option.bind (case ev_cb e of
            Some cb \<Rightarrow> if ev_active e then map_option (\<lambda>l. (n + 1, l)) (call cb a l) else Some (n, l)
          | None \<Rightarrow> Some (n, l)) (\<lambda>(n, l).
        Option.bind (lp_events l a) (\<lambda>e.
          (let l = put_event a (e\<lparr>ev_pending := False\<rparr>) l
           in if ev_destroy e then map_option (\<lambda>l. (n, l)) (event_del a l) else Some (n, l))))
      else Some (n, l))"

partial_function (option) pending_loop :: "(nat \<Rightarrow> nat \<Rightarrow> hloop \<Rightarrow> hloop option) \<Rightarrow> nat option \<Rightarrow> nat \<Rightarrow> hloop \<Rightarrow> (nat \<times> hloop) option" where
  "pending_loop call cur n l =
     (case cur of
        None \<Rightarrow> Some (n, l)
      | Some a \<Rightarrow> Option.bind (lp_events l a) (\<lambda>e.
          Option.bind (run_pending call a e n l) (\<lambda>(n, l). pending_loop call (ev_pending_next e) n l)))"

fun priorities_loop :: "(nat \<Rightarrow> nat \<Rightarrow> hloop \<Rightarrow> hloop option) \<Rightarrow> nat \<Rightarrow> nat \<Rightarrow> hloop \<Rightarrow> (nat \<times> hloop) option" where
  "priorities_loop call 0 n l = Some (n, l)"
| "priorities_loop call (Suc i) n l =
     Option.bind (pending_loop call (lp_pendings l ! i) n l) (\<lambda>(n, l).
       priorities_loop call i n (l\<lparr>lp_pendings := (lp_pendings l)[i := None]\<rparr>))"

definition hloop_process_pendings :: "(nat \<Rightarrow> nat \<Rightarrow> hloop \<Rightarrow> hloop option) \<Rightarrow> hloop \<Rightarrow> (nat \<times> hloop) option" where
  "hloop_process_pendings call l =
     (if lp_npendings l = 0 then Some (0, l)
      else map_option (\<lambda>(n, l). (n, l\<lparr>lp_npendings := 0\<rparr>)) (priorities_loop call HEVENT_PRIORITY_SIZE 0 l))"

declare sift_up.simps [code] sift_down.simps [code] advance.simps [code] timers_loop.simps [code] pending_loop.simps [code]

section \<open>One iteration of the loop\<close>

text \<open>\<open>int32_t blocktime = blocktime_us / 1000; ++blocktime\<close>; no value when a timer is due already.\<close>

definition blocktime_until :: "64 word \<Rightarrow> 64 word \<Rightarrow> int option" where
  "blocktime_until next_min_timeout now =
     (let blocktime_us = sint (next_min_timeout - now)
      in if blocktime_us \<le> 0 then None
         else Some (min (sint ((word_of_int (blocktime_us div 1000) :: 32 word) + 1)) HLOOP_MAX_BLOCK_TIME))"

text \<open>
  \<open>poll\<close> stands for waiting: \<open>iowatcher_poll_events\<close>, or sleeping when there are no descriptors.
\<close>

definition hloop_process_events ::
  "clock \<Rightarrow> clock \<Rightarrow> (int \<Rightarrow> hloop \<Rightarrow> hloop option) \<Rightarrow> (nat \<Rightarrow> nat \<Rightarrow> hloop \<Rightarrow> hloop option) \<Rightarrow> hloop \<Rightarrow> (nat \<times> hloop) option" where
  "hloop_process_events ck ck' poll call l =
     (let process_timers = (\<lambda>l.
            Option.bind (if lp_ntimers l \<noteq> 0 then map_option snd (hloop_process_timers ck' l) else Some l) (\<lambda>l.
            Option.bind (if lp_npendings l = 0 \<and> lp_nidles l \<noteq> 0 then map_option snd (hloop_process_idles l) else Some l) (\<lambda>l.
            hloop_process_pendings call l)));
          wait = (\<lambda>blocktime l. Option.bind (poll blocktime l) (\<lambda>l.
            (let l = hloop_update_time ck' l
             in if lp_status l = LoopStop then Some (0, l) else process_timers l)))
      in case hp_root (lp_timers l) of
           None \<Rightarrow> wait HLOOP_MAX_BLOCK_TIME l
         | Some a \<Rightarrow>
             (let l = hloop_update_time ck l
              in Option.bind (lp_events l a) (\<lambda>e.
                   case blocktime_until (ev_next_timeout e) (hloop_now_hrtime l) of
                     None \<Rightarrow> process_timers l
                   | Some blocktime \<Rightarrow> wait blocktime l)))"

section \<open>The beginning and the end\<close>

definition hloop_init :: "clock \<Rightarrow> hloop" where
  "hloop_init ck =
     \<lparr>lp_status = LoopStop, lp_start_ms = ck_ms ck, lp_start_hrtime = ck_hrtime ck, lp_cur_hrtime = ck_hrtime ck, lp_nactives = 0,
      lp_npendings = 0, lp_pendings = replicate HEVENT_PRIORITY_SIZE None, lp_idles = [], lp_nidles = 0,
      lp_timers = heap_init (Some (timers_compare Map.empty)), lp_ntimers = 0, lp_events = Map.empty, lp_nodes = clear_nodes\<rparr>"

partial_function (option) cleanup_timers :: "hloop \<Rightarrow> hloop option" where
  "cleanup_timers l =
     (case hp_root (lp_timers l) of
        None \<Rightarrow> Some l
      | Some a \<Rightarrow> Option.bind (timers_dequeue l) (\<lambda>l.
          if lp_events l a = None then None else cleanup_timers (free_event a l)))"

definition hloop_cleanup :: "hloop \<Rightarrow> hloop option" where
  "hloop_cleanup l =
     (let l = l\<lparr>lp_pendings := replicate HEVENT_PRIORITY_SIZE None\<rparr>;
          l = l\<lparr>lp_events := (lp_events l) |` (- set (lp_idles l)), lp_idles := []\<rparr>
      in map_option (\<lambda>l. l\<lparr>lp_timers := heap_init None\<rparr>) (cleanup_timers l))"

section \<open>The invariant\<close>

definition is_timer :: "hevent \<Rightarrow> bool" where
  "is_timer e \<longleftrightarrow> ev_type e \<noteq> IdleEvent"

definition timer_set :: "(nat \<rightharpoonup> hevent) \<Rightarrow> nat set" where
  "timer_set E = {a. \<exists>e. E a = Some e \<and> is_timer e \<and> \<not> ev_destroy e}"

definition idle_set :: "(nat \<rightharpoonup> hevent) \<Rightarrow> nat set" where
  "idle_set E = {a. \<exists>e. E a = Some e \<and> \<not> is_timer e \<and> \<not> ev_destroy e}"

definition active_set :: "(nat \<rightharpoonup> hevent) \<Rightarrow> nat set" where
  "active_set E = {a. \<exists>e. E a = Some e \<and> ev_active e}"

definition pending_set :: "(nat \<rightharpoonup> hevent) \<Rightarrow> nat set" where
  "pending_set E = {a. \<exists>e. E a = Some e \<and> ev_pending e}"

lemmas event_sets = timer_set_def idle_set_def active_set_def pending_set_def

lemma event_sets_put [simp]:
  "timer_set (E(a \<mapsto> e)) = (if is_timer e \<and> \<not> ev_destroy e then insert a (timer_set E) else timer_set E - {a})"
  "idle_set (E(a \<mapsto> e)) = (if \<not> is_timer e \<and> \<not> ev_destroy e then insert a (idle_set E) else idle_set E - {a})"
  "active_set (E(a \<mapsto> e)) = (if ev_active e then insert a (active_set E) else active_set E - {a})"
  "pending_set (E(a \<mapsto> e)) = (if ev_pending e then insert a (pending_set E) else pending_set E - {a})"
  by (auto simp: event_sets)

lemma event_sets_free [simp]:
  "timer_set (E(a := None)) = timer_set E - {a}" "idle_set (E(a := None)) = idle_set E - {a}"
  "active_set (E(a := None)) = active_set E - {a}" "pending_set (E(a := None)) = pending_set E - {a}"
  by (auto simp: event_sets)

text \<open>The times that \<open>htimer_add\<close> and \<open>htimer_add_period\<close> accept.\<close>

definition type_ok :: "event_type \<Rightarrow> bool" where
  "type_ok ty \<longleftrightarrow> (case ty of
     TimeoutEvent timeout \<Rightarrow> timeout \<noteq> 0
   | PeriodEvent minute hour day week month \<Rightarrow> minute \<le> 59 \<and> hour \<le> 23 \<and> day \<le> 31 \<and> week \<le> 6 \<and> month \<le> 12
   | IdleEvent \<Rightarrow> True)"

lemma type_ok_simps [simp]:
  "type_ok IdleEvent" "type_ok (TimeoutEvent timeout) \<longleftrightarrow> timeout \<noteq> 0"
  "type_ok (PeriodEvent minute hour day week month) \<longleftrightarrow> minute \<le> 59 \<and> hour \<le> 23 \<and> day \<le> 31 \<and> week \<le> 6 \<and> month \<le> 12"
  by (simp_all add: type_ok_def)

text \<open>An event marked for deletion is pending, or it is gone; one that is not active is marked.\<close>

definition event_ok :: "hevent \<Rightarrow> bool" where
  "event_ok e \<longleftrightarrow> (ev_destroy e \<longrightarrow> ev_pending e) \<and> (ev_active e \<or> ev_destroy e) \<and> type_ok (ev_type e) \<and>
     - 5 \<le> ev_priority e \<and> ev_priority e \<le> 5"

definition base_inv :: "hloop \<Rightarrow> bool" where
  "base_inv l \<longleftrightarrow> finite (dom (lp_events l)) \<and>
     heap_models (timers_compare (lp_events l)) (lp_timers l, lp_nodes l) (timer_set (lp_events l)) \<and>
     lp_ntimers l = of_nat (card (timer_set (lp_events l))) \<and>
     distinct (lp_idles l) \<and> set (lp_idles l) = idle_set (lp_events l) \<and> lp_nidles l = of_nat (length (lp_idles l)) \<and>
     lp_nactives l = of_nat (card (active_set (lp_events l))) \<and>
     (\<forall>e \<in> ran (lp_events l). event_ok e)"

section \<open>The heap in the loop\<close>

lemma compare_order: "comparator (timers_compare E)"
  using less_comparator[where f = "timer_key E"] unfolding timers_compare_def[abs_def] .

lemma timer_key_simps [simp]:
  "timer_key (E(a \<mapsto> e)) b = (if b = a then ev_next_timeout e else timer_key E b)"
  "timer_key (E(a := None)) b = (if b = a then 0 else timer_key E b)"
  by (simp_all add: timer_key_def)

lemma timers_recompare:
  assumes "heap_models (timers_compare E) q S" "\<And>b. b \<in> S \<Longrightarrow> timer_key E' b = timer_key E b"
  shows "heap_models (timers_compare E') q S"
  by (rule hq.recompare[OF assms(1)]) (simp add: timers_compare_def assms(2))

lemma timers_insert_spec:
  assumes "heap_models (timers_compare E) (lp_timers l, lp_nodes l) S" "a \<notin> S"
    and "\<And>b. b \<in> S \<Longrightarrow> timer_key (lp_events l) b = timer_key E b"
  shows "\<exists>h m. timers_insert a l = Some (l\<lparr>lp_timers := h, lp_nodes := m\<rparr>) \<and>
    heap_models (timers_compare (lp_events l)) (h, m) (insert a S)"
  using hq.ins_models[OF compare_order timers_recompare[OF assms(1,3)] assms(2)] by (auto simp: timers_insert_def)

lemma timers_remove_spec:
  assumes "heap_models (timers_compare (lp_events l)) (lp_timers l, lp_nodes l) S" "a \<in> S"
  shows "\<exists>h m. timers_remove a l = Some (l\<lparr>lp_timers := h, lp_nodes := m\<rparr>) \<and>
    heap_models (timers_compare (lp_events l)) (h, m) (S - {a})"
  using hq.rem_models[OF compare_order assms] by (auto simp: timers_remove_def)

lemma timers_root:
  assumes "heap_models (timers_compare E) (h, m) S"
  shows "hp_root h = None \<Longrightarrow> S = {}"
    and "hp_root h = Some a \<Longrightarrow> a \<in> S \<and> (\<forall>b \<in> S. timer_key E a \<le> timer_key E b)"
  using hq.top_empty[OF assms] hq.top_least[OF compare_order assms] by (auto simp: timers_compare_def not_less)

lemma timers_dequeue_eq:
  assumes "heap_models (timers_compare E) (lp_timers l, lp_nodes l) S" "hp_root (lp_timers l) = Some a"
  shows "timers_dequeue l = timers_remove a l"
proof -
  have "a \<in> S" using timers_root(2)[OF assms] by blast
  moreover have "finite S" "hp_nelts (lp_timers l) = card S" using hq.count_card[OF assms(1)] by simp_all
  ultimately have "hp_nelts (lp_timers l) \<noteq> 0" by auto
  then show ?thesis using assms(2) by (simp add: timers_dequeue_def timers_remove_def heap_dequeue_def heap_rem_def)
qed

lemma heap_models_clear:
  assumes "heap_models lt (h, m) S" "a \<notin> S"
  shows "heap_models lt (h, m(a := clear_nodes a)) S"
proof -
  have M: "\<exists>xs. heap_rep h m xs \<and> ordered lt xs \<and> set xs = S" "\<forall>b. b \<notin> S \<longrightarrow> hn_left (m b) = None \<and> hn_right (m b) = None"
    using assms(1) unfolding heap_models_def prod.case by blast+
  then obtain xs where xs: "heap_rep h m xs" "ordered lt xs" "set xs = S" by blast
  have "rep m xs" using xs(1) by (simp add: heap_rep_def)
  then have "rep (m(a := clear_nodes a)) xs" by (rule rep_out) (use xs(3) assms(2) in auto)
  then have "heap_rep h (m(a := clear_nodes a)) xs" using xs(1) by (simp add: heap_rep_def)
  then have "\<exists>xs. heap_rep h (m(a := clear_nodes a)) xs \<and> ordered lt xs \<and> set xs = S" using xs(2,3) by blast
  moreover have "\<forall>b. b \<notin> S \<longrightarrow> hn_left ((m(a := clear_nodes a)) b) = None \<and> hn_right ((m(a := clear_nodes a)) b) = None"
    using M(2) by (simp add: clear_nodes_def)
  ultimately show ?thesis by (simp only: heap_models_def prod.case)
qed

section \<open>Operations of the caller keep the invariant\<close>

text \<open>
  What an operation of a caller leaves alone: the lists of pending events, their links, and the marks of
  those on them.
\<close>

definition keeps :: "hloop \<Rightarrow> hloop \<Rightarrow> bool" where
  "keeps l l' \<longleftrightarrow> lp_pendings l' = lp_pendings l \<and> lp_npendings l' = lp_npendings l \<and>
     pending_set (lp_events l') = pending_set (lp_events l) \<and>
     (\<forall>a \<in> pending_set (lp_events l). map_option ev_pending_next (lp_events l' a) = map_option ev_pending_next (lp_events l a))"

lemma keeps_refl [simp]: "keeps l l"
  by (simp add: keeps_def)

lemma keeps_trans: "keeps l l' \<Longrightarrow> keeps l' l'' \<Longrightarrow> keeps l l''"
  by (simp add: keeps_def)

lemma put_event_simps [simp]:
  "lp_events (put_event a e l) = (lp_events l)(a \<mapsto> e)" "lp_timers (put_event a e l) = lp_timers l" "lp_nodes (put_event a e l) = lp_nodes l"
  "lp_ntimers (put_event a e l) = lp_ntimers l" "lp_idles (put_event a e l) = lp_idles l" "lp_nidles (put_event a e l) = lp_nidles l"
  "lp_nactives (put_event a e l) = lp_nactives l" "lp_pendings (put_event a e l) = lp_pendings l"
  "lp_npendings (put_event a e l) = lp_npendings l" "lp_status (put_event a e l) = lp_status l"
  "hloop_now_hrtime (put_event a e l) = hloop_now_hrtime l"
  by (simp_all add: put_event_def hloop_now_hrtime_def)

lemma free_event_simps [simp]:
  "lp_events (free_event a l) = (lp_events l)(a := None)" "lp_timers (free_event a l) = lp_timers l" "lp_nodes (free_event a l) = lp_nodes l"
  "lp_ntimers (free_event a l) = lp_ntimers l" "lp_idles (free_event a l) = lp_idles l" "lp_nidles (free_event a l) = lp_nidles l"
  "lp_nactives (free_event a l) = lp_nactives l" "lp_pendings (free_event a l) = lp_pendings l"
  "lp_npendings (free_event a l) = lp_npendings l" "lp_status (free_event a l) = lp_status l"
  by (simp_all add: free_event_def)

lemma count_insert: "finite S \<Longrightarrow> a \<notin> S \<Longrightarrow> of_nat (card (insert a S)) = (of_nat (card S) + 1 :: 32 word)"
  by simp

lemma count_remove: "finite S \<Longrightarrow> a \<in> S \<Longrightarrow> of_nat (card (S - {a})) = (of_nat (card S) - 1 :: 32 word)"
proof -
  assume "finite S" "a \<in> S"
  then have "card S = Suc (card (S - {a}))" by (rule card.remove)
  moreover define k where "k = card (S - {a})"
  ultimately show ?thesis unfolding k_def[symmetric] by simp
qed

lemma count_less: "finite S \<Longrightarrow> a \<in> S \<Longrightarrow> of_nat (card S - Suc 0) = (of_nat (card S) - 1 :: 32 word)"
  using count_remove[of S a] by simp

lemma finite_sets:
  assumes "finite (dom E)"
  shows "finite (timer_set E)" "finite (idle_set E)" "finite (active_set E)" "finite (pending_set E)"
proof -
  have "timer_set E \<subseteq> dom E" "idle_set E \<subseteq> dom E" "active_set E \<subseteq> dom E" "pending_set E \<subseteq> dom E"
    by (auto simp: event_sets)
  then show "finite (timer_set E)" "finite (idle_set E)" "finite (active_set E)" "finite (pending_set E)"
    using assms finite_subset by blast+
qed

text \<open>Adding an event, without and with a timer, and deleting one.\<close>

lemma base_invD:
  assumes "base_inv l"
  shows "finite (dom (lp_events l))" "heap_models (timers_compare (lp_events l)) (lp_timers l, lp_nodes l) (timer_set (lp_events l))"
    "lp_ntimers l = of_nat (card (timer_set (lp_events l)))" "distinct (lp_idles l)" "set (lp_idles l) = idle_set (lp_events l)"
    "lp_nidles l = of_nat (length (lp_idles l))" "lp_nactives l = of_nat (card (active_set (lp_events l)))"
    "\<And>a e. lp_events l a = Some e \<Longrightarrow> event_ok e"
  using assms by (auto simp: base_inv_def ran_def)

lemma not_in_sets: "E a = None \<Longrightarrow> a \<notin> timer_set E \<and> a \<notin> idle_set E \<and> a \<notin> active_set E \<and> a \<notin> pending_set E"
  by (simp add: event_sets)

lemma hidle_add_inv:
  assumes I: "base_inv l" and a: "lp_events l a = None"
  shows "\<exists>l'. hidle_add a cb repeat l = Some l' \<and> base_inv l' \<and> keeps l l' \<and> dom (lp_events l') = insert a (dom (lp_events l))"
proof -
  note D = base_invD[OF I] and F = finite_sets[OF base_invD(1)[OF I]] and N = not_in_sets[of "lp_events l", OF a]
  let ?e = "\<lparr>ev_type = IdleEvent, ev_cb = cb, ev_priority = HEVENT_LOWEST_PRIORITY, ev_pending_next = None, ev_destroy = False,
    ev_active = True, ev_pending = False, ev_repeat = repeat, ev_next_timeout = 0\<rparr>"
  let ?l = "l\<lparr>lp_events := (lp_events l)(a \<mapsto> ?e), lp_nodes := (lp_nodes l)(a := clear_nodes a), lp_idles := a # lp_idles l,
    lp_nidles := lp_nidles l + 1, lp_nactives := lp_nactives l + 1\<rparr>"
  have "hidle_add a cb repeat l = Some ?l"
    by (simp add: hidle_add_def alloc_event_def event_add_def event_active_def put_event_def)
  moreover have "heap_models (timers_compare ((lp_events l)(a \<mapsto> ?e))) (lp_timers l, (lp_nodes l)(a := clear_nodes a)) (timer_set (lp_events l))"
    using timers_recompare[OF heap_models_clear[OF D(2)], of a "(lp_events l)(a \<mapsto> ?e)"] N by (metis timer_key_simps(1))
  then have "base_inv ?l"
    using D F N by (auto simp: base_inv_def is_timer_def event_ok_def HEVENT_LOWEST_PRIORITY_def ran_def split: if_splits)
  moreover have "keeps l ?l" using N by (auto simp: keeps_def)
  ultimately show ?thesis by auto
qed

lemma update_time_simps [simp]:
  "lp_events (hloop_update_time ck l) = lp_events l" "lp_timers (hloop_update_time ck l) = lp_timers l"
  "lp_nodes (hloop_update_time ck l) = lp_nodes l" "lp_ntimers (hloop_update_time ck l) = lp_ntimers l"
  "lp_idles (hloop_update_time ck l) = lp_idles l" "lp_nidles (hloop_update_time ck l) = lp_nidles l"
  "lp_nactives (hloop_update_time ck l) = lp_nactives l" "lp_pendings (hloop_update_time ck l) = lp_pendings l"
  "lp_npendings (hloop_update_time ck l) = lp_npendings l" "lp_status (hloop_update_time ck l) = lp_status l"
  by (simp_all add: hloop_update_time_def Let_def)

lemma base_inv_time [simp]: "base_inv (hloop_update_time ck l) = base_inv l"
  by (simp add: base_inv_def)

lemma update_time_alloc:
  "hloop_update_time ck (put_event a e (l\<lparr>lp_nodes := m\<rparr>)) = put_event a e ((hloop_update_time ck l)\<lparr>lp_nodes := m\<rparr>)"
  by (simp add: hloop_update_time_def put_event_def hloop_now_def Let_def)

lemma put_twice [simp]: "put_event a e (put_event a e' l) = put_event a e l"
  by (simp add: put_event_def)

lemma timer_added:
  assumes I: "base_inv l" and a: "lp_events l a = None"
    and e: "is_timer e" "\<not> ev_destroy e" "\<not> ev_pending e" "\<not> ev_active e" "event_ok (e\<lparr>ev_active := True\<rparr>)"
  shows "\<exists>l'. Option.bind (timers_insert a (put_event a e (l\<lparr>lp_nodes := (lp_nodes l)(a := clear_nodes a)\<rparr>)))
      (\<lambda>l. map_option (\<lambda>l. (Some a, l\<lparr>lp_ntimers := lp_ntimers l + 1\<rparr>)) (event_add cb a l)) = Some (Some a, l') \<and>
    base_inv l' \<and> keeps l l' \<and> lp_events l' = (lp_events l)(a \<mapsto> e\<lparr>ev_cb := cb, ev_active := True\<rparr>)"
proof -
  note D = base_invD[OF I] and F = finite_sets[OF base_invD(1)[OF I]] and N = not_in_sets[of "lp_events l", OF a]
  let ?l1 = "put_event a e (l\<lparr>lp_nodes := (lp_nodes l)(a := clear_nodes a)\<rparr>)" and ?e = "e\<lparr>ev_cb := cb, ev_active := True\<rparr>"
  have key: "timer_key (lp_events ?l1) b = timer_key (lp_events l) b" if "b \<in> timer_set (lp_events l)" for b using that N by auto
  have "heap_models (timers_compare (lp_events l)) (lp_timers ?l1, lp_nodes ?l1) (timer_set (lp_events l))"
    using heap_models_clear[OF D(2)] N by simp
  from timers_insert_spec[OF this, of a] key N obtain h m where
    H: "timers_insert a ?l1 = Some (?l1\<lparr>lp_timers := h, lp_nodes := m\<rparr>)"
      "heap_models (timers_compare ((lp_events l)(a \<mapsto> e))) (h, m) (insert a (timer_set (lp_events l)))"
    by auto
  let ?l2 = "l\<lparr>lp_events := (lp_events l)(a \<mapsto> ?e), lp_timers := h, lp_nodes := m, lp_ntimers := lp_ntimers l + 1, lp_nactives := lp_nactives l + 1\<rparr>"
  have "Option.bind (timers_insert a ?l1) (\<lambda>l. map_option (\<lambda>l. (Some a, l\<lparr>lp_ntimers := lp_ntimers l + 1\<rparr>)) (event_add cb a l)) =
      Some (Some a, ?l2)"
    using e(4) H(1) by (simp add: event_add_def event_active_def put_event_def)
  moreover have "heap_models (timers_compare ((lp_events l)(a \<mapsto> ?e))) (h, m) (insert a (timer_set (lp_events l)))"
    by (rule timers_recompare[OF H(2)]) simp
  then have "base_inv ?l2"
    using D F N e by (auto simp: base_inv_def is_timer_def event_ok_def ran_def split: if_splits)
  moreover have "keeps l ?l2" using N e(3) by (auto simp: keeps_def)
  ultimately show ?thesis by auto
qed

text \<open>What a caller passes to \<open>htimer_add\<close>: an address that is free.\<close>

lemma htimer_add_inv:
  assumes I: "base_inv l" and a: "lp_events l a = None"
  shows "\<exists>r l'. htimer_add ck a cb timeout repeat l = Some (r, l') \<and> base_inv l' \<and> keeps l l' \<and>
    (if timeout = 0 then r = None \<and> l' = l
     else r = Some a \<and> lp_events l' = (lp_events l)(a \<mapsto>
       \<lparr>ev_type = TimeoutEvent timeout, ev_cb = cb, ev_priority = HEVENT_HIGHEST_PRIORITY, ev_pending_next = None, ev_destroy = False,
        ev_active = True, ev_pending = False, ev_repeat = repeat,
        ev_next_timeout = timeout_from (hloop_now_hrtime (hloop_update_time ck l)) timeout\<rparr>))"
proof (cases "timeout = 0")
  case False
  let ?t = "timeout_from (hloop_now_hrtime (hloop_update_time ck l)) timeout"
  let ?e = "\<lparr>ev_type = TimeoutEvent timeout, ev_cb = None, ev_priority = HEVENT_HIGHEST_PRIORITY, ev_pending_next = None, ev_destroy = False,
    ev_active = False, ev_pending = False, ev_repeat = repeat, ev_next_timeout = ?t\<rparr>"
  let ?l = "hloop_update_time ck l"
  have now: "hloop_now_hrtime ((hloop_update_time ck l)\<lparr>lp_nodes := m\<rparr>) = hloop_now_hrtime (hloop_update_time ck l)" for m
    by (simp add: hloop_now_hrtime_def)
  have E: "htimer_add ck a cb timeout repeat l = Option.bind (timers_insert a (put_event a ?e (?l\<lparr>lp_nodes := (lp_nodes ?l)(a := clear_nodes a)\<rparr>)))
      (\<lambda>l. map_option (\<lambda>l. (Some a, l\<lparr>lp_ntimers := lp_ntimers l + 1\<rparr>)) (event_add cb a l))"
    using False by (simp add: htimer_add_def alloc_event_def update_time_alloc set_next_def Let_def now)
  have "base_inv ?l" "lp_events ?l a = None" using I a by simp_all
  from timer_added[OF this, of ?e cb] False obtain l' where
    l': "htimer_add ck a cb timeout repeat l = Some (Some a, l')" "base_inv l'" "keeps ?l l'"
      "lp_events l' = (lp_events l)(a \<mapsto> ?e\<lparr>ev_cb := cb, ev_active := True\<rparr>)"
    unfolding E by (auto simp: is_timer_def event_ok_def HEVENT_HIGHEST_PRIORITY_def)
  moreover have "keeps l l'" using l'(3) by (simp add: keeps_def)
  ultimately show ?thesis using False by simp
qed (simp add: htimer_add_def I)

lemma htimer_add_period_inv:
  assumes I: "base_inv l" and a: "lp_events l a = None"
  shows "\<exists>r l'. htimer_add_period ck a cb minute hour day week month repeat l = Some (r, l') \<and> base_inv l' \<and> keeps l l' \<and>
    (if minute > 59 \<or> hour > 23 \<or> day > 31 \<or> week > 6 \<or> month > 12 then r = None \<and> l' = l
     else r = Some a \<and> lp_events l' = (lp_events l)(a \<mapsto>
       \<lparr>ev_type = PeriodEvent minute hour day week month, ev_cb = cb, ev_priority = HEVENT_HIGH_PRIORITY, ev_pending_next = None,
        ev_destroy = False, ev_active = True, ev_pending = False, ev_repeat = repeat,
        ev_next_timeout = period_next ck minute hour day week month\<rparr>))"
proof (cases "minute > 59 \<or> hour > 23 \<or> day > 31 \<or> week > 6 \<or> month > 12")
  case False
  let ?e = "\<lparr>ev_type = PeriodEvent minute hour day week month, ev_cb = None, ev_priority = HEVENT_HIGH_PRIORITY, ev_pending_next = None,
    ev_destroy = False, ev_active = False, ev_pending = False, ev_repeat = repeat, ev_next_timeout = period_next ck minute hour day week month\<rparr>"
  have E: "htimer_add_period ck a cb minute hour day week month repeat l =
      Option.bind (timers_insert a (put_event a ?e (l\<lparr>lp_nodes := (lp_nodes l)(a := clear_nodes a)\<rparr>)))
        (\<lambda>l. map_option (\<lambda>l. (Some a, l\<lparr>lp_ntimers := lp_ntimers l + 1\<rparr>)) (event_add cb a l))"
    using False by (simp add: htimer_add_period_def alloc_event_def set_next_def)
  have f: "type_ok (PeriodEvent minute hour day week month)" using False by auto
  from timer_added[OF I a, of ?e cb] obtain l' where
    "htimer_add_period ck a cb minute hour day week month repeat l = Some (Some a, l')" "base_inv l'" "keeps l l'"
      "lp_events l' = (lp_events l)(a \<mapsto> ?e\<lparr>ev_cb := cb, ev_active := True\<rparr>)"
    unfolding E using f by (auto simp: is_timer_def event_ok_def HEVENT_HIGH_PRIORITY_def simp del: type_ok_simps)
  then show ?thesis using False by simp
qed (simp add: htimer_add_period_def I)

lemma event_del_eq:
  "lp_events l a = Some e \<Longrightarrow> event_del a l = Some (l\<lparr>lp_events := (lp_events l)(a := if ev_pending e then Some (e\<lparr>ev_active := False\<rparr>) else None),
     lp_nactives := if ev_active e then lp_nactives l - 1 else lp_nactives l\<rparr>)"
  by (cases e) (auto simp: event_del_def event_inactive_def free_event_def put_event_def intro!: hloop.equality)

lemma htimer_unlink_spec:
  assumes "heap_models (timers_compare (lp_events l)) (lp_timers l, lp_nodes l) S" "a \<in> S" "lp_events l a = Some e" "\<not> ev_destroy e"
  shows "\<exists>h m. htimer_unlink a l = Some (l\<lparr>lp_events := (lp_events l)(a \<mapsto> e\<lparr>ev_destroy := True\<rparr>), lp_timers := h, lp_nodes := m,
      lp_ntimers := lp_ntimers l - 1\<rparr>) \<and> heap_models (timers_compare (lp_events l)) (h, m) (S - {a})"
proof -
  obtain h m where "timers_remove a l = Some (l\<lparr>lp_timers := h, lp_nodes := m\<rparr>)" "heap_models (timers_compare (lp_events l)) (h, m) (S - {a})"
    using timers_remove_spec[OF assms(1,2)] by blast
  then show ?thesis using assms(3,4) by (intro exI[of _ h] exI[of _ m]) (simp add: htimer_unlink_def put_event_def)
qed

lemma htimer_del_inv:
  assumes I: "base_inv l" and a: "lp_events l a = Some e" "is_timer e"
  shows "\<exists>l'. htimer_del a l = Some l' \<and> base_inv l' \<and> keeps l l' \<and>
    lp_events l' = (if \<not> ev_active e then lp_events l
      else (lp_events l)(a := if ev_pending e then Some (e\<lparr>ev_destroy := True, ev_active := False\<rparr>) else None))"
proof -
  note D = base_invD[OF I] and F = finite_sets[OF base_invD(1)[OF I]]
  note ok = D(8)[OF a(1)]
  have mem: "a \<in> active_set (lp_events l) \<longleftrightarrow> ev_active e" "a \<in> timer_set (lp_events l) \<longleftrightarrow> \<not> ev_destroy e" "a \<notin> idle_set (lp_events l)"
    "a \<in> pending_set (lp_events l) \<longleftrightarrow> ev_pending e"
    using a by (auto simp: event_sets)
  show ?thesis
  proof (cases "ev_active e \<and> \<not> ev_destroy e")
    case True
    obtain h m where U: "htimer_unlink a l = Some (l\<lparr>lp_events := (lp_events l)(a \<mapsto> e\<lparr>ev_destroy := True\<rparr>), lp_timers := h, lp_nodes := m,
        lp_ntimers := lp_ntimers l - 1\<rparr>)" "heap_models (timers_compare (lp_events l)) (h, m) (timer_set (lp_events l) - {a})"
      using htimer_unlink_spec[OF D(2) _ a(1)] True mem by blast
    let ?E = "(lp_events l)(a := if ev_pending e then Some (e\<lparr>ev_destroy := True, ev_active := False\<rparr>) else None)"
    let ?l = "l\<lparr>lp_events := ?E, lp_timers := h, lp_nodes := m, lp_ntimers := lp_ntimers l - 1, lp_nactives := lp_nactives l - 1\<rparr>"
    have "htimer_del a l = Some ?l" using True a(1) U(1) by (simp add: htimer_del_def event_del_eq)
    moreover have "heap_models (timers_compare ?E) (h, m) (timer_set (lp_events l) - {a})"
      by (rule timers_recompare[OF U(2)]) auto
    then have "base_inv ?l"
      using D F mem True a by (auto simp: base_inv_def is_timer_def event_ok_def ran_def count_less[OF F(1), of a] count_less[OF F(3), of a] split: if_splits)
    moreover have "keeps l ?l" using mem a(1) by (auto simp: keeps_def)
    ultimately show ?thesis using True by auto
  next
    case False
    show ?thesis
    proof (cases "ev_active e")
      case True
      then have d: "ev_destroy e" "ev_pending e" using False ok by (auto simp: event_ok_def)
      let ?l = "l\<lparr>lp_events := (lp_events l)(a \<mapsto> e\<lparr>ev_active := False\<rparr>), lp_nactives := lp_nactives l - 1\<rparr>"
      have "htimer_del a l = Some ?l" using True d a(1) by (simp add: htimer_del_def htimer_unlink_def event_del_eq)
      moreover have "heap_models (timers_compare (lp_events ?l)) (lp_timers l, lp_nodes l) (timer_set (lp_events l))"
        by (rule timers_recompare[OF D(2)]) (use mem d in auto)
      then have "base_inv ?l"
        using D F mem True d a ok by (auto simp: base_inv_def is_timer_def event_ok_def ran_def count_less[OF F(1), of a] count_less[OF F(3), of a] split: if_splits)
      moreover have "keeps l ?l" using mem d a(1) by (auto simp: keeps_def)
      ultimately show ?thesis using True d by auto
    qed (use I a in \<open>simp add: htimer_del_def\<close>)
  qed
qed

lemma hidle_del_inv:
  assumes I: "base_inv l" and a: "lp_events l a = Some e" "\<not> is_timer e"
  shows "\<exists>l'. hidle_del a l = Some l' \<and> base_inv l' \<and> keeps l l' \<and>
    lp_events l' = (if \<not> ev_active e then lp_events l
      else (lp_events l)(a := if ev_pending e then Some (e\<lparr>ev_destroy := True, ev_active := False\<rparr>) else None))"
proof -
  note D = base_invD[OF I] and F = finite_sets[OF base_invD(1)[OF I]]
  note ok = D(8)[OF a(1)]
  have mem: "a \<in> active_set (lp_events l) \<longleftrightarrow> ev_active e" "a \<in> idle_set (lp_events l) \<longleftrightarrow> \<not> ev_destroy e" "a \<notin> timer_set (lp_events l)"
    "a \<in> pending_set (lp_events l) \<longleftrightarrow> ev_pending e"
    using a by (auto simp: event_sets)
  show ?thesis
  proof (cases "ev_active e")
    case True
    let ?E = "(lp_events l)(a := if ev_pending e then Some (e\<lparr>ev_destroy := True, ev_active := False\<rparr>) else None)"
    have K: "heap_models (timers_compare ?E) (lp_timers l, lp_nodes l) (timer_set (lp_events l))"
      by (rule timers_recompare[OF D(2)]) (use mem(3) in auto)
    let ?l = "if ev_destroy e then l\<lparr>lp_events := ?E, lp_nactives := lp_nactives l - 1\<rparr>
      else l\<lparr>lp_events := ?E, lp_idles := remove1 a (lp_idles l), lp_nidles := lp_nidles l - 1, lp_nactives := lp_nactives l - 1\<rparr>"
    have "hidle_del a l = Some ?l"
      using True a(1) ok by (cases e) (auto simp: hidle_del_def hidle_unlink_def event_del_eq put_event_def event_ok_def)
    moreover have len: "\<not> ev_destroy e \<Longrightarrow> of_nat (length (lp_idles l) - Suc 0) = (of_nat (length (lp_idles l)) - 1 :: 32 word)"
      using count_less[OF finite_set, of a "lp_idles l"] mem(2) D(5) distinct_card[OF D(4)] by simp
    have "base_inv ?l"
      using D F mem True a ok K len
      by (auto simp: base_inv_def is_timer_def event_ok_def ran_def count_less[OF F(3), of a] length_remove1 split: if_splits)
    moreover have "keeps l ?l" using mem a(1) by (auto simp: keeps_def)
    ultimately show ?thesis using True by auto
  qed (use I a in \<open>simp add: hidle_del_def\<close>)
qed

lemma event_reset_eq:
  "lp_events l a = Some e \<Longrightarrow> ev_active e \<Longrightarrow> event_reset a l = Some (put_event a (e\<lparr>ev_destroy := False, ev_pending := False\<rparr>) l)"
  by (simp add: event_reset_def event_active_def)

text \<open>A reset makes the timer live and clears its pending flag, whatever it was; the lists of pending events stay.\<close>

definition reset_event :: "64 word \<Rightarrow> hevent \<Rightarrow> hevent" where
  "reset_event t e = e\<lparr>ev_destroy := False, ev_active := True, ev_pending := False,
     ev_repeat := if ev_repeat e = 0 then 1 else ev_repeat e, ev_next_timeout := t\<rparr>"

lemma reset_event_simps [simp]:
  "ev_type (reset_event t e) = ev_type e" "ev_priority (reset_event t e) = ev_priority e" "ev_active (reset_event t e)"
  "\<not> ev_pending (reset_event t e)" "\<not> ev_destroy (reset_event t e)" "is_timer (reset_event t e) = is_timer e"
  "ev_next_timeout (reset_event t e) = t" "ev_pending_next (reset_event t e) = ev_pending_next e"
  by (simp_all add: reset_event_def is_timer_def)

lemma htimer_reset_spec:
  assumes M: "heap_models (timers_compare (lp_events l)) (lp_timers l, lp_nodes l) (timer_set (lp_events l))"
    and a: "lp_events l a = Some e" "ev_type e = TimeoutEvent t"
  shows "\<exists>h m. htimer_reset a l = Some (l\<lparr>lp_events := (lp_events l)(a \<mapsto> reset_event (timeout_from (hloop_now_hrtime l) t) e),
        lp_timers := h, lp_nodes := m, lp_ntimers := if ev_destroy e then lp_ntimers l + 1 else lp_ntimers l,
        lp_nactives := if ev_active e then lp_nactives l else lp_nactives l + 1\<rparr>) \<and>
      heap_models (timers_compare ((lp_events l)(a \<mapsto> reset_event (timeout_from (hloop_now_hrtime l) t) e))) (h, m)
        (insert a (timer_set (lp_events l)))"
proof -
  let ?S = "timer_set (lp_events l)"
  have mem: "a \<in> ?S \<longleftrightarrow> \<not> ev_destroy e" using a by (simp add: timer_set_def is_timer_def)
  obtain h m where R: "(if ev_destroy e then Some (l\<lparr>lp_ntimers := lp_ntimers l + 1\<rparr>) else timers_remove a l) =
      Some (l\<lparr>lp_timers := h, lp_nodes := m, lp_ntimers := if ev_destroy e then lp_ntimers l + 1 else lp_ntimers l\<rparr>)"
    "heap_models (timers_compare (lp_events l)) (h, m) (?S - {a})"
  proof (cases "ev_destroy e")
    case True
    then show thesis using that[of "lp_nodes l" "lp_timers l"] M mem by simp
  next
    case False
    then show thesis using timers_remove_spec[OF M, of a] mem that by auto
  qed
  let ?l = "l\<lparr>lp_timers := h, lp_nodes := m, lp_ntimers := if ev_destroy e then lp_ntimers l + 1 else lp_ntimers l\<rparr>"
  let ?e = "e\<lparr>ev_repeat := if ev_repeat e = 0 then 1 else ev_repeat e, ev_next_timeout := timeout_from (hloop_now_hrtime l) t\<rparr>"
  let ?r = "reset_event (timeout_from (hloop_now_hrtime l) t) e"
  let ?l1 = "put_event a ?e ?l"
  have "\<And>b. b \<in> ?S - {a} \<Longrightarrow> timer_key (lp_events ?l1) b = timer_key (lp_events l) b" by simp
  from timers_insert_spec[of "lp_events l" ?l1 "?S - {a}" a, OF _ _ this] R(2) obtain h' m' where
    H: "timers_insert a ?l1 = Some (?l1\<lparr>lp_timers := h', lp_nodes := m'\<rparr>)"
      "heap_models (timers_compare ((lp_events l)(a \<mapsto> ?e))) (h', m') (insert a ?S)"
    by auto
  have now: "hloop_now_hrtime ?l = hloop_now_hrtime l" by (simp add: hloop_now_hrtime_def)
  have "htimer_reset a l = event_reset a (?l1\<lparr>lp_timers := h', lp_nodes := m'\<rparr>)"
    using a R(1) H(1) by (simp add: htimer_reset_def set_next_def now)
  also have "\<dots> = Some (l\<lparr>lp_events := (lp_events l)(a \<mapsto> ?r), lp_timers := h', lp_nodes := m',
      lp_ntimers := if ev_destroy e then lp_ntimers l + 1 else lp_ntimers l,
      lp_nactives := if ev_active e then lp_nactives l else lp_nactives l + 1\<rparr>)"
    by (cases e) (simp add: event_reset_def event_active_def put_event_def reset_event_def)
  finally have "htimer_reset a l = \<dots>" .
  moreover have "heap_models (timers_compare ((lp_events l)(a \<mapsto> ?r))) (h', m') (insert a ?S)"
    by (rule timers_recompare[OF H(2)]) (simp add: reset_event_def)
  ultimately show ?thesis by blast
qed

text \<open>A reset is safe while the timer is not on a list of pending events.\<close>

lemma htimer_reset_inv:
  assumes I: "base_inv l" and a: "lp_events l a = Some e" "\<not> ev_pending e"
  shows "\<exists>l'. htimer_reset a l = Some l' \<and> base_inv l' \<and> keeps l l'"
proof (cases "ev_type e")
  case (TimeoutEvent t)
  note D = base_invD[OF I] and ok = base_invD(8)[OF I a(1)]
  have e: "\<not> ev_destroy e" "ev_active e" "is_timer e" using ok a(2) TimeoutEvent by (auto simp: event_ok_def is_timer_def)
  have mem: "a \<in> active_set (lp_events l)" "a \<notin> idle_set (lp_events l)" "a \<in> timer_set (lp_events l)" "a \<notin> pending_set (lp_events l)"
    using a e by (auto simp: event_sets)
  let ?e = "reset_event (timeout_from (hloop_now_hrtime l) t) e"
  obtain h m where H: "htimer_reset a l = Some (l\<lparr>lp_events := (lp_events l)(a \<mapsto> ?e), lp_timers := h, lp_nodes := m\<rparr>)"
    "heap_models (timers_compare ((lp_events l)(a \<mapsto> ?e))) (h, m) (timer_set (lp_events l))"
    using htimer_reset_spec[OF D(2) a(1) TimeoutEvent] e(1,2) mem(3) by (auto simp: insert_absorb)
  let ?l = "l\<lparr>lp_events := (lp_events l)(a \<mapsto> ?e), lp_timers := h, lp_nodes := m\<rparr>"
  have "event_ok ?e" using ok by (simp add: event_ok_def)
  then have "base_inv ?l" using D mem e(3) H(2) by (auto simp: base_inv_def ran_def insert_absorb split: if_splits)
  moreover have "keeps l ?l" using mem a by (auto simp: keeps_def)
  ultimately show ?thesis using H(1) by blast
qed (use I a in \<open>simp_all add: htimer_reset_def\<close>)

section \<open>The lists of pending events\<close>

text \<open>The events from \<open>cur\<close> along \<open>pending_next\<close>, and the list of every priority.\<close>

fun chain :: "(nat \<rightharpoonup> hevent) \<Rightarrow> nat option \<Rightarrow> nat list \<Rightarrow> bool" where
  "chain E None xs \<longleftrightarrow> xs = []"
| "chain E (Some a) [] \<longleftrightarrow> False"
| "chain E (Some a) (b # bs) \<longleftrightarrow> a = b \<and> (\<exists>e. E a = Some e \<and> chain E (ev_pending_next e) bs)"

definition pend_inv :: "hloop \<Rightarrow> nat list list \<Rightarrow> bool" where
  "pend_inv l qs \<longleftrightarrow> length (lp_pendings l) = HEVENT_PRIORITY_SIZE \<and> length qs = HEVENT_PRIORITY_SIZE \<and>
     (\<forall>i < HEVENT_PRIORITY_SIZE. chain (lp_events l) (lp_pendings l ! i) (qs ! i)) \<and> distinct (concat qs) \<and>
     set (concat qs) = pending_set (lp_events l) \<and> lp_npendings l = of_nat (length (concat qs))"

definition loop_inv :: "hloop \<Rightarrow> bool" where
  "loop_inv l \<longleftrightarrow> base_inv l \<and> (\<exists>qs. pend_inv l qs)"

lemma chain_cong:
  "chain E cur xs \<Longrightarrow> (\<And>a. a \<in> set xs \<Longrightarrow> map_option ev_pending_next (E' a) = map_option ev_pending_next (E a)) \<Longrightarrow> chain E' cur xs"
proof (induction E cur xs rule: chain.induct)
  case (3 E a b bs)
  then obtain e where e: "a = b" "E a = Some e" "chain E (ev_pending_next e) bs" by auto
  then obtain e' where "E' a = Some e'" "ev_pending_next e' = ev_pending_next e" using 3(3)[of a] by auto
  then show ?case using 3(1)[OF e(3)] 3(3) e by simp
qed simp_all

lemma pend_keeps: "pend_inv l qs \<Longrightarrow> keeps l l' \<Longrightarrow> pend_inv l' qs"
proof -
  assume P: "pend_inv l qs" and K: "keeps l l'"
  have "chain (lp_events l') (lp_pendings l ! i) (qs ! i)" if i: "i < HEVENT_PRIORITY_SIZE" for i
  proof (rule chain_cong)
    show "chain (lp_events l) (lp_pendings l ! i) (qs ! i)" using P i by (simp add: pend_inv_def)
    fix a assume "a \<in> set (qs ! i)"
    then have "a \<in> set (concat qs)" using P i by (auto simp: pend_inv_def)
    then show "map_option ev_pending_next (lp_events l' a) = map_option ev_pending_next (lp_events l a)"
      using P K unfolding pend_inv_def keeps_def by blast
  qed
  then show "pend_inv l' qs" using P K by (simp add: pend_inv_def keeps_def)
qed

lemma loop_inv_keeps: "loop_inv l \<Longrightarrow> base_inv l' \<Longrightarrow> keeps l l' \<Longrightarrow> loop_inv l'"
  using pend_keeps by (auto simp: loop_inv_def)

lemma concat_cons_at:
  "i < length qs \<Longrightarrow> mset (concat (qs[i := a # qs ! i])) = add_mset a (mset (concat qs))"
proof (induction qs arbitrary: i)
  case (Cons q qs)
  then show ?case by (cases i) simp_all
qed simp

text \<open>Making an event pending pushes it on its list.\<close>

lemma event_pending_push:
  assumes P: "pend_inv l qs" and a: "lp_events l a = Some e" "\<not> ev_pending e" "- 5 \<le> ev_priority e" "ev_priority e \<le> 5"
  shows "\<exists>p l' qs'. event_pending a l = Some l' \<and> pend_inv l' qs' \<and>
    l' = l\<lparr>lp_events := (lp_events l)(a \<mapsto> e\<lparr>ev_pending := True, ev_pending_next := p\<rparr>), lp_npendings := lp_npendings l', lp_pendings := lp_pendings l'\<rparr>"
proof -
  define i where "i = nat (ev_priority e - HEVENT_LOWEST_PRIORITY)"
  have i: "i < HEVENT_PRIORITY_SIZE" "0 \<le> ev_priority e - HEVENT_LOWEST_PRIORITY"
    using a(3,4) by (auto simp: i_def HEVENT_LOWEST_PRIORITY_def HEVENT_PRIORITY_SIZE_def nat_less_iff)
  let ?p = "lp_pendings l ! i"
  let ?e = "e\<lparr>ev_pending := True, ev_pending_next := ?p\<rparr>"
  let ?l = "l\<lparr>lp_events := (lp_events l)(a \<mapsto> ?e), lp_npendings := lp_npendings l + 1, lp_pendings := (lp_pendings l)[i := Some a]\<rparr>"
  let ?qs = "qs[i := a # qs ! i]"
  have E: "event_pending a l = Some ?l"
    using a(1,2) i by (simp add: event_pending_def put_event_def Let_def flip: i_def)
  have Q: "length qs = HEVENT_PRIORITY_SIZE" "length (lp_pendings l) = HEVENT_PRIORITY_SIZE" "distinct (concat qs)"
    "set (concat qs) = pending_set (lp_events l)" "lp_npendings l = of_nat (length (concat qs))"
    and C: "\<And>j. j < HEVENT_PRIORITY_SIZE \<Longrightarrow> chain (lp_events l) (lp_pendings l ! j) (qs ! j)"
    using P by (simp_all add: pend_inv_def)
  have new: "a \<notin> set (concat qs)" using Q(4) a(1,2) by (simp add: pending_set_def)
  have M: "mset (concat ?qs) = mset (a # concat qs)" using concat_cons_at[of i qs a] i(1) Q(1) by simp
  have C': "chain ((lp_events l)(a \<mapsto> ?e)) (lp_pendings l ! j) (qs ! j)" if j: "j < HEVENT_PRIORITY_SIZE" for j
    by (rule chain_cong[OF C[OF j]]) (use new j Q(1) in auto)
  have "chain ((lp_events l)(a \<mapsto> ?e)) ((lp_pendings l)[i := Some a] ! j) (?qs ! j)" if j: "j < HEVENT_PRIORITY_SIZE" for j
    using C'[OF j] C'[OF i(1)] Q(1,2) j by (cases "j = i") simp_all
  moreover have "distinct (concat ?qs)" using M new Q(3) by (metis distinct.simps(2) mset_eq_imp_distinct_iff)
  moreover have "set (concat ?qs) = insert a (set (concat qs))" using M by (metis list.simps(15) set_mset_mset)
  moreover have "length (concat ?qs) = length (concat qs) + 1" using M by (metis Suc_eq_plus1 length_Cons size_mset)
  ultimately have "pend_inv ?l ?qs" using Q unfolding pend_inv_def by (simp del: set_concat)
  then show ?thesis using E by (intro exI[of _ ?p] exI[of _ ?l] exI[of _ ?qs]) simp
qed

section \<open>Timers that are due\<close>

definition countdown :: "32 word \<Rightarrow> 32 word" where
  "countdown r = (if r = INFINITE then r else r - 1)"

lemma count_down_eq: "lp_events l a = Some e \<Longrightarrow> count_down a l = Some (put_event a (e\<lparr>ev_repeat := countdown (ev_repeat e)\<rparr>) l)"
  by (auto simp: count_down_def countdown_def put_event_def fun_upd_idem intro!: hloop.equality)

text \<open>The timer after it was due: \<open>t\<close> is its next time, \<open>p\<close> the event that was pending before it.\<close>

definition due_event :: "64 word \<Rightarrow> hevent \<Rightarrow> hevent" where
  "due_event t e =
     e\<lparr>ev_repeat := countdown (ev_repeat e), ev_destroy := countdown (ev_repeat e) = 0,
       ev_next_timeout := if countdown (ev_repeat e) = 0 then ev_next_timeout e else t\<rparr>"

definition fired_event :: "64 word \<Rightarrow> nat option \<Rightarrow> hevent \<Rightarrow> hevent" where
  "fired_event t p e = (due_event t e)\<lparr>ev_pending := True, ev_pending_next := p\<rparr>"

lemma fired_event_simps [simp]:
  "ev_type (fired_event t p e) = ev_type e" "ev_cb (fired_event t p e) = ev_cb e" "ev_priority (fired_event t p e) = ev_priority e"
  "ev_active (fired_event t p e) = ev_active e" "ev_pending (fired_event t p e)" "ev_pending_next (fired_event t p e) = p"
  "ev_destroy (fired_event t p e) \<longleftrightarrow> countdown (ev_repeat e) = 0" "is_timer (fired_event t p e) = is_timer e"
  "ev_next_timeout (fired_event t p e) = (if countdown (ev_repeat e) = 0 then ev_next_timeout e else t)"
  "ev_repeat (fired_event t p e) = countdown (ev_repeat e)"
  by (simp_all add: fired_event_def due_event_def is_timer_def)

lemma due_event_simps [simp]:
  "ev_type (due_event t e) = ev_type e" "ev_priority (due_event t e) = ev_priority e" "ev_active (due_event t e) = ev_active e"
  "ev_pending (due_event t e) = ev_pending e" "ev_pending_next (due_event t e) = ev_pending_next e"
  "ev_destroy (due_event t e) \<longleftrightarrow> countdown (ev_repeat e) = 0" "is_timer (due_event t e) = is_timer e"
  "ev_next_timeout (due_event t e) = (if countdown (ev_repeat e) = 0 then ev_next_timeout e else t)"
  by (simp_all add: due_event_def is_timer_def)

lemma timer_due_spec:
  assumes M: "heap_models (timers_compare (lp_events l)) (lp_timers l, lp_nodes l) (timer_set (lp_events l))"
    and r: "hp_root (lp_timers l) = Some a" and a: "lp_events l a = Some e" "is_timer e" "\<not> ev_destroy e"
    and t: "next_time ck now (e\<lparr>ev_repeat := countdown (ev_repeat e)\<rparr>) = Some t"
  shows "\<exists>h m. timer_due ck now a l = Some (l\<lparr>lp_events := (lp_events l)(a \<mapsto> due_event t e), lp_timers := h, lp_nodes := m,
        lp_ntimers := if countdown (ev_repeat e) = 0 then lp_ntimers l - 1 else lp_ntimers l\<rparr>) \<and>
      heap_models (timers_compare ((lp_events l)(a \<mapsto> due_event t e))) (h, m)
        (if countdown (ev_repeat e) = 0 then timer_set (lp_events l) - {a} else timer_set (lp_events l))"
proof -
  let ?S = "timer_set (lp_events l)" and ?e = "e\<lparr>ev_repeat := countdown (ev_repeat e)\<rparr>"
  let ?l = "put_event a ?e l"
  have S: "a \<in> ?S" using a by (simp add: timer_set_def)
  have M1: "heap_models (timers_compare (lp_events ?l)) (lp_timers ?l, lp_nodes ?l) ?S"
    using timers_recompare[OF M, of "(lp_events l)(a \<mapsto> ?e)"] a(1) by (simp add: timer_key_def)
  show ?thesis
  proof (cases "countdown (ev_repeat e) = 0")
    case True
    have "\<not> ev_destroy ?e" using a(3) by simp
    from htimer_unlink_spec[OF M1 S _ this] obtain h m where
      U: "htimer_unlink a ?l = Some (?l\<lparr>lp_events := (lp_events ?l)(a \<mapsto> ?e\<lparr>ev_destroy := True\<rparr>), lp_timers := h, lp_nodes := m,
        lp_ntimers := lp_ntimers ?l - 1\<rparr>)" "heap_models (timers_compare (lp_events ?l)) (h, m) (?S - {a})"
      by auto
    have due: "due_event t e = ?e\<lparr>ev_destroy := True\<rparr>" using True by (simp add: due_event_def)
    have "timer_due ck now a l = htimer_unlink a ?l" using True by (simp add: timer_due_def count_down_eq[OF a(1)])
    moreover have "heap_models (timers_compare ((lp_events l)(a \<mapsto> ?e\<lparr>ev_destroy := True\<rparr>))) (h, m) (?S - {a})"
      by (rule timers_recompare[OF U(2)]) simp
    ultimately show ?thesis using U(1) True
      by (intro exI[of _ h] exI[of _ m]) (simp add: put_event_def due)
  next
    case False
    have r1: "hp_root (lp_timers ?l) = Some a" using r by simp
    obtain h m where R: "timers_dequeue ?l = Some (?l\<lparr>lp_timers := h, lp_nodes := m\<rparr>)"
      "heap_models (timers_compare (lp_events ?l)) (h, m) (?S - {a})"
      using timers_remove_spec[OF M1 S] unfolding timers_dequeue_eq[OF M1 r1] by blast
    let ?e' = "?e\<lparr>ev_next_timeout := t\<rparr>"
    let ?l2 = "put_event a ?e' (l\<lparr>lp_timers := h, lp_nodes := m\<rparr>)"
    have "heap_models (timers_compare (lp_events ?l)) (lp_timers ?l2, lp_nodes ?l2) (?S - {a})" using R(2) by simp
    from timers_insert_spec[OF this, of a] obtain h' m' where
      H: "timers_insert a ?l2 = Some (?l2\<lparr>lp_timers := h', lp_nodes := m'\<rparr>)"
        "heap_models (timers_compare ((lp_events l)(a \<mapsto> ?e'))) (h', m') ?S"
      using S by (auto simp: insert_absorb)
    have "timer_due ck now a l = timers_insert a ?l2"
      using False R(1) t by (simp add: timer_due_def count_down_eq[OF a(1)] set_next_def) (simp add: put_event_def)
    moreover have "due_event t e = ?e'" by (rule hevent.equality) (use False a(3) in \<open>simp_all add: due_event_def\<close>)
    ultimately show ?thesis using H False
      by (intro exI[of _ h'] exI[of _ m']) (simp add: put_event_def)
  qed
qed

lemma push_due:
  assumes P: "pend_inv l qs" and a: "lp_events l a = Some (due_event t e)" and ok: "event_ok e"
  shows "\<exists>p l' qs'. event_pending a l = Some l' \<and> pend_inv l' qs' \<and>
    l' = l\<lparr>lp_events := (lp_events l)(a \<mapsto> fired_event t p e), lp_npendings := lp_npendings l', lp_pendings := lp_pendings l'\<rparr>"
proof (cases "ev_pending e")
  case True
  have f: "fired_event t (ev_pending_next e) e = due_event t e"
    by (rule hevent.equality) (simp_all add: fired_event_def True)
  have "event_pending a l = Some l" using a True by (simp add: event_pending_def)
  moreover have "l = l\<lparr>lp_events := (lp_events l)(a \<mapsto> fired_event t (ev_pending_next e) e), lp_npendings := lp_npendings l, lp_pendings := lp_pendings l\<rparr>"
    using a f by (simp add: fun_upd_idem)
  ultimately show ?thesis using P by blast
next
  case False
  have "\<not> ev_pending (due_event t e)" "- 5 \<le> ev_priority (due_event t e)" "ev_priority (due_event t e) \<le> 5"
    using False ok by (simp_all add: event_ok_def)
  from event_pending_push[OF P a this] show ?thesis unfolding fired_event_def by blast
qed

lemma timer_fire:
  assumes I: "base_inv l" and P: "pend_inv l qs" and r: "hp_root (lp_timers l) = Some a" and a: "lp_events l a = Some e"
    and t: "next_time ck now (e\<lparr>ev_repeat := countdown (ev_repeat e)\<rparr>) = Some t"
  shows "\<exists>l' qs' p. Option.bind (timer_due ck now a l) (event_pending a) = Some l' \<and> base_inv l' \<and> pend_inv l' qs' \<and>
    lp_events l' = (lp_events l)(a \<mapsto> fired_event t p e)"
proof -
  note D = base_invD[OF I] and F = finite_sets[OF base_invD(1)[OF I]]
  note ok = D(8)[OF a]
  have mem: "a \<in> timer_set (lp_events l)" using timers_root(2)[OF D(2) r] by simp
  then have e: "is_timer e" "\<not> ev_destroy e" "ev_active e" using a ok by (auto simp: timer_set_def event_ok_def)
  have mem': "a \<notin> idle_set (lp_events l)" "a \<in> active_set (lp_events l)" using a e by (auto simp: event_sets)
  let ?z = "countdown (ev_repeat e) = 0"
  obtain h m where T: "timer_due ck now a l = Some (l\<lparr>lp_events := (lp_events l)(a \<mapsto> due_event t e), lp_timers := h, lp_nodes := m,
        lp_ntimers := if ?z then lp_ntimers l - 1 else lp_ntimers l\<rparr>)" (is "_ = Some ?l1")
    and M: "heap_models (timers_compare ((lp_events l)(a \<mapsto> due_event t e))) (h, m) (if ?z then timer_set (lp_events l) - {a} else timer_set (lp_events l))"
    using timer_due_spec[OF D(2) r a e(1,2) t] by blast
  have "keeps l ?l1" using a by (auto simp: keeps_def event_sets)
  then have P1: "pend_inv ?l1 qs" by (rule pend_keeps[OF P])
  have "lp_events ?l1 a = Some (due_event t e)" by simp
  from push_due[OF P1 this ok]
  obtain p l' qs' where L: "event_pending a ?l1 = Some l'" "pend_inv l' qs'"
    "l' = ?l1\<lparr>lp_events := (lp_events l)(a \<mapsto> fired_event t p e), lp_npendings := lp_npendings l', lp_pendings := lp_pendings l'\<rparr>"
    by auto
  have "heap_models (timers_compare ((lp_events l)(a \<mapsto> fired_event t p e))) (h, m)
      (if ?z then timer_set (lp_events l) - {a} else timer_set (lp_events l))"
    by (rule timers_recompare[OF M]) simp
  moreover have "event_ok (fired_event t p e)" using ok e by (auto simp: event_ok_def)
  ultimately have "base_inv l'"
    using D F mem mem' e
    by (subst L(3)) (auto simp: base_inv_def ran_def insert_absorb count_less[OF F(1), of a] split: if_splits)
  moreover have "lp_events l' = (lp_events l)(a \<mapsto> fired_event t p e)" by (subst L(3)) simp
  ultimately show ?thesis using T L(1,2) by auto
qed

text \<open>The next time is the first after now on the grid of the timeout, while the 64 bits do not wrap around.\<close>

lemma advance_spec:
  assumes "0 < step" "unat now + unat step < 2 ^ 64"
  shows "\<exists>k. advance now step t = Some (t + of_nat k * step) \<and> now < t + of_nat k * step \<and>
    (now < t \<or> 0 < k \<and> unat (t + of_nat k * step) \<le> unat now + unat step)"
proof (induction "unat now - unat t" arbitrary: t rule: less_induct)
  case less
  show ?case
  proof (cases "t \<le> now")
    case True
    then have le: "unat t \<le> unat now" by (simp add: word_le_nat_alt)
    have s: "0 < unat step" using assms(1) by (simp add: word_less_nat_alt)
    have "unat t + unat step < 2 ^ LENGTH(64)" using le assms(2) by simp
    then have u: "unat (t + step) = unat t + unat step" by (rule unat_add_lem[THEN iffD1])
    show ?thesis
    proof (cases "t + step \<le> now")
      case True
      then have "unat now - unat (t + step) < unat now - unat t" using u s by (simp add: word_le_nat_alt)
      from less[OF this] True obtain k where k: "advance now step (t + step) = Some (t + step + of_nat k * step)"
        "now < t + step + of_nat k * step" "unat (t + step + of_nat k * step) \<le> unat now + unat step"
        by (auto simp: not_less)
      have "t + step + of_nat k * step = t + of_nat (Suc k) * step" by (simp add: algebra_simps)
      moreover have "advance now step t = advance now step (t + step)" using \<open>t \<le> now\<close> by (simp add: advance.simps[of now step t])
      ultimately show ?thesis using k by (intro exI[of _ "Suc k"]) (simp only: zero_less_Suc, simp)
    next
      case False
      then have "advance now step (t + step) = Some (t + step)" by (simp add: advance.simps[of now step "t + step"])
      then have "advance now step t = Some (t + step)" using \<open>t \<le> now\<close> by (simp add: advance.simps[of now step t])
      then show ?thesis using False u le by (intro exI[of _ 1]) (simp add: not_le)
    qed
  next
    case False
    then have "advance now step t = Some t" by (subst advance.simps) (simp only: if_False)
    then show ?thesis using False by (intro exI[of _ 0]) (simp add: not_le)
  qed
qed

definition timers_due :: "64 word \<Rightarrow> (nat \<rightharpoonup> hevent) \<Rightarrow> nat set" where
  "timers_due now E = {a \<in> timer_set E. timer_key E a \<le> now}"

text \<open>
  What is assumed of the clocks: the clock of the loop is not in a later second than the system clock, which is
  in the range of the calendar (\<open>timers_ahead_spin\<close> below shows what happens otherwise).
\<close>

definition timers_clock_ok :: "clock \<Rightarrow> 64 word \<Rightarrow> bool" where
  "timers_clock_ok ck now \<longleftrightarrow> 0 \<le> ck_time ck \<and> ck_time ck < 2 ^ 40 \<and> 0 \<le> ck_time ck + ck_tz ck \<and>
     uint now < (ck_time ck + 1) * 1000000"

lemma clock_room: "timers_clock_ok ck now \<Longrightarrow> unat now + 2 ^ 42 < 2 ^ 64"
proof -
  assume C: "timers_clock_ok ck now"
  then have "uint now < 2 ^ 40 * 1000000" by (simp add: timers_clock_ok_def)
  then have "nat (uint now) < nat (2 ^ 40 * 1000000)" by (simp add: zless_nat_eq_int_zless del: unat_eq_nat_uint nat_uint_eq)
  then have "unat now < 1099511627776000000" by simp
  then show ?thesis by simp
qed

text \<open>The next time of a periodic timer is later than now; one without any field is as good as never.\<close>

lemma period_next_later:
  assumes C: "timers_clock_ok ck now" and f: "type_ok (PeriodEvent minute hour day week month)"
  shows "now < period_next ck minute hour day week month"
proof -
  let ?r = "cron_next_timeout (ck_tz ck) (ck_time ck) minute hour day week month"
  have C': "0 \<le> ck_time ck" "ck_time ck < 2 ^ 40" "0 \<le> ck_time ck + ck_tz ck" "uint now < (ck_time ck + 1) * 1000000"
    using C by (simp_all add: timers_clock_ok_def)
  have "minute \<le> 59" "hour \<le> 23" "day \<le> 31" "week \<le> 6" "month \<le> 12" using f by simp_all
  from cron_next_later[OF C'(3) this] consider (none) "?r = - 1" | (time) "ck_time ck < ?r" "?r \<le> ck_time ck + 2 ^ 26" by blast
  then show ?thesis
  proof cases
    case none
    have "uint (- 1000000 :: 64 word) = 2 ^ 64 - 1000000" by simp
    then show ?thesis using C' by (simp add: period_next_def none word_less_alt)
  next
    case time
    define x where "x = ?r * 1000000"
    have x: "0 \<le> x" "x < 2 ^ 64" "uint now < x" using time C' by (simp_all add: x_def)
    have "period_next ck minute hour day week month = of_int x" by (simp add: period_next_def x_def)
    moreover have "uint (of_int x :: 64 word) = x" using x by (simp add: uint_word_of_int)
    ultimately show ?thesis using x(3) by (simp add: word_less_alt)
  qed
qed

lemma timeout_step:
  fixes timeout :: "32 word"
  assumes "timeout \<noteq> 0"
  shows "unat (ucast timeout * 1000 :: 64 word) = unat timeout * 1000" "0 < (ucast timeout * 1000 :: 64 word)" "unat timeout * 1000 < 2 ^ 42"
proof -
  have b: "unat timeout < 2 ^ 32" using unsigned_less[of timeout] by simp
  then show "unat timeout * 1000 < 2 ^ 42" by simp
  have "unat (ucast timeout :: 64 word) = unat timeout" using b by (simp add: unsigned_ucast_eq take_bit_nat_eq_self)
  moreover have "unat (ucast timeout :: 64 word) * unat (1000 :: 64 word) < 2 ^ LENGTH(64)" using b calculation by simp
  ultimately show u: "unat (ucast timeout * 1000 :: 64 word) = unat timeout * 1000" using unat_mult_lem[THEN iffD1] by fastforce
  show "0 < (ucast timeout * 1000 :: 64 word)" using u assms by (simp add: word_less_nat_alt unat_gt_0)
qed

lemma next_time_some:
  assumes "unat now + 2 ^ 42 < 2 ^ 64" "event_ok e" "is_timer e"
  obtains t where "next_time ck now (e\<lparr>ev_repeat := r\<rparr>) = Some t" "\<And>timeout. ev_type e = TimeoutEvent timeout \<Longrightarrow> now < t"
proof (cases "ev_type e")
  case (TimeoutEvent timeout)
  then have "timeout \<noteq> 0" using assms(2) by (auto simp: event_ok_def)
  note T = timeout_step[OF this]
  have "unat now + unat (ucast timeout * 1000 :: 64 word) < 2 ^ 64" using T assms(1) by simp
  from advance_spec[OF T(2) this] show ?thesis using TimeoutEvent that by (auto simp: next_time_def)
next
  case (PeriodEvent m h d w mo)
  then show ?thesis using that by (auto simp: next_time_def)
qed (use assms(3) in \<open>simp add: is_timer_def\<close>)

lemma next_time_later:
  assumes "timers_clock_ok ck now" "event_ok e" "is_timer e"
  shows "\<exists>t. next_time ck now (e\<lparr>ev_repeat := r\<rparr>) = Some t \<and> now < t"
proof -
  obtain t where t: "next_time ck now (e\<lparr>ev_repeat := r\<rparr>) = Some t" "\<And>timeout. ev_type e = TimeoutEvent timeout \<Longrightarrow> now < t"
    by (rule next_time_some[OF clock_room[OF assms(1)] assms(2,3)]) blast
  have "now < t"
  proof (cases "ev_type e")
    case (PeriodEvent m h d w mo)
    then show ?thesis using period_next_later[OF assms(1)] assms(2) t(1) by (auto simp: next_time_def event_ok_def)
  qed (use assms(3) t(2) in \<open>simp_all add: is_timer_def\<close>)
  then show ?thesis using t(1) by blast
qed

lemma timers_loop_spec:
  assumes "base_inv l" "pend_inv l qs" "timers_clock_ok ck now"
  shows "\<exists>l' qs'. timers_loop ck now n l = Some (n + card (timers_due now (lp_events l)), l') \<and> base_inv l' \<and> pend_inv l' qs' \<and>
    (\<forall>a. a \<notin> timers_due now (lp_events l) \<longrightarrow> lp_events l' a = lp_events l a) \<and>
    (\<forall>a \<in> timers_due now (lp_events l). \<exists>e t p. lp_events l a = Some e \<and> now < t \<and>
       next_time ck now (e\<lparr>ev_repeat := countdown (ev_repeat e)\<rparr>) = Some t \<and> lp_events l' a = Some (fired_event t p e))"
  using assms
proof (induction "card (timers_due now (lp_events l))" arbitrary: l qs n rule: less_induct)
  case less
  let ?E = "lp_events l" and ?D = "timers_due now (lp_events l)"
  note D = base_invD[OF less.prems(1)] and F = finite_sets[OF base_invD(1)[OF less.prems(1)]]
  have fin: "finite ?D" using F(1) by (simp add: timers_due_def)
  show ?case
  proof (cases "hp_root (lp_timers l)")
    case None
    then have "?D = {}" using timers_root(1)[OF D(2)] by (simp add: timers_due_def)
    then show ?thesis using None less.prems(1,2) by (simp add: timers_loop.simps) blast
  next
    case (Some a)
    have r: "a \<in> timer_set ?E" "\<And>b. b \<in> timer_set ?E \<Longrightarrow> timer_key ?E a \<le> timer_key ?E b" using timers_root(2)[OF D(2) Some] by blast+
    then obtain e where e: "?E a = Some e" "is_timer e" "\<not> ev_destroy e" by (auto simp: timer_set_def)
    show ?thesis
    proof (cases "ev_next_timeout e \<le> now")
      case False
      have "?D = {}" using r(2) False e(1) by (fastforce simp: timers_due_def timer_key_def)
      then show ?thesis using Some False e(1) less.prems(1,2) by (simp add: timers_loop.simps not_le) blast
    next
      case True
      have aD: "a \<in> ?D" using True r(1) e(1) by (simp add: timers_due_def timer_key_def)
      obtain t where t: "next_time ck now (e\<lparr>ev_repeat := countdown (ev_repeat e)\<rparr>) = Some t" "now < t"
        using next_time_later[OF less.prems(3) D(8)[OF e(1)] e(2)] by blast
      obtain l1 qs1 p where L: "Option.bind (timer_due ck now a l) (event_pending a) = Some l1" "base_inv l1" "pend_inv l1 qs1"
        "lp_events l1 = ?E(a \<mapsto> fired_event t p e)"
        using timer_fire[OF less.prems(1,2) Some e(1) t(1)] by blast
      have due: "timers_due now (lp_events l1) = ?D - {a}"
        using t(2) e by (auto simp: L(4) timers_due_def timer_key_def)
      have "card (?D - {a}) < card ?D" using card_Diff1_less[OF fin aD] .
      then obtain l' qs' where R: "timers_loop ck now (n + 1) l1 = Some (n + 1 + card (?D - {a}), l')" "base_inv l'" "pend_inv l' qs'"
        "\<forall>b. b \<notin> ?D - {a} \<longrightarrow> lp_events l' b = lp_events l1 b"
        "\<forall>b \<in> ?D - {a}. \<exists>e t p. lp_events l1 b = Some e \<and> now < t \<and> next_time ck now (e\<lparr>ev_repeat := countdown (ev_repeat e)\<rparr>) = Some t \<and>
          lp_events l' b = Some (fired_event t p e)"
        using less.hyps[of l1 qs1 "n + 1"] L(2,3) less.prems(3) unfolding due by blast
      have "\<not> now < ev_next_timeout e" using True by (simp add: not_less)
      then have "timers_loop ck now n l = timers_loop ck now (n + 1) l1"
        using Some e(1) L(1) by (simp add: timers_loop.simps[of ck now n l] Option.bind_assoc[symmetric])
      moreover have "n + 1 + card (?D - {a}) = n + card ?D" using card.remove[OF fin aD] by simp
      moreover have "\<forall>b. b \<notin> ?D \<longrightarrow> lp_events l' b = ?E b" using R(4) aD by (auto simp: L(4))
      moreover have "\<exists>e t p. ?E b = Some e \<and> now < t \<and> next_time ck now (e\<lparr>ev_repeat := countdown (ev_repeat e)\<rparr>) = Some t \<and>
          lp_events l' b = Some (fired_event t p e)" if b: "b \<in> ?D" for b
      proof (cases "b = a")
        case True
        then have "lp_events l' b = Some (fired_event t p e)" using R(4) by (simp add: L(4))
        then show ?thesis using True e(1) t by blast
      next
        case False
        then show ?thesis using R(5) b by (simp add: L(4))
      qed
      ultimately show ?thesis using R(1-3) by metis
    qed
  qed
qed

text \<open>The idle events, one after the other; the event keeps its fields of a timer.\<close>

lemma idle_fire:
  assumes I: "base_inv l" and P: "pend_inv l qs" and a: "lp_events l a = Some e" "\<not> is_timer e" "\<not> ev_destroy e"
  shows "\<exists>l' qs' p. Option.bind (count_down a l) (\<lambda>l. Option.bind (lp_events l a) (\<lambda>e.
       Option.bind (if ev_repeat e = 0 then hidle_unlink a l else Some l) (event_pending a))) = Some l' \<and> base_inv l' \<and> pend_inv l' qs' \<and>
    lp_events l' = (lp_events l)(a \<mapsto> fired_event (ev_next_timeout e) p e)"
proof -
  note D = base_invD[OF I] and F = finite_sets[OF base_invD(1)[OF I]]
  note ok = D(8)[OF a(1)]
  have act: "ev_active e" using ok a(3) by (auto simp: event_ok_def)
  have mem: "a \<in> idle_set (lp_events l)" "a \<notin> timer_set (lp_events l)" "a \<in> active_set (lp_events l)" using a act by (auto simp: event_sets)
  let ?z = "countdown (ev_repeat e) = 0" and ?d = "due_event (ev_next_timeout e) e"
  let ?l1 = "if ?z then l\<lparr>lp_events := (lp_events l)(a \<mapsto> ?d), lp_idles := remove1 a (lp_idles l), lp_nidles := lp_nidles l - 1\<rparr>
    else l\<lparr>lp_events := (lp_events l)(a \<mapsto> ?d)\<rparr>"
  have d: "?z \<Longrightarrow> ?d = e\<lparr>ev_repeat := countdown (ev_repeat e), ev_destroy := True\<rparr>" "\<not> ?z \<Longrightarrow> ?d = e\<lparr>ev_repeat := countdown (ev_repeat e)\<rparr>"
    using a(3) by (auto simp: due_event_def intro!: hevent.equality)
  have E: "Option.bind (count_down a l) (\<lambda>l. Option.bind (lp_events l a) (\<lambda>e.
      Option.bind (if ev_repeat e = 0 then hidle_unlink a l else Some l) (event_pending a))) = event_pending a ?l1"
    using a(3) d by (cases ?z) (simp_all add: count_down_eq[OF a(1)] hidle_unlink_def put_event_def)
  have ev: "lp_events ?l1 = (lp_events l)(a \<mapsto> ?d)" by simp
  have "keeps l ?l1" using a(1) by (auto simp: keeps_def event_sets)
  then have P1: "pend_inv ?l1 qs" by (rule pend_keeps[OF P])
  have "lp_events ?l1 a = Some ?d" by simp
  from push_due[OF P1 this ok]
  obtain p l' qs' where L: "event_pending a ?l1 = Some l'" "pend_inv l' qs'"
    "l' = ?l1\<lparr>lp_events := (lp_events l)(a \<mapsto> fired_event (ev_next_timeout e) p e), lp_npendings := lp_npendings l', lp_pendings := lp_pendings l'\<rparr>"
    unfolding ev fun_upd_upd by blast
  let ?E = "(lp_events l)(a \<mapsto> fired_event (ev_next_timeout e) p e)"
  have M: "heap_models (timers_compare ?E) (lp_timers l, lp_nodes l) (timer_set (lp_events l))"
    by (rule timers_recompare[OF D(2)]) (use mem(2) in auto)
  have ok': "event_ok (fired_event (ev_next_timeout e) p e)" using ok act by (auto simp: event_ok_def)
  have len: "of_nat (length (lp_idles l) - Suc 0) = (of_nat (length (lp_idles l)) - 1 :: 32 word)"
    using count_less[OF finite_set, of a "lp_idles l"] mem(1) D(5) distinct_card[OF D(4)] by simp
  have "base_inv l'"
  proof (cases ?z)
    case True
    then show ?thesis using D F mem a act M ok' len
      by (subst L(3)) (auto simp: base_inv_def ran_def insert_absorb length_remove1 split: if_splits)
  next
    case False
    then show ?thesis using D F mem a act M ok'
      by (subst L(3)) (auto simp: base_inv_def ran_def insert_absorb split: if_splits)
  qed
  moreover have "lp_events l' = ?E" by (subst L(3)) simp
  ultimately show ?thesis using E L(1,2) by auto
qed

lemma idles_loop_spec:
  assumes "base_inv l" "pend_inv l qs" "distinct as" "set as \<subseteq> idle_set (lp_events l)"
  shows "\<exists>l' qs'. idles_loop as n l = Some (n + length as, l') \<and> base_inv l' \<and> pend_inv l' qs' \<and>
    (\<forall>a. a \<notin> set as \<longrightarrow> lp_events l' a = lp_events l a) \<and>
    (\<forall>a \<in> set as. \<exists>e p. lp_events l a = Some e \<and> lp_events l' a = Some (fired_event (ev_next_timeout e) p e))"
  using assms
proof (induction as arbitrary: l qs n)
  case (Cons a as)
  obtain e where e: "lp_events l a = Some e" "\<not> is_timer e" "\<not> ev_destroy e" using Cons.prems(4) by (auto simp: idle_set_def)
  obtain l1 qs1 p where L: "Option.bind (count_down a l) (\<lambda>l. Option.bind (lp_events l a) (\<lambda>e.
       Option.bind (if ev_repeat e = 0 then hidle_unlink a l else Some l) (event_pending a))) = Some l1" "base_inv l1" "pend_inv l1 qs1"
    "lp_events l1 = (lp_events l)(a \<mapsto> fired_event (ev_next_timeout e) p e)"
    using idle_fire[OF Cons.prems(1,2) e] by blast
  have "idles_loop (a # as) n l = Option.bind (Some l1) (idles_loop as (n + 1))"
    unfolding L(1)[symmetric] by (simp add: Option.bind_assoc)
  moreover have "set as \<subseteq> idle_set (lp_events l1)" using Cons.prems(3,4) by (auto simp: L(4))
  then obtain l' qs' where R: "idles_loop as (n + 1) l1 = Some (n + 1 + length as, l')" "base_inv l'" "pend_inv l' qs'"
    "\<forall>b. b \<notin> set as \<longrightarrow> lp_events l' b = lp_events l1 b"
    "\<forall>b \<in> set as. \<exists>e p. lp_events l1 b = Some e \<and> lp_events l' b = Some (fired_event (ev_next_timeout e) p e)"
    using Cons.IH[OF L(2,3), of "n + 1"] Cons.prems(3) by auto
  ultimately have "idles_loop (a # as) n l = Some (n + length (a # as), l')" by simp
  moreover have "\<forall>b. b \<notin> set (a # as) \<longrightarrow> lp_events l' b = lp_events l b" using R(4) by (simp add: L(4))
  moreover have "\<exists>e p. lp_events l b = Some e \<and> lp_events l' b = Some (fired_event (ev_next_timeout e) p e)" if b: "b \<in> set (a # as)" for b
  proof (cases "b = a")
    case True
    then have "lp_events l' b = Some (fired_event (ev_next_timeout e) p e)" using R(4) Cons.prems(3) by (simp add: L(4))
    then show ?thesis using True e(1) by blast
  next
    case False
    then have "b \<in> set as" using b by simp
    then obtain e' p' where "lp_events l1 b = Some e'" "lp_events l' b = Some (fired_event (ev_next_timeout e') p' e')" using R(5) by blast
    then show ?thesis using False by (auto simp: L(4))
  qed
  ultimately show ?case using R(2,3) by blast
qed auto

section \<open>Running the pending events\<close>

text \<open>
  What the loop asks of the callbacks of the events in \<open>W\<close>: they return, keep the invariant, and leave the
  lists of pending events to the loop, and the events in \<open>A\<close> alone.
\<close>

locale loop_callbacks =
  fixes call :: "nat \<Rightarrow> nat \<Rightarrow> hloop \<Rightarrow> hloop option" and W :: "nat set" and A :: "nat set"
  assumes call_ok: "a \<in> W \<Longrightarrow> base_inv l \<Longrightarrow>
    \<exists>l'. call cb a l = Some l' \<and> base_inv l' \<and> keeps l l' \<and> (\<forall>b \<in> A. lp_events l' b = lp_events l b)"

text \<open>The rest of the work: the chain \<open>xs\<close> from \<open>cur\<close>, and the lists below \<open>i\<close>.\<close>

definition rest_inv :: "nat list \<Rightarrow> nat list list \<Rightarrow> nat \<Rightarrow> hloop \<Rightarrow> bool" where
  "rest_inv xs qs i l \<longleftrightarrow> base_inv l \<and> length (lp_pendings l) = HEVENT_PRIORITY_SIZE \<and> length qs = HEVENT_PRIORITY_SIZE \<and>
     (\<forall>j < i. chain (lp_events l) (lp_pendings l ! j) (qs ! j)) \<and> distinct (xs @ concat (take i qs)) \<and>
     pending_set (lp_events l) = set (xs @ concat (take i qs))"

lemma chain_keeps:
  "chain (lp_events l) cur xs \<Longrightarrow> keeps l l' \<Longrightarrow> set xs \<subseteq> pending_set (lp_events l) \<Longrightarrow> chain (lp_events l') cur xs"
  by (erule chain_cong) (auto simp: keeps_def)

lemma take_nth_sub: "j < i \<Longrightarrow> i \<le> length qs \<Longrightarrow> set (qs ! j) \<subseteq> set (concat (take i qs))"
  by (auto simp: in_set_conv_nth intro!: exI[of _ j] bexI[of _ "qs ! j"])

text \<open>Clearing the flag of an event, and freeing it when it is marked.\<close>

definition settle :: "nat \<Rightarrow> hevent \<Rightarrow> hloop \<Rightarrow> hloop" where
  "settle a e l = (if ev_destroy e
     then l\<lparr>lp_events := (lp_events l)(a := None), lp_nactives := if ev_active e then lp_nactives l - 1 else lp_nactives l\<rparr>
     else l\<lparr>lp_events := (lp_events l)(a \<mapsto> e\<lparr>ev_pending := False\<rparr>)\<rparr>)"

lemma settle_eq:
  assumes "lp_events l a = Some e"
  shows "(let l' = put_event a (e\<lparr>ev_pending := False\<rparr>) l
     in if ev_destroy e then map_option (\<lambda>l. (n, l)) (event_del a l') else Some (n, l')) = Some (n, settle a e l)"
  by (simp add: settle_def event_del_eq put_event_def)

lemma settle_inv:
  assumes I: "base_inv l" and a: "lp_events l a = Some e"
  shows "base_inv (settle a e l)" "pending_set (lp_events (settle a e l)) = pending_set (lp_events l) - {a}"
    "lp_pendings (settle a e l) = lp_pendings l" "\<And>b. b \<noteq> a \<Longrightarrow> lp_events (settle a e l) b = lp_events l b"
proof -
  note D = base_invD[OF I] and F = finite_sets[OF base_invD(1)[OF I]] and ok = base_invD(8)[OF I a]
  let ?E = "lp_events (settle a e l)"
  have mem: "a \<in> active_set (lp_events l) \<longleftrightarrow> ev_active e" "a \<in> timer_set (lp_events l) \<longleftrightarrow> is_timer e \<and> \<not> ev_destroy e"
    "a \<in> idle_set (lp_events l) \<longleftrightarrow> \<not> is_timer e \<and> \<not> ev_destroy e"
    using a by (auto simp: event_sets)
  have t: "is_timer (e\<lparr>ev_pending := False\<rparr>) = is_timer e" by (simp add: is_timer_def)
  have M: "heap_models (timers_compare ?E) (lp_timers l, lp_nodes l) (timer_set (lp_events l))"
    by (rule timers_recompare[OF D(2)]) (use a mem(2) in \<open>auto simp: settle_def timer_key_def\<close>)
  show "base_inv (settle a e l)"
  proof (cases "ev_destroy e")
    case True
    then show ?thesis using D F mem a M
      by (auto simp: settle_def base_inv_def ran_def count_less[OF F(3), of a] split: if_splits)
  next
    case False
    then have "ev_active e" using ok by (auto simp: event_ok_def)
    then have "event_ok (e\<lparr>ev_pending := False\<rparr>)" using ok False by (auto simp: event_ok_def)
    then show ?thesis using False D F mem a M \<open>ev_active e\<close> t
      by (auto simp: settle_def base_inv_def ran_def insert_absorb split: if_splits)
  qed
  show "pending_set ?E = pending_set (lp_events l) - {a}" by (simp add: settle_def)
  show "lp_pendings (settle a e l) = lp_pendings l" "\<And>b. b \<noteq> a \<Longrightarrow> ?E b = lp_events l b" by (simp_all add: settle_def)
qed

lemma of_nat_small_0: "n < 2 ^ 32 \<Longrightarrow> (of_nat n :: 32 word) = 0 \<longleftrightarrow> n = 0"
  by (auto simp: word_of_nat_eq_0_iff dest: dvd_imp_le)

lemma rest_inv_split:
  assumes "rest_inv [] qs (Suc i) l" "Suc i \<le> HEVENT_PRIORITY_SIZE"
  shows "rest_inv (qs ! i) qs i l" "chain (lp_events l) (lp_pendings l ! i) (qs ! i)"
    "set (concat (take (Suc i) qs)) = set (qs ! i) \<union> set (concat (take i qs))"
proof -
  have "i < length qs" using assms by (simp add: rest_inv_def)
  then have t: "take (Suc i) qs = take i qs @ [qs ! i]" by (rule take_Suc_conv_app_nth)
  show "chain (lp_events l) (lp_pendings l ! i) (qs ! i)" using assms(1) by (simp add: rest_inv_def)
  show "set (concat (take (Suc i) qs)) = set (qs ! i) \<union> set (concat (take i qs))" by (auto simp: t)
  show "rest_inv (qs ! i) qs i l" using assms(1) by (auto simp: rest_inv_def t)
qed

text \<open>An event whose turn cannot be taken, whatever the loop is then.\<close>

definition turn_fails :: "(nat \<Rightarrow> nat \<Rightarrow> hloop \<Rightarrow> hloop option) \<Rightarrow> nat \<Rightarrow> hevent \<Rightarrow> bool" where
  "turn_fails call a e \<longleftrightarrow> (\<forall>l n. base_inv l \<longrightarrow> lp_events l a = Some e \<longrightarrow> run_pending call a e n l = None)"

lemma rest_inv_all: "pend_inv l qs \<Longrightarrow> base_inv l \<Longrightarrow> rest_inv [] qs HEVENT_PRIORITY_SIZE l"
  by (simp add: rest_inv_def pend_inv_def)

lemma pending_count:
  assumes "pend_inv l qs" "card (pending_set (lp_events l)) < 2 ^ 32"
  shows "lp_npendings l = 0 \<longleftrightarrow> pending_set (lp_events l) = {}"
proof -
  have "length (concat qs) = card (pending_set (lp_events l))" using assms(1) distinct_card[of "concat qs"] by (simp add: pend_inv_def del: set_concat)
  then have "length (concat qs) < 2 ^ 32" using assms(2) by simp
  moreover have "lp_npendings l = of_nat (length (concat qs))" using assms(1) by (simp add: pend_inv_def)
  ultimately have "lp_npendings l = 0 \<longleftrightarrow> concat qs = []" using of_nat_small_0 length_0_conv by metis
  moreover have "set (concat qs) = pending_set (lp_events l)" using assms(1) by (simp add: pend_inv_def del: set_concat)
  ultimately show ?thesis by (metis set_empty)
qed

context loop_callbacks begin

lemma run_pending_ok:
  assumes "base_inv l" "lp_events l a = Some e" "ev_pending e" "a \<in> W"
  shows "\<exists>n' l1 e1. run_pending call a e n l = Some (n', settle a e1 l1) \<and> base_inv l1 \<and> keeps l l1 \<and> lp_events l1 a = Some e1 \<and>
    (\<forall>b \<in> A. lp_events l1 b = lp_events l b)"
proof -
  have "\<exists>n' l1. (case ev_cb e of Some cb \<Rightarrow> if ev_active e then map_option (\<lambda>l. (n + 1, l)) (call cb a l) else Some (n, l)
      | None \<Rightarrow> Some (n, l)) = Some (n', l1) \<and> base_inv l1 \<and> keeps l l1 \<and> (\<forall>b \<in> A. lp_events l1 b = lp_events l b)"
    using call_ok[OF assms(4,1)] assms(1) by (cases "ev_cb e"; cases "ev_active e") fastforce+
  then obtain n' l1 where C: "(case ev_cb e of Some cb \<Rightarrow> if ev_active e then map_option (\<lambda>l. (n + 1, l)) (call cb a l) else Some (n, l)
      | None \<Rightarrow> Some (n, l)) = Some (n', l1)" "base_inv l1" "keeps l l1" "\<forall>b \<in> A. lp_events l1 b = lp_events l b"
    by blast
  have "a \<in> pending_set (lp_events l1)" using C(3) assms(2,3) by (simp add: keeps_def pending_set_def)
  then obtain e1 where e1: "lp_events l1 a = Some e1" by (auto simp: pending_set_def)
  have "run_pending call a e n l = Some (n', settle a e1 l1)"
    unfolding run_pending_def using assms(3) C(1) e1 settle_eq[OF e1, of n'] by simp
  then show ?thesis using C(2-4) e1 by blast
qed

text \<open>The loop takes the head off the chain.\<close>

lemma pending_step:
  assumes R: "rest_inv (a # xs) qs i l" and i: "i \<le> HEVENT_PRIORITY_SIZE" and c: "chain (lp_events l) cur (a # xs)" and a: "a \<in> W"
  shows "\<exists>next n' l'. pending_loop call cur n l = pending_loop call next n' l' \<and> rest_inv xs qs i l' \<and> chain (lp_events l') next xs \<and>
    lp_pendings l' = lp_pendings l \<and> (\<forall>b \<in> A - {a}. lp_events l' b = lp_events l b)"
proof -
  obtain e where e: "cur = Some a" "lp_events l a = Some e" "chain (lp_events l) (ev_pending_next e) xs" using c by (cases cur) auto
  note R' = R[unfolded rest_inv_def]
  have "a \<in> pending_set (lp_events l)" using R' by simp
  then have p: "ev_pending e" using e(2) by (simp add: pending_set_def)
  obtain n' l1 e1 where L: "run_pending call a e n l = Some (n', settle a e1 l1)" "base_inv l1" "keeps l l1" "lp_events l1 a = Some e1"
    "\<forall>b \<in> A. lp_events l1 b = lp_events l b"
    using run_pending_ok[OF _ e(2) p a] R' by blast
  let ?l = "settle a e1 l1"
  note S = settle_inv[OF L(2,4)]
  have new: "a \<notin> set (xs @ concat (take i qs))" using R' by simp
  have other: "chain (lp_events ?l) c ys" if "chain (lp_events l) c ys" "set ys \<subseteq> set (xs @ concat (take i qs))" for c ys
  proof -
    have "chain (lp_events l1) c ys" by (rule chain_keeps[OF that(1) L(3)]) (use that(2) R' in auto)
    then show ?thesis
    proof (rule chain_cong)
      fix b assume "b \<in> set ys"
      then have "b \<noteq> a" using that(2) new by blast
      then show "map_option ev_pending_next (lp_events ?l b) = map_option ev_pending_next (lp_events l1 b)" by (simp add: S(4))
    qed
  qed
  have "chain (lp_events ?l) (lp_pendings ?l ! j) (qs ! j)" if j: "j < i" for j
    using other[of "lp_pendings l ! j" "qs ! j"] R' j i take_nth_sub[OF j, of qs] S(3) L(3) by (auto simp: keeps_def)
  moreover have "pending_set (lp_events ?l) = set (xs @ concat (take i qs))" using S(2) L(3) R' new by (auto simp: keeps_def)
  ultimately have "rest_inv xs qs i ?l" using R' S(1,3) L(3) unfolding rest_inv_def by (simp add: keeps_def)
  moreover have "chain (lp_events ?l) (ev_pending_next e) xs" by (rule other[OF e(3)]) simp
  moreover have "pending_loop call cur n l = pending_loop call (ev_pending_next e) n' ?l"
    using e(1,2) L(1) by (simp add: pending_loop.simps[of call "Some a" n l])
  moreover have "lp_pendings ?l = lp_pendings l" using L(3) S(3) by (simp add: keeps_def)
  moreover have "\<forall>b \<in> A - {a}. lp_events ?l b = lp_events l b" using L(5) S(4) by simp
  ultimately show ?thesis by blast
qed

lemma pending_loop_ok:
  "rest_inv xs qs i l \<Longrightarrow> i \<le> HEVENT_PRIORITY_SIZE \<Longrightarrow> chain (lp_events l) cur xs \<Longrightarrow> set xs \<subseteq> W \<Longrightarrow>
    \<exists>n' l'. pending_loop call cur n l = Some (n', l') \<and> rest_inv [] qs i l' \<and> lp_pendings l' = lp_pendings l \<and>
      (\<forall>b \<in> A - set xs. lp_events l' b = lp_events l b)"
proof (induction xs arbitrary: cur n l)
  case Nil
  then have "cur = None" by (cases cur) auto
  then show ?case using Nil by (simp add: pending_loop.simps)
next
  case (Cons a xs)
  have "a \<in> W" using Cons.prems(4) by simp
  from pending_step[OF Cons.prems(1-3) this, of n] obtain next' n' l1 where
    L: "pending_loop call cur n l = pending_loop call next' n' l1" "rest_inv xs qs i l1" "chain (lp_events l1) next' xs"
    "lp_pendings l1 = lp_pendings l" "\<forall>b \<in> A - {a}. lp_events l1 b = lp_events l b" by blast
  then show ?case using Cons.IH[OF L(2) Cons.prems(2) L(3), of n'] Cons.prems(4) by auto
qed

text \<open>The loop works off the list of the highest priority left.\<close>

lemma priorities_step:
  assumes R: "rest_inv [] qs (Suc i) l" and i: "Suc i \<le> HEVENT_PRIORITY_SIZE" and W: "set (qs ! i) \<subseteq> W"
  shows "\<exists>n' l'. priorities_loop call (Suc i) n l = priorities_loop call i n' l' \<and> rest_inv [] qs i l' \<and>
    lp_pendings l' = (lp_pendings l)[i := None] \<and> (\<forall>b \<in> A - set (qs ! i). lp_events l' b = lp_events l b)"
proof -
  obtain n1 l1 where P: "pending_loop call (lp_pendings l ! i) n l = Some (n1, l1)" "rest_inv [] qs i l1" "lp_pendings l1 = lp_pendings l"
    "\<forall>b \<in> A - set (qs ! i). lp_events l1 b = lp_events l b"
    using pending_loop_ok[OF rest_inv_split(1)[OF R i] _ rest_inv_split(2)[OF R i] W, of n] i by auto
  let ?l = "l1\<lparr>lp_pendings := (lp_pendings l1)[i := None]\<rparr>"
  have "base_inv ?l" using P(2) by (simp add: rest_inv_def base_inv_def)
  then have "rest_inv [] qs i ?l" using P(2) by (auto simp: rest_inv_def)
  moreover have "priorities_loop call (Suc i) n l = priorities_loop call i n1 ?l" using P(1) by simp
  moreover have "lp_pendings ?l = (lp_pendings l)[i := None]" "\<forall>b \<in> A - set (qs ! i). lp_events ?l b = lp_events l b" using P(3,4) by simp_all
  ultimately show ?thesis by blast
qed

lemma priorities_loop_ok:
  "rest_inv [] qs i l \<Longrightarrow> i \<le> HEVENT_PRIORITY_SIZE \<Longrightarrow> (\<And>j. i \<le> j \<Longrightarrow> j < HEVENT_PRIORITY_SIZE \<Longrightarrow> lp_pendings l ! j = None) \<Longrightarrow>
    set (concat (take i qs)) \<subseteq> W \<Longrightarrow>
    \<exists>n' l'. priorities_loop call i n l = Some (n', l') \<and> base_inv l' \<and> pending_set (lp_events l') = {} \<and>
      lp_pendings l' = replicate HEVENT_PRIORITY_SIZE None"
proof (induction i arbitrary: n l)
  case 0
  have "lp_pendings l = replicate HEVENT_PRIORITY_SIZE None"
    by (rule nth_equalityI) (use 0 in \<open>auto simp: rest_inv_def\<close>)
  then show ?case using 0 by (simp add: rest_inv_def)
next
  case (Suc i)
  obtain n1 l1 where P: "priorities_loop call (Suc i) n l = priorities_loop call i n1 l1" "rest_inv [] qs i l1"
    "lp_pendings l1 = (lp_pendings l)[i := None]"
    using priorities_step[OF Suc.prems(1,2), of n] Suc.prems(4) rest_inv_split(3)[OF Suc.prems(1,2)] by blast
  have "lp_pendings l1 ! j = None" if "i \<le> j" "j < HEVENT_PRIORITY_SIZE" for j
    using Suc.prems(1) Suc.prems(3)[of j] that P(3) by (cases "j = i") (simp_all add: rest_inv_def)
  moreover have "set (concat (take i qs)) \<subseteq> W" using Suc.prems(4) set_take_subset_set_take[of i "Suc i" qs] by fastforce
  ultimately show ?case using Suc.IH[OF P(2), of n1] Suc.prems(2) unfolding P(1) by simp
qed

text \<open>One event whose turn cannot be taken is enough for the whole pass not to return.\<close>

lemma pending_loop_stuck:
  "rest_inv (ys @ a # zs) qs i l \<Longrightarrow> i \<le> HEVENT_PRIORITY_SIZE \<Longrightarrow> chain (lp_events l) cur (ys @ a # zs) \<Longrightarrow> set ys \<subseteq> W \<Longrightarrow>
    a \<in> A \<Longrightarrow> lp_events l a = Some e \<Longrightarrow> turn_fails call a e \<Longrightarrow>
    pending_loop call cur n l = None"
proof (induction ys arbitrary: cur n l)
  case Nil
  then have "cur = Some a" by (cases cur) auto
  moreover have "base_inv l" using Nil.prems(1) by (simp add: rest_inv_def)
  then have "run_pending call a e n l = None" using Nil.prems(6,7) unfolding turn_fails_def by blast
  ultimately show ?case using Nil.prems(6) by (simp add: pending_loop.simps[of call "Some a" n l])
next
  case (Cons b ys)
  have "rest_inv (b # ys @ a # zs) qs i l" "chain (lp_events l) cur (b # ys @ a # zs)" "b \<in> W" using Cons.prems by simp_all
  from pending_step[OF this(1) Cons.prems(2) this(2,3), of n] obtain next' n' l1 where
    L: "pending_loop call cur n l = pending_loop call next' n' l1" "rest_inv (ys @ a # zs) qs i l1" "chain (lp_events l1) next' (ys @ a # zs)"
    "\<forall>c \<in> A - {b}. lp_events l1 c = lp_events l c" by blast
  have "b \<noteq> a" using Cons.prems(1) by (auto simp: rest_inv_def)
  then have "lp_events l1 a = Some e" using L(4) Cons.prems(5,6) by simp
  then show ?case using Cons.IH[OF L(2) Cons.prems(2) L(3) _ Cons.prems(5) _ Cons.prems(7)] Cons.prems(4) L(1) by simp
qed

lemma priorities_loop_stuck:
  "rest_inv [] qs i l \<Longrightarrow> i \<le> HEVENT_PRIORITY_SIZE \<Longrightarrow> a \<in> set (concat (take i qs)) \<Longrightarrow> set (concat (take i qs)) - {a} \<subseteq> W \<Longrightarrow>
    a \<in> A \<Longrightarrow> lp_events l a = Some e \<Longrightarrow> turn_fails call a e \<Longrightarrow>
    priorities_loop call i n l = None"
proof (induction i arbitrary: n l)
  case (Suc i)
  note R = Suc.prems(1) and S = rest_inv_split[OF Suc.prems(1,2)]
  show ?case
  proof (cases "a \<in> set (qs ! i)")
    case True
    then obtain ys zs where yz: "qs ! i = ys @ a # zs" by (meson split_list)
    have "distinct (qs ! i)" using S(1) by (simp add: rest_inv_def)
    then have "set ys \<subseteq> W" using Suc.prems(4) S(3) yz by auto
    then have "pending_loop call (lp_pendings l ! i) n l = None"
      using pending_loop_stuck[OF S(1)[unfolded yz] _ S(2)[unfolded yz] _ Suc.prems(5,6,7)] Suc.prems(2) by simp
    then show ?thesis by simp
  next
    case False
    then have "set (qs ! i) \<subseteq> W" using Suc.prems(4) S(3) by auto
    from priorities_step[OF R Suc.prems(2) this, of n] obtain n1 l1 where P: "priorities_loop call (Suc i) n l = priorities_loop call i n1 l1"
      "rest_inv [] qs i l1" "\<forall>b \<in> A - set (qs ! i). lp_events l1 b = lp_events l b" by blast
    have "a \<in> set (concat (take i qs))" "set (concat (take i qs)) - {a} \<subseteq> W" using Suc.prems(3,4) False S(3) by auto
    moreover have "lp_events l1 a = Some e" using P(3) False Suc.prems(5,6) by simp
    ultimately show ?thesis using Suc.IH[OF P(2) _ _ _ Suc.prems(5) _ Suc.prems(7), of n1] Suc.prems(2) unfolding P(1) by simp
  qed
qed simp

text \<open>Every pending event is run and settled; no event is left on a list, or marked.\<close>

lemma process_pendings_ok:
  assumes "loop_inv l" "card (pending_set (lp_events l)) < 2 ^ 32" "pending_set (lp_events l) \<subseteq> W"
  shows "\<exists>n l'. hloop_process_pendings call l = Some (n, l') \<and> loop_inv l' \<and> pending_set (lp_events l') = {} \<and> lp_npendings l' = 0"
proof -
  obtain qs where P: "pend_inv l qs" "base_inv l" using assms(1) by (auto simp: loop_inv_def)
  show ?thesis
  proof (cases "lp_npendings l = 0")
    case True
    then show ?thesis using pending_count[OF P(1) assms(2)] assms(1) by (simp add: hloop_process_pendings_def)
  next
    case False
    have "set (concat (take HEVENT_PRIORITY_SIZE qs)) \<subseteq> W" using P(1) assms(3) by (simp add: pend_inv_def)
    with rest_inv_all[OF P] obtain n l' where L: "priorities_loop call HEVENT_PRIORITY_SIZE 0 l = Some (n, l')" "base_inv l'"
        "pending_set (lp_events l') = {}" "lp_pendings l' = replicate HEVENT_PRIORITY_SIZE None"
      using priorities_loop_ok[of qs HEVENT_PRIORITY_SIZE l 0] by auto
    let ?l = "l'\<lparr>lp_npendings := 0\<rparr>"
    have "base_inv ?l" using L(2) by (simp add: base_inv_def)
    moreover have "pend_inv ?l (replicate HEVENT_PRIORITY_SIZE [])" using L(3,4) by (simp add: pend_inv_def HEVENT_PRIORITY_SIZE_def)
    ultimately show ?thesis using False L(1,3) by (auto simp: hloop_process_pendings_def loop_inv_def)
  qed
qed

lemma process_pendings_stuck:
  assumes "loop_inv l" "card (pending_set (lp_events l)) < 2 ^ 32" "pending_set (lp_events l) - {a} \<subseteq> W" "a \<in> A"
    and a: "lp_events l a = Some e" "ev_pending e"
    and stuck: "turn_fails call a e"
  shows "hloop_process_pendings call l = None"
proof -
  obtain qs where P: "pend_inv l qs" "base_inv l" using assms(1) by (auto simp: loop_inv_def)
  have p: "a \<in> pending_set (lp_events l)" using a by (simp add: pending_set_def)
  then have "lp_npendings l \<noteq> 0" using pending_count[OF P(1) assms(2)] by blast
  moreover have "set (concat (take HEVENT_PRIORITY_SIZE qs)) = pending_set (lp_events l)" using P(1) by (simp add: pend_inv_def del: set_concat)
  then have "priorities_loop call HEVENT_PRIORITY_SIZE 0 l = None"
    using priorities_loop_stuck[OF rest_inv_all[OF P] _ _ _ assms(4) a(1) stuck, of 0] p assms(3) by (simp del: set_concat)
  ultimately show ?thesis by (simp add: hloop_process_pendings_def)
qed

end

section \<open>Callbacks that call the loop\<close>

text \<open>
  What callbacks, and the program outside them, call.  The addresses are those of events that exist, or
  are free for a new one; a timer is not reset while it is pending (see \<open>reset_then_delete\<close> below).
\<close>

datatype api =
    AddTimer nat "nat option" "32 word" "32 word"
  | AddPeriod nat "nat option" int int int int int "32 word"
  | AddIdle nat "nat option" "32 word"
  | DelTimer nat
  | DelIdle nat
  | ResetTimer nat

fun run_api :: "clock \<Rightarrow> api \<Rightarrow> hloop \<Rightarrow> hloop option" where
  "run_api ck (AddTimer a cb timeout repeat) l = map_option snd (htimer_add ck a cb timeout repeat l)"
| "run_api ck (AddPeriod a cb minute hour day week month repeat) l =
     map_option snd (htimer_add_period ck a cb minute hour day week month repeat l)"
| "run_api ck (AddIdle a cb repeat) l = hidle_add a cb repeat l"
| "run_api ck (DelTimer a) l = htimer_del a l"
| "run_api ck (DelIdle a) l = hidle_del a l"
| "run_api ck (ResetTimer a) l = htimer_reset a l"

fun api_ok :: "hloop \<Rightarrow> api \<Rightarrow> bool" where
  "api_ok l (AddTimer a cb timeout repeat) \<longleftrightarrow> lp_events l a = None"
| "api_ok l (AddPeriod a cb minute hour day week month repeat) \<longleftrightarrow> lp_events l a = None"
| "api_ok l (AddIdle a cb repeat) \<longleftrightarrow> lp_events l a = None"
| "api_ok l (DelTimer a) \<longleftrightarrow> (case lp_events l a of Some e \<Rightarrow> is_timer e | None \<Rightarrow> False)"
| "api_ok l (DelIdle a) \<longleftrightarrow> (case lp_events l a of Some e \<Rightarrow> \<not> is_timer e | None \<Rightarrow> False)"
| "api_ok l (ResetTimer a) \<longleftrightarrow> (case lp_events l a of Some e \<Rightarrow> \<not> ev_pending e | None \<Rightarrow> False)"

lemma run_api_inv:
  assumes "base_inv l" "api_ok l p"
  shows "\<exists>l'. run_api ck p l = Some l' \<and> base_inv l' \<and> keeps l l'"
proof (cases p)
  case (AddTimer a cb timeout repeat)
  then show ?thesis using htimer_add_inv[OF assms(1), of a ck cb timeout repeat] assms(2) by auto
next
  case (AddPeriod a cb minute hour day week month repeat)
  then show ?thesis using htimer_add_period_inv[OF assms(1), of a ck cb minute hour day week month repeat] assms(2) by auto
next
  case (AddIdle a cb repeat)
  then show ?thesis using hidle_add_inv[OF assms(1), of a cb repeat] assms(2) by auto
next
  case (DelTimer a)
  then obtain e where "lp_events l a = Some e" "is_timer e" using assms(2) by (auto split: option.splits)
  then show ?thesis using htimer_del_inv[OF assms(1)] DelTimer by fastforce
next
  case (DelIdle a)
  then obtain e where "lp_events l a = Some e" "\<not> is_timer e" using assms(2) by (auto split: option.splits)
  then show ?thesis using hidle_del_inv[OF assms(1)] DelIdle by fastforce
next
  case (ResetTimer a)
  then obtain e where "lp_events l a = Some e" "\<not> ev_pending e" using assms(2) by (auto split: option.splits)
  then show ?thesis using htimer_reset_inv[OF assms(1)] ResetTimer by fastforce
qed

text \<open>A callback as the list of its calls; a careful one leaves out the calls it may not make.\<close>

fun run_calls :: "clock \<Rightarrow> api list \<Rightarrow> hloop \<Rightarrow> hloop option" where
  "run_calls ck [] l = Some l"
| "run_calls ck (p # ps) l = Option.bind (run_api ck p l) (run_calls ck ps)"

fun run_careful :: "clock \<Rightarrow> api list \<Rightarrow> hloop \<Rightarrow> hloop option" where
  "run_careful ck [] l = Some l"
| "run_careful ck (p # ps) l = (if api_ok l p then Option.bind (run_api ck p l) (run_careful ck ps) else run_careful ck ps l)"

lemma run_careful_inv: "base_inv l \<Longrightarrow> \<exists>l'. run_careful ck ps l = Some l' \<and> base_inv l' \<and> keeps l l'"
proof (induction ps arbitrary: l)
  case (Cons p ps)
  show ?case
  proof (cases "api_ok l p")
    case True
    obtain l1 where "run_api ck p l = Some l1" "base_inv l1" "keeps l l1" using run_api_inv[OF Cons.prems True] by blast
    then show ?thesis using Cons.IH[of l1] True keeps_trans by fastforce
  qed (use Cons in simp)
qed simp

interpretation careful: loop_callbacks "\<lambda>cb a. run_careful ck (program cb a)" UNIV "{}" for ck and program :: "nat \<Rightarrow> nat \<Rightarrow> api list"
  by unfold_locales (use run_careful_inv in simp)

section \<open>Reachable loops\<close>

text \<open>
  The steps of a loop that is used as intended, in any order: calls of the interface, the clock moving,
  and the three parts of an iteration, with callbacks that make calls of their own.
\<close>

inductive reach :: "hloop \<Rightarrow> bool" where
  reach_init: "reach (hloop_init ck)"
| reach_call: "reach l \<Longrightarrow> api_ok l p \<Longrightarrow> run_api ck p l = Some l' \<Longrightarrow> reach l'"
| reach_time: "reach l \<Longrightarrow> reach (hloop_update_time ck l)"
| reach_timers: "reach l \<Longrightarrow> timers_clock_ok ck (hloop_now_hrtime l) \<Longrightarrow> hloop_process_timers ck l = Some (n, l') \<Longrightarrow> reach l'"
| reach_idles: "reach l \<Longrightarrow> hloop_process_idles l = Some (n, l') \<Longrightarrow> reach l'"
| reach_pendings: "reach l \<Longrightarrow> card (pending_set (lp_events l)) < 2 ^ 32 \<Longrightarrow>
    hloop_process_pendings (\<lambda>cb a. run_careful ck (program cb a)) l = Some (n, l') \<Longrightarrow> reach l'"

lemma init_inv: "loop_inv (hloop_init ck)"
proof -
  have "heap_models (timers_compare Map.empty) (heap_init (Some (timers_compare Map.empty)), clear_nodes) {}"
    by (rule heap_init_models) (simp add: clear_nodes_def)
  then have "base_inv (hloop_init ck)" by (simp add: base_inv_def hloop_init_def event_sets)
  moreover have "pend_inv (hloop_init ck) (replicate HEVENT_PRIORITY_SIZE [])"
    by (simp add: pend_inv_def hloop_init_def event_sets HEVENT_PRIORITY_SIZE_def)
  ultimately show ?thesis by (auto simp: loop_inv_def)
qed

lemma process_timers_ok:
  assumes "loop_inv l" "timers_clock_ok ck (hloop_now_hrtime l)"
  shows "\<exists>l'. hloop_process_timers ck l = Some (card (timers_due (hloop_now_hrtime l) (lp_events l)), l') \<and> loop_inv l' \<and>
    (\<forall>a. a \<notin> timers_due (hloop_now_hrtime l) (lp_events l) \<longrightarrow> lp_events l' a = lp_events l a) \<and>
    (\<forall>a \<in> timers_due (hloop_now_hrtime l) (lp_events l). \<exists>e t p. lp_events l a = Some e \<and> hloop_now_hrtime l < t \<and>
       next_time ck (hloop_now_hrtime l) (e\<lparr>ev_repeat := countdown (ev_repeat e)\<rparr>) = Some t \<and> lp_events l' a = Some (fired_event t p e))"
proof -
  obtain qs where "base_inv l" "pend_inv l qs" using assms(1) by (auto simp: loop_inv_def)
  from timers_loop_spec[OF this assms(2), of 0] show ?thesis by (auto simp: hloop_process_timers_def loop_inv_def)
qed

lemma process_idles_ok:
  assumes "loop_inv l"
  shows "\<exists>l'. hloop_process_idles l = Some (length (lp_idles l), l') \<and> loop_inv l' \<and>
    (\<forall>a. a \<notin> idle_set (lp_events l) \<longrightarrow> lp_events l' a = lp_events l a) \<and>
    (\<forall>a \<in> idle_set (lp_events l). \<exists>e p. lp_events l a = Some e \<and> lp_events l' a = Some (fired_event (ev_next_timeout e) p e))"
proof -
  obtain qs where I: "base_inv l" "pend_inv l qs" using assms(1) by (auto simp: loop_inv_def)
  note D = base_invD(4,5)[OF I(1)]
  from idles_loop_spec[OF I D(1), of 0] D(2) show ?thesis by (auto simp: hloop_process_idles_def loop_inv_def)
qed

lemma reach_inv: "reach l \<Longrightarrow> loop_inv l"
proof (induction rule: reach.induct)
  case (reach_call l p ck l')
  then show ?case using run_api_inv[of l p ck] loop_inv_keeps[of l] by (auto simp: loop_inv_def)
next
  case (reach_time l ck)
  then have "keeps l (hloop_update_time ck l)" by (simp add: keeps_def)
  then show ?case using reach_time loop_inv_keeps by (auto simp: loop_inv_def)
next
  case (reach_timers l ck n l')
  then show ?case using process_timers_ok[of l ck] by auto
next
  case (reach_idles l n l')
  then show ?case using process_idles_ok[of l] by auto
next
  case (reach_pendings l ck program n l')
  then show ?case using careful.process_pendings_ok[of l ck program] by auto
qed (rule init_inv)

text \<open>
  C8.  In every state that a loop used as intended can reach - any order of calls, of timers, idle events
  and pending events, with callbacks that make calls themselves - the invariant holds: the heap
  holds exactly the live timers in order of their times, the list the idle events, the counters
  are exact, the pending events are on the lists once.  And nothing fails there: no call, no pass over the
  timers, the idle events or the pending events touches a freed event or does not return.  The passes over the
  timers are those in which the clock of the loop is not in a later second than the system clock, which is in the
  range of the calendar; that a periodic timer then gets a later time is proved, from \<open>cron_next_timeout\<close>.  Calls
  are made on events that exist, and timers that are pending are not reset; at most 2^32 - 1 events are pending.
\<close>

theorem loop_safe:
  assumes "reach l" "api_ok l p" "timers_clock_ok ck (hloop_now_hrtime l)" "card (pending_set (lp_events l)) < 2 ^ 32"
  shows "loop_inv l \<and> run_api ck p l \<noteq> None \<and> hloop_process_timers ck l \<noteq> None \<and> hloop_process_idles l \<noteq> None \<and>
    hloop_process_pendings (\<lambda>cb a. run_careful ck (program cb a)) l \<noteq> None"
proof -
  have I: "loop_inv l" "base_inv l" using reach_inv[OF assms(1)] by (auto simp: loop_inv_def)
  show ?thesis
    using I(1) run_api_inv[OF I(2) assms(2), of ck] process_timers_ok[OF I(1) assms(3)] process_idles_ok[OF I(1)]
      careful.process_pendings_ok[OF I(1) assms(4), of ck program] by auto
qed

definition demo_clock :: "64 word \<Rightarrow> clock" where
  "demo_clock us = \<lparr>ck_hrtime = us, ck_ms = 1000000, ck_time = 1000, ck_tz = 0\<rparr>"

theorem loop_safe_witness:
  "loop_inv (hloop_init (demo_clock 0)) \<and> run_api (demo_clock 0) (AddTimer 7 (Some 1) 10 1) (hloop_init (demo_clock 0)) \<noteq> None \<and>
    hloop_process_timers (demo_clock 0) (hloop_init (demo_clock 0)) \<noteq> None \<and> hloop_process_idles (hloop_init (demo_clock 0)) \<noteq> None \<and>
    hloop_process_pendings (\<lambda>cb a. run_careful (demo_clock 0) ((\<lambda>cb a. [DelTimer a]) cb a)) (hloop_init (demo_clock 0)) \<noteq> None"
  by (rule loop_safe[OF reach_init])
    (simp_all add: hloop_init_def timers_clock_ok_def hloop_now_hrtime_def demo_clock_def pending_set_def)

text \<open>A loop with one timer of 10 ms, and its time 20 ms later.\<close>

definition demo_event :: hevent where
  "demo_event = \<lparr>ev_type = TimeoutEvent 10, ev_cb = Some 1, ev_priority = HEVENT_HIGHEST_PRIORITY, ev_pending_next = None, ev_destroy = False,
     ev_active = True, ev_pending = False, ev_repeat = 1, ev_next_timeout = 1000010000\<rparr>"

definition demo_later :: "hloop \<Rightarrow> hloop" where "demo_later l = hloop_update_time (demo_clock 20000) l"

lemma demo_loop:
  obtains l where "htimer_add (demo_clock 0) 7 (Some 1) 10 1 (hloop_init (demo_clock 0)) = Some (Some 7, l)"
    "loop_inv (demo_later l)" "lp_events (demo_later l) = [7 \<mapsto> demo_event]" "hloop_now_hrtime (demo_later l) = 1000020000"
proof -
  let ?add = "htimer_add (demo_clock 0) 7 (Some 1) 10 1 (hloop_init (demo_clock 0))"
  have I: "loop_inv (hloop_init (demo_clock 0))" "base_inv (hloop_init (demo_clock 0))" using init_inv by (auto simp: loop_inv_def)
  have new: "lp_events (hloop_init (demo_clock 0)) = Map.empty" by (simp add: hloop_init_def)
  obtain r l where L: "?add = Some (r, l)" "base_inv l" "keeps (hloop_init (demo_clock 0)) l" "r = Some 7"
    "lp_events l = [7 \<mapsto> \<lparr>ev_type = TimeoutEvent 10, ev_cb = Some 1, ev_priority = HEVENT_HIGHEST_PRIORITY, ev_pending_next = None,
       ev_destroy = False, ev_active = True, ev_pending = False, ev_repeat = 1,
       ev_next_timeout = timeout_from (hloop_now_hrtime (hloop_update_time (demo_clock 0) (hloop_init (demo_clock 0)))) 10\<rparr>]"
    using htimer_add_inv[OF I(2), of 7 "demo_clock 0" "Some 1" 10 1] by (auto simp: new)
  have "timeout_from (hloop_now_hrtime (hloop_update_time (demo_clock 0) (hloop_init (demo_clock 0)))) 10 = 1000010000" by code_simp
  moreover have "map_option (\<lambda>(r, l). hloop_now_hrtime (demo_later l)) ?add = Some 1000020000" by code_simp
  moreover have "loop_inv l" by (rule loop_inv_keeps[OF I(1) L(2,3)])
  then have "loop_inv (demo_later l)"
    using loop_inv_keeps[of l "demo_later l"] by (simp add: demo_later_def loop_inv_def keeps_def)
  ultimately show ?thesis using L that[of l] by (simp add: demo_event_def demo_later_def)
qed

lemma demo_fired:
  assumes "loop_inv (demo_later l)" "lp_events (demo_later l) = [7 \<mapsto> demo_event]" "hloop_now_hrtime (demo_later l) = 1000020000"
  obtains l' t p where "hloop_process_timers (demo_clock 20000) (demo_later l) = Some (1, l')" "loop_inv l'"
    "lp_events l' = [7 \<mapsto> fired_event t p demo_event]"
proof -
  have C: "timers_clock_ok (demo_clock 20000) (hloop_now_hrtime (demo_later l))"
    by (simp add: timers_clock_ok_def assms(3) demo_clock_def)
  have D: "timers_due (hloop_now_hrtime (demo_later l)) (lp_events (demo_later l)) = {7}"
    unfolding assms(2,3) by (auto simp: timers_due_def timer_set_def timer_key_def is_timer_def demo_event_def)
  obtain l' where L: "hloop_process_timers (demo_clock 20000) (demo_later l) = Some (1, l')" "loop_inv l'"
    "\<forall>a. a \<noteq> 7 \<longrightarrow> lp_events l' a = lp_events (demo_later l) a"
    "\<exists>e t p. lp_events (demo_later l) 7 = Some e \<and> lp_events l' 7 = Some (fired_event t p e)"
    using process_timers_ok[OF assms(1) C] unfolding D by auto
  then obtain t p where "lp_events l' 7 = Some (fired_event t p demo_event)" using assms(2) by auto
  then have "lp_events l' = [7 \<mapsto> fired_event t p demo_event]" using L(3) assms(2) by (auto simp: fun_eq_iff)
  then show ?thesis using that L(1,2) by blast
qed

lemma reset_delete_frees:
  assumes I: "base_inv l" and a: "lp_events l a = Some e" "ev_type e = TimeoutEvent t"
  shows "\<exists>l'. run_calls ck [ResetTimer a, DelTimer a] l = Some l' \<and> lp_events l' = (lp_events l)(a := None) \<and> lp_pendings l' = lp_pendings l"
proof -
  let ?e = "reset_event (timeout_from (hloop_now_hrtime l) t) e"
  obtain h m nt na where R: "htimer_reset a l = Some (l\<lparr>lp_events := (lp_events l)(a \<mapsto> ?e), lp_timers := h, lp_nodes := m,
      lp_ntimers := nt, lp_nactives := na\<rparr>)" (is "_ = Some ?l1")
    "heap_models (timers_compare ((lp_events l)(a \<mapsto> ?e))) (h, m) (insert a (timer_set (lp_events l)))"
    using htimer_reset_spec[OF base_invD(2)[OF I] a] by blast
  have "heap_models (timers_compare (lp_events ?l1)) (lp_timers ?l1, lp_nodes ?l1) (insert a (timer_set (lp_events l)))"
    "a \<in> insert a (timer_set (lp_events l))" "lp_events ?l1 a = Some ?e" "\<not> ev_destroy ?e"
    using R(2) by simp_all
  from htimer_unlink_spec[OF this] obtain h' m' where U: "htimer_unlink a ?l1 = Some (?l1\<lparr>lp_events := (lp_events ?l1)(a \<mapsto> ?e\<lparr>ev_destroy := True\<rparr>),
      lp_timers := h', lp_nodes := m', lp_ntimers := lp_ntimers ?l1 - 1\<rparr>)" by blast
  show ?thesis using R(1) U by (simp add: htimer_del_def event_del_eq)
qed

text \<open>
  C40.  A callback that resets its timer and then deletes it leaves a freed event on the list of pending
  events: the reset clears the pending flag without taking the event off the list, so the deletion frees it
  at once.  So in any loop where a timer with such a callback is pending, whatever its timeout, the clock and
  its place on the lists, running the pending events goes on to write to the freed event, when the other
  callbacks return and leave this timer alone.
\<close>

theorem reset_then_delete:
  assumes "loop_inv l" "card (pending_set (lp_events l)) < 2 ^ 32"
    and a: "lp_events l a = Some e" "ev_type e = TimeoutEvent t" "ev_pending e" "ev_active e" "ev_cb e = Some cb"
    and self: "\<And>l. call cb a l = run_calls ck [ResetTimer a, DelTimer a] l"
    and others: "\<And>cb b l. b \<noteq> a \<Longrightarrow> base_inv l \<Longrightarrow> \<exists>l'. call cb b l = Some l' \<and> base_inv l' \<and> keeps l l' \<and> lp_events l' a = lp_events l a"
  shows "(\<exists>l' i xs. run_calls ck [ResetTimer a, DelTimer a] l = Some l' \<and> lp_events l' a = None \<and> lp_pendings l' = lp_pendings l \<and>
      i < HEVENT_PRIORITY_SIZE \<and> chain (lp_events l) (lp_pendings l ! i) xs \<and> a \<in> set xs) \<and>
    hloop_process_pendings call l = None"
proof -
  obtain qs where P: "base_inv l" "pend_inv l qs" using assms(1) by (auto simp: loop_inv_def)
  have "a \<in> set (concat qs)" using P(2) a(1,3) by (simp add: pend_inv_def pending_set_def del: set_concat)
  then obtain q where q: "q \<in> set qs" "a \<in> set q" by auto
  then obtain i where "i < length qs" "qs ! i = q" by (metis in_set_conv_nth)
  then have i: "i < HEVENT_PRIORITY_SIZE" "a \<in> set (qs ! i)" using P(2) q by (simp_all add: pend_inv_def)
  have c: "chain (lp_events l) (lp_pendings l ! i) (qs ! i)" using P(2) i(1) by (simp add: pend_inv_def)
  have fails: "turn_fails call a e"
    unfolding turn_fails_def
  proof (intro allI impI)
    fix l :: hloop and n
    assume l: "base_inv l" "lp_events l a = Some e"
    obtain l' where "call cb a l = Some l'" "lp_events l' a = None" using reset_delete_frees[OF l a(2), of ck] unfolding self by auto
    then show "run_pending call a e n l = None" using a(3-5) by (simp add: run_pending_def)
  qed
  have "loop_callbacks call (- {a}) {a}" by unfold_locales (use others in simp)
  from loop_callbacks.process_pendings_stuck[OF this assms(1,2) _ _ a(1,3) fails] have "hloop_process_pendings call l = None" by auto
  moreover obtain l' where "run_calls ck [ResetTimer a, DelTimer a] l = Some l'" "lp_events l' a = None" "lp_pendings l' = lp_pendings l"
    using reset_delete_frees[OF P(1) a(1,2), of ck] by auto
  ultimately show ?thesis using i c by blast
qed

theorem reset_then_delete_witness:
  "\<exists>l l'. hloop_process_timers (demo_clock 20000) (demo_later l) = Some (1, l') \<and>
    htimer_add (demo_clock 0) 7 (Some 1) 10 1 (hloop_init (demo_clock 0)) = Some (Some 7, l) \<and>
    hloop_process_pendings (\<lambda>cb b l. if b = 7 then run_calls (demo_clock 20000) [ResetTimer 7, DelTimer 7] l else Some l) l' = None"
proof -
  obtain l where L: "htimer_add (demo_clock 0) 7 (Some 1) 10 1 (hloop_init (demo_clock 0)) = Some (Some 7, l)"
    "loop_inv (demo_later l)" "lp_events (demo_later l) = [7 \<mapsto> demo_event]" "hloop_now_hrtime (demo_later l) = 1000020000" by (rule demo_loop)
  obtain l' t p where F: "hloop_process_timers (demo_clock 20000) (demo_later l) = Some (1, l')" "loop_inv l'"
    "lp_events l' = [7 \<mapsto> fired_event t p demo_event]" by (rule demo_fired[OF L(2-4)])
  let ?call = "\<lambda>cb b l. if b = 7 then run_calls (demo_clock 20000) [ResetTimer 7, DelTimer 7] l else Some l"
  have "card (pending_set (lp_events l')) < 2 ^ 32" by (simp add: F(3) pending_set_def)
  from reset_then_delete[OF F(2) this, of 7 "fired_event t p demo_event" 10 1 ?call "demo_clock 20000"] F(3)
  have "hloop_process_pendings ?call l' = None" by (simp add: demo_event_def)
  then show ?thesis using F(1) L(1) by blast
qed

section \<open>Properties of the timers\<close>

text \<open>
  C9.  A pass over the timers returns, and makes exactly the timers pending whose time has come: each counts
  its repetitions down, and is taken out when none is left or gets a next time later than now;
  the others keep their state, and no timer is due afterwards.  The clock of the loop is taken not to be in a later
  second than the system clock (a pass in which it is may not return: \<open>timers_ahead_spin\<close>).
\<close>

theorem timers_fired:
  assumes "loop_inv l" "timers_clock_ok ck (hloop_now_hrtime l)"
  shows "\<exists>l'. hloop_process_timers ck l = Some (card (timers_due (hloop_now_hrtime l) (lp_events l)), l') \<and> loop_inv l' \<and>
    timers_due (hloop_now_hrtime l) (lp_events l') = {} \<and>
    pending_set (lp_events l') = pending_set (lp_events l) \<union> timers_due (hloop_now_hrtime l) (lp_events l) \<and>
    (\<forall>a. if a \<in> timers_due (hloop_now_hrtime l) (lp_events l)
       then (\<exists>e t p. lp_events l a = Some e \<and> hloop_now_hrtime l < t \<and>
         next_time ck (hloop_now_hrtime l) (e\<lparr>ev_repeat := countdown (ev_repeat e)\<rparr>) = Some t \<and> lp_events l' a = Some (fired_event t p e))
       else lp_events l' a = lp_events l a)"
proof -
  let ?D = "timers_due (hloop_now_hrtime l) (lp_events l)"
  obtain l' where L: "hloop_process_timers ck l = Some (card ?D, l')" "loop_inv l'"
    "\<forall>a. a \<notin> ?D \<longrightarrow> lp_events l' a = lp_events l a"
    "\<forall>a \<in> ?D. \<exists>e t p. lp_events l a = Some e \<and> hloop_now_hrtime l < t \<and>
       next_time ck (hloop_now_hrtime l) (e\<lparr>ev_repeat := countdown (ev_repeat e)\<rparr>) = Some t \<and> lp_events l' a = Some (fired_event t p e)"
    using process_timers_ok[OF assms] by blast
  have "a \<notin> timers_due (hloop_now_hrtime l) (lp_events l')" for a
  proof (cases "a \<in> ?D")
    case True
    then obtain e t p where "hloop_now_hrtime l < t" "lp_events l' a = Some (fired_event t p e)" using L(4) by blast
    then show ?thesis by (auto simp: timers_due_def timer_set_def timer_key_def)
  next
    case False
    then have "lp_events l' a = lp_events l a" using L(3) by blast
    then show ?thesis using False by (auto simp: timers_due_def timer_set_def timer_key_def)
  qed
  moreover have "a \<in> pending_set (lp_events l') \<longleftrightarrow> a \<in> pending_set (lp_events l) \<union> ?D" for a
  proof (cases "a \<in> ?D")
    case True
    then obtain e t p where "lp_events l' a = Some (fired_event t p e)" using L(4) by blast
    then show ?thesis using True by (simp add: pending_set_def)
  next
    case False
    then have "lp_events l' a = lp_events l a" using L(3) by blast
    then show ?thesis using False by (simp add: pending_set_def)
  qed
  ultimately show ?thesis using L by (intro exI[of _ l'] conjI allI) auto
qed

theorem timers_fired_witness:
  "\<exists>l l'. htimer_add (demo_clock 0) 7 (Some 1) 10 1 (hloop_init (demo_clock 0)) = Some (Some 7, l) \<and>
    hloop_process_timers (demo_clock 20000) (demo_later l) = Some (1, l') \<and> pending_set (lp_events l') = {7} \<and>
    timers_due 1000020000 (lp_events l') = {}"
proof -
  obtain l where L: "htimer_add (demo_clock 0) 7 (Some 1) 10 1 (hloop_init (demo_clock 0)) = Some (Some 7, l)"
    "loop_inv (demo_later l)" "lp_events (demo_later l) = [7 \<mapsto> demo_event]" "hloop_now_hrtime (demo_later l) = 1000020000" by (rule demo_loop)
  have C: "timers_clock_ok (demo_clock 20000) (hloop_now_hrtime (demo_later l))"
    by (simp add: timers_clock_ok_def L(4) demo_clock_def)
  have D: "timers_due (hloop_now_hrtime (demo_later l)) (lp_events (demo_later l)) = {7}"
    unfolding L(3,4) by (auto simp: timers_due_def timer_set_def timer_key_def is_timer_def demo_event_def)
  have "pending_set (lp_events (demo_later l)) = {}" by (simp add: L(3) pending_set_def demo_event_def)
  then show ?thesis using timers_fired[OF L(2) C] L(1,4) unfolding D by auto
qed

text \<open>
  C10.  Running the pending events with callbacks of careful calls returns; no event is pending afterwards, the
  events marked for deletion are freed - every event left is active and not marked - and
  the lists and the counter are empty.
\<close>

theorem pendings_settled:
  assumes "loop_inv l" "card (pending_set (lp_events l)) < 2 ^ 32"
  shows "\<exists>n l'. hloop_process_pendings (\<lambda>cb a. run_careful ck (program cb a)) l = Some (n, l') \<and> loop_inv l' \<and>
    pending_set (lp_events l') = {} \<and> lp_npendings l' = 0 \<and> (\<forall>a. case lp_events l' a of Some e \<Rightarrow> ev_active e \<and> \<not> ev_destroy e | None \<Rightarrow> True)"
proof -
  obtain n l' where L: "hloop_process_pendings (\<lambda>cb a. run_careful ck (program cb a)) l = Some (n, l')" "loop_inv l'"
    "pending_set (lp_events l') = {}" "lp_npendings l' = 0"
    using careful.process_pendings_ok[OF assms] by blast
  have "case lp_events l' a of Some e \<Rightarrow> ev_active e \<and> \<not> ev_destroy e | None \<Rightarrow> True" for a
  proof (cases "lp_events l' a")
    case (Some e)
    then have "event_ok e" "\<not> ev_pending e" using L(2,3) base_invD(8) by (auto simp: loop_inv_def pending_set_def)
    then show ?thesis using Some by (auto simp: event_ok_def)
  qed simp
  then show ?thesis using L by blast
qed

theorem pendings_settled_witness:
  "\<exists>l n l'. htimer_add (demo_clock 0) 7 (Some 1) 10 1 (hloop_init (demo_clock 0)) = Some (Some 7, l) \<and>
    hloop_process_pendings (\<lambda>cb a. run_careful (demo_clock 20000) ((\<lambda>cb a. [DelTimer a]) cb a)) (demo_later l) = Some (n, l') \<and> lp_npendings l' = 0"
proof -
  obtain l where L: "htimer_add (demo_clock 0) 7 (Some 1) 10 1 (hloop_init (demo_clock 0)) = Some (Some 7, l)"
    "loop_inv (demo_later l)" "lp_events (demo_later l) = [7 \<mapsto> demo_event]" "hloop_now_hrtime (demo_later l) = 1000020000" by (rule demo_loop)
  have "card (pending_set (lp_events (demo_later l))) < 2 ^ 32" by (simp add: L(3) pending_set_def demo_event_def)
  from pendings_settled[OF L(2) this, of "demo_clock 20000" "\<lambda>cb a. [DelTimer a]"] show ?thesis using L(1) by blast
qed

text \<open>
  C39.  The loop waits for the next timer up to a millisecond past its time, and never longer than 900 ms,
  when the timer is less than 2^31 - 1 ms away; for a timer 30 days away
  the truncated time is computed: it is negative, which \<open>poll\<close> and its like (not modelled) take for waiting
  without end.
\<close>

theorem blocktime_bounds:
  assumes "0 < sint (t - now)" "sint (t - now) < 1000 * (2 ^ 31 - 1)"
  shows "\<exists>b. blocktime_until t now = Some b \<and> 1 \<le> b \<and> b \<le> HLOOP_MAX_BLOCK_TIME \<and> (b - 1) * 1000 \<le> sint (t - now) \<and>
    (b = HLOOP_MAX_BLOCK_TIME \<or> sint (t - now) < b * 1000) \<and> blocktime_until (30 * 24 * 3600 * 1000000) 0 = Some (- 1702967295)"
proof -
  let ?us = "sint (t - now)"
  have d: "0 \<le> ?us div 1000" "?us div 1000 < 2 ^ 31 - 1" using assms by simp_all
  have "sint ((word_of_int (?us div 1000) :: 32 word) + 1) = sint (word_of_int (?us div 1000 + 1) :: 32 word)" by simp
  also have "\<dots> = ?us div 1000 + 1"
    using d unfolding sint_sbintrunc' by (intro signed_take_bit_int_eq_self) simp_all
  finally have b: "blocktime_until t now = Some (min (?us div 1000 + 1) HLOOP_MAX_BLOCK_TIME)"
    using assms(1) by (simp add: blocktime_until_def)
  have m: "?us div 1000 * 1000 + ?us mod 1000 = ?us" "0 \<le> ?us mod 1000" "?us mod 1000 < 1000" by simp_all
  have "blocktime_until (30 * 24 * 3600 * 1000000) 0 = Some (- 1702967295)" by code_simp
  then show ?thesis unfolding b using d m by (auto simp: HLOOP_MAX_BLOCK_TIME_def min_def)
qed

theorem blocktime_bounds_witness:
  "\<exists>b. blocktime_until 1500 0 = Some b \<and> 1 \<le> b \<and> b \<le> HLOOP_MAX_BLOCK_TIME \<and> (b - 1) * 1000 \<le> 1500"
  using blocktime_bounds[of 1500 0] by auto

text \<open>A periodic timer that is due, and whose next time by the system clock is not later than the time of the loop.\<close>

definition spins :: "clock \<Rightarrow> 64 word \<Rightarrow> nat \<Rightarrow> hloop \<Rightarrow> bool" where
  "spins ck now a l \<longleftrightarrow> loop_inv l \<and> (\<exists>e minute hour day week month. lp_events l a = Some e \<and>
     ev_type e = PeriodEvent minute hour day week month \<and> \<not> ev_destroy e \<and> ev_repeat e = INFINITE \<and> ev_next_timeout e \<le> now \<and>
     period_next ck minute hour day week month \<le> now)"

lemma spins_step:
  assumes S: "spins ck now a l" and now: "unat now + 2 ^ 42 < 2 ^ 64"
  shows "\<exists>b e' l'. hp_root (lp_timers l) = Some b \<and> lp_events l b = Some e' \<and> \<not> now < ev_next_timeout e' \<and>
    Option.bind (timer_due ck now b l) (event_pending b) = Some l' \<and> spins ck now a l'"
proof -
  obtain e minute hour day week month where e: "lp_events l a = Some e" "ev_type e = PeriodEvent minute hour day week month"
    "\<not> ev_destroy e" "ev_repeat e = INFINITE" "ev_next_timeout e \<le> now" "period_next ck minute hour day week month \<le> now"
    using S by (auto simp: spins_def)
  obtain qs where I: "base_inv l" "pend_inv l qs" using S by (auto simp: spins_def loop_inv_def)
  note D = base_invD[OF I(1)]
  have a: "a \<in> timer_set (lp_events l)" using e by (simp add: timer_set_def is_timer_def)
  then obtain b where b: "hp_root (lp_timers l) = Some b" using timers_root(1)[OF D(2)] by (cases "hp_root (lp_timers l)") auto
  have r: "b \<in> timer_set (lp_events l)" "timer_key (lp_events l) b \<le> timer_key (lp_events l) a" using timers_root(2)[OF D(2) b] a by blast+
  then obtain e' where e': "lp_events l b = Some e'" "is_timer e'" by (auto simp: timer_set_def)
  have due: "\<not> now < ev_next_timeout e'" using r(2) e(1,5) e'(1) by (simp add: timer_key_def not_less)
  obtain t where t: "next_time ck now (e'\<lparr>ev_repeat := countdown (ev_repeat e')\<rparr>) = Some t"
    by (rule next_time_some[OF now D(8)[OF e'(1)] e'(2)]) blast
  obtain l' qs' p where L: "Option.bind (timer_due ck now b l) (event_pending b) = Some l'" "base_inv l'" "pend_inv l' qs'"
    "lp_events l' = (lp_events l)(b \<mapsto> fired_event t p e')" using timer_fire[OF I b e'(1) t] by blast
  have c: "countdown INFINITE = INFINITE" "INFINITE \<noteq> 0" by (simp_all add: countdown_def INFINITE_def)
  have "spins ck now a l'"
  proof (cases "b = a")
    case True
    then have "t = period_next ck minute hour day week month" using t e(1,2) e'(1) by (simp add: next_time_def)
    then show ?thesis using True L(2,3,4) e e'(1) c by (auto simp: spins_def loop_inv_def)
  next
    case False
    then show ?thesis using L(2,3,4) e by (auto simp: spins_def loop_inv_def)
  qed
  then show ?thesis using b e'(1) due L(1) by blast
qed

text \<open>
  What the condition on the clocks is for: \<open>hloop_update_time\<close> lets the clock of the loop be up to two seconds ahead
  of the system clock, from which the next time of a periodic timer is computed.  A pass over the timers in
  which such a timer is due while its next time is not later than the time of the loop fires it again and
  again; the pass of the model, in which the clocks stand still, does not return.
\<close>

theorem timers_ahead_spin:
  assumes "spins ck (hloop_now_hrtime l) a l" "unat (hloop_now_hrtime l) + 2 ^ 42 < 2 ^ 64"
  shows "hloop_process_timers ck l = None"
proof -
  have spin: "unat now + 2 ^ 42 < 2 ^ 64 \<longrightarrow> \<not> spins ck now a l" if "timers_loop ck now n l = Some y" for ck now n l y
  proof (rule timers_loop.raw_induct[where P = "\<lambda>ck now n l y. unat now + 2 ^ 42 < 2 ^ 64 \<longrightarrow> \<not> spins ck now a l", OF _ that])
    fix f ck now n l y
    assume IH: "\<And>ck now n l y. f ck now n l = Some y \<Longrightarrow> unat now + 2 ^ 42 < 2 ^ 64 \<longrightarrow> \<not> spins ck now a l"
      and eq: "(case hp_root (lp_timers l) of None \<Rightarrow> Some (n, l)
        | Some a \<Rightarrow> Option.bind (lp_events l a) (\<lambda>e. if now < ev_next_timeout e then Some (n, l)
            else Option.bind (timer_due ck now a l) (\<lambda>l. Option.bind (event_pending a l) (f ck now (n + 1))))) = Some y"
    show "unat now + 2 ^ 42 < 2 ^ 64 \<longrightarrow> \<not> spins ck now a l"
    proof (intro impI notI)
      assume now: "unat now + 2 ^ 42 < 2 ^ 64" and "spins ck now a l"
      from spins_step[OF this(2,1)] obtain b e' l' where B: "hp_root (lp_timers l) = Some b" "lp_events l b = Some e'"
        "\<not> now < ev_next_timeout e'" "Option.bind (timer_due ck now b l) (event_pending b) = Some l'" "spins ck now a l'" by blast
      have "f ck now (n + 1) l' = Some y" using eq B(1-4) by (simp add: Option.bind_assoc[symmetric])
      from IH[OF this] show False using now B(5) by blast
    qed
  qed
  show ?thesis using spin[of ck "hloop_now_hrtime l" 0 l] assms by (cases "hloop_process_timers ck l") (auto simp: hloop_process_timers_def)
qed

definition demo_ahead :: clock where
  "demo_ahead = \<lparr>ck_hrtime = 2600500000, ck_ms = 3599000, ck_time = 3599, ck_tz = 0\<rparr>"

theorem timers_ahead_spin_witness:
  "\<exists>l. htimer_add_period (demo_clock 0) 7 (Some 1) 0 (- 1) (- 1) (- 1) (- 1) INFINITE (hloop_init (demo_clock 0)) = Some (Some 7, l) \<and>
    hloop_process_timers demo_ahead (hloop_update_time demo_ahead l) = None"
proof -
  let ?add = "htimer_add_period (demo_clock 0) 7 (Some 1) 0 (- 1) (- 1) (- 1) (- 1) INFINITE (hloop_init (demo_clock 0))"
  have I: "loop_inv (hloop_init (demo_clock 0))" "base_inv (hloop_init (demo_clock 0))" using init_inv by (auto simp: loop_inv_def)
  have new: "lp_events (hloop_init (demo_clock 0)) = Map.empty" by (simp add: hloop_init_def)
  obtain r l e where L: "?add = Some (r, l)" "base_inv l" "keeps (hloop_init (demo_clock 0)) l" "r = Some 7" "lp_events l 7 = Some e"
    "ev_type e = PeriodEvent 0 (- 1) (- 1) (- 1) (- 1)" "\<not> ev_destroy e" "ev_repeat e = INFINITE"
    "ev_next_timeout e = period_next (demo_clock 0) 0 (- 1) (- 1) (- 1) (- 1)"
    using htimer_add_period_inv[OF I(2), of 7 "demo_clock 0" "Some 1" 0 "- 1" "- 1" "- 1" "- 1" INFINITE] by (auto simp: new)
  let ?l = "hloop_update_time demo_ahead l"
  have "map_option (\<lambda>(r, l). hloop_now_hrtime (hloop_update_time demo_ahead l)) ?add = Some 3600500000" by code_simp
  then have now: "hloop_now_hrtime ?l = 3600500000" using L(1) by simp
  have P: "period_next (demo_clock 0) 0 (- 1) (- 1) (- 1) (- 1) = 3600000000" by code_simp
  have Q: "period_next demo_ahead 0 (- 1) (- 1) (- 1) (- 1) = 3600000000" by code_simp
  have "loop_inv l" by (rule loop_inv_keeps[OF I(1) L(2,3)])
  then have "loop_inv ?l" using loop_inv_keeps[of l ?l] by (simp add: loop_inv_def keeps_def)
  then have "spins demo_ahead (hloop_now_hrtime ?l) 7 ?l" unfolding now using L(5-9) P Q by (auto simp: spins_def)
  from timers_ahead_spin[OF this] show ?thesis using L(1,4) now by auto
qed

text \<open>
  \<open>htimer_add\<close> makes a live timer whose next time is the time now plus the timeout, if the timeout is at
  most 4294967 ms; a longer one is multiplied in 32 bits, and the timer comes too early.
\<close>

theorem htimer_add_time:
  assumes "loop_inv l" "lp_events l a = None" "timeout \<noteq> 0"
  shows "\<exists>l' e. htimer_add ck a cb timeout repeat l = Some (Some a, l') \<and> loop_inv l' \<and> lp_events l' a = Some e \<and>
    ev_repeat e = repeat \<and> a \<in> timer_set (lp_events l') \<and>
    (ev_next_timeout e = hloop_now_hrtime (hloop_update_time ck l) + ucast timeout * 1000 \<longleftrightarrow> unat timeout \<le> 4294967)"
proof -
  have I: "base_inv l" using assms(1) by (simp add: loop_inv_def)
  let ?now = "hloop_now_hrtime (hloop_update_time ck l)"
  obtain r l' where L: "htimer_add ck a cb timeout repeat l = Some (r, l')" "base_inv l'" "keeps l l'" "r = Some a"
    "lp_events l' = (lp_events l)(a \<mapsto>
       \<lparr>ev_type = TimeoutEvent timeout, ev_cb = cb, ev_priority = HEVENT_HIGHEST_PRIORITY, ev_pending_next = None, ev_destroy = False,
        ev_active = True, ev_pending = False, ev_repeat = repeat, ev_next_timeout = timeout_from ?now timeout\<rparr>)"
    using htimer_add_inv[OF I assms(2), of ck cb timeout repeat] assms(3) by auto
  have u: "unat (ucast (timeout * 1000) :: 64 word) = unat timeout * 1000 mod 2 ^ 32"
    by (simp add: unsigned_ucast_eq unat_word_ariths take_bit_nat_eq_self)
  have "timeout_from ?now timeout = ?now + ucast timeout * 1000 \<longleftrightarrow> (ucast (timeout * 1000) :: 64 word) = ucast timeout * 1000"
    by (simp add: timeout_from_def)
  also have "\<dots> \<longleftrightarrow> unat timeout * 1000 mod 2 ^ 32 = unat timeout * 1000"
    using timeout_step(1)[OF assms(3)] u by (simp add: word_unat_eq_iff)
  also have "\<dots> \<longleftrightarrow> unat timeout \<le> 4294967"
    using mod_less_divisor[of "2 ^ 32" "unat timeout * 1000"] by (auto simp: mod_less)
  finally show ?thesis using L loop_inv_keeps[OF assms(1) L(2,3)] by (auto simp: is_timer_def)
qed

theorem htimer_add_time_witness:
  "\<exists>l' e. htimer_add (demo_clock 0) 7 (Some 1) 4294968 1 (hloop_init (demo_clock 0)) = Some (Some 7, l') \<and> lp_events l' 7 = Some e \<and>
    ev_next_timeout e \<noteq> hloop_now_hrtime (hloop_update_time (demo_clock 0) (hloop_init (demo_clock 0))) + ucast (4294968 :: 32 word) * 1000"
  using htimer_add_time[OF init_inv, of "demo_clock 0" 7 4294968 "demo_clock 0" "Some 1" 1] by (auto simp: hloop_init_def)

section \<open>Freeing the loop\<close>

lemma cleanup_timers_ok:
  assumes "heap_models (timers_compare E) (lp_timers l, lp_nodes l) S" "S \<subseteq> dom (lp_events l)" "\<And>b. b \<in> S \<Longrightarrow> timer_key (lp_events l) b = timer_key E b"
  shows "\<exists>l'. cleanup_timers l = Some l' \<and> lp_events l' = (lp_events l) |` (- S) \<and> lp_idles l' = lp_idles l"
  using assms
proof (induction "card S" arbitrary: l S E rule: less_induct)
  case less
  have M: "heap_models (timers_compare (lp_events l)) (lp_timers l, lp_nodes l) S" by (rule timers_recompare[OF less.prems(1,3)])
  show ?case
  proof (cases "hp_root (lp_timers l)")
    case None
    then have "S = {}" using timers_root(1)[OF M] by simp
    moreover have "lp_events l |` UNIV = lp_events l" by (simp add: restrict_map_def)
    ultimately show ?thesis using None by (simp add: cleanup_timers.simps[of l])
  next
    case (Some a)
    have a: "a \<in> S" using timers_root(2)[OF M Some] by simp
    obtain h m where H: "timers_dequeue l = Some (l\<lparr>lp_timers := h, lp_nodes := m\<rparr>)"
      "heap_models (timers_compare (lp_events l)) (h, m) (S - {a})"
      using timers_remove_spec[OF M a] unfolding timers_dequeue_eq[OF M Some] by blast
    let ?l = "free_event a (l\<lparr>lp_timers := h, lp_nodes := m\<rparr>)"
    have fin: "finite S" using hq.count_card[OF M] by simp
    have "\<exists>l'. cleanup_timers ?l = Some l' \<and> lp_events l' = (lp_events ?l) |` (- (S - {a})) \<and> lp_idles l' = lp_idles ?l"
    proof (rule less.hyps)
      show "card (S - {a}) < card S" by (rule card_Diff1_less[OF fin a])
      show "heap_models (timers_compare (lp_events l)) (lp_timers ?l, lp_nodes ?l) (S - {a})" using H(2) by simp
    qed (use less.prems(2,3) in auto)
    then obtain l' where "cleanup_timers ?l = Some l'" "lp_events l' = (lp_events ?l) |` (- (S - {a}))" "lp_idles l' = lp_idles l" by auto
    moreover have "(lp_events ?l) |` (- (S - {a})) = (lp_events l) |` (- S)" using a by (auto simp: restrict_map_def)
    moreover have "lp_events l a \<noteq> None" using a less.prems(2) by auto
    ultimately show ?thesis using Some H(1) by (simp add: cleanup_timers.simps[of l])
  qed
qed

text \<open>
  Cleaning up a loop returns and frees every idle event and every timer once; the events left behind are those
  marked for deletion whose turn among the pending events has not come.
\<close>

theorem cleanup_frees:
  assumes "loop_inv l"
  shows "\<exists>l'. hloop_cleanup l = Some l' \<and> hp_root (lp_timers l') = None \<and> lp_idles l' = [] \<and>
    dom (lp_events l') = {a. \<exists>e. lp_events l a = Some e \<and> ev_destroy e} \<and> dom (lp_events l') \<subseteq> pending_set (lp_events l)"
proof -
  have I: "base_inv l" using assms by (simp add: loop_inv_def)
  note D = base_invD[OF I]
  let ?l = "l\<lparr>lp_pendings := replicate HEVENT_PRIORITY_SIZE None, lp_events := (lp_events l) |` (- set (lp_idles l)), lp_idles := []\<rparr>"
  have T: "a \<notin> idle_set (lp_events l)" if "a \<in> timer_set (lp_events l)" for a using that by (auto simp: event_sets)
  have "\<exists>l'. cleanup_timers ?l = Some l' \<and> lp_events l' = (lp_events ?l) |` (- timer_set (lp_events l)) \<and> lp_idles l' = lp_idles ?l"
  proof (rule cleanup_timers_ok)
    show "heap_models (timers_compare (lp_events l)) (lp_timers ?l, lp_nodes ?l) (timer_set (lp_events l))" using D(2) by simp
    show "timer_set (lp_events l) \<subseteq> dom (lp_events ?l)" using D(5) T by (auto simp: timer_set_def)
    show "timer_key (lp_events ?l) b = timer_key (lp_events l) b" if "b \<in> timer_set (lp_events l)" for b
      using that D(5) T by (simp add: timer_key_def)
  qed
  then obtain l' where L: "cleanup_timers ?l = Some l'" "lp_events l' = (lp_events ?l) |` (- timer_set (lp_events l))" "lp_idles l' = []" by auto
  have dom: "dom (lp_events l') = {a. \<exists>e. lp_events l a = Some e \<and> ev_destroy e}"
    using D(5) by (auto simp: L(2) restrict_map_def event_sets split: if_splits)
  have "dom (lp_events l') \<subseteq> pending_set (lp_events l)" unfolding dom using D(8) by (fastforce simp: pending_set_def event_ok_def)
  then show ?thesis using L dom by (simp add: hloop_cleanup_def heap_init_def)
qed

theorem cleanup_frees_witness:
  "\<exists>l l'. htimer_add (demo_clock 0) 7 (Some 1) 10 1 (hloop_init (demo_clock 0)) = Some (Some 7, l) \<and>
    hloop_cleanup (demo_later l) = Some l' \<and> dom (lp_events l') = {}"
proof -
  obtain l where L: "htimer_add (demo_clock 0) 7 (Some 1) 10 1 (hloop_init (demo_clock 0)) = Some (Some 7, l)"
    "loop_inv (demo_later l)" "lp_events (demo_later l) = [7 \<mapsto> demo_event]" "hloop_now_hrtime (demo_later l) = 1000020000" by (rule demo_loop)
  have "{a. \<exists>e. lp_events (demo_later l) a = Some e \<and> ev_destroy e} = {}" by (auto simp: L(3) demo_event_def split: if_splits)
  then show ?thesis using cleanup_frees[OF L(2)] L(1) by metis
qed

end
