(* ===== verification/Containers.thy ===== *)
theory Containers
  imports Prelude
begin

text \<open>
  The growing queue of \<open>base/queue.h\<close>, the growing array of \<open>base/array.h\<close>, and the custom events of
  \<open>event/hloop.c\<close>, which other threads post to a loop through such a queue.  The storage is a list
  of cells, \<open>None\<close> for zeroed memory; an access outside it, like a failed \<open>assert\<close>, is the result \<open>None\<close>.
  Sizes are unbounded.
\<close>

section \<open>Storage\<close>

definition zalloc :: "nat \<Rightarrow> 'a option list" where
  "zalloc n = replicate n None"

definition realloc_cells :: "'a option list \<Rightarrow> nat \<Rightarrow> 'a option list" where
  "realloc_cells p n = take n p @ replicate (n - length p) None"

definition store_cell :: "'a option list \<Rightarrow> nat \<Rightarrow> 'a option \<Rightarrow> 'a option list option" where
  "store_cell p i x = (if i < length p then Some (p[i := x]) else None)"

text \<open>\<open>memmove(ptr + to, ptr + from, n)\<close>.\<close>

definition move_cells :: "'a option list \<Rightarrow> nat \<Rightarrow> nat \<Rightarrow> nat \<Rightarrow> 'a option list option" where
  "move_cells p to from n =
     (if to + n \<le> length p \<and> from + n \<le> length p then Some (take to p @ take n (drop from p) @ drop (to + n) p) else None)"

lemma length_zalloc [simp]: "length (zalloc n) = n"
  by (simp add: zalloc_def)

lemma length_realloc_cells [simp]: "length (realloc_cells p n) = n"
  by (simp add: realloc_cells_def)

section \<open>The queue\<close>

definition QUEUE_INIT_SIZE :: nat where "QUEUE_INIT_SIZE = 16"

record 'a queue =
  q_ptr :: "'a option list"
  q_size :: nat
  q_maxsize :: nat
  q_offset :: nat

definition queue_empty :: "'a queue \<Rightarrow> bool" where
  "queue_empty p \<longleftrightarrow> q_size p = 0"

text \<open>The element pointed to; \<open>None\<close> for \<open>NULL\<close>.\<close>

definition queue_front :: "'a queue \<Rightarrow> 'a option" where
  "queue_front p = (if q_size p = 0 then None else q_ptr p ! q_offset p)"

definition queue_back :: "'a queue \<Rightarrow> 'a option" where
  "queue_back p = (if q_size p = 0 then None else q_ptr p ! (q_offset p + q_size p - 1))"

definition queue_init :: "nat \<Rightarrow> 'a queue" where
  "queue_init maxsize = \<lparr>q_ptr = zalloc maxsize, q_size = 0, q_maxsize = maxsize, q_offset = 0\<rparr>"

definition queue_clear :: "'a queue \<Rightarrow> 'a queue" where
  "queue_clear p = p\<lparr>q_offset := 0, q_size := 0, q_ptr := replicate (q_maxsize p) None\<rparr>"

definition queue_cleanup :: "'a queue \<Rightarrow> 'a queue" where
  "queue_cleanup p = p\<lparr>q_ptr := [], q_offset := 0, q_size := 0, q_maxsize := 0\<rparr>"

definition queue_resize :: "'a queue \<Rightarrow> nat \<Rightarrow> 'a queue" where
  "queue_resize p maxsize =
     (let maxsize = (if maxsize = 0 then QUEUE_INIT_SIZE else maxsize)
      in p\<lparr>q_ptr := realloc_cells (q_ptr p) maxsize, q_maxsize := maxsize\<rparr>)"

definition queue_double_resize :: "'a queue \<Rightarrow> 'a queue" where
  "queue_double_resize p = queue_resize p (q_maxsize p * 2)"

definition queue_push_back :: "'a \<Rightarrow> 'a queue \<Rightarrow> 'a queue option" where
  "queue_push_back elem p =
     Option.bind
       (if q_size p = q_maxsize p then Some (queue_double_resize p)
        else if q_offset p + q_size p = q_maxsize p then
          map_option (\<lambda>ptr. p\<lparr>q_ptr := ptr, q_offset := 0\<rparr>) (move_cells (q_ptr p) 0 (q_offset p) (q_size p))
        else Some p) (\<lambda>p.
     map_option (\<lambda>ptr. p\<lparr>q_ptr := ptr, q_size := q_size p + 1\<rparr>) (store_cell (q_ptr p) (q_offset p + q_size p) (Some elem)))"

definition queue_pop_front :: "'a queue \<Rightarrow> 'a queue option" where
  "queue_pop_front p =
     (if q_size p > 0 then
        (let p = p\<lparr>q_size := q_size p - 1, q_offset := q_offset p + 1\<rparr>
         in Some (if q_offset p = q_maxsize p then p\<lparr>q_offset := 0\<rparr> else p))
      else None)"

definition queue_pop_back :: "'a queue \<Rightarrow> 'a queue option" where
  "queue_pop_back p = (if q_size p > 0 then Some (p\<lparr>q_size := q_size p - 1\<rparr>) else None)"

section \<open>The array\<close>

definition ARRAY_INIT_SIZE :: nat where "ARRAY_INIT_SIZE = 16"

record 'a array =
  a_ptr :: "'a option list"
  a_size :: nat
  a_maxsize :: nat

text \<open>A negative position counts from the end.\<close>

definition array_pos :: "'a array \<Rightarrow> int \<Rightarrow> int" where
  "array_pos p pos = (if pos < 0 then pos + int (a_size p) else pos)"

definition array_at :: "'a array \<Rightarrow> int \<Rightarrow> 'a option" where
  "array_at p pos =
     (let pos = array_pos p pos in if 0 \<le> pos \<and> pos < int (a_size p) then a_ptr p ! nat pos else None)"

definition array_front :: "'a array \<Rightarrow> 'a option" where
  "array_front p = (if a_size p = 0 then None else a_ptr p ! 0)"

definition array_back :: "'a array \<Rightarrow> 'a option" where
  "array_back p = (if a_size p = 0 then None else a_ptr p ! (a_size p - 1))"

definition array_init :: "nat \<Rightarrow> 'a array" where
  "array_init maxsize = \<lparr>a_ptr = zalloc maxsize, a_size = 0, a_maxsize = maxsize\<rparr>"

definition array_clear :: "'a array \<Rightarrow> 'a array" where
  "array_clear p = p\<lparr>a_size := 0, a_ptr := replicate (a_maxsize p) None\<rparr>"

definition array_cleanup :: "'a array \<Rightarrow> 'a array" where
  "array_cleanup p = p\<lparr>a_ptr := [], a_size := 0, a_maxsize := 0\<rparr>"

definition array_resize :: "'a array \<Rightarrow> nat \<Rightarrow> 'a array" where
  "array_resize p maxsize =
     (let maxsize = (if maxsize = 0 then ARRAY_INIT_SIZE else maxsize)
      in p\<lparr>a_ptr := realloc_cells (a_ptr p) maxsize, a_maxsize := maxsize\<rparr>)"

definition array_double_resize :: "'a array \<Rightarrow> 'a array" where
  "array_double_resize p = array_resize p (a_maxsize p * 2)"

definition array_grow :: "'a array \<Rightarrow> 'a array" where
  "array_grow p = (if a_size p = a_maxsize p then array_double_resize p else p)"

definition array_push_back :: "'a \<Rightarrow> 'a array \<Rightarrow> 'a array option" where
  "array_push_back elem p =
     (let p = array_grow p
      in map_option (\<lambda>ptr. p\<lparr>a_ptr := ptr, a_size := a_size p + 1\<rparr>) (store_cell (a_ptr p) (a_size p) (Some elem)))"

definition array_pop_back :: "'a array \<Rightarrow> 'a array option" where
  "array_pop_back p = (if a_size p > 0 then Some (p\<lparr>a_size := a_size p - 1\<rparr>) else None)"

definition array_add :: "'a \<Rightarrow> int \<Rightarrow> 'a array \<Rightarrow> 'a array option" where
  "array_add elem pos p =
     (let pos = array_pos p pos
      in if 0 \<le> pos \<and> pos \<le> int (a_size p) then
           (let p = array_grow p; pos = nat pos
            in Option.bind (if pos < a_size p then move_cells (a_ptr p) (pos + 1) pos (a_size p - pos) else Some (a_ptr p)) (\<lambda>ptr.
               map_option (\<lambda>ptr. p\<lparr>a_ptr := ptr, a_size := a_size p + 1\<rparr>) (store_cell ptr pos (Some elem))))
         else None)"

definition array_del :: "int \<Rightarrow> 'a array \<Rightarrow> 'a array option" where
  "array_del pos p =
     (let pos = array_pos p pos
      in if 0 \<le> pos \<and> pos < int (a_size p) then
           (let p = p\<lparr>a_size := a_size p - 1\<rparr>; pos = nat pos
            in map_option (\<lambda>ptr. p\<lparr>a_ptr := ptr\<rparr>)
                 (if pos < a_size p then move_cells (a_ptr p) pos (pos + 1) (a_size p - pos) else Some (a_ptr p)))
         else None)"

definition array_del_nomove :: "int \<Rightarrow> 'a array \<Rightarrow> 'a array option" where
  "array_del_nomove pos p =
     (let pos = array_pos p pos
      in if 0 \<le> pos \<and> pos < int (a_size p) then
           (let p = p\<lparr>a_size := a_size p - 1\<rparr>; pos = nat pos
            in map_option (\<lambda>ptr. p\<lparr>a_ptr := ptr\<rparr>)
                 (if pos < a_size p then store_cell (a_ptr p) pos (a_ptr p ! a_size p) else Some (a_ptr p)))
         else None)"

text \<open>No check here: the positions may lie anywhere in the storage.\<close>

definition array_swap :: "int \<Rightarrow> int \<Rightarrow> 'a array \<Rightarrow> 'a array option" where
  "array_swap pos1 pos2 p =
     (let pos1 = array_pos p pos1; pos2 = array_pos p pos2; n = int (length (a_ptr p))
      in if 0 \<le> pos1 \<and> pos1 < n \<and> 0 \<le> pos2 \<and> pos2 < n then
           Some (p\<lparr>a_ptr := (a_ptr p)[nat pos1 := a_ptr p ! nat pos2, nat pos2 := a_ptr p ! nat pos1]\<rparr>)
         else None)"

section \<open>The queue is a sequence\<close>

text \<open>The cells in use are those of the sequence.\<close>

definition queue_models :: "'a queue \<Rightarrow> 'a list \<Rightarrow> bool" where
  "queue_models p xs \<longleftrightarrow> length (q_ptr p) = q_maxsize p \<and> q_offset p + q_size p \<le> q_maxsize p \<and> q_size p = length xs \<and>
     (\<forall>i < length xs. q_ptr p ! (q_offset p + i) = Some (xs ! i))"

lemma queue_models_init: "queue_models (queue_init n) []"
  by (simp add: queue_models_def queue_init_def)

lemma queue_models_clear: "queue_models p xs \<Longrightarrow> queue_models (queue_clear p) []"
  by (simp add: queue_models_def queue_clear_def)

lemma queue_models_resize: "queue_models p xs \<Longrightarrow> q_maxsize p \<le> n \<Longrightarrow> 0 < n \<Longrightarrow> queue_models (queue_resize p n) xs"
  by (auto simp: queue_models_def queue_resize_def realloc_cells_def nth_append)

lemma queue_models_push:
  assumes "queue_models p xs"
  shows "\<exists>p'. queue_push_back x p = Some p' \<and> queue_models p' (xs @ [x])"
proof -
  note M = assms[unfolded queue_models_def]
  consider (full) "q_size p = q_maxsize p" | (slide) "q_size p \<noteq> q_maxsize p" "q_offset p + q_size p = q_maxsize p"
    | (room) "q_size p \<noteq> q_maxsize p" "q_offset p + q_size p \<noteq> q_maxsize p" by blast
  then show ?thesis
  proof cases
    case full
    let ?p = "queue_double_resize p"
    have "queue_models ?p xs"
      using M full by (auto simp: queue_models_def queue_double_resize_def queue_resize_def Let_def realloc_cells_def nth_append QUEUE_INIT_SIZE_def)
    moreover have "q_size ?p < q_maxsize ?p" "q_offset ?p = 0"
      using M full by (auto simp: queue_double_resize_def queue_resize_def Let_def QUEUE_INIT_SIZE_def)
    ultimately show ?thesis
      using full by (auto simp: queue_push_back_def store_cell_def queue_models_def nth_list_update nth_append)
  next
    case slide
    then show ?thesis using M
      by (auto simp: queue_push_back_def store_cell_def move_cells_def queue_models_def nth_list_update nth_append)
  next
    case room
    then show ?thesis using M
      by (auto simp: queue_push_back_def store_cell_def queue_models_def nth_list_update nth_append)
  qed
qed

lemma queue_models_pop_front:
  assumes "queue_models p (x # xs)"
  shows "\<exists>p'. queue_pop_front p = Some p' \<and> queue_models p' xs"
proof -
  note M = assms[unfolded queue_models_def]
  have "q_ptr p ! (q_offset p + Suc i) = Some (xs ! i)" if "i < length xs" for i
    using M that by (metis length_Cons not_less_eq nth_Cons_Suc)
  moreover have "xs = []" if "q_offset p + 1 = q_maxsize p" using M that by (cases xs) auto
  ultimately show ?thesis using M by (auto simp: queue_pop_front_def queue_models_def Let_def)
qed

lemma queue_models_pop_back: "queue_models p (xs @ [x]) \<Longrightarrow> \<exists>p'. queue_pop_back p = Some p' \<and> queue_models p' xs"
  by (auto simp: queue_pop_back_def queue_models_def nth_append)

lemma queue_models_ends:
  "queue_models p [] \<Longrightarrow> queue_empty p \<and> queue_front p = None \<and> queue_back p = None \<and> queue_pop_front p = None \<and> queue_pop_back p = None"
  "queue_models p (x # xs) \<Longrightarrow> \<not> queue_empty p \<and> queue_front p = Some x"
  "queue_models p (xs @ [x]) \<Longrightarrow> queue_back p = Some x"
  by (auto simp: queue_models_def queue_empty_def queue_front_def queue_back_def queue_pop_front_def queue_pop_back_def nth_append
      dest: spec[of _ 0] spec[of _ "length xs"])

section \<open>The array is a sequence\<close>

definition array_models :: "'a array \<Rightarrow> 'a list \<Rightarrow> bool" where
  "array_models p xs \<longleftrightarrow> length (a_ptr p) = a_maxsize p \<and> a_size p \<le> a_maxsize p \<and> a_size p = length xs \<and>
     (\<forall>i < length xs. a_ptr p ! i = Some (xs ! i))"

lemma array_models_init: "array_models (array_init n) []"
  by (simp add: array_models_def array_init_def)

lemma array_models_clear: "array_models p xs \<Longrightarrow> array_models (array_clear p) []"
  by (simp add: array_models_def array_clear_def)

lemma array_models_resize:
  "array_models p xs \<Longrightarrow> length xs \<le> (if n = 0 then ARRAY_INIT_SIZE else n) \<Longrightarrow> array_models (array_resize p n) xs"
  by (auto simp: array_models_def array_resize_def Let_def realloc_cells_def nth_append)

lemma array_models_grow:
  assumes "array_models p xs"
  shows "array_models (array_grow p) xs" "a_size (array_grow p) < a_maxsize (array_grow p)" "a_size (array_grow p) = a_size p"
  using assms array_models_resize[OF assms, of "a_maxsize p * 2"]
  by (auto simp: array_models_def array_grow_def array_double_resize_def array_resize_def Let_def ARRAY_INIT_SIZE_def)

lemma array_models_push:
  assumes "array_models p xs"
  shows "\<exists>p'. array_push_back x p = Some p' \<and> array_models p' (xs @ [x])"
  using array_models_grow[OF assms]
  by (auto simp: array_push_back_def store_cell_def array_models_def Let_def nth_list_update nth_append)

lemma array_models_pop: "array_models p (xs @ [x]) \<Longrightarrow> \<exists>p'. array_pop_back p = Some p' \<and> array_models p' xs"
  by (auto simp: array_pop_back_def array_models_def nth_append)

lemma array_pos_nat: "array_models p xs \<Longrightarrow> array_pos p pos = (if pos < 0 then pos + int (length xs) else pos)"
  by (simp add: array_pos_def array_models_def)

lemma array_models_add:
  assumes "array_models p xs" "array_pos p pos = int i" "i \<le> length xs"
  shows "\<exists>p'. array_add x pos p = Some p' \<and> array_models p' (take i xs @ x # drop i xs)"
proof -
  note M = assms(1)[unfolded array_models_def] and G = array_models_grow[OF assms(1)]
  show ?thesis
    using M G assms(2,3)
    by (cases "i < length xs")
      (auto simp: array_add_def Let_def move_cells_def store_cell_def array_models_def nth_list_update nth_append nth_Cons' min_def)
qed

lemma array_models_del:
  assumes "array_models p xs" "array_pos p pos = int i" "i < length xs"
  shows "\<exists>p'. array_del pos p = Some p' \<and> array_models p' (take i xs @ drop (i + 1) xs)"
  using assms unfolding array_models_def
  by (cases "i + 1 < length xs") (auto simp: array_del_def Let_def move_cells_def nth_append min_def)

lemma array_models_del_nomove:
  assumes "array_models p xs" "array_pos p pos = int i" "i < length xs"
  shows "\<exists>p'. array_del_nomove pos p = Some p' \<and> array_models p' (butlast (xs[i := last xs]))"
proof -
  have "last xs = xs ! (length xs - 1)" using assms(3) by (intro last_conv_nth) auto
  then show ?thesis using assms unfolding array_models_def
    by (cases "i + 1 < length xs") (auto simp: array_del_nomove_def Let_def store_cell_def nth_butlast nth_list_update)
qed

lemma array_models_swap:
  assumes "array_models p xs" "array_pos p pos1 = int i" "array_pos p pos2 = int j" "i < length xs" "j < length xs"
  shows "\<exists>p'. array_swap pos1 pos2 p = Some p' \<and> array_models p' (xs[i := xs ! j, j := xs ! i])"
  using assms unfolding array_models_def by (auto simp: array_swap_def Let_def nth_list_update)

section \<open>Sequences of operations\<close>

fun run_steps :: "('op \<Rightarrow> 's \<Rightarrow> 's option) \<Rightarrow> 'op list \<Rightarrow> 's \<Rightarrow> 's option" where
  "run_steps step [] s = Some s"
| "run_steps step (op # ops) s = Option.bind (step op s) (run_steps step ops)"

fun all_allowed :: "('op \<Rightarrow> 'x \<Rightarrow> 'x option) \<Rightarrow> ('op \<Rightarrow> 'x \<Rightarrow> bool) \<Rightarrow> 'op list \<Rightarrow> 'x \<Rightarrow> bool" where
  "all_allowed spec allowed [] x \<longleftrightarrow> True"
| "all_allowed spec allowed (op # ops) x \<longleftrightarrow> allowed op x \<and> (case spec op x of Some y \<Rightarrow> all_allowed spec allowed ops y | None \<Rightarrow> True)"

text \<open>
  An implementation refines a specification, operation by operation, where the operation is allowed; then so does
  every run of allowed operations, including where it fails.
\<close>

locale refined_ops =
  fixes step :: "'op \<Rightarrow> 's \<Rightarrow> 's option" and spec :: "'op \<Rightarrow> 'x \<Rightarrow> 'x option"
    and allowed :: "'op \<Rightarrow> 'x \<Rightarrow> bool" and models :: "'s \<Rightarrow> 'x \<Rightarrow> bool"
  assumes refines: "models s x \<Longrightarrow> allowed op x \<Longrightarrow> rel_option models (step op s) (spec op x)"
begin

lemma run_refines:
  "models s x \<Longrightarrow> all_allowed spec allowed ops x \<Longrightarrow> rel_option models (run_steps step ops s) (run_steps spec ops x)"
proof (induction ops arbitrary: s x)
  case (Cons op ops)
  then have "rel_option models (step op s) (spec op x)" using refines by simp
  then show ?case using Cons by (cases rule: option.rel_cases) auto
qed simp

end

datatype 'a queue_op = QPushBack 'a | QPopFront | QPopBack | QClear | QResize nat

fun queue_step :: "'a queue_op \<Rightarrow> 'a queue \<Rightarrow> 'a queue option" where
  "queue_step (QPushBack x) p = queue_push_back x p"
| "queue_step QPopFront p = queue_pop_front p"
| "queue_step QPopBack p = queue_pop_back p"
| "queue_step QClear p = Some (queue_clear p)"
| "queue_step (QResize n) p = Some (queue_resize p n)"

fun queue_spec :: "'a queue_op \<Rightarrow> 'a list \<times> nat \<Rightarrow> ('a list \<times> nat) option" where
  "queue_spec (QPushBack x) (xs, m) = Some (xs @ [x], if length xs = m then (if m = 0 then QUEUE_INIT_SIZE else 2 * m) else m)"
| "queue_spec QPopFront (xs, m) = (if xs = [] then None else Some (tl xs, m))"
| "queue_spec QPopBack (xs, m) = (if xs = [] then None else Some (butlast xs, m))"
| "queue_spec QClear (xs, m) = Some ([], m)"
| "queue_spec (QResize n) (xs, m) = Some (xs, if n = 0 then QUEUE_INIT_SIZE else n)"

text \<open>A queue is not made smaller: what lies beyond the new size would be lost, wherever the sequence begins.\<close>

fun queue_allowed :: "'a queue_op \<Rightarrow> 'a list \<times> nat \<Rightarrow> bool" where
  "queue_allowed (QResize n) (xs, m) \<longleftrightarrow> m \<le> (if n = 0 then QUEUE_INIT_SIZE else n)"
| "queue_allowed op x \<longleftrightarrow> True"

definition queue_rel :: "'a queue \<Rightarrow> 'a list \<times> nat \<Rightarrow> bool" where
  "queue_rel p x \<longleftrightarrow> queue_models p (fst x) \<and> q_maxsize p = snd x"

lemma queue_push_maxsize:
  "queue_push_back x p = Some p' \<Longrightarrow> q_maxsize p' =
    (if q_size p = q_maxsize p then (if q_maxsize p = 0 then QUEUE_INIT_SIZE else 2 * q_maxsize p) else q_maxsize p)"
  by (auto simp: queue_push_back_def queue_double_resize_def queue_resize_def Let_def bind_eq_Some_conv move_cells_def split: if_splits)

lemma queue_pop_maxsize:
  "queue_pop_front p = Some p' \<Longrightarrow> q_maxsize p' = q_maxsize p" "queue_pop_back p = Some p' \<Longrightarrow> q_maxsize p' = q_maxsize p"
  by (auto simp: queue_pop_front_def queue_pop_back_def Let_def split: if_splits)

interpretation queues: refined_ops queue_step queue_spec queue_allowed queue_rel
proof unfold_locales
  fix p :: "'a queue" and x op
  assume R: "queue_rel p x" and ok: "queue_allowed op x"
  obtain xs m where X: "x = (xs, m)" by (cases x)
  have M: "queue_models p xs" "q_maxsize p = m" "q_size p = length xs" using R by (auto simp: queue_rel_def X queue_models_def)
  show "rel_option queue_rel (queue_step op p) (queue_spec op x)"
  proof (cases op)
    case (QPushBack a)
    then show ?thesis using queue_models_push[OF M(1), of a] queue_push_maxsize[of a p] M(2,3) by (auto simp: X queue_rel_def)
  next
    case QPopFront
    then show ?thesis using M(1,2) queue_models_pop_front[of p "hd xs" "tl xs"] queue_models_ends(1)[of p] queue_pop_maxsize(1)[of p]
      by (cases "xs = []") (auto simp: X queue_rel_def)
  next
    case QPopBack
    then show ?thesis using M(1,2) queue_models_pop_back[of p "butlast xs" "last xs"] queue_models_ends(1)[of p] queue_pop_maxsize(2)[of p]
      by (cases "xs = []") (auto simp: X queue_rel_def)
  next
    case QClear
    then show ?thesis using M(1,2) by (simp add: X queue_rel_def queue_models_clear) (simp add: queue_clear_def)
  next
    case (QResize n)
    then show ?thesis using M(1,2) ok queue_models_resize[of p xs "if n = 0 then QUEUE_INIT_SIZE else n"]
      by (auto simp: X queue_rel_def queue_resize_def Let_def QUEUE_INIT_SIZE_def)
  qed
qed

datatype 'a array_op = APushBack 'a | APopBack | AAdd 'a int | ADel int | ADelNomove int | ASwap int int | AClear | AResize nat

fun array_step :: "'a array_op \<Rightarrow> 'a array \<Rightarrow> 'a array option" where
  "array_step (APushBack x) p = array_push_back x p"
| "array_step APopBack p = array_pop_back p"
| "array_step (AAdd x pos) p = array_add x pos p"
| "array_step (ADel pos) p = array_del pos p"
| "array_step (ADelNomove pos) p = array_del_nomove pos p"
| "array_step (ASwap pos1 pos2) p = array_swap pos1 pos2 p"
| "array_step AClear p = Some (array_clear p)"
| "array_step (AResize n) p = Some (array_resize p n)"

definition pos_in :: "int \<Rightarrow> 'a list \<Rightarrow> int" where
  "pos_in pos xs = (if pos < 0 then pos + int (length xs) else pos)"

definition inside :: "int \<Rightarrow> 'a list \<Rightarrow> bool" where
  "inside pos xs \<longleftrightarrow> 0 \<le> pos_in pos xs \<and> pos_in pos xs < int (length xs)"

fun array_spec :: "'a array_op \<Rightarrow> 'a list \<Rightarrow> 'a list option" where
  "array_spec (APushBack x) xs = Some (xs @ [x])"
| "array_spec APopBack xs = (if xs = [] then None else Some (butlast xs))"
| "array_spec (AAdd x pos) xs =
     (if 0 \<le> pos_in pos xs \<and> pos_in pos xs \<le> int (length xs)
      then Some (take (nat (pos_in pos xs)) xs @ x # drop (nat (pos_in pos xs)) xs) else None)"
| "array_spec (ADel pos) xs =
     (if inside pos xs then Some (take (nat (pos_in pos xs)) xs @ drop (nat (pos_in pos xs) + 1) xs) else None)"
| "array_spec (ADelNomove pos) xs =
     (if inside pos xs then Some (butlast (xs[nat (pos_in pos xs) := last xs])) else None)"
| "array_spec (ASwap pos1 pos2) xs =
     Some (xs[nat (pos_in pos1 xs) := xs ! nat (pos_in pos2 xs), nat (pos_in pos2 xs) := xs ! nat (pos_in pos1 xs)])"
| "array_spec AClear xs = Some []"
| "array_spec (AResize n) xs = Some xs"

fun array_allowed :: "'a array_op \<Rightarrow> 'a list \<Rightarrow> bool" where
  "array_allowed (ASwap pos1 pos2) xs \<longleftrightarrow> inside pos1 xs \<and> inside pos2 xs"
| "array_allowed (AResize n) xs \<longleftrightarrow> length xs \<le> (if n = 0 then ARRAY_INIT_SIZE else n)"
| "array_allowed op xs \<longleftrightarrow> True"

interpretation arrays: refined_ops array_step array_spec array_allowed array_models
proof unfold_locales
  fix p :: "'a array" and xs op
  assume M: "array_models p xs" and ok: "array_allowed op xs"
  have P: "array_pos p pos = pos_in pos xs" for pos using array_pos_nat[OF M] by (simp add: pos_in_def)
  have n: "a_size p = length xs" using M by (simp add: array_models_def)
  show "rel_option array_models (array_step op p) (array_spec op xs)"
  proof (cases op)
    case (APushBack a)
    then show ?thesis using array_models_push[OF M, of a] by auto
  next
    case APopBack
    then show ?thesis using M array_models_pop[of p "butlast xs" "last xs"] by (cases "xs = []") (auto simp: array_pop_back_def n)
  next
    case (AAdd a pos)
    then show ?thesis using array_models_add[OF M, of pos "nat (pos_in pos xs)" a] by (auto simp: P array_add_def n nat_le_iff)
  next
    case (ADel pos)
    then show ?thesis using array_models_del[OF M, of pos "nat (pos_in pos xs)"] by (auto simp: P array_del_def inside_def n nat_less_iff)
  next
    case (ADelNomove pos)
    then show ?thesis using array_models_del_nomove[OF M, of pos "nat (pos_in pos xs)"] by (auto simp: P array_del_nomove_def inside_def n nat_less_iff)
  next
    case (ASwap pos1 pos2)
    then show ?thesis using ok array_models_swap[OF M, of pos1 "nat (pos_in pos1 xs)" pos2 "nat (pos_in pos2 xs)"] by (auto simp: P inside_def nat_less_iff)
  next
    case AClear
    then show ?thesis using array_models_clear[OF M] by simp
  next
    case (AResize k)
    then show ?thesis using ok array_models_resize[OF M, of k] by simp
  qed
qed

text \<open>
  Any run of operations on a growing array, from \<open>init\<close> on, does to the list of its elements what the same
  operations do to a list: insertion and deletion at a place, counted from either end, exchange, deletion without
  moving; it fails exactly where an assertion does, and never leaves its storage.
\<close>

theorem array_refines_list:
  assumes "all_allowed array_spec array_allowed ops []"
  shows "rel_option array_models (run_steps array_step ops (array_init n)) (run_steps array_spec ops [])"
  by (rule arrays.run_refines[OF array_models_init assms])

theorem array_refines_list_witness:
  "\<exists>p. run_steps array_step [APushBack 1, APushBack 2, AAdd 3 (- 1), ASwap 0 1, ADelNomove 0] (array_init 0) = Some p \<and> array_models p [2, 1 :: nat]"
proof -
  let ?ops = "[APushBack 1, APushBack 2, AAdd 3 (- 1), ASwap 0 1, ADelNomove 0 :: nat array_op]"
  have "all_allowed array_spec array_allowed ?ops []" by code_simp
  from array_refines_list[OF this, of 0] have "rel_option array_models (run_steps array_step ?ops (array_init 0)) (run_steps array_spec ?ops [])" .
  moreover have "run_steps array_spec ?ops [] = Some [2, 1]" by code_simp
  ultimately show ?thesis by (simp del: run_steps.simps add: option_rel_Some2)
qed

text \<open>
  Any run of operations on a growing queue does to its elements what the same operations do to a sequence, in whatever part of
  the storage the elements lie; its capacity doubles when it is full, from 16 on, and never otherwise.
\<close>

theorem queue_refines_sequence:
  assumes "all_allowed queue_spec queue_allowed ops ([], n)"
  shows "rel_option (\<lambda>p (xs, m). queue_models p xs \<and> q_maxsize p = m \<and> queue_empty p = (xs = []) \<and>
      queue_front p = (if xs = [] then None else Some (hd xs)) \<and> queue_back p = (if xs = [] then None else Some (last xs)))
    (run_steps queue_step ops (queue_init n)) (run_steps queue_spec ops ([], n))"
proof -
  have "queue_rel (queue_init n) ([], n)" by (simp add: queue_rel_def queue_models_init) (simp add: queue_init_def)
  from queues.run_refines[OF this assms] show ?thesis
  proof (rule option.rel_mono_strong)
    fix p and x :: "'a list \<times> nat"
    assume "queue_rel p x"
    then show "case x of (xs, m) \<Rightarrow> queue_models p xs \<and> q_maxsize p = m \<and> queue_empty p = (xs = []) \<and>
      queue_front p = (if xs = [] then None else Some (hd xs)) \<and> queue_back p = (if xs = [] then None else Some (last xs))"
      using queue_models_ends(1)[of p] queue_models_ends(2)[of p "hd (fst x)" "tl (fst x)"] queue_models_ends(3)[of p "butlast (fst x)" "last (fst x)"]
      by (cases "fst x = []") (auto simp: queue_rel_def)
  qed
qed

theorem queue_refines_sequence_witness:
  "\<exists>p. run_steps queue_step [QPushBack 1, QPushBack 2, QPopFront, QPushBack 3] (queue_init 2) = Some p \<and> queue_models p [2, 3 :: nat] \<and> q_maxsize p = 2"
proof -
  let ?ops = "[QPushBack 1, QPushBack 2, QPopFront, QPushBack 3 :: nat queue_op]"
  have ok: "all_allowed queue_spec queue_allowed ?ops ([], 2)" by code_simp
  have r: "run_steps queue_spec ?ops ([], 2) = Some ([2, 3], 2)" by code_simp
  from queue_refines_sequence[OF ok] show ?thesis unfolding r by (simp del: run_steps.simps add: option_rel_Some2) blast
qed

end
