(* ===== verification/CustomEvents.thy ===== *)
theory CustomEvents
  imports Containers
begin

text \<open>
  The custom events of \<open>event/hloop.c\<close>: any thread posts an event to a loop, which is woken by a byte through a pair of
  sockets and takes one event from its queue for every byte.  Posting and taking an event are atomic (the mutex); what is
  posted between two of them, by a callback or by other threads, is an argument.  The pair of sockets is
  the number of bytes in it, and writing to it succeeds.
\<close>

section \<open>Posting and reading\<close>

definition HEVENT_TYPE_CUSTOM :: nat where "HEVENT_TYPE_CUSTOM = 1024"
definition CUSTOM_EVENT_QUEUE_INIT_SIZE :: nat where "CUSTOM_EVENT_QUEUE_INIT_SIZE = 16"

record custom_event =
  ce_loop :: "nat option"
  ce_type :: nat
  ce_id :: nat
  ce_cb :: "nat option"

record mailbox =
  mb_sockpair :: bool
  mb_bytes :: nat
  mb_events :: "custom_event queue"
  mb_last_id :: nat

text \<open>The fields the caller left zero are filled in; \<open>n\<close> is the last identifier given.\<close>

definition stamp :: "nat \<Rightarrow> nat \<Rightarrow> custom_event \<Rightarrow> custom_event \<times> nat" where
  "stamp loop n ev =
     (let ev = (if ce_loop ev = None then ev\<lparr>ce_loop := Some loop\<rparr> else ev);
          ev = (if ce_type ev = 0 then ev\<lparr>ce_type := HEVENT_TYPE_CUSTOM\<rparr> else ev)
      in if ce_id ev = 0 then (ev\<lparr>ce_id := n + 1\<rparr>, n + 1) else (ev, n))"

definition hloop_post_event :: "nat \<Rightarrow> custom_event \<Rightarrow> mailbox \<Rightarrow> mailbox option" where
  "hloop_post_event loop ev m =
     (if \<not> mb_sockpair m then Some m
      else (let (ev, n) = stamp loop (mb_last_id m) ev
            in map_option (\<lambda>q. m\<lparr>mb_bytes := mb_bytes m + 1, mb_events := q, mb_last_id := n\<rparr>) (queue_push_back ev (mb_events m))))"

fun post_events :: "nat \<Rightarrow> custom_event list \<Rightarrow> mailbox \<Rightarrow> mailbox option" where
  "post_events loop [] m = Some m"
| "post_events loop (ev # evs) m = Option.bind (hloop_post_event loop ev m) (post_events loop evs)"

text \<open>
  The loop over the bytes read, with the events taken; \<open>posted i ev\<close> is what is posted after \<open>ev\<close> was taken with \<open>i\<close>
  bytes left, before the next event is.
\<close>

fun sockpair_read_cb :: "nat \<Rightarrow> (nat \<Rightarrow> custom_event \<Rightarrow> custom_event list) \<Rightarrow> nat \<Rightarrow> mailbox \<Rightarrow> (custom_event list \<times> mailbox) option" where
  "sockpair_read_cb loop posted 0 m = Some ([], m)"
| "sockpair_read_cb loop posted (Suc i) m =
     (if queue_empty (mb_events m) then Some ([], m)
      else case queue_front (mb_events m) of
             None \<Rightarrow> Some ([], m)
           | Some ev \<Rightarrow>
               Option.bind (queue_pop_front (mb_events m)) (\<lambda>q.
               Option.bind (post_events loop (posted i ev) (m\<lparr>mb_events := q\<rparr>)) (\<lambda>m.
               map_option (\<lambda>(evs, m). (ev # evs, m)) (sockpair_read_cb loop posted i m))))"

definition mailbox_init :: mailbox where
  "mailbox_init = \<lparr>mb_sockpair = True, mb_bytes = 0, mb_events = queue_init CUSTOM_EVENT_QUEUE_INIT_SIZE, mb_last_id = 0\<rparr>"

section \<open>Delivery\<close>

datatype mailbox_op = Post custom_event | Read nat "nat \<Rightarrow> custom_event \<Rightarrow> custom_event list"

text \<open>What was posted while the events \<open>evs\<close> were taken.\<close>

fun posted_by :: "(nat \<Rightarrow> custom_event \<Rightarrow> custom_event list) \<Rightarrow> nat \<Rightarrow> custom_event list \<Rightarrow> custom_event list" where
  "posted_by posted i [] = []"
| "posted_by posted i (ev # evs) = posted (i - 1) ev @ posted_by posted (i - 1) evs"

text \<open>A run, with the events posted in order and the events taken in order; a read gets at most the bytes that are there.\<close>

fun mailbox_run :: "nat \<Rightarrow> mailbox_op list \<Rightarrow> mailbox \<Rightarrow> (custom_event list \<times> custom_event list \<times> mailbox) option" where
  "mailbox_run loop [] m = Some ([], [], m)"
| "mailbox_run loop (Post ev # ops) m =
     Option.bind (hloop_post_event loop ev m) (\<lambda>m.
     map_option (\<lambda>(posts, taken, m). (ev # posts, taken, m)) (mailbox_run loop ops m))"
| "mailbox_run loop (Read k posted # ops) m =
     (let k = min k (mb_bytes m)
      in Option.bind (sockpair_read_cb loop posted k (m\<lparr>mb_bytes := mb_bytes m - k\<rparr>)) (\<lambda>(evs, m).
         map_option (\<lambda>(posts, taken, m). (posted_by posted k evs @ posts, evs @ taken, m)) (mailbox_run loop ops m)))"

fun stamps :: "nat \<Rightarrow> nat \<Rightarrow> custom_event list \<Rightarrow> custom_event list" where
  "stamps loop n [] = []"
| "stamps loop n (ev # evs) = (let (ev, n) = stamp loop n ev in ev # stamps loop n evs)"

fun last_stamp :: "nat \<Rightarrow> nat \<Rightarrow> custom_event list \<Rightarrow> nat" where
  "last_stamp loop n [] = n"
| "last_stamp loop n (ev # evs) = last_stamp loop (snd (stamp loop n ev)) evs"

lemma stamps_app:
  "stamps loop n (evs @ evs') = stamps loop n evs @ stamps loop (last_stamp loop n evs) evs'"
  "last_stamp loop n (evs @ evs') = last_stamp loop (last_stamp loop n evs) evs'"
  by (induction evs arbitrary: n) (auto split: prod.splits)

text \<open>The queue holds \<open>xs\<close>, and there is a byte for each event but \<open>k\<close>.\<close>

definition mailbox_holds :: "nat \<Rightarrow> custom_event list \<Rightarrow> mailbox \<Rightarrow> bool" where
  "mailbox_holds k xs m \<longleftrightarrow> mb_sockpair m \<and> queue_models (mb_events m) xs \<and> mb_bytes m + k = length xs"

lemma post_holds:
  assumes "mailbox_holds k xs m"
  shows "\<exists>m'. hloop_post_event loop ev m = Some m' \<and> mailbox_holds k (xs @ [fst (stamp loop (mb_last_id m) ev)]) m' \<and>
    mb_last_id m' = snd (stamp loop (mb_last_id m) ev)"
proof -
  obtain e n where S: "stamp loop (mb_last_id m) ev = (e, n)" by (cases "stamp loop (mb_last_id m) ev") auto
  obtain q where "queue_push_back e (mb_events m) = Some q" "queue_models q (xs @ [e])"
    using queue_models_push[of "mb_events m" xs e] assms by (auto simp: mailbox_holds_def)
  then show ?thesis using assms S by (simp add: hloop_post_event_def mailbox_holds_def)
qed

lemma posts_hold:
  "mailbox_holds k xs m \<Longrightarrow>
    \<exists>m'. post_events loop evs m = Some m' \<and> mailbox_holds k (xs @ stamps loop (mb_last_id m) evs) m' \<and>
      mb_last_id m' = last_stamp loop (mb_last_id m) evs"
proof (induction evs arbitrary: xs m)
  case (Cons ev evs)
  obtain m1 where M: "hloop_post_event loop ev m = Some m1" "mailbox_holds k (xs @ [fst (stamp loop (mb_last_id m) ev)]) m1"
    "mb_last_id m1 = snd (stamp loop (mb_last_id m) ev)" using post_holds[OF Cons.prems] by blast
  show ?case using Cons.IH[OF M(2)] M(1,3) by (auto split: prod.splits)
qed simp

lemma read_holds:
  "mailbox_holds k xs m \<Longrightarrow>
    \<exists>m'. sockpair_read_cb loop posted k m = Some (take k xs, m') \<and>
      mailbox_holds 0 (drop k xs @ stamps loop (mb_last_id m) (posted_by posted k (take k xs))) m' \<and>
      mb_last_id m' = last_stamp loop (mb_last_id m) (posted_by posted k (take k xs))"
proof (induction k arbitrary: xs m)
  case (Suc k)
  then obtain x ys where X: "xs = x # ys" by (cases xs) (auto simp: mailbox_holds_def)
  have Q: "queue_models (mb_events m) (x # ys)" using Suc.prems by (simp add: mailbox_holds_def X)
  obtain q where q: "queue_pop_front (mb_events m) = Some q" "queue_models q ys" using queue_models_pop_front[OF Q] by blast
  have "mailbox_holds k ys (m\<lparr>mb_events := q\<rparr>)" using Suc.prems q(2) by (simp add: mailbox_holds_def X)
  from posts_hold[OF this, of loop "posted k x"] obtain m1 where P: "post_events loop (posted k x) (m\<lparr>mb_events := q\<rparr>) = Some m1"
    "mailbox_holds k (ys @ stamps loop (mb_last_id m) (posted k x)) m1" "mb_last_id m1 = last_stamp loop (mb_last_id m) (posted k x)" by auto
  have n: "k \<le> length ys" using Suc.prems by (simp add: mailbox_holds_def X)
  from Suc.IH[OF P(2)] show ?case using n queue_models_ends(2)[OF Q] q(1) P(1,3)
    by (auto simp: X stamps_app)
qed simp

text \<open>
  Every event posted to a loop is taken exactly once and in the order of posting, its zero fields filled in, however
  posts and reads follow each other, and whatever callbacks and other threads post meanwhile; those not yet taken are in
  the queue, with one byte left in the sockets for each, so the loop will be woken for them.
\<close>

theorem custom_events_delivered:
  "\<exists>posts taken m xs. mailbox_run loop ops mailbox_init = Some (posts, taken, m) \<and> queue_models (mb_events m) xs \<and>
    mb_bytes m = length xs \<and> taken @ xs = stamps loop 0 posts"
proof -
  have "mailbox_holds 0 xs m \<Longrightarrow>
    \<exists>posts taken m' ys. mailbox_run loop ops m = Some (posts, taken, m') \<and> mailbox_holds 0 ys m' \<and>
      taken @ ys = xs @ stamps loop (mb_last_id m) posts" for xs m
  proof (induction ops arbitrary: xs m)
    case (Cons op ops)
    show ?case
    proof (cases op)
      case (Post ev)
      then show ?thesis using post_holds[OF Cons.prems, of loop ev] Cons.IH by (fastforce split: prod.splits)
    next
      case (Read j posted)
      let ?k = "min j (mb_bytes m)"
      have "mailbox_holds ?k xs (m\<lparr>mb_bytes := mb_bytes m - ?k\<rparr>)" using Cons.prems by (simp add: mailbox_holds_def)
      from read_holds[OF this, of loop posted] obtain m1 where R:
        "sockpair_read_cb loop posted ?k (m\<lparr>mb_bytes := mb_bytes m - ?k\<rparr>) = Some (take ?k xs, m1)"
        "mailbox_holds 0 (drop ?k xs @ stamps loop (mb_last_id m) (posted_by posted ?k (take ?k xs))) m1"
        "mb_last_id m1 = last_stamp loop (mb_last_id m) (posted_by posted ?k (take ?k xs))" by auto
      obtain posts taken m' ys where I: "mailbox_run loop ops m1 = Some (posts, taken, m')" "mailbox_holds 0 ys m'"
        "taken @ ys = (drop ?k xs @ stamps loop (mb_last_id m) (posted_by posted ?k (take ?k xs))) @ stamps loop (mb_last_id m1) posts"
        using Cons.IH[OF R(2)] by blast
      have "take ?k xs @ taken @ ys = xs @ stamps loop (mb_last_id m) (posted_by posted ?k (take ?k xs) @ posts)"
        unfolding I(3) by (simp add: stamps_app R(3))
      then show ?thesis using Read R(1) I(1,2) by (simp add: Let_def) blast
    qed
  qed simp
  moreover have "mailbox_holds 0 [] mailbox_init" by (simp add: mailbox_holds_def mailbox_init_def queue_models_init)
  ultimately obtain posts taken m ys where "mailbox_run loop ops mailbox_init = Some (posts, taken, m)" "mailbox_holds 0 ys m"
    "taken @ ys = [] @ stamps loop (mb_last_id mailbox_init) posts" by blast
  then show ?thesis by (auto simp: mailbox_holds_def mailbox_init_def)
qed

end
