(* ===== verification/Dns.thy ===== *)
theory Dns
  imports HBuf
begin

text \<open>
  \<open>protocol/dns.c\<close>: names, resource records and packets.  A function that works in the memory of its
  caller gets that memory as a list of bytes; to read or write outside it is the result
  \<open>Overrun\<close>, the return value -1 is \<open>Refused\<close>.  The pointer \<open>data\<close> of a record is the bytes found there
  (an unpacked record points into the packet).  The bit fields of the header are in the order of little-endian machines.
\<close>

unbundle bit_operations_syntax

section \<open>Results\<close>

datatype 'a outcome = Overrun | Refused | Result 'a

fun bind_outcome :: "'a outcome \<Rightarrow> ('a \<Rightarrow> 'b outcome) \<Rightarrow> 'b outcome" where
  "bind_outcome (Result a) f = f a"
| "bind_outcome Refused f = Refused"
| "bind_outcome Overrun f = Overrun"

definition in_memory :: "'a option \<Rightarrow> 'a outcome" where
  "in_memory x = (case x of Some a \<Rightarrow> Result a | None \<Rightarrow> Overrun)"

lemma in_memory_simps [simp]: "in_memory (Some a) = Result a" "in_memory None = Overrun"
  by (simp_all add: in_memory_def)

lemma bind_Result: "bind_outcome x f = Result b \<longleftrightarrow> (\<exists>a. x = Result a \<and> f a = Result b)"
  by (cases x) auto

section \<open>Byte order\<close>

text \<open>Storing \<open>htons(w)\<close> and \<open>htonl(w)\<close>, and \<open>ntohs\<close>, \<open>ntohl\<close> of what is loaded.\<close>

definition be16 :: "16 word \<Rightarrow> byte list" where
  "be16 w = [ucast (drop_bit 8 w), ucast w]"

definition be32 :: "32 word \<Rightarrow> byte list" where
  "be32 w = [ucast (drop_bit 24 w), ucast (drop_bit 16 w), ucast (drop_bit 8 w), ucast w]"

definition of_be :: "byte list \<Rightarrow> 'w::len word" where
  "of_be bs = foldl (\<lambda>w b. push_bit 8 w OR ucast b) 0 bs"

lemma length_be [simp]: "length (be16 w) = 2" "length (be32 v) = 4"
  by (simp_all add: be16_def be32_def)

lemma of_be16 [simp]: "of_be (be16 w) = w"
  by (rule bit_word_eqI) (auto simp: of_be_def be16_def bit_simps)

lemma of_be32 [simp]: "of_be (be32 w) = w"
proof (rule bit_word_eqI)
  fix n assume "n < LENGTH(32)"
  then show "bit (of_be (be32 w) :: 32 word) n = bit w n"
    by (cases "n < 8"; cases "n < 16"; cases "n < 24") (auto simp: of_be_def be32_def bit_simps not_less)
qed

section \<open>Names\<close>

abbreviation DOT :: byte where "DOT \<equiv> 46"

definition DNS_NAME_MAXLEN :: nat where "DNS_NAME_MAXLEN = 256"

text \<open>The bytes written so far, the place of the length of the label (\<open>plen\<close>), and its length.\<close>

fun encode_loop :: "byte list \<Rightarrow> byte list \<Rightarrow> nat \<Rightarrow> nat \<Rightarrow> byte list \<times> nat \<times> nat" where
  "encode_loop [] buf plen len = (buf, plen, len)"
| "encode_loop (c # domain) buf plen len =
     (if c \<noteq> DOT then encode_loop domain (buf @ [c]) plen (len + 1)
      else encode_loop domain (buf[plen := of_nat len] @ [0]) (length buf) 0)"

text \<open>The value, and the bytes written.\<close>

definition dns_name_encode :: "byte list \<Rightarrow> nat \<times> byte list" where
  "dns_name_encode domain =
     (let (buf, plen, len) = encode_loop domain [0] 0 0;
          buflen = 1 + length domain
      in (if len \<noteq> 0 then buflen + 1 else buflen, buf[plen := of_nat len] @ [0]))"

text \<open>\<open>char\<close> is signed: a length above 127 is negative, and is counted down for ever.\<close>

fun decode_loop :: "byte list \<Rightarrow> int \<Rightarrow> byte list \<Rightarrow> byte list outcome" where
  "decode_loop [] len domain = Overrun"
| "decode_loop (c # p) len domain =
     (if c = 0 then Result domain
      else if len = 0 then decode_loop p (sint c) (domain @ [DOT])
      else decode_loop p (len - 1) (domain @ [c]))"

text \<open>The buffer for the name has \<open>room\<close> bytes.\<close>

definition dns_name_decode :: "byte list \<Rightarrow> nat \<Rightarrow> (nat \<times> byte list) outcome" where
  "dns_name_decode buf room =
     (case buf of [] \<Rightarrow> Overrun
      | len # p \<Rightarrow> bind_outcome (decode_loop p (sint len) []) (\<lambda>domain.
          if length domain + 1 > room then Overrun else Result (1 + length domain + 1, domain)))"

section \<open>Resource records\<close>

record dns_rr =
  rr_name :: "byte list"
  rr_type :: "16 word"
  rr_class :: "16 word"
  rr_ttl :: "32 word"
  rr_datalen :: "16 word"
  rr_data :: "byte list option"

definition rr_tail :: "dns_rr \<Rightarrow> byte list outcome" where
  "rr_tail rr =
     (case rr_data rr of
        Some data \<Rightarrow>
          if rr_datalen rr \<noteq> 0 then bind_outcome (in_memory (load_at data 0 (unat (rr_datalen rr)))) (\<lambda>bs.
            Result (be32 (rr_ttl rr) @ be16 (rr_datalen rr) @ bs))
          else Result []
      | None \<Rightarrow> Result [])"

text \<open>The record is written at \<open>off\<close>; \<open>len\<close> is the room left.\<close>

definition dns_rr_pack :: "dns_rr \<Rightarrow> byte list \<Rightarrow> nat \<Rightarrow> int \<Rightarrow> (nat \<times> byte list) outcome" where
  "dns_rr_pack rr buf off len =
     (let (encoded_namelen, encoded_name) = dns_name_encode (rr_name rr);
          packetlen = encoded_namelen + 2 + 2 + (if rr_data rr \<noteq> None then 4 + 2 + unat (rr_datalen rr) else 0)
      in if length encoded_name > DNS_NAME_MAXLEN then Overrun
         else if len < int packetlen then Refused
         else bind_outcome (rr_tail rr) (\<lambda>tail.
           bind_outcome (in_memory (store_at buf off (take encoded_namelen encoded_name @ be16 (rr_type rr) @ be16 (rr_class rr) @ tail))) (\<lambda>buf.
           Result (packetlen, buf))))"

text \<open>The memory starts at the record; \<open>len\<close> is what is left of the packet.\<close>

definition dns_rr_unpack :: "byte list \<Rightarrow> int \<Rightarrow> bool \<Rightarrow> (nat \<times> dns_rr) outcome" where
  "dns_rr_unpack buf len is_question =
     bind_outcome (in_memory (load_at buf 0 1)) (\<lambda>b.
     bind_outcome (if unat (hd b) \<ge> 192 then Result (2, []) else dns_name_decode buf DNS_NAME_MAXLEN) (\<lambda>(off, name).
     if len < int (off + 4) then Refused
     else bind_outcome (in_memory (load_at buf off 2)) (\<lambda>rtype.
       bind_outcome (in_memory (load_at buf (off + 2) 2)) (\<lambda>rclass.
       (let rr = \<lparr>rr_name = name, rr_type = of_be rtype, rr_class = of_be rclass, rr_ttl = 0, rr_datalen = 0, rr_data = None\<rparr>;
            off = off + 4
        in if is_question then Result (off, rr)
           else if len < int (off + 6) then Refused
           else bind_outcome (in_memory (load_at buf off 4)) (\<lambda>ttl.
             bind_outcome (in_memory (load_at buf (off + 4) 2)) (\<lambda>datalen.
             (let n = of_be datalen :: 16 word; off = off + 6
              in if len < int (off + unat n) then Refused
                 else bind_outcome (in_memory (load_at buf off (unat n))) (\<lambda>data.
                   Result (off + unat n, rr\<lparr>rr_ttl := of_be ttl, rr_datalen := n, rr_data := Some data\<rparr>))))))))))"

section \<open>Packets\<close>

text \<open>The length is compared with \<open>sizeof(dnshdr_t)\<close> as an unsigned number: a negative one passes.\<close>

record dns_hdr =
  transaction_id :: "16 word"
  rd :: bool
  tc :: bool
  aa :: bool
  opcode :: "4 word"
  qr :: bool
  rcode :: "4 word"
  cd :: bool
  ad :: bool
  res :: bool
  ra :: bool
  nquestion :: "16 word"
  nanswer :: "16 word"
  nauthority :: "16 word"
  naddtional :: "16 word"

record dns =
  hdr :: dns_hdr
  questions :: "dns_rr list"
  answers :: "dns_rr list"
  authorities :: "dns_rr list"
  addtionals :: "dns_rr list"

definition DNS_HDR_SIZE :: nat where "DNS_HDR_SIZE = 12"

definition bit_of :: "bool \<Rightarrow> nat \<Rightarrow> byte" where
  "bit_of b n = (if b then push_bit n 1 else 0)"

definition hdr_bytes :: "dns_hdr \<Rightarrow> byte list" where
  "hdr_bytes h = be16 (transaction_id h) @
     [bit_of (rd h) 0 OR bit_of (tc h) 1 OR bit_of (aa h) 2 OR push_bit 3 (ucast (opcode h)) OR bit_of (qr h) 7,
      ucast (rcode h) OR bit_of (cd h) 4 OR bit_of (ad h) 5 OR bit_of (res h) 6 OR bit_of (ra h) 7] @
     be16 (nquestion h) @ be16 (nanswer h) @ be16 (nauthority h) @ be16 (naddtional h)"

definition hdr_of :: "byte list \<Rightarrow> dns_hdr" where
  "hdr_of bs =
     (let flags = bs ! 2; flags' = bs ! 3; at = (\<lambda>i. of_be (take 2 (drop i bs)))
      in \<lparr>transaction_id = at 0, rd = bit flags 0, tc = bit flags 1, aa = bit flags 2, opcode = ucast (drop_bit 3 flags), qr = bit flags 7,
          rcode = ucast flags', cd = bit flags' 4, ad = bit flags' 5, res = bit flags' 6, ra = bit flags' 7,
          nquestion = at 4, nanswer = at 6, nauthority = at 8, naddtional = at 10\<rparr>)"

text \<open>The loop over the \<open>n\<close> records of one kind, from \<open>off\<close> on.\<close>

fun rrs_pack :: "nat \<Rightarrow> dns_rr list \<Rightarrow> nat \<Rightarrow> byte list \<Rightarrow> int \<Rightarrow> (nat \<times> byte list) outcome" where
  "rrs_pack 0 rrs off buf len = Result (off, buf)"
| "rrs_pack (Suc n) [] off buf len = Overrun"
| "rrs_pack (Suc n) (rr # rrs) off buf len =
     bind_outcome (dns_rr_pack rr buf off (len - int off)) (\<lambda>(packetlen, buf). rrs_pack n rrs (off + packetlen) buf len)"

definition dns_pack :: "dns \<Rightarrow> byte list \<Rightarrow> int \<Rightarrow> (nat \<times> byte list) outcome" where
  "dns_pack dns buf len =
     (if 0 \<le> len \<and> len < int DNS_HDR_SIZE then Refused
      else bind_outcome (in_memory (store_at buf 0 (hdr_bytes (hdr dns)))) (\<lambda>buf.
        bind_outcome (rrs_pack (unat (nquestion (hdr dns))) (questions dns) DNS_HDR_SIZE buf len) (\<lambda>(off, buf).
        bind_outcome (rrs_pack (unat (nanswer (hdr dns))) (answers dns) off buf len) (\<lambda>(off, buf).
        bind_outcome (rrs_pack (unat (nauthority (hdr dns))) (authorities dns) off buf len) (\<lambda>(off, buf).
        rrs_pack (unat (naddtional (hdr dns))) (addtionals dns) off buf len)))))"

fun rrs_unpack :: "nat \<Rightarrow> bool \<Rightarrow> nat \<Rightarrow> byte list \<Rightarrow> int \<Rightarrow> (nat \<times> dns_rr list) outcome" where
  "rrs_unpack 0 is_question off buf len = Result (off, [])"
| "rrs_unpack (Suc n) is_question off buf len =
     bind_outcome (dns_rr_unpack (drop off buf) (len - int off) is_question) (\<lambda>(packetlen, rr).
     bind_outcome (rrs_unpack n is_question (off + packetlen) buf len) (\<lambda>(off, rrs). Result (off, rr # rrs)))"

definition dns_unpack :: "byte list \<Rightarrow> int \<Rightarrow> (nat \<times> dns) outcome" where
  "dns_unpack buf len =
     (if 0 \<le> len \<and> len < int DNS_HDR_SIZE then Refused
      else bind_outcome (in_memory (load_at buf 0 DNS_HDR_SIZE)) (\<lambda>bs.
        (let h = hdr_of bs
         in bind_outcome (rrs_unpack (unat (nquestion h)) True DNS_HDR_SIZE buf len) (\<lambda>(off, qs).
            bind_outcome (rrs_unpack (unat (nanswer h)) False off buf len) (\<lambda>(off, ans).
            bind_outcome (rrs_unpack (unat (nauthority h)) False off buf len) (\<lambda>(off, auth).
            bind_outcome (rrs_unpack (unat (naddtional h)) False off buf len) (\<lambda>(off, add).
              Result (off, \<lparr>hdr = h, questions = qs, answers = ans, authorities = auth, addtionals = add\<rparr>))))))))"

section \<open>The format of names\<close>

text \<open>The labels of a name, between its dots, and a name that can be sent.\<close>

fun labels :: "byte list \<Rightarrow> byte list list" where
  "labels [] = [[]]"
| "labels (c # cs) = (if c = DOT then [] # labels cs else (c # hd (labels cs)) # tl (labels cs))"

definition label :: "byte list \<Rightarrow> byte list" where
  "label l = of_nat (length l) # l"

definition name_bytes :: "byte list \<Rightarrow> byte list" where
  "name_bytes name = concat (map label (labels name)) @ [0]"

definition label_ok :: "byte list \<Rightarrow> bool" where
  "label_ok l \<longleftrightarrow> l \<noteq> [] \<and> length l < 128 \<and> 0 \<notin> set l"

definition name_ok :: "byte list \<Rightarrow> bool" where
  "name_ok name \<longleftrightarrow> (\<forall>l \<in> set (labels name). label_ok l) \<and> length name \<le> 254"

lemma labels_nonempty [simp]: "labels name \<noteq> []"
  by (cases name) auto

lemma join_labels: "join_with DOT (labels name) = name"
proof (induction name)
  case (Cons c cs)
  then show ?case by (cases "labels cs" rule: list.exhaust[case_product list.exhaust[of "tl (labels cs)"]]) (auto simp: join_with_Cons)
qed simp

lemma labels_no_dot: "l \<in> set (labels name) \<Longrightarrow> DOT \<notin> set l"
proof (induction name arbitrary: l)
  case (Cons c cs)
  have "hd (labels cs) \<in> set (labels cs)" "set (tl (labels cs)) \<subseteq> set (labels cs)" by (auto intro: list.set_sel)
  then show ?case using Cons by (auto split: if_splits)
qed simp

lemma length_labels: "ls \<noteq> [] \<Longrightarrow> length (concat (map label ls)) = length (join_with DOT ls) + 1"
proof (induction ls rule: join_with.induct)
qed (auto simp: label_def)

lemma length_name_bytes: "length (name_bytes name) = length name + 2"
  by (simp add: name_bytes_def length_labels join_labels)

lemma encode_label: "DOT \<notin> set l \<Longrightarrow>
  encode_loop (l @ rest) (pre @ x # cur) plen (length cur) = encode_loop rest (pre @ x # cur @ l) plen (length cur + length l)"
proof (induction l arbitrary: cur)
  case (Cons c l)
  then show ?case using Cons.IH[of "cur @ [c]"] by simp
qed simp

lemma encode_labels:
  assumes "ls \<noteq> []" "\<forall>l \<in> set ls. DOT \<notin> set l"
  shows "\<exists>buf plen. encode_loop (join_with DOT ls) (pre @ [x]) (length pre) 0 = (buf, plen, length (last ls)) \<and>
    buf[plen := of_nat (length (last ls))] = pre @ concat (map label ls)"
  using assms
proof (induction ls arbitrary: pre x rule: induct_list012)
  case (2 l)
  then show ?case using encode_label[of l "[]" pre x "[]" "length pre"] by (simp add: label_def)
next
  case (3 l l' ls)
  have "encode_loop (l @ DOT # join_with DOT (l' # ls)) (pre @ [x]) (length pre) 0 =
      encode_loop (join_with DOT (l' # ls)) ((pre @ label l) @ [0]) (length (pre @ label l)) 0"
    using 3(4) encode_label[of l "DOT # join_with DOT (l' # ls)" pre x "[]" "length pre"] by (simp add: label_def)
  then show ?case using "3.IH"(2)[of "pre @ label l" 0] 3(4) by simp
qed simp

lemma name_encode: "name_ok name \<Longrightarrow> dns_name_encode name = (length name + 2, name_bytes name)"
proof -
  assume ok: "name_ok name"
  have "length (last (labels name)) \<noteq> 0"
    using ok last_in_set[of "labels name"] by (auto simp: name_ok_def label_ok_def)
  moreover obtain buf plen where "encode_loop name ([] @ [0]) (length ([] :: byte list)) 0 = (buf, plen, length (last (labels name)))"
    "buf[plen := of_nat (length (last (labels name)))] = [] @ concat (map label (labels name))"
    using encode_labels[of "labels name" "[]" 0] labels_no_dot[of _ name] unfolding join_labels by auto
  ultimately show ?thesis by (simp add: dns_name_encode_def name_bytes_def)
qed

lemma sint_length: "n < 128 \<Longrightarrow> sint (of_nat n :: byte) = int n" "n < 256 \<Longrightarrow> unat (of_nat n :: byte) = n"
  by (simp_all add: signed_of_nat unsigned_of_nat take_bit_nat_eq_self signed_take_bit_int_eq_self)

lemma decode_label: "0 \<notin> set l \<Longrightarrow> decode_loop (l @ p) (int (length l)) domain = decode_loop p 0 (domain @ l)"
  by (induction l arbitrary: domain) auto

lemma decode_labels:
  assumes "label_ok l" "\<forall>l \<in> set ls. label_ok l"
  shows "decode_loop (l @ concat (map label ls) @ 0 # rest) (int (length l)) domain = Result (domain @ join_with DOT (l # ls))"
  using assms
proof (induction ls arbitrary: l domain)
  case (Cons l' ls)
  have "(of_nat (length l') :: byte) \<noteq> 0" "sint (of_nat (length l') :: byte) = int (length l')"
    using Cons.prems(2) sint_length[of "length l'"] by (auto simp: label_ok_def)
  then show ?case using Cons.prems Cons.IH[of l' "domain @ l @ [DOT]"]
    by (simp add: decode_label label_def label_ok_def)
qed (simp add: decode_label label_ok_def)

lemma name_decode:
  assumes "name_ok name"
  shows "dns_name_decode (name_bytes name @ rest) DNS_NAME_MAXLEN = Result (length name + 2, name)"
    "unat (hd (name_bytes name)) < 192"
proof -
  obtain l ls where L: "labels name = l # ls" by (cases "labels name") auto
  have l: "label_ok l" "\<forall>l \<in> set ls. label_ok l" using assms by (auto simp: name_ok_def L)
  have "decode_loop (l @ concat (map label ls) @ 0 # rest) (int (length l)) [] = Result name"
    using decode_labels[OF l] by (simp add: L[symmetric] join_labels)
  then show "dns_name_decode (name_bytes name @ rest) DNS_NAME_MAXLEN = Result (length name + 2, name)"
    using assms l(1) by (simp add: dns_name_decode_def name_bytes_def L label_def label_ok_def sint_length name_ok_def DNS_NAME_MAXLEN_def)
  show "unat (hd (name_bytes name)) < 192" using l(1) by (simp add: name_bytes_def L label_def label_ok_def sint_length)
qed

section \<open>The format of records and packets\<close>

definition rr_ok :: "bool \<Rightarrow> dns_rr \<Rightarrow> bool" where
  "rr_ok is_question rr \<longleftrightarrow> name_ok (rr_name rr) \<and>
     (case rr_data rr of
        None \<Rightarrow> is_question \<and> rr_ttl rr = 0 \<and> rr_datalen rr = 0
      | Some data \<Rightarrow> \<not> is_question \<and> rr_datalen rr \<noteq> 0 \<and> length data = unat (rr_datalen rr))"

definition rr_bytes :: "dns_rr \<Rightarrow> byte list" where
  "rr_bytes rr = name_bytes (rr_name rr) @ be16 (rr_type rr) @ be16 (rr_class rr) @
     (case rr_data rr of None \<Rightarrow> [] | Some data \<Rightarrow> be32 (rr_ttl rr) @ be16 (rr_datalen rr) @ data)"

definition rrs_bytes :: "dns_rr list \<Rightarrow> byte list" where
  "rrs_bytes rrs = concat (map rr_bytes rrs)"

lemma rrs_bytes_simps [simp]: "rrs_bytes [] = []" "rrs_bytes (rr # rrs) = rr_bytes rr @ rrs_bytes rrs"
  by (simp_all add: rrs_bytes_def)

lemma load_at_app: "i = length xs \<Longrightarrow> n = length ys \<Longrightarrow> load_at (xs @ ys @ zs) i n = Some ys"
  by (simp add: load_at_def)

lemma store_at_room: "off + length xs \<le> length buf \<Longrightarrow> store_at buf off xs = Some (take off buf @ xs @ drop (off + length xs) buf)"
  by (simp add: store_at_def)

lemma rr_pack:
  assumes ok: "rr_ok q rr" and room: "off + length (rr_bytes rr) \<le> length buf" "int (length (rr_bytes rr)) \<le> len"
  shows "dns_rr_pack rr buf off len =
    Result (length (rr_bytes rr), take off buf @ rr_bytes rr @ drop (off + length (rr_bytes rr)) buf)"
proof -
  have name: "name_ok (rr_name rr)" "dns_name_encode (rr_name rr) = (length (rr_name rr) + 2, name_bytes (rr_name rr))"
    using ok name_encode by (auto simp: rr_ok_def)
  have short: "length (name_bytes (rr_name rr)) \<le> DNS_NAME_MAXLEN"
    using name(1) by (simp add: length_name_bytes name_ok_def DNS_NAME_MAXLEN_def)
  obtain tail where T: "rr_tail rr = Result tail" "rr_bytes rr = name_bytes (rr_name rr) @ be16 (rr_type rr) @ be16 (rr_class rr) @ tail"
    "length tail = (if rr_data rr \<noteq> None then 4 + 2 + unat (rr_datalen rr) else 0)"
    using ok by (auto simp: rr_tail_def rr_ok_def rr_bytes_def load_at_def split: option.splits)
  have n: "length (rr_name rr) + 2 + 2 + 2 + length tail = length (rr_bytes rr)" by (simp add: T(2) length_name_bytes)
  show ?thesis
    using room short n store_at_room[OF room(1)] unfolding dns_rr_pack_def name(2) Let_def T(3)[symmetric] prod.case
    by (simp add: T(1,2) length_name_bytes add.assoc)
qed

lemma rr_unpack:
  assumes ok: "rr_ok q rr" and len: "int (length (rr_bytes rr)) \<le> len"
  shows "dns_rr_unpack (rr_bytes rr @ rest) len q = Result (length (rr_bytes rr), rr)"
proof -
  let ?n = "name_bytes (rr_name rr)"
  have name: "name_ok (rr_name rr)" using ok by (simp add: rr_ok_def)
  have n: "length (rr_name rr) + 2 = length ?n" by (simp add: length_name_bytes)
  obtain c cs where C: "?n = c # cs" by (cases ?n) (auto simp: name_bytes_def)
  then have c: "unat c < 192" using name_decode(2)[OF name] by simp
  have first: "load_at (?n @ tail) 0 1 = Some [c]" for tail by (simp add: load_at_def C)
  have dec: "dns_name_decode (?n @ tail) DNS_NAME_MAXLEN = Result (length ?n, rr_name rr)" for tail
    using name_decode(1)[OF name] by (simp add: length_name_bytes)
  have at: "load_at (?n @ be16 t @ tail) (length ?n) 2 = Some (be16 t)"
    "load_at (?n @ be16 t @ be16 k @ tail) (length ?n + 2) 2 = Some (be16 k)"
    "load_at (?n @ be16 t @ be16 k @ be32 v @ tail) (length ?n + 4) 4 = Some (be32 v)"
    "load_at (?n @ be16 t @ be16 k @ be32 v @ be16 d @ tail) (length ?n + 4 + 4) 2 = Some (be16 d)"
    "m = length ds \<Longrightarrow> load_at (?n @ be16 t @ be16 k @ be32 v @ be16 d @ ds @ tail) (length ?n + 4 + 6) m = Some ds"
    for t k v d m ds tail
    by (simp_all add: load_at_def)
  show ?thesis
  proof (cases "rr_data rr")
    case None
    then have q: "q" "rr_ttl rr = 0" "rr_datalen rr = 0" using ok by (auto simp: rr_ok_def)
    show ?thesis using len c q None
      by (simp add: rr_bytes_def dns_rr_unpack_def first[simplified] dec at[simplified])
  next
    case (Some data)
    then have q: "\<not> q" "rr_datalen rr \<noteq> 0" "unat (rr_datalen rr) = length data" using ok by (auto simp: rr_ok_def)
    have u: "uint (rr_datalen rr) = int (length data)" using q(3) by (metis uint_nat)
    show ?thesis using len c q Some u
      by (simp add: rr_bytes_def dns_rr_unpack_def first[simplified] dec at[simplified] Let_def)
  qed
qed

lemma rrs_pack_ok:
  assumes "\<forall>rr \<in> set rrs. rr_ok q rr" "off + length (rrs_bytes rrs) \<le> length buf" "int (off + length (rrs_bytes rrs)) \<le> len"
  shows "rrs_pack (length rrs) rrs off buf len =
    Result (off + length (rrs_bytes rrs), take off buf @ rrs_bytes rrs @ drop (off + length (rrs_bytes rrs)) buf)"
  using assms
proof (induction rrs arbitrary: off buf)
  case (Cons rr rrs)
  have "dns_rr_pack rr buf off (len - int off) =
      Result (length (rr_bytes rr), take off buf @ rr_bytes rr @ drop (off + length (rr_bytes rr)) buf)"
    using Cons.prems by (intro rr_pack[of q]) auto
  then show ?case using Cons.prems
      Cons.IH[of "off + length (rr_bytes rr)" "take off buf @ rr_bytes rr @ drop (off + length (rr_bytes rr)) buf"]
    by (simp add: add.commute add.left_commute)
qed simp

lemma rrs_unpack_ok:
  assumes "\<forall>rr \<in> set rrs. rr_ok q rr" "int (length pre + length (rrs_bytes rrs)) \<le> len"
  shows "rrs_unpack (length rrs) q (length pre) (pre @ rrs_bytes rrs @ rest) len = Result (length pre + length (rrs_bytes rrs), rrs)"
  using assms
proof (induction rrs arbitrary: pre)
  case (Cons rr rrs)
  have "dns_rr_unpack (rr_bytes rr @ rrs_bytes rrs @ rest) (len - int (length pre)) q = Result (length (rr_bytes rr), rr)"
    using Cons.prems by (intro rr_unpack) auto
  then show ?case using Cons.prems Cons.IH[of "pre @ rr_bytes rr"] by simp
qed simp

lemma bit_bit_of: "bit (bit_of b k) n \<longleftrightarrow> b \<and> n = k \<and> k < 8"
  by (auto simp: bit_of_def bit_simps)

lemma hdr_of_bytes: "hdr_of (hdr_bytes h) = h"
proof -
  have o: "ucast (drop_bit 3 (bit_of a 0 OR bit_of b 1 OR bit_of c 2 OR push_bit 3 (ucast op) OR bit_of d 7)) = op" for a b c d and op :: "4 word"
    by (rule bit_word_eqI) (auto simp: bit_bit_of bit_simps)
  have r: "ucast (ucast op OR bit_of a 4 OR bit_of b 5 OR bit_of c 6 OR bit_of d 7) = op" for a b c d and op :: "4 word"
    by (rule bit_word_eqI) (auto simp: bit_bit_of bit_simps)
  have be: "of_be [ucast (drop_bit 8 w), ucast w] = w" for w :: "16 word" using of_be16[of w] by (simp add: be16_def)
  have no: "\<not> bit op n" if "4 \<le> n" for op :: "4 word" and n using that bit_imp_le_length[of op n] by auto
  show ?thesis by (cases h) (simp add: hdr_of_def hdr_bytes_def Let_def o[simplified] r be16_def be bit_bit_of bit_simps no)
qed

section \<open>Packing and unpacking\<close>

definition dns_ok :: "dns \<Rightarrow> bool" where
  "dns_ok m \<longleftrightarrow>
     unat (nquestion (hdr m)) = length (questions m) \<and> unat (nanswer (hdr m)) = length (answers m) \<and>
     unat (nauthority (hdr m)) = length (authorities m) \<and> unat (naddtional (hdr m)) = length (addtionals m) \<and>
     (\<forall>rr \<in> set (questions m). rr_ok True rr) \<and> (\<forall>rr \<in> set (answers m @ authorities m @ addtionals m). rr_ok False rr)"

definition dns_bytes :: "dns \<Rightarrow> byte list" where
  "dns_bytes m = hdr_bytes (hdr m) @ rrs_bytes (questions m) @ rrs_bytes (answers m) @ rrs_bytes (authorities m) @ rrs_bytes (addtionals m)"

lemma length_hdr_bytes [simp]: "length (hdr_bytes h) = DNS_HDR_SIZE"
  by (simp add: hdr_bytes_def DNS_HDR_SIZE_def)

lemma pack_step:
  assumes "\<forall>rr \<in> set rrs. rr_ok q rr" "unat n = length rrs" "length pre + length (rrs_bytes rrs) \<le> length (pre @ rest)" "length pre = off"
    "int (length (pre @ rest)) \<le> len"
  shows "rrs_pack (unat n) rrs off (pre @ rest) len =
    Result (length (pre @ rrs_bytes rrs), (pre @ rrs_bytes rrs) @ drop (length (rrs_bytes rrs)) rest)"
  using rrs_pack_ok[of rrs q off "pre @ rest" len] assms by simp

lemma dns_pack_ok:
  assumes ok: "dns_ok m" and room: "length (dns_bytes m) \<le> length buf"
  shows "dns_pack m buf (int (length buf)) = Result (length (dns_bytes m), dns_bytes m @ drop (length (dns_bytes m)) buf)"
proof -
  note D = ok[unfolded dns_ok_def]
  have h: "store_at buf 0 (hdr_bytes (hdr m)) = Some (hdr_bytes (hdr m) @ drop DNS_HDR_SIZE buf)"
    using room by (simp add: store_at_def dns_bytes_def)
  let ?h = "hdr_bytes (hdr m)" and ?q = "rrs_bytes (questions m)" and ?a = "rrs_bytes (answers m)" and ?u = "rrs_bytes (authorities m)"
  show ?thesis
    using D room pack_step[of "questions m" True "nquestion (hdr m)" ?h "drop DNS_HDR_SIZE buf" DNS_HDR_SIZE "int (length buf)"]
      pack_step[of "answers m" False "nanswer (hdr m)" "?h @ ?q" "drop (length (?h @ ?q)) buf" "length (?h @ ?q)" "int (length buf)"]
      pack_step[of "authorities m" False "nauthority (hdr m)" "?h @ ?q @ ?a" "drop (length (?h @ ?q @ ?a)) buf" "length (?h @ ?q @ ?a)" "int (length buf)"]
      pack_step[of "addtionals m" False "naddtional (hdr m)" "?h @ ?q @ ?a @ ?u" "drop (length (?h @ ?q @ ?a @ ?u)) buf"
        "length (?h @ ?q @ ?a @ ?u)" "int (length buf)"]
    by (simp add: dns_pack_def h dns_bytes_def add.commute add.left_commute)
qed

lemma dns_unpack_ok:
  assumes ok: "dns_ok m"
  shows "dns_unpack (dns_bytes m @ rest) (int (length (dns_bytes m))) = Result (length (dns_bytes m), m)"
proof -
  note D = ok[unfolded dns_ok_def]
  let ?len = "int (length (dns_bytes m))"
  let ?h = "hdr_bytes (hdr m)" and ?q = "rrs_bytes (questions m)" and ?a = "rrs_bytes (answers m)" and ?u = "rrs_bytes (authorities m)"
    and ?d = "rrs_bytes (addtionals m)"
  have h: "load_at (dns_bytes m @ rest) 0 DNS_HDR_SIZE = Some ?h" by (simp add: load_at_def dns_bytes_def)
  show ?thesis
    using D rrs_unpack_ok[of "questions m" True ?h ?len "?a @ ?u @ ?d @ rest"]
      rrs_unpack_ok[of "answers m" False "?h @ ?q" ?len "?u @ ?d @ rest"]
      rrs_unpack_ok[of "authorities m" False "?h @ ?q @ ?a" ?len "?d @ rest"]
      rrs_unpack_ok[of "addtionals m" False "?h @ ?q @ ?a @ ?u" ?len rest]
    unfolding dns_unpack_def h in_memory_simps bind_outcome.simps hdr_of_bytes Let_def
    by (simp add: dns_bytes_def add.commute add.left_commute)
qed

text \<open>
  A packet that fits the buffer is written from its start and nothing else is written, and unpacking the written
  bytes gives the packet back, whatever follows them: header with its flags, questions, answers and the rest.
\<close>

theorem dns_roundtrip:
  assumes "dns_ok m" "length (dns_bytes m) \<le> length buf"
  shows "\<exists>buf'. dns_pack m buf (int (length buf)) = Result (length (dns_bytes m), buf') \<and> length buf' = length buf \<and>
    drop (length (dns_bytes m)) buf' = drop (length (dns_bytes m)) buf \<and>
    dns_unpack buf' (int (length (dns_bytes m))) = Result (length (dns_bytes m), m)"
  using dns_pack_ok[OF assms] dns_unpack_ok[OF assms(1)] assms(2) by simp

definition demo_query :: dns where
  "demo_query =
     \<lparr>hdr = \<lparr>transaction_id = 4660, rd = True, tc = False, aa = False, opcode = 0, qr = True, rcode = 3, cd = False, ad = False,
        res = False, ra = True, nquestion = 1, nanswer = 1, nauthority = 0, naddtional = 0\<rparr>,
      questions = [\<lparr>rr_name = [97, 98, 46, 99], rr_type = 1, rr_class = 1, rr_ttl = 0, rr_datalen = 0, rr_data = None\<rparr>],
      answers = [\<lparr>rr_name = [97, 98, 46, 99], rr_type = 1, rr_class = 1, rr_ttl = 70000, rr_datalen = 4, rr_data = Some [127, 0, 0, 1]\<rparr>],
      authorities = [], addtionals = []\<rparr>"

theorem dns_roundtrip_witness:
  "\<exists>buf'. dns_pack demo_query (replicate 1024 0) 1024 = Result (42, buf') \<and> dns_unpack buf' 42 = Result (42, demo_query)"
proof -
  have ok: "dns_ok demo_query" by code_simp
  have n: "length (dns_bytes demo_query) = 42" by code_simp
  show ?thesis using dns_roundtrip[OF ok, of "replicate 1024 0"] by (simp add: n) blast
qed

lemma rr_unpack_bounds:
  assumes "dns_rr_unpack buf len q = Result (off, rr)"
  shows "int off \<le> len \<and> 4 \<le> off \<and> length (rr_name rr) < DNS_NAME_MAXLEN \<and>
    (case rr_data rr of Some data \<Rightarrow> \<not> q \<and> length data = unat (rr_datalen rr) | None \<Rightarrow> q)"
  using assms unfolding dns_rr_unpack_def Let_def
  by (auto simp: bind_Result dns_name_decode_def DNS_NAME_MAXLEN_def in_memory_def load_at_def split: if_splits list.splits option.splits)

lemma rrs_unpack_bounds:
  assumes "rrs_unpack n q off buf len = Result (off', rrs)" "int off \<le> len"
  shows "off \<le> off' \<and> int off' \<le> len \<and> length rrs = n \<and>
    (\<forall>rr \<in> set rrs. length (rr_name rr) < DNS_NAME_MAXLEN \<and>
      (case rr_data rr of Some data \<Rightarrow> \<not> q \<and> length data = unat (rr_datalen rr) | None \<Rightarrow> q))"
  using assms
proof (induction n arbitrary: off off' rrs)
  case (Suc n)
  then obtain k rr rrs' where R: "dns_rr_unpack (drop off buf) (len - int off) q = Result (k, rr)"
    "rrs_unpack n q (off + k) buf len = Result (off', rrs')" "rrs = rr # rrs'" by (auto simp: bind_Result)
  note B = rr_unpack_bounds[OF R(1)]
  then have "int (off + k) \<le> len" by simp
  then show ?case using Suc.IH[OF R(2)] B R(3) by auto
qed simp

text \<open>
  Whatever the packet, an unpacked message ends inside it, has as many records of each kind as its header announces, names that
  fit their arrays, and data of the length recorded, taken from the packet.
\<close>

theorem dns_unpack_bounds:
  assumes "dns_unpack buf len = Result (off, m)" "0 \<le> len"
  shows "DNS_HDR_SIZE \<le> off \<and> int off \<le> len \<and> hdr m = hdr_of (take DNS_HDR_SIZE buf) \<and>
    length (questions m) = unat (nquestion (hdr m)) \<and> length (answers m) = unat (nanswer (hdr m)) \<and>
    length (authorities m) = unat (nauthority (hdr m)) \<and> length (addtionals m) = unat (naddtional (hdr m)) \<and>
    list_all (\<lambda>rr. length (rr_name rr) < DNS_NAME_MAXLEN) (questions m @ answers m @ authorities m @ addtionals m) \<and>
    list_all (\<lambda>rr. case rr_data rr of Some data \<Rightarrow> length data = unat (rr_datalen rr) | None \<Rightarrow> False) (answers m @ authorities m @ addtionals m)"
proof -
  have len: "int DNS_HDR_SIZE \<le> len" using assms by (auto simp: dns_unpack_def split: if_splits)
  obtain h o1 o2 o3 where
    "rrs_unpack (unat (nquestion h)) True DNS_HDR_SIZE buf len = Result (o1, questions m)"
    "rrs_unpack (unat (nanswer h)) False o1 buf len = Result (o2, answers m)"
    "rrs_unpack (unat (nauthority h)) False o2 buf len = Result (o3, authorities m)"
    "rrs_unpack (unat (naddtional h)) False o3 buf len = Result (off, addtionals m)" "hdr m = h" "h = hdr_of (take DNS_HDR_SIZE buf)"
    using assms(1) by (auto simp: dns_unpack_def Let_def bind_Result in_memory_def load_at_def split: if_splits option.splits)
  note R = this
  note q = rrs_unpack_bounds[OF R(1) len]
  note a = rrs_unpack_bounds[OF R(2)] and u = rrs_unpack_bounds[OF R(3)] and d = rrs_unpack_bounds[OF R(4)]
  show ?thesis using q a u d R(5,6) by (auto simp: list_all_iff split: option.splits)
qed

theorem dns_unpack_bounds_witness:
  "DNS_HDR_SIZE \<le> 42 \<and> list_all (\<lambda>rr. length (rr_name rr) < DNS_NAME_MAXLEN) (questions demo_query @ answers demo_query)"
proof -
  have "dns_unpack (dns_bytes demo_query) 42 = Result (42, demo_query)" by code_simp
  from dns_unpack_bounds[OF this] show ?thesis by simp
qed

section \<open>Packets and names that are not handled\<close>

lemma decode_loop_long:
  "decode_loop p len domain = Result d \<Longrightarrow> \<forall>b \<in> set (take n p). b \<noteq> 0 \<Longrightarrow> n \<le> length p \<Longrightarrow> length domain + n \<le> length d"
proof (induction n arbitrary: p len domain)
  case 0
  have "length domain \<le> length d" if "decode_loop p len domain = Result d" for p len domain
    using that by (induction p len domain rule: decode_loop.induct) (auto split: if_splits)
  then show ?case using 0 by simp
next
  case (Suc n)
  then obtain c q where P: "p = c # q" by (cases p) auto
  then have "c \<noteq> 0" "\<forall>b \<in> set (take n q). b \<noteq> 0" "n \<le> length q" using Suc.prems by auto
  then show ?case using Suc.prems(1) Suc.IH[of q "sint c" "domain @ [DOT]"] Suc.IH[of q "len - 1" "domain @ [c]"] P
    by (auto split: if_splits)
qed

text \<open>
  Unpacking does not check the length of a name, neither against the packet nor against the array: any packet
  with a question whose name is not ended within 256 bytes makes it write past \<open>rr->name\<close> or
  read past the packet, whatever the length it is given.
\<close>

theorem dns_unpack_overrun:
  assumes "int DNS_HDR_SIZE \<le> len" "nquestion (hdr_of (take DNS_HDR_SIZE buf)) \<noteq> 0" "269 \<le> length buf" "unat (buf ! 12) < 192"
    "\<forall>b \<in> set (take 256 (drop 13 buf)). b \<noteq> 0"
  shows "dns_unpack buf len = Overrun"
proof -
  let ?q = "drop 12 buf"
  have Q: "?q = buf ! 12 # drop 13 buf" using assms(3) Cons_nth_drop_Suc[of 12 buf] by simp
  have "decode_loop (drop 13 buf) l [] = Result d \<Longrightarrow> 255 < length d" for l d
  proof -
    assume "decode_loop (drop 13 buf) l [] = Result d"
    moreover have "256 \<le> length (drop 13 buf)" using assms(3) by simp
    ultimately have "length ([] :: byte list) + 256 \<le> length d" using decode_loop_long assms(5) by blast
    then show ?thesis by simp
  qed
  moreover have "decode_loop p l d \<noteq> Refused" for p l d by (induction p l d rule: decode_loop.induct) auto
  ultimately have D: "dns_name_decode ?q DNS_NAME_MAXLEN = Overrun"
    by (cases "decode_loop (drop 13 buf) (sint (buf ! 12)) []") (auto simp: Q dns_name_decode_def DNS_NAME_MAXLEN_def)
  have "load_at ?q 0 1 = Some [buf ! 12]" by (simp add: load_at_def Q)
  then have "dns_rr_unpack ?q l True = Overrun" for l
    using D assms(4) unfolding dns_rr_unpack_def by simp
  moreover obtain n where "unat (nquestion (hdr_of (take DNS_HDR_SIZE buf))) = Suc n"
    using assms(2) by (metis not0_implies_Suc unat_eq_zero)
  moreover have "load_at buf 0 DNS_HDR_SIZE = Some (take DNS_HDR_SIZE buf)" using assms(3) by (simp add: load_at_def DNS_HDR_SIZE_def)
  ultimately show ?thesis using assms(1) by (simp add: dns_unpack_def DNS_HDR_SIZE_def Let_def)
qed

theorem dns_unpack_overrun_witness: "dns_unpack (hdr_bytes (hdr demo_query) @ replicate 300 65) 312 = Overrun"
proof (rule dns_unpack_overrun)
  have n: "nquestion (hdr demo_query) = 1" by (simp add: demo_query_def)
  show "nquestion (hdr_of (take DNS_HDR_SIZE (hdr_bytes (hdr demo_query) @ replicate 300 65))) \<noteq> 0" by (simp add: hdr_of_bytes n)
  show "unat ((hdr_bytes (hdr demo_query) @ replicate 300 65) ! 12) < 192" by (simp add: nth_append DNS_HDR_SIZE_def)
qed (auto simp: DNS_HDR_SIZE_def)

lemma length_encode_loop: "encode_loop domain buf plen len = (buf', plen', len') \<Longrightarrow> length buf' = length buf + length domain"
  by (induction domain buf plen len rule: encode_loop.induct) (auto split: if_splits)

text \<open>A name that fills its array, of 255 characters, makes \<open>dns_rr_pack\<close> write past \<open>encoded_name\<close>.\<close>

lemma dns_pack_overrun: "255 \<le> length (rr_name rr) \<Longrightarrow> dns_rr_pack rr buf off len = Overrun"
  by (cases "encode_loop (rr_name rr) [0] 0 0")
    (auto simp: dns_rr_pack_def dns_name_encode_def DNS_NAME_MAXLEN_def dest: length_encode_loop)

text \<open>
  The root name is written as one byte and read as two; a legal question whose name ends in a
  compression pointer is read past the pointer and refused; a name that is only a pointer is
  accepted, and left empty.
\<close>

theorem dns_names_misread:
  "dns_name_encode [] = (1, [0, 0]) \<and> dns_name_decode [0, 0, 1, 0, 1] DNS_NAME_MAXLEN = Result (2, []) \<and>
    dns_rr_unpack [3, 119, 119, 119, 192, 12, 0, 1, 0, 1] 10 True = Refused \<and>
    dns_rr_unpack [192, 12, 0, 1, 0, 1] 6 True = Result (6, \<lparr>rr_name = [], rr_type = 1, rr_class = 1, rr_ttl = 0, rr_datalen = 0, rr_data = None\<rparr>)"
  by (intro conjI) code_simp+

section \<open>Queries\<close>

definition ERR_RECVFROM :: int where "ERR_RECVFROM = - 1018"
definition ERR_INVALID_PACKAGE :: int where "ERR_INVALID_PACKAGE = 1019"
definition ERR_MISMATCH :: int where "ERR_MISMATCH = 1023"
definition DNS_TYPE_A :: "16 word" where "DNS_TYPE_A = 1"
definition DNS_CLASS_IN :: "16 word" where "DNS_CLASS_IN = 1"

text \<open>
  \<open>exchange\<close> stands for the socket: from the packet sent, an error code or the bytes received, of which
  the buffer holds 1024.
\<close>

definition dns_query :: "(byte list \<Rightarrow> int + byte list) \<Rightarrow> dns \<Rightarrow> (int + dns) outcome" where
  "dns_query exchange query =
     (case dns_pack query (replicate 1024 0) 1024 of
        Overrun \<Rightarrow> Overrun
      | Refused \<Rightarrow> Result (Inl (- 1))
      | Result (buflen, buf) \<Rightarrow>
          (case exchange (take buflen buf) of
             Inl err \<Rightarrow> Result (Inl err)
           | Inr received \<Rightarrow>
               if received = [] then Result (Inl ERR_RECVFROM)
               else (let received = take 1024 received; nrecv = length received
                     in case dns_unpack (received @ drop nrecv buf) (int nrecv) of
                          Overrun \<Rightarrow> Overrun
                        | Refused \<Rightarrow> Result (Inl (- ERR_INVALID_PACKAGE))
                        | Result (nparse, response) \<Rightarrow>
                            if nparse \<noteq> nrecv then Result (Inl (- ERR_INVALID_PACKAGE)) else Result (Inr response))))"

text \<open>
  The loop over the answers, with the number of answers of type A before.  The data of a record points into the
  buffer of \<open>dns_query\<close>, which has returned: copying an address reads dead memory.
\<close>

fun address_loop :: "nat \<Rightarrow> dns_rr list \<Rightarrow> int \<Rightarrow> int \<Rightarrow> int outcome" where
  "address_loop 0 rrs naddr addr_cnt = Result addr_cnt"
| "address_loop (Suc n) [] naddr addr_cnt = Overrun"
| "address_loop (Suc n) (rr # rrs) naddr addr_cnt =
     (if rr_type rr = DNS_TYPE_A then
        (if addr_cnt < naddr \<and> rr_datalen rr = 4 then Overrun else address_loop n rrs naddr (addr_cnt + 1))
      else address_loop n rrs naddr addr_cnt)"

definition lookup_query :: "16 word \<Rightarrow> byte list \<Rightarrow> dns" where
  "lookup_query pid domain =
     \<lparr>hdr = \<lparr>transaction_id = pid, rd = True, tc = False, aa = False, opcode = 0, qr = False, rcode = 0, cd = False, ad = False,
        res = False, ra = False, nquestion = 1, nanswer = 0, nauthority = 0, naddtional = 0\<rparr>,
      questions = [\<lparr>rr_name = domain, rr_type = DNS_TYPE_A, rr_class = DNS_CLASS_IN, rr_ttl = 0, rr_datalen = 0, rr_data = None\<rparr>],
      answers = [], authorities = [], addtionals = []\<rparr>"

text \<open>\<open>strncpy\<close> leaves a name of 256 characters or more without an end: \<open>dns_name_encode\<close> reads on past the array.\<close>

definition nslookup :: "(byte list \<Rightarrow> int + byte list) \<Rightarrow> 16 word \<Rightarrow> byte list \<Rightarrow> int \<Rightarrow> int outcome" where
  "nslookup exchange pid domain naddr =
     (if length domain \<ge> DNS_NAME_MAXLEN then Overrun
      else bind_outcome (dns_query exchange (lookup_query pid domain)) (\<lambda>ret.
        case ret of
          Inl err \<Rightarrow> Result err
        | Inr resp \<Rightarrow>
            if transaction_id (hdr resp) \<noteq> pid \<or> \<not> qr (hdr resp) \<or> rcode (hdr resp) \<noteq> 0 then Result (- ERR_MISMATCH)
            else if nanswer (hdr resp) = 0 then Result 0
            else address_loop (unat (nanswer (hdr resp))) (answers resp) naddr 0))"

lemma dns_query_ok:
  assumes "dns_ok q" "length (dns_bytes q) \<le> 1024" "dns_ok r" "length (dns_bytes r) \<le> 1024" "exchange (dns_bytes q) = Inr (dns_bytes r)"
  shows "dns_query exchange q = Result (Inr r)"
proof -
  have "length (replicate 1024 0 :: byte list) = 1024" by (rule length_replicate)
  then have P: "dns_pack q (replicate 1024 0) 1024 = Result (length (dns_bytes q), dns_bytes q @ drop (length (dns_bytes q)) (replicate 1024 0))"
    using dns_pack_ok[OF assms(1), of "replicate 1024 0"] assms(2) by simp
  have "dns_bytes r \<noteq> []" using length_hdr_bytes[of "hdr r"] by (auto simp: dns_bytes_def DNS_HDR_SIZE_def simp del: length_hdr_bytes)
  then show ?thesis using assms(4,5) dns_unpack_ok[OF assms(3)] unfolding dns_query_def P by simp
qed

lemma lookup_query_ok:
  assumes "name_ok domain"
  shows "dns_ok (lookup_query pid domain)" "length (dns_bytes (lookup_query pid domain)) \<le> 1024"
  using assms by (auto simp: dns_ok_def lookup_query_def rr_ok_def dns_bytes_def rr_bytes_def DNS_HDR_SIZE_def length_name_bytes name_ok_def)

text \<open>The answers of type A, and those whose address is copied.\<close>

definition type_a :: "dns_rr list \<Rightarrow> dns_rr list" where
  "type_a rrs = filter (\<lambda>rr. rr_type rr = DNS_TYPE_A) rrs"

lemma address_loop_eq:
  "address_loop (length rrs) rrs naddr k =
    (if list_ex (\<lambda>rr. rr_datalen rr = 4) (take (nat (naddr - k)) (type_a rrs)) then Overrun else Result (k + int (length (type_a rrs))))"
proof (induction rrs arbitrary: k)
  case (Cons rr rrs)
  have "k < naddr \<Longrightarrow> nat (naddr - k) = Suc (nat (naddr - (k + 1)))" by simp
  then show ?case using Cons.IH[of "k + 1"] Cons.IH[of k] by (cases "k < naddr") (auto simp: type_a_def)
qed (simp add: type_a_def)

text \<open>
  A lookup of a proper name sends one question for its address, and for a proper reply to it gives the number of answers of type A -
  unless one of the first \<open>naddr\<close> of them has a four-byte address: then it copies the address out of the
  packet buffer of a function that has returned.  So no address is ever delivered by defined behaviour.
\<close>

theorem nslookup_dangling:
  assumes "name_ok domain" "dns_ok r" "length (dns_bytes r) \<le> 1024" "exchange (dns_bytes (lookup_query pid domain)) = Inr (dns_bytes r)"
    "transaction_id (hdr r) = pid" "qr (hdr r)" "rcode (hdr r) = 0"
  shows "nslookup exchange pid domain naddr =
    (if list_ex (\<lambda>rr. rr_datalen rr = 4) (take (nat naddr) (type_a (answers r))) then Overrun
     else Result (int (length (type_a (answers r)))))"
proof -
  have Q: "dns_query exchange (lookup_query pid domain) = Result (Inr r)"
    using dns_query_ok[of "lookup_query pid domain" r exchange] lookup_query_ok[OF assms(1)] assms(2-4) by blast
  have n: "unat (nanswer (hdr r)) = length (answers r)" using assms(2) by (simp add: dns_ok_def)
  have "length domain < DNS_NAME_MAXLEN" using assms(1) by (simp add: name_ok_def DNS_NAME_MAXLEN_def)
  moreover have "nanswer (hdr r) = 0 \<longleftrightarrow> answers r = []" using n by (metis length_0_conv unat_eq_zero)
  ultimately show ?thesis
    using assms(5-7) address_loop_eq[of "answers r" naddr 0] by (auto simp: nslookup_def Q n type_a_def)
qed

theorem nslookup_dangling_witness:
  "nslookup (\<lambda>sent. Inr (dns_bytes (demo_query\<lparr>hdr := (hdr demo_query)\<lparr>rcode := 0\<rparr>\<rparr>))) 4660 [97, 98, 46, 99] 16 = Overrun"
proof -
  let ?r = "demo_query\<lparr>hdr := (hdr demo_query)\<lparr>rcode := 0\<rparr>\<rparr>"
  have ok: "name_ok [97, 98, 46, 99]" "dns_ok ?r" "length (dns_bytes ?r) \<le> 1024" by code_simp+
  have a: "type_a (answers ?r) = answers demo_query" by (simp add: type_a_def DNS_TYPE_A_def demo_query_def)
  have i: "transaction_id (hdr ?r) = 4660" "qr (hdr ?r)" "rcode (hdr ?r) = 0" by (simp_all add: demo_query_def)
  show ?thesis
    using nslookup_dangling[OF ok, of "\<lambda>sent. Inr (dns_bytes ?r)" 4660 16] i unfolding a by (simp add: demo_query_def)
qed

end
