(* ===== verification/IniParser.thy ===== *)
theory IniParser
  imports HString HBase "HOL-Library.AList"
begin

text \<open>
  \<open>cpputil/iniparser.cpp\<close>: the tree of an INI file, loading it from text line by line, writing
  it back, and reading and changing its values.  The pointers of the parser are positions of
  the tree: \<open>pScopeNode\<close> is the root or its last child (a section), and \<open>pNewNode\<close> is the node
  that has just been added to the end of the scope.
\<close>

section \<open>Nodes\<close>

datatype ini_type =
    INI_NODE_TYPE_UNKNOWN
  | INI_NODE_TYPE_ROOT
  | INI_NODE_TYPE_SECTION
  | INI_NODE_TYPE_KEY_VALUE
  | INI_NODE_TYPE_DIV
  | INI_NODE_TYPE_SPAN

datatype IniNode =
  IniNode (node_type: ini_type) (node_label: string) (node_value: string) (node_children: "IniNode list")

definition node_Add :: "IniNode \<Rightarrow> IniNode \<Rightarrow> IniNode" where
  "node_Add p n = IniNode (node_type p) (node_label p) (node_value p) (node_children p @ [n])"

text \<open>\<open>Get\<close> answers a pointer to a child: its position among the children.\<close>

definition node_Get :: "IniNode \<Rightarrow> string \<Rightarrow> ini_type \<Rightarrow> nat option" where
  "node_Get p l t = find_idx (\<lambda>n. node_type n = t \<and> node_label n = l) (node_children p)"

definition node_Del :: "IniNode \<Rightarrow> nat \<Rightarrow> IniNode" where
  "node_Del p i = IniNode (node_type p) (node_label p) (node_value p)
     (take i (node_children p) @ drop (Suc i) (node_children p))"

record IniParser =
  ini_comment :: string
  ini_delim :: string
  ini_filepath :: string
  ini_root :: "IniNode option"

definition ini_init :: IniParser where
  "ini_init = \<lparr>ini_comment = ''#'', ini_delim = ''='', ini_filepath = [], ini_root = None\<rparr>"

definition ini_Unload :: "IniParser \<Rightarrow> IniParser" where
  "ini_Unload self = self\<lparr>ini_root := None\<rparr>"

section \<open>Loading\<close>

text \<open>\<open>getline\<close> until the stream ends: a text that ends in a newline has no empty last line.\<close>

definition getlines :: "string \<Rightarrow> string list" where
  "getlines s = (let ws = split_from NL [] s in if last ws = [] then butlast ws else ws)"

record ini_scan =
  scan_root :: IniNode
  scan_in_section :: bool
  scan_div :: string

definition map_last :: "('a \<Rightarrow> 'a) \<Rightarrow> 'a list \<Rightarrow> 'a list" where
  "map_last f xs = (if xs = [] then [] else butlast xs @ [f (last xs)])"

definition on_last_child :: "(IniNode \<Rightarrow> IniNode) \<Rightarrow> IniNode \<Rightarrow> IniNode" where
  "on_last_child f p =
     IniNode (node_type p) (node_label p) (node_value p) (map_last f (node_children p))"

text \<open>\<open>pScopeNode->Add(n)\<close> and \<open>pNewNode->Add(n)\<close>.\<close>

definition scope_Add :: "ini_scan \<Rightarrow> IniNode \<Rightarrow> ini_scan" where
  "scope_Add st n =
     (if scan_in_section st
      then st\<lparr>scan_root := on_last_child (\<lambda>sec. node_Add sec n) (scan_root st)\<rparr>
      else st\<lparr>scan_root := node_Add (scan_root st) n\<rparr>)"

definition flush_div :: "ini_scan \<Rightarrow> ini_scan" where
  "flush_div st =
     (if scan_div st \<noteq> []
      then (scope_Add st (IniNode INI_NODE_TYPE_DIV (scan_div st) [] []))\<lparr>scan_div := []\<rparr>
      else st)"

definition span_nodes :: "string \<Rightarrow> IniNode list" where
  "span_nodes comment =
     (if comment \<noteq> [] then [IniNode INI_NODE_TYPE_SPAN comment [] []] else [])"

text \<open>
  One turn of the loop of \<open>LoadFromMem\<close>; \<open>None\<close> is the \<open>out_of_range\<close> that \<open>substr\<close> throws
  when a delimiter of several characters is cut off by the end of the line.  The node that
  the code creates and then gives its tail comment is created here with it.
\<close>

definition ini_line :: "string \<Rightarrow> string \<Rightarrow> string \<Rightarrow> ini_scan \<Rightarrow> ini_scan option" where
  "ini_line comment_cs delim strLine st =
     (let content = trimL strLine SPACE_CHARS in
      if content = [] then Some (st\<lparr>scan_div := scan_div st @ [NL]\<rparr>)
      else
        let pos = find_first_of content comment_cs;
            comment = (case pos of None \<Rightarrow> [] | Some p \<Rightarrow> substr_from content p);
            content = (case pos of None \<Rightarrow> content | Some p \<Rightarrow> substr content 0 p);
            content = trimR content SPACE_CHARS
        in if content = [] then Some (st\<lparr>scan_div := scan_div st @ strLine @ [NL]\<rparr>)
           else
             let st = flush_div st in
             if hd content = CHR ''['' then
               if last content = CHR '']'' then
                 let label = trim (substr content 1 (length content - 2)) SPACE_CHARS
                 in Some (st\<lparr>scan_root := node_Add (scan_root st)
                                (IniNode INI_NODE_TYPE_SECTION label [] (span_nodes comment)),
                             scan_in_section := True\<rparr>)
               else Some st
             else
               case find_first_of content delim of
                 None \<Rightarrow> Some st
               | Some p \<Rightarrow>
                   if p + length delim \<le> length content then
                     Some (scope_Add st
                       (IniNode INI_NODE_TYPE_KEY_VALUE (trim (substr content 0 p) SPACE_CHARS)
                          (trim (substr_from content (p + length delim)) SPACE_CHARS)
                          (span_nodes comment)))
                   else None)"

fun ini_lines :: "string \<Rightarrow> string \<Rightarrow> string list \<Rightarrow> ini_scan \<Rightarrow> ini_scan option" where
  "ini_lines cs d [] st = Some st"
| "ini_lines cs d (l # ls) st = Option.bind (ini_line cs d l st) (ini_lines cs d ls)"

definition scan_start :: ini_scan where
  "scan_start = \<lparr>scan_root = IniNode INI_NODE_TYPE_ROOT [] [] [], scan_in_section = False, scan_div = []\<rparr>"

definition scan_end :: "ini_scan \<Rightarrow> IniNode" where
  "scan_end st =
     (if scan_div st \<noteq> []
      then node_Add (scan_root st) (IniNode INI_NODE_TYPE_DIV (scan_div st) [] [])
      else scan_root st)"

definition ini_LoadFromMem :: "IniParser \<Rightarrow> string \<Rightarrow> IniParser option" where
  "ini_LoadFromMem self data =
     map_option (\<lambda>st. self\<lparr>ini_root := Some (scan_end st)\<rparr>)
       (ini_lines (ini_comment self) (ini_delim self) (getlines (c_str data)) scan_start)"

section \<open>Files\<close>

datatype ini_err = ERR_OK | ERR_OPEN_FILE | ERR_SAVE_FILE

text \<open>
  \<open>HFile\<close> is a parameter: \<open>fread_all path\<close> is the contents read from a file that opens, and
  \<open>fwrite_all path text\<close> whether the file could be opened for writing.
\<close>

definition ini_LoadFromFile ::
    "(string \<Rightarrow> string option) \<Rightarrow> IniParser \<Rightarrow> string \<Rightarrow> (ini_err \<times> IniParser) option" where
  "ini_LoadFromFile fread_all self filepath =
     (let self = self\<lparr>ini_filepath := c_str filepath\<rparr>
      in case fread_all filepath of
           None \<Rightarrow> Some (ERR_OPEN_FILE, self)
         | Some str \<Rightarrow> map_option (\<lambda>p. (ERR_OK, p)) (ini_LoadFromMem self str))"

definition ini_Reload ::
    "(string \<Rightarrow> string option) \<Rightarrow> IniParser \<Rightarrow> (ini_err \<times> IniParser) option" where
  "ini_Reload fread_all self = ini_LoadFromFile fread_all self (ini_filepath self)"

section \<open>Writing\<close>

definition fresh_line :: "string \<Rightarrow> string" where
  "fresh_line str = (if str \<noteq> [] \<and> last str \<noteq> NL then str @ [NL] else str)"

definition node_text :: "string \<Rightarrow> IniNode \<Rightarrow> string" where
  "node_text delim n =
     (case node_type n of
        INI_NODE_TYPE_SECTION \<Rightarrow> ''['' @ node_label n @ '']''
      | INI_NODE_TYPE_KEY_VALUE \<Rightarrow>
          c_str (node_label n) @ '' '' @ c_str delim @ '' '' @ c_str (node_value n)
      | INI_NODE_TYPE_DIV \<Rightarrow> node_label n
      | INI_NODE_TYPE_SPAN \<Rightarrow> TAB # node_label n
      | _ \<Rightarrow> [])"

fun ini_DumpNode :: "string \<Rightarrow> IniNode \<Rightarrow> string \<Rightarrow> string" where
  "ini_DumpNode delim (IniNode t l v cs) str =
     fold (ini_DumpNode delim) cs
       ((if t \<noteq> INI_NODE_TYPE_SPAN then fresh_line str else str) @ node_text delim (IniNode t l v []))"

definition ini_DumpString :: "IniParser \<Rightarrow> string" where
  "ini_DumpString self =
     (case ini_root self of None \<Rightarrow> [] | Some r \<Rightarrow> ini_DumpNode (ini_delim self) r [])"

definition ini_SaveAs ::
    "(string \<Rightarrow> string \<Rightarrow> 'w \<Rightarrow> bool \<times> 'w) \<Rightarrow> IniParser \<Rightarrow> string \<Rightarrow> 'w \<Rightarrow> ini_err \<times> 'w" where
  "ini_SaveAs fwrite_all self filepath w =
     (let str = ini_DumpString self in
      if str = [] then (ERR_OK, w)
      else case fwrite_all filepath str w of
             (ok, w') \<Rightarrow> (if ok then ERR_OK else ERR_SAVE_FILE, w'))"

definition ini_Save ::
    "(string \<Rightarrow> string \<Rightarrow> 'w \<Rightarrow> bool \<times> 'w) \<Rightarrow> IniParser \<Rightarrow> 'w \<Rightarrow> ini_err \<times> 'w" where
  "ini_Save fwrite_all self w = ini_SaveAs fwrite_all self (ini_filepath self) w"

section \<open>Values\<close>

definition ini_GetValue :: "IniParser \<Rightarrow> string \<Rightarrow> string \<Rightarrow> string" where
  "ini_GetValue self key sec =
     (case ini_root self of
        None \<Rightarrow> []
      | Some root \<Rightarrow>
          (case (if sec \<noteq> []
                 then map_option ((!) (node_children root)) (node_Get root sec INI_NODE_TYPE_SECTION)
                 else Some root) of
             None \<Rightarrow> []
           | Some pSection \<Rightarrow>
               (case node_Get pSection key INI_NODE_TYPE_KEY_VALUE of
                  None \<Rightarrow> []
                | Some i \<Rightarrow> node_value (node_children pSection ! i))))"

definition set_value :: "string \<Rightarrow> IniNode \<Rightarrow> IniNode" where
  "set_value v n = IniNode (node_type n) (node_label n) v (node_children n)"

definition on_child :: "nat \<Rightarrow> (IniNode \<Rightarrow> IniNode) \<Rightarrow> IniNode \<Rightarrow> IniNode" where
  "on_child i f p = IniNode (node_type p) (node_label p) (node_value p)
     ((node_children p)[i := f (node_children p ! i)])"

definition section_SetValue :: "string \<Rightarrow> string \<Rightarrow> IniNode \<Rightarrow> IniNode" where
  "section_SetValue key v pSection =
     (case node_Get pSection key INI_NODE_TYPE_KEY_VALUE of
        None \<Rightarrow> node_Add pSection (IniNode INI_NODE_TYPE_KEY_VALUE key v [])
      | Some i \<Rightarrow> on_child i (set_value v) pSection)"

text \<open>
  \<open>junk\<close> is the value the uninitialised \<open>type\<close> of a root made by \<open>SetValue\<close> happens to have.
\<close>

definition ini_SetValue :: "ini_type \<Rightarrow> IniParser \<Rightarrow> string \<Rightarrow> string \<Rightarrow> string \<Rightarrow> IniParser" where
  "ini_SetValue junk self key v sec =
     (let root = (case ini_root self of None \<Rightarrow> IniNode junk [] [] [] | Some r \<Rightarrow> r)
      in if sec \<noteq> [] then
           (case node_Get root sec INI_NODE_TYPE_SECTION of
              Some i \<Rightarrow> self\<lparr>ini_root := Some (on_child i (section_SetValue key v) root)\<rparr>
            | None \<Rightarrow> self\<lparr>ini_root := Some (node_Add root
                        (section_SetValue key v (IniNode INI_NODE_TYPE_SECTION sec [] [])))\<rparr>)
         else self\<lparr>ini_root := Some (section_SetValue key v root)\<rparr>)"

text \<open>The typed accessors, for \<open>bool\<close> and \<open>int\<close> (\<open>float\<close> goes through \<open>atof\<close> and is left out).\<close>

definition ini_Get_bool :: "IniParser \<Rightarrow> string \<Rightarrow> string \<Rightarrow> bool \<Rightarrow> bool" where
  "ini_Get_bool self key sec defvalue =
     (let str = ini_GetValue self key sec in if str = [] then defvalue else getboolean (Some str))"

definition ini_Get_int :: "IniParser \<Rightarrow> string \<Rightarrow> string \<Rightarrow> int \<Rightarrow> int" where
  "ini_Get_int self key sec defvalue =
     (let str = ini_GetValue self key sec in if str = [] then defvalue else atoi str)"

definition ini_Set_bool :: "ini_type \<Rightarrow> IniParser \<Rightarrow> string \<Rightarrow> bool \<Rightarrow> string \<Rightarrow> IniParser" where
  "ini_Set_bool junk self key v sec =
     ini_SetValue junk self key (if v then ''true'' else ''false'') sec"

definition ini_Set_int :: "ini_type \<Rightarrow> IniParser \<Rightarrow> string \<Rightarrow> int \<Rightarrow> string \<Rightarrow> IniParser" where
  "ini_Set_int junk self key v sec = ini_SetValue junk self key (show_int v) sec"

section \<open>Well-formed trees and the lines they are written as\<close>

definition trimmed :: "string \<Rightarrow> bool" where
  "trimmed w \<longleftrightarrow> w = [] \<or> (hd w \<notin> set SPACE_CHARS \<and> last w \<notin> set SPACE_CHARS)"

definition plain :: "string \<Rightarrow> bool" where
  "plain w \<longleftrightarrow> NL \<notin> set w \<and> no_nul w"

definition ini_word :: "string \<Rightarrow> bool" where
  "ini_word w \<longleftrightarrow> trimmed w \<and> plain w \<and> CHR ''#'' \<notin> set w"

definition ini_key :: "string \<Rightarrow> bool" where
  "ini_key w \<longleftrightarrow> ini_word w \<and> CHR ''='' \<notin> set w \<and> (w = [] \<or> hd w \<noteq> CHR ''['')"

definition div_line :: "string \<Rightarrow> bool" where
  "div_line l \<longleftrightarrow> plain l \<and>
     (l = [] \<or> (\<exists>a b. l = a @ CHR ''#'' # b \<and> set a \<subseteq> set SPACE_CHARS))"

definition lines_text :: "string list \<Rightarrow> string" where
  "lines_text ls = concat (map (\<lambda>l. l @ [NL]) ls)"

definition comment_ok :: "string \<Rightarrow> bool" where
  "comment_ok c \<longleftrightarrow> plain c \<and> (c = [] \<or> hd c = CHR ''#'')"

definition span_text :: "string \<Rightarrow> string" where
  "span_text c = (if c = [] then [] else TAB # c)"

text \<open>The shapes of key-value nodes, comment blocks and sections.\<close>

definition kv_ok :: "IniNode \<Rightarrow> bool" where
  "kv_ok n \<longleftrightarrow> (\<exists>k v c. n = IniNode INI_NODE_TYPE_KEY_VALUE k v (span_nodes c) \<and>
     ini_key k \<and> ini_word v \<and> comment_ok c)"

definition div_ok :: "IniNode \<Rightarrow> bool" where
  "div_ok n \<longleftrightarrow> (\<exists>ls. n = IniNode INI_NODE_TYPE_DIV (lines_text ls) [] [] \<and> ls \<noteq> [] \<and>
     (\<forall>l \<in> set ls. div_line l))"

definition item_ok :: "IniNode \<Rightarrow> bool" where
  "item_ok n \<longleftrightarrow> kv_ok n \<or> div_ok n"

definition section_ok :: "IniNode \<Rightarrow> bool" where
  "section_ok n \<longleftrightarrow> (\<exists>l c items. n = IniNode INI_NODE_TYPE_SECTION l [] (span_nodes c @ items) \<and>
     ini_word l \<and> comment_ok c \<and> (\<forall>i \<in> set items. item_ok i))"

definition root_ok :: "IniNode \<Rightarrow> bool" where
  "root_ok r \<longleftrightarrow> (\<exists>items rest. r = IniNode INI_NODE_TYPE_ROOT [] [] (items @ rest) \<and>
     (\<forall>i \<in> set items. item_ok i) \<and> (\<forall>i \<in> set rest. section_ok i \<or> div_ok i))"

lemma dropWhile_all_app: "\<forall>x \<in> set a. P x \<Longrightarrow> dropWhile P (a @ b) = dropWhile P b"
  by (induction a) auto

lemma dropWhile_hd_id: "b = [] \<or> \<not> P (hd b) \<Longrightarrow> dropWhile P b = b"
  by (cases b) auto

lemma trimL_app: "set a \<subseteq> set cs \<Longrightarrow> b = [] \<or> hd b \<notin> set cs \<Longrightarrow> trimL (a @ b) cs = b"
  by (simp add: trimL_eq dropWhile_all_app subset_iff dropWhile_hd_id)

lemma trimR_app: "set b \<subseteq> set cs \<Longrightarrow> a = [] \<or> last a \<notin> set cs \<Longrightarrow> trimR (a @ b) cs = a"
  using dropWhile_hd_id[of "rev a" "\<lambda>c. c \<in> set cs"]
  by (auto simp: trimR_eq dropWhile_all_app subset_iff hd_rev)

lemma trim_app:
  assumes "set a \<subseteq> set SPACE_CHARS" "set b \<subseteq> set SPACE_CHARS" "trimmed w"
  shows "trim (a @ w @ b) SPACE_CHARS = w"
proof (cases "w = []")
  case True
  with assms show ?thesis by (simp add: trim_empty)
next
  case False
  with assms have "trimR ((a @ w) @ b) SPACE_CHARS = a @ w" "trimL (a @ w) SPACE_CHARS = w"
    by (intro trimR_app trimL_app; simp add: trimmed_def)+
  then show ?thesis by (simp add: trim_trimL_trimR)
qed

lemma find_first_of_app:
  "\<forall>c \<in> set a. c \<notin> set cs \<Longrightarrow> x \<in> set cs \<Longrightarrow> find_first_of (a @ x # b) cs = Some (length a)"
  by (induction a) (auto simp: strops)

lemma find_first_of_none: "\<forall>c \<in> set a. c \<notin> set cs \<Longrightarrow> find_first_of a cs = None"
  by (simp add: strops find_none)

section \<open>One line at a time\<close>

abbreviation ini_step :: "string \<Rightarrow> ini_scan \<Rightarrow> ini_scan option" where
  "ini_step \<equiv> ini_line ''#'' ''=''"

text \<open>A line seen as a content and a tail comment, with the white space around them.\<close>

definition line_split :: "string \<Rightarrow> string \<Rightarrow> string \<Rightarrow> bool" where
  "line_split l content c \<longleftrightarrow> (\<exists>a b. l = a @ content @ b @ c \<and> set a \<subseteq> set SPACE_CHARS \<and>
     set b \<subseteq> set SPACE_CHARS \<and> trimmed content \<and> content \<noteq> [] \<and> CHR ''#'' \<notin> set content \<and>
     (c = [] \<or> hd c = CHR ''#''))"

definition ini_content :: "string \<Rightarrow> string \<Rightarrow> ini_scan \<Rightarrow> ini_scan option" where
  "ini_content content c st =
     (if hd content = CHR ''['' then
        if last content = CHR '']'' then
          Some (st\<lparr>scan_root := node_Add (scan_root st)
                     (IniNode INI_NODE_TYPE_SECTION
                        (trim (substr content 1 (length content - 2)) SPACE_CHARS) [] (span_nodes c)),
                   scan_in_section := True\<rparr>)
        else Some st
      else case find_first_of content ''='' of
             None \<Rightarrow> Some st
           | Some p \<Rightarrow> Some (scope_Add st
               (IniNode INI_NODE_TYPE_KEY_VALUE (trim (substr content 0 p) SPACE_CHARS)
                  (trim (substr_from content (p + 1)) SPACE_CHARS) (span_nodes c))))"

lemma ini_step_content:
  assumes "line_split l content c"
  shows "ini_step l st = ini_content content c (flush_div st)"
proof -
  obtain a b where l: "l = a @ content @ b @ c" and ab: "set a \<subseteq> set SPACE_CHARS"
    "set b \<subseteq> set SPACE_CHARS" and content: "trimmed content" "content \<noteq> []"
    "CHR ''#'' \<notin> set content" and c: "c = [] \<or> hd c = CHR ''#''"
    using assms by (auto simp: line_split_def)
  have nb: "CHR ''#'' \<notin> set (content @ b)"
    using content(3) ab(2) by (auto simp: SPACE_CHARS_def)
  have tl: "trimL l SPACE_CHARS = content @ b @ c"
    unfolding l using ab(1) content(1,2) by (intro trimL_app) (simp_all add: trimmed_def)
  have tr: "trimR (content @ b) SPACE_CHARS = content"
    using ab(2) content(1) by (intro trimR_app) (auto simp: trimmed_def)
  have less: "p + 1 \<le> length content" if "find_first_of content ''='' = Some p" for p
    using that find_idx_less[of _ content p] by (fastforce simp: strops)
  show ?thesis
  proof (cases "c = []")
    case True
    then have "find_first_of (content @ b @ c) ''#'' = None"
      using nb by (intro find_first_of_none) auto
    then show ?thesis
      using True content(2) less
      by (simp add: ini_line_def tl tr ini_content_def Let_def split: option.splits)
  next
    case False
    with c obtain c' where c': "c = CHR ''#'' # c'" by (cases c) auto
    then have "find_first_of ((content @ b) @ c) ''#'' = Some (length (content @ b))"
      unfolding c' using nb by (intro find_first_of_app) auto
    then have "find_first_of (content @ b @ c) ''#'' = Some (length content + length b)" by simp
    moreover have "substr_from (content @ b @ c) (length content + length b) = c"
      "substr (content @ b @ c) 0 (length content + length b) = content @ b"
      by (simp_all add: strops)
    ultimately show ?thesis
      using content(2) less False
      by (simp add: ini_line_def tl tr ini_content_def Let_def split: option.splits)
  qed
qed

lemma ini_step_div:
  assumes "div_line l"
  shows "ini_step l st = Some (st\<lparr>scan_div := scan_div st @ l @ [NL]\<rparr>)"
proof (cases "l = []")
  case True
  then show ?thesis by (simp add: ini_line_def trimL_eq)
next
  case False
  with assms obtain a b where l: "l = a @ CHR ''#'' # b" "set a \<subseteq> set SPACE_CHARS"
    by (auto simp: div_line_def)
  then have "trimL l SPACE_CHARS = CHR ''#'' # b"
    unfolding l(1) by (intro trimL_app) (auto simp: SPACE_CHARS_def)
  moreover have "find_first_of (CHR ''#'' # b) ''#'' = Some 0" by (simp add: strops)
  moreover have "trimR [] SPACE_CHARS = []" by (simp add: trimR_eq)
  ultimately show ?thesis by (simp add: ini_line_def Let_def substr_def)
qed

lemma spanE:
  obtains a r where "xs = a @ r" "\<forall>x \<in> set a. P x" "r = [] \<or> \<not> P (hd r)"
proof
  show "xs = takeWhile P xs @ dropWhile P xs" by simp
  show "\<forall>x \<in> set (takeWhile P xs). P x" by (auto dest: set_takeWhileD)
  show "dropWhile P xs = [] \<or> \<not> P (hd (dropWhile P xs))"
    using hd_dropWhile[of P xs] by blast
qed

lemma rspanE:
  obtains a r where "xs = r @ a" "\<forall>x \<in> set a. P x" "r = [] \<or> \<not> P (last r)"
proof -
  obtain a r where "rev xs = a @ r" "\<forall>x \<in> set a. P x" "r = [] \<or> \<not> P (hd r)" by (rule spanE)
  then have "xs = rev r @ rev a" "\<forall>x \<in> set (rev a). P x" "rev r = [] \<or> \<not> P (last (rev r))"
    by (simp_all add: last_rev rev_swap)
  then show thesis by (rule that)
qed

text \<open>Every line is a blank or comment line, or has a content.\<close>

lemma line_cases:
  assumes "plain l"
  obtains (blank) "set l \<subseteq> set SPACE_CHARS" | (div) "div_line l"
  | (content) content c where "line_split l content c" "plain content" "comment_ok c"
proof -
  let ?s = "set SPACE_CHARS"
  obtain a r where l: "l = a @ r" "\<forall>x \<in> set a. x \<in> ?s" "r = [] \<or> hd r \<notin> ?s"
    by (rule spanE)
  obtain d c where rc: "r = d @ c" "\<forall>x \<in> set d. x \<noteq> CHR ''#''" "c = [] \<or> \<not> hd c \<noteq> CHR ''#''"
    by (rule spanE)
  obtain b content where db: "d = content @ b" "\<forall>x \<in> set b. x \<in> ?s"
    "content = [] \<or> last content \<notin> ?s"
    by (rule rspanE)
  consider "r = []" | "r \<noteq> []" "d = []" | "r \<noteq> []" "d \<noteq> []" by blast
  then show thesis
  proof cases
    case 1
    with l blank show thesis by (simp add: subset_iff)
  next
    case 2
    with rc obtain c' where "r = CHR ''#'' # c'" by (cases c) auto
    with l assms have "div_line l" by (auto simp: div_line_def)
    then show thesis by (rule div)
  next
    case 3
    have ne: "content \<noteq> []"
      using db 3 l rc by (cases b) auto
    then have "hd content = hd r" using db rc by simp
    moreover have "CHR ''#'' \<notin> set content" using rc(2) db(1) by (metis Un_iff set_append)
    ultimately have "line_split l content c"
      using l 3 rc db ne unfolding line_split_def trimmed_def
      by (intro exI[of _ a] exI[of _ b]) (simp add: subset_iff)
    moreover have "plain (a @ (content @ b) @ c)" using assms l(1) rc(1) db(1) by simp
    then have "plain content" "comment_ok c" using rc(3) by (simp_all add: plain_def comment_ok_def)
    ultimately show thesis by (rule content)
  qed
qed

section \<open>What the scan has read, as text and as values\<close>

abbreviation ini_dump :: "IniNode \<Rightarrow> string \<Rightarrow> string" where
  "ini_dump \<equiv> ini_DumpNode ''=''"

text \<open>
  The contents of a tree as a map: the key-value pairs at the top and, per section, in order;
  comments and the position of blank lines are not part of it.
\<close>

type_synonym ini_view = "(string \<times> string) list \<times> (string \<times> (string \<times> string) list) list"

definition kv_view :: "IniNode \<Rightarrow> (string \<times> string) list" where
  "kv_view n = (if node_type n = INI_NODE_TYPE_KEY_VALUE then [(node_label n, node_value n)] else [])"

definition kvs_view :: "IniNode list \<Rightarrow> (string \<times> string) list" where
  "kvs_view ns = concat (map kv_view ns)"

definition sec_view :: "IniNode \<Rightarrow> (string \<times> (string \<times> string) list) list" where
  "sec_view n = (if node_type n = INI_NODE_TYPE_SECTION
                 then [(node_label n, kvs_view (node_children n))] else [])"

definition root_view :: "IniNode \<Rightarrow> ini_view" where
  "root_view r = (kvs_view (node_children r), concat (map sec_view (node_children r)))"

definition view_get :: "ini_view \<Rightarrow> string \<Rightarrow> string \<Rightarrow> string" where
  "view_get v key sec =
     (case (if sec \<noteq> [] then map_of (snd v) sec else Some (fst v)) of
        None \<Rightarrow> []
      | Some kvs \<Rightarrow> (case map_of kvs key of None \<Rightarrow> [] | Some x \<Rightarrow> x))"

definition scan_wf :: "ini_scan \<Rightarrow> bool" where
  "scan_wf st \<longleftrightarrow>
     (scan_in_section st \<longrightarrow> node_children (scan_root st) \<noteq> [] \<and>
        node_type (last (node_children (scan_root st))) = INI_NODE_TYPE_SECTION) \<and>
     (scan_div st \<noteq> [] \<longrightarrow> last (scan_div st) = NL)"

definition scan_text :: "ini_scan \<Rightarrow> string" where
  "scan_text st = ini_dump (scan_end st) []"

definition scan_view :: "ini_scan \<Rightarrow> bool \<times> ini_view" where
  "scan_view st = (scan_in_section st, root_view (scan_root st))"

text \<open>What one written line adds to the text, and one node to the values.\<close>

definition emit :: "string \<Rightarrow> string \<Rightarrow> string" where
  "emit l str = fresh_line str @ l @ (if div_line l then [NL] else [])"

definition view_kv :: "(string \<times> string) list \<Rightarrow> bool \<times> ini_view \<Rightarrow> bool \<times> ini_view" where
  "view_kv kvs w = (case w of (b, r, s) \<Rightarrow>
     if b then (b, r, map_last (\<lambda>(l, ks). (l, ks @ kvs)) s) else (b, r @ kvs, s))"

definition view_node :: "IniNode \<Rightarrow> bool \<times> ini_view \<Rightarrow> bool \<times> ini_view" where
  "view_node n w =
     (if node_type n = INI_NODE_TYPE_SECTION
      then (True, fst (snd w), snd (snd w) @ [(node_label n, kvs_view (node_children n))])
      else view_kv (kv_view n) w)"

lemma map_last_snoc [simp]: "map_last f (xs @ [x]) = xs @ [f x]"
  by (simp add: map_last_def)

lemma map_last_Nil [simp]: "map_last f [] = []"
  by (simp add: map_last_def)

lemma map_last_id: "(\<And>x. f x = x) \<Longrightarrow> map_last f xs = xs"
  by (cases xs rule: rev_cases) auto

lemma map_last_comp: "map_last f (map_last g xs) = map_last (\<lambda>x. f (g x)) xs"
  by (cases xs rule: rev_cases) auto

lemma kvs_view_simps [simp]:
  "kvs_view [] = []" "kvs_view (n # ns) = kv_view n @ kvs_view ns"
  "kvs_view (ns @ ms) = kvs_view ns @ kvs_view ms"
  by (simp_all add: kvs_view_def)

lemma view_kv_Nil [simp]: "view_kv [] w = w"
  by (cases w) (auto simp: view_kv_def intro: map_last_id)

lemma view_kv_append: "view_kv b (view_kv a w) = view_kv (a @ b) w"
  by (cases w) (auto simp: view_kv_def map_last_comp split: prod.splits intro!: arg_cong[of _ _ "\<lambda>f. map_last f _"])

lemma node_Add_simps [simp]:
  "node_type (node_Add p n) = node_type p" "node_label (node_Add p n) = node_label p"
  "node_value (node_Add p n) = node_value p" "node_children (node_Add p n) = node_children p @ [n]"
  by (simp_all add: node_Add_def)

lemma on_last_child_simps [simp]:
  "node_type (on_last_child f p) = node_type p"
  "node_children (on_last_child f p) = map_last f (node_children p)"
  by (simp_all add: on_last_child_def)

lemma dump_node_Add: "ini_DumpNode d (node_Add p n) str = ini_DumpNode d n (ini_DumpNode d p str)"
  by (cases p) (simp add: node_Add_def)

lemma dump_on_last_child:
  assumes "node_children p \<noteq> []" "\<And>str. ini_DumpNode d (f (last (node_children p))) str =
    h (ini_DumpNode d (last (node_children p)) str)"
  shows "ini_DumpNode d (on_last_child f p) str = h (ini_DumpNode d p str)"
  using assms by (cases p; cases "node_children p" rule: rev_cases)
    (simp_all add: on_last_child_def)

lemma scope_Add_simps [simp]:
  "scan_div (scope_Add st n) = scan_div st"
  "scan_in_section (scope_Add st n) = scan_in_section st"
  by (simp_all add: scope_Add_def)

lemma scope_Add_wf [simp]: "scan_wf st \<Longrightarrow> scan_wf (scope_Add st n)"
  by (cases "node_children (scan_root st)" rule: rev_cases) (auto simp: scan_wf_def scope_Add_def)

lemma scope_Add_text:
  assumes "scan_wf st"
  shows "ini_dump (scan_root (scope_Add st n)) str = ini_dump n (ini_dump (scan_root st) str)"
  using assms dump_on_last_child[of "scan_root st" "''=''" "\<lambda>sec. node_Add sec n" "ini_dump n" str]
  by (simp add: scope_Add_def dump_node_Add scan_wf_def)

lemma scope_Add_view:
  assumes "scan_wf st" "node_type n \<noteq> INI_NODE_TYPE_SECTION"
  shows "scan_view (scope_Add st n) = view_kv (kv_view n) (scan_view st)"
proof (cases "scan_in_section st")
  case True
  then obtain ns sec where "node_children (scan_root st) = ns @ [sec]"
    "node_type sec = INI_NODE_TYPE_SECTION"
    using assms by (cases "node_children (scan_root st)" rule: rev_cases) (auto simp: scan_wf_def)
  with True show ?thesis
    by (simp add: scan_view_def scope_Add_def root_view_def view_kv_def sec_view_def kv_view_def)
next
  case False
  with assms show ?thesis
    by (simp add: scan_view_def scope_Add_def root_view_def view_kv_def sec_view_def)
qed

lemma scan_text_eq:
  "scan_text st = (if scan_div st = [] then ini_dump (scan_root st) []
                   else fresh_line (ini_dump (scan_root st) []) @ scan_div st)"
  by (simp add: scan_text_def scan_end_def dump_node_Add node_text_def)

lemma flush_div_simps [simp]:
  "scan_div (flush_div st) = []" "scan_in_section (flush_div st) = scan_in_section st"
  by (simp_all add: flush_div_def)

lemma flush_div_wf [simp]: "scan_wf st \<Longrightarrow> scan_wf (flush_div st)"
  using scope_Add_wf[of st] by (simp add: flush_div_def scan_wf_def)

lemma flush_div_text: "scan_wf st \<Longrightarrow> ini_dump (scan_root (flush_div st)) [] = scan_text st"
  by (simp add: flush_div_def scan_text_eq scope_Add_text node_text_def)

lemma flush_div_view: "scan_wf st \<Longrightarrow> scan_view (flush_div st) = scan_view st"
  using scope_Add_view[of st "IniNode INI_NODE_TYPE_DIV (scan_div st) [] []"]
  by (simp add: flush_div_def kv_view_def scan_view_def)

text \<open>The value a lookup finds is that of the map.\<close>

lemma find_idx_map_of:
  "(case find_idx (\<lambda>n. node_type n = INI_NODE_TYPE_KEY_VALUE \<and> node_label n = key) ns of
      None \<Rightarrow> [] | Some i \<Rightarrow> node_value (ns ! i)) =
   (case map_of (kvs_view ns) key of None \<Rightarrow> [] | Some x \<Rightarrow> x)"
  by (induction ns) (auto simp: kv_view_def split: option.splits)

lemma find_sec_map_of:
  "map_option (\<lambda>i. kvs_view (node_children (ns ! i)))
     (find_idx (\<lambda>n. node_type n = INI_NODE_TYPE_SECTION \<and> node_label n = sec) ns) =
   map_of (concat (map sec_view ns)) sec"
  by (induction ns) (auto simp: sec_view_def option.map_comp comp_def)

lemma GetValue_view:
  assumes "ini_root self = Some r"
  shows "ini_GetValue self key sec = view_get (root_view r) key sec"
proof (cases "sec = []")
  case True
  then show ?thesis
    using assms find_idx_map_of[of "node_children r" key]
    by (simp add: ini_GetValue_def view_get_def node_Get_def root_view_def)
next
  case False
  show ?thesis
    using False assms find_sec_map_of[of "node_children r" sec] find_idx_map_of[where key = key]
    by (auto simp: ini_GetValue_def view_get_def node_Get_def root_view_def split: option.splits)
qed

section \<open>Reading back what was written\<close>

definition sim :: "string list \<Rightarrow> (string \<Rightarrow> string) \<Rightarrow> (bool \<times> ini_view \<Rightarrow> bool \<times> ini_view) \<Rightarrow> bool" where
  "sim ls t g \<longleftrightarrow> (\<forall>l \<in> set ls. plain l) \<and> (\<forall>str. t str = fold emit ls str) \<and>
     (\<forall>st. scan_wf st \<longrightarrow> (\<exists>st'. ini_lines ''#'' ''='' ls st = Some st' \<and> scan_wf st' \<and>
        scan_text st' = t (scan_text st) \<and> scan_view st' = g (scan_view st)))"

lemma simI:
  assumes "\<And>l. l \<in> set ls \<Longrightarrow> plain l" "\<And>str. t str = fold emit ls str"
    "\<And>st. scan_wf st \<Longrightarrow> \<exists>st'. ini_lines ''#'' ''='' ls st = Some st' \<and> scan_wf st' \<and>
        scan_text st' = t (scan_text st) \<and> scan_view st' = g (scan_view st)"
  shows "sim ls t g"
  using assms by (auto simp: sim_def)

lemma ini_lines_append:
  "ini_lines cs d (ls @ ms) st = Option.bind (ini_lines cs d ls st) (ini_lines cs d ms)"
proof (induction ls arbitrary: st)
  case (Cons l ls)
  then show ?case by (cases "ini_line cs d l st") simp_all
qed simp

lemma sim_Nil: "sim [] (\<lambda>s. s) (\<lambda>w. w)"
  by (simp add: sim_def)

lemma sim_append:
  assumes "sim ls t g" "sim ms t' g'"
  shows "sim (ls @ ms) (\<lambda>s. t' (t s)) (\<lambda>w. g' (g w))"
proof (rule simI)
  fix st assume "scan_wf st"
  then obtain st' where "ini_lines ''#'' ''='' ls st = Some st'" "scan_wf st'"
    "scan_text st' = t (scan_text st)" "scan_view st' = g (scan_view st)"
    using assms(1) unfolding sim_def by blast
  moreover obtain st'' where "ini_lines ''#'' ''='' ms st' = Some st''" "scan_wf st''"
    "scan_text st'' = t' (scan_text st')" "scan_view st'' = g' (scan_view st')"
    using assms(2) \<open>scan_wf st'\<close> unfolding sim_def by blast
  ultimately show "\<exists>st'. ini_lines ''#'' ''='' (ls @ ms) st = Some st' \<and> scan_wf st' \<and>
        scan_text st' = t' (t (scan_text st)) \<and> scan_view st' = g' (g (scan_view st))"
    by (simp add: ini_lines_append)
qed (use assms in \<open>auto simp: sim_def\<close>)

lemma sim_fold:
  assumes "\<And>n. n \<in> set ns \<Longrightarrow> \<exists>ls. sim ls (ini_dump n) (view_node n)"
  shows "\<exists>ls. sim ls (fold ini_dump ns) (fold view_node ns)"
  using assms
proof (induction ns)
  case Nil
  have "sim [] (fold ini_dump []) (fold view_node [])"
    using sim_Nil by (simp add: id_def)
  then show ?case by blast
next
  case (Cons n ns)
  obtain ls ms where "sim ls (ini_dump n) (view_node n)" "sim ms (fold ini_dump ns) (fold view_node ns)"
    using Cons by (meson list.set_intros)
  from sim_append[OF this] show ?case by (auto simp: comp_def)
qed

lemma line_split_not_div:
  assumes "line_split l content c"
  shows "\<not> div_line l"
proof
  assume "div_line l"
  obtain a b where l: "l = a @ content @ b @ c" "set a \<subseteq> set SPACE_CHARS" "trimmed content"
    "content \<noteq> []" "CHR ''#'' \<notin> set content"
    using assms by (auto simp: line_split_def)
  then have "trimL l SPACE_CHARS = content @ b @ c"
    unfolding l(1) by (intro trimL_app) (simp_all add: trimmed_def)
  moreover obtain a' b' where "l = a' @ CHR ''#'' # b'" "set a' \<subseteq> set SPACE_CHARS"
    using \<open>div_line l\<close> l by (auto simp: div_line_def)
  then have "trimL l SPACE_CHARS = CHR ''#'' # b'"
    using trimL_app[of a' SPACE_CHARS "CHR ''#'' # b'"] by (simp add: SPACE_CHARS_def)
  ultimately have "hd (content @ b @ c) = CHR ''#''" by (metis list.sel(1))
  with l show False by (cases content) auto
qed

lemma sim_content:
  assumes "line_split l content c" "plain l"
    and "\<And>str. t str = fresh_line str @ l"
    and "\<And>st. scan_wf st \<Longrightarrow> scan_div st = [] \<Longrightarrow> \<exists>st'. ini_content content c st = Some st' \<and> scan_wf st' \<and>
        scan_text st' = t (scan_text st) \<and> scan_view st' = g (scan_view st)"
  shows "sim [l] t g"
proof (rule simI)
  fix st assume st: "scan_wf st"
  have "scan_text (flush_div st) = scan_text st" "scan_view (flush_div st) = scan_view st"
    using st by (simp_all add: scan_text_eq[of "flush_div st"] flush_div_text flush_div_view)
  then show "\<exists>st'. ini_lines ''#'' ''='' [l] st = Some st' \<and> scan_wf st' \<and>
        scan_text st' = t (scan_text st) \<and> scan_view st' = g (scan_view st)"
    using assms(4)[of "flush_div st"] st by (fastforce simp: ini_step_content[OF assms(1)])
qed (use assms line_split_not_div[OF assms(1)] in \<open>simp_all add: emit_def\<close>)

lemma dump_span_nodes:
  "fold (ini_DumpNode d) (span_nodes c) str = str @ span_text c"
  by (simp add: span_nodes_def span_text_def node_text_def)

lemma span_no_view [simp]: "kvs_view (span_nodes c) = []"
  by (simp add: span_nodes_def kv_view_def)

lemma sim_kv:
  assumes "kv_ok n"
  shows "\<exists>ls. sim ls (ini_dump n) (view_node n)"
proof -
  obtain k v c where n: "n = IniNode INI_NODE_TYPE_KEY_VALUE k v (span_nodes c)"
    and k: "ini_key k" and v: "ini_word v" and c: "comment_ok c"
    using assms by (auto simp: kv_ok_def)
  have nn: "no_nul k" "no_nul v" using k v by (simp_all add: ini_key_def ini_word_def plain_def)
  let ?k = "if k = [] then [] else k @ '' ''" and ?v = "if v = [] then [] else '' '' @ v"
  let ?l = "k @ '' = '' @ v @ span_text c" and ?content = "?k @ ''='' @ ?v"
  have tk: "trim ?k SPACE_CHARS = k"
    using trim_app[of "[]" "'' ''" k] k
    by (auto simp: trim_empty SPACE_CHARS_def ini_key_def ini_word_def)
  have tv: "trim ?v SPACE_CHARS = v"
    using trim_app[of "'' ''" "[]" v] v
    by (auto simp: trim_empty SPACE_CHARS_def ini_word_def)
  have hash: "CHR ''#'' \<notin> set ?k" "CHR ''#'' \<notin> set ?v"
    using k v by (auto simp: ini_key_def ini_word_def)
  have hd: "hd ?content \<noteq> CHR ''[''" "trimmed ?content"
    using k v by (auto simp: ini_key_def ini_word_def trimmed_def SPACE_CHARS_def)
  have eq: "?l = (if k = [] then '' '' else []) @ ?content @
      ((if v = [] then '' '' else []) @ (if c = [] then [] else [TAB])) @ c"
    by (simp add: span_text_def)
  have ls: "line_split ?l ?content c"
    unfolding line_split_def
    by (rule exI, rule exI, rule conjI, rule eq)
      (use hash hd c in \<open>auto simp: SPACE_CHARS_def comment_ok_def\<close>)
  have "find_first_of (?k @ CHR ''='' # ?v) ''='' = Some (length ?k)"
    using k by (intro find_first_of_app) (auto simp: ini_key_def)
  then have pos: "find_first_of ?content ''='' = Some (length ?k)" by simp
  have sub: "substr ?content 0 (length ?k) = ?k" "substr_from ?content (length ?k + 1) = ?v"
    by (simp_all only: substr_def substr_from_def append_Cons append_Nil drop_0) simp_all
  have step: "ini_content ?content c st = Some (scope_Add st n)" for st
    unfolding ini_content_def pos option.case sub tk tv n using hd(1) by simp
  have dump: "ini_dump n str = fresh_line str @ ?l" for str
    unfolding n by (simp add: dump_span_nodes node_text_def nn)
  have "sim [?l] (ini_dump n) (view_node n)"
  proof (rule sim_content[OF ls])
    show "plain ?l" using k v c by (auto simp: plain_def ini_key_def ini_word_def comment_ok_def span_text_def)
  next
    fix st assume "scan_wf st" "scan_div st = []"
    then show "\<exists>st'. ini_content ?content c st = Some st' \<and> scan_wf st' \<and>
        scan_text st' = ini_dump n (scan_text st) \<and> scan_view st' = view_node n (scan_view st)"
      unfolding step by (intro exI[of _ "scope_Add st n"] conjI)
        (simp_all add: scan_text_eq scope_Add_text scope_Add_view view_node_def n)
  qed (rule dump)
  then show ?thesis by blast
qed

lemma sim_div:
  assumes "div_ok n"
  shows "\<exists>ls. sim ls (ini_dump n) (view_node n)"
proof -
  obtain ls where n: "n = IniNode INI_NODE_TYPE_DIV (lines_text ls) [] []" and "ls \<noteq> []"
    and ls: "\<forall>l \<in> set ls. div_line l"
    using assms by (auto simp: div_ok_def)
  have t: "fold emit ls str = (if ls = [] then str else fresh_line str @ lines_text ls)" for str
    using ls
  proof (induction ls arbitrary: str)
    case (Cons l ls)
    then show ?case by (simp add: emit_def lines_text_def fresh_line_def)
  qed simp
  have run: "ini_lines ''#'' ''='' ls st = Some (st\<lparr>scan_div := scan_div st @ lines_text ls\<rparr>)" for st
    using ls by (induction ls arbitrary: st) (simp_all add: ini_step_div lines_text_def)
  have last: "lines_text ls \<noteq> []" "last (lines_text ls) = NL"
    using \<open>ls \<noteq> []\<close> by (cases ls rule: rev_cases; simp add: lines_text_def)+
  have "sim ls (ini_dump n) (view_node n)"
  proof (rule simI)
    fix st assume st: "scan_wf st"
    have "fresh_line (fresh_line a @ b) = fresh_line a @ b" if "b \<noteq> []" "last b = NL" for a b
      using that by (simp add: fresh_line_def)
    then show "\<exists>st'. ini_lines ''#'' ''='' ls st = Some st' \<and> scan_wf st' \<and>
        scan_text st' = ini_dump n (scan_text st) \<and> scan_view st' = view_node n (scan_view st)"
      using st last by (auto simp: run scan_wf_def scan_text_eq n node_text_def view_node_def
          kv_view_def scan_view_def)
  next
    show "ini_dump n str = fold emit ls str" for str
      using \<open>ls \<noteq> []\<close> by (simp add: t n node_text_def)
  qed (use ls in \<open>auto simp: div_line_def\<close>)
  then show ?thesis by blast
qed

lemma fold_view_items:
  "\<forall>n \<in> set ns. node_type n \<noteq> INI_NODE_TYPE_SECTION \<Longrightarrow> fold view_node ns w = view_kv (kvs_view ns) w"
  by (induction ns arbitrary: w) (simp_all add: view_node_def view_kv_append)

lemma item_type: "item_ok n \<Longrightarrow> node_type n \<noteq> INI_NODE_TYPE_SECTION"
  by (auto simp: item_ok_def kv_ok_def div_ok_def)

lemma sim_item: "item_ok n \<Longrightarrow> \<exists>ls. sim ls (ini_dump n) (view_node n)"
  using sim_kv sim_div by (auto simp: item_ok_def)

lemma sim_header:
  assumes "ini_word l" "comment_ok c"
  shows "sim [''['' @ l @ '']'' @ span_text c] (\<lambda>str. fresh_line str @ ''['' @ l @ '']'' @ span_text c)
     (\<lambda>(b, r, s). (True, r, s @ [(l, [])]))"
proof (rule sim_content)
  show "line_split (''['' @ l @ '']'' @ span_text c) (''['' @ l @ '']'') c"
    unfolding line_split_def
    by (rule exI[of _ "[]"], rule exI[of _ "if c = [] then [] else [TAB]"])
      (use assms in \<open>auto simp: span_text_def trimmed_def SPACE_CHARS_def ini_word_def comment_ok_def\<close>)
  show "plain (''['' @ l @ '']'' @ span_text c)"
    using assms by (auto simp: plain_def ini_word_def comment_ok_def span_text_def)
next
  fix st assume st: "scan_wf st" "scan_div st = []"
  have "trim l SPACE_CHARS = l"
    using trim_app[of "[]" "[]" l] assms by (simp add: ini_word_def)
  moreover have "last (CHR ''['' # l @ '']'') = CHR '']''" by simp
  ultimately have s: "ini_content (''['' @ l @ '']'') c st =
      Some (st\<lparr>scan_root := node_Add (scan_root st) (IniNode INI_NODE_TYPE_SECTION l [] (span_nodes c)),
              scan_in_section := True\<rparr>)"
    by (simp add: ini_content_def substr_def)
  show "\<exists>st'. ini_content (''['' @ l @ '']'') c st = Some st' \<and> scan_wf st' \<and>
      scan_text st' = fresh_line (scan_text st) @ ''['' @ l @ '']'' @ span_text c \<and>
      scan_view st' = (\<lambda>(b, r, s). (True, r, s @ [(l, [])])) (scan_view st)"
    unfolding s using st
    by (intro exI[of _ "st\<lparr>scan_root := node_Add (scan_root st)
          (IniNode INI_NODE_TYPE_SECTION l [] (span_nodes c)), scan_in_section := True\<rparr>"] conjI refl)
      (simp_all add: scan_wf_def scan_text_eq dump_node_Add dump_span_nodes node_text_def scan_view_def
        root_view_def kv_view_def sec_view_def)
qed simp

lemma sim_section:
  assumes "section_ok n"
  shows "\<exists>ls. sim ls (ini_dump n) (view_node n)"
proof -
  obtain l c items where n: "n = IniNode INI_NODE_TYPE_SECTION l [] (span_nodes c @ items)"
    and l: "ini_word l" "comment_ok c" and items: "\<forall>i \<in> set items. item_ok i"
    using assms by (auto simp: section_ok_def)
  obtain ls where ls: "sim ls (fold ini_dump items) (fold view_node items)"
    using sim_fold[of items] sim_item items by blast
  have v: "fold view_node items = view_kv (kvs_view items)"
    using items item_type by (intro ext fold_view_items) blast
  have "ini_dump n = (\<lambda>str. fold ini_dump items (fresh_line str @ ''['' @ l @ '']'' @ span_text c))"
    unfolding n by (intro ext) (simp add: dump_span_nodes node_text_def)
  moreover have "view_node n = (\<lambda>w. fold view_node items ((\<lambda>(b, r, s). (True, r, s @ [(l, [])])) w))"
    unfolding n v by (auto simp: view_node_def view_kv_def)
  ultimately show ?thesis using sim_append[OF sim_header[OF l] ls] by auto
qed

lemma rest_no_kvs: "\<forall>n \<in> set ns. section_ok n \<or> div_ok n \<Longrightarrow> kvs_view ns = []"
  by (induction ns) (auto simp: section_ok_def div_ok_def kv_view_def)

lemma fold_view_rest:
  assumes "\<forall>n \<in> set ns. section_ok n \<or> div_ok n"
  shows "\<exists>b'. fold view_node ns (b, r, s) = (b', r, s @ concat (map sec_view ns))"
  using assms
proof (induction ns arbitrary: b s)
  case (Cons n ns)
  have "\<exists>b'. view_node n (b, r, s) = (b', r, s @ sec_view n)"
    using Cons.prems by (auto simp: section_ok_def div_ok_def view_node_def sec_view_def kv_view_def)
  then obtain b' where "view_node n (b, r, s) = (b', r, s @ sec_view n)" by blast
  then show ?case using Cons.IH[of b' "s @ sec_view n"] Cons.prems by simp
qed simp

lemma getlines_fresh: "getlines (fresh_line s) = getlines s"
proof (cases "s \<noteq> [] \<and> last s \<noteq> NL")
  case True
  have app: "split_from NL v (s @ [NL]) = split_from NL v s @ [[]]" for v
    by (induction NL v s rule: split_from.induct) auto
  have "last (split_from NL v s) \<noteq> []" if "v @ s \<noteq> []" "last (v @ s) \<noteq> NL" for v
    using that
  proof (induction s arbitrary: v)
    case (Cons c s)
    show ?case
    proof (cases "c = NL")
      case True
      then have "s \<noteq> []" using Cons.prems by auto
      then show ?thesis using True Cons.IH[of "[]"] Cons.prems by simp
    next
      case False
      then show ?thesis using Cons.IH[of "v @ [c]"] Cons.prems by simp
    qed
  qed simp
  from this[of "[]"] show ?thesis using True by (simp add: getlines_def fresh_line_def app Let_def)
next
  case False
  then show ?thesis by (auto simp: fresh_line_def)
qed

lemma getlines_lines_text: "\<forall>l \<in> set ls. plain l \<Longrightarrow> getlines (lines_text ls) = ls"
proof -
  assume "\<forall>l \<in> set ls. plain l"
  then have "split_from NL [] (lines_text ls) = ls @ [[]]"
    by (induction ls) (simp_all add: lines_text_def split_from_app plain_def)
  then show ?thesis by (simp add: getlines_def)
qed

lemma fresh_emit:
  "\<forall>l \<in> set ls. plain l \<Longrightarrow> fresh_line (fold emit ls str) = fresh_line str @ lines_text ls"
proof (induction ls arbitrary: str)
  case (Cons l ls)
  have "fresh_line (emit l str) = fresh_line str @ l @ [NL]"
  proof (cases "div_line l")
    case False
    moreover have "NL \<notin> set l" using Cons.prems by (simp add: plain_def)
    moreover have "l \<noteq> []" using False by (auto simp: div_line_def plain_def)
    ultimately show ?thesis
      using last_in_set[of l] by (cases "last l = NL") (simp_all add: emit_def fresh_line_def)
  qed (simp add: emit_def fresh_line_def)
  then show ?case using Cons by (simp add: lines_text_def)
qed (simp add: lines_text_def)

text \<open>A well-formed tree that is written and loaded again: the same text and the same values.\<close>

definition default_cfg :: "IniParser \<Rightarrow> bool" where
  "default_cfg self \<longleftrightarrow> ini_comment self = ''#'' \<and> ini_delim self = ''=''"

lemma load_dumped:
  assumes "root_ok r" "ini_root self = Some r" "default_cfg self"
  shows "\<exists>r'. ini_LoadFromMem self (ini_DumpString self) = Some (self\<lparr>ini_root := Some r'\<rparr>) \<and>
           ini_dump r' [] = ini_dump r [] \<and> root_view r' = root_view r"
proof -
  obtain items rest where r: "r = IniNode INI_NODE_TYPE_ROOT [] [] (items @ rest)"
    and items: "\<forall>i \<in> set items. item_ok i" and rest: "\<forall>i \<in> set rest. section_ok i \<or> div_ok i"
    using assms(1) by (auto simp: root_ok_def)
  obtain ls where ls: "sim ls (fold ini_dump (items @ rest)) (fold view_node (items @ rest))"
    using sim_fold[of "items @ rest"] sim_item sim_section sim_div items rest
    by (metis Un_iff set_append)
  have text_r: "ini_dump r [] = fold ini_dump (items @ rest) []"
    by (simp add: r node_text_def fresh_line_def)
  have plain: "\<forall>l \<in> set ls. plain l" and text_ls: "ini_dump r [] = fold emit ls []"
    using ls by (auto simp: sim_def text_r)
  have "getlines (ini_dump r []) = ls"
    using getlines_fresh[of "ini_dump r []"] getlines_lines_text[OF plain]
    unfolding text_ls fresh_emit[OF plain] by (simp add: fresh_line_def[of "[]"])
  moreover have "no_nul (fold emit ls str)" if "no_nul str" for str
    using plain that
    by (induction ls arbitrary: str) (auto simp: emit_def fresh_line_def plain_def)
  then have "no_nul (ini_dump r [])" by (simp add: text_ls)
  moreover have start: "scan_wf scan_start" "scan_text scan_start = []"
    "scan_view scan_start = (False, [], [])"
    by (simp_all add: scan_start_def scan_wf_def scan_text_def scan_end_def node_text_def
        fresh_line_def scan_view_def root_view_def)
  moreover obtain st' where "ini_lines ''#'' ''='' ls scan_start = Some st'"
    and st': "scan_text st' = fold ini_dump (items @ rest) []"
       "scan_view st' = fold view_node (items @ rest) (False, [], [])"
    using ls start unfolding sim_def by metis
  ultimately have load: "ini_LoadFromMem self (ini_DumpString self) =
      Some (self\<lparr>ini_root := Some (scan_end st')\<rparr>)"
    using assms(2,3) by (simp add: ini_LoadFromMem_def ini_DumpString_def default_cfg_def)
  have "root_view (scan_end st') = root_view (scan_root st')"
    by (simp add: scan_end_def root_view_def kv_view_def sec_view_def)
  moreover have "concat (map sec_view items) = []"
    using items item_type by (auto simp: sec_view_def)
  moreover have "fold view_node items (False, [], []) = (False, kvs_view items, [])"
    using items item_type fold_view_items[of items] by (simp add: view_kv_def)
  ultimately have "root_view (scan_end st') = root_view r"
    using st'(2) fold_view_rest[OF rest, of False "kvs_view items" "[]"] rest_no_kvs[OF rest]
    by (auto simp: scan_view_def root_view_def r)
  then show ?thesis using load st'(1) text_r by (auto simp: scan_text_def)
qed

section \<open>Every loaded tree is well formed\<close>

definition scan_ok :: "ini_scan \<Rightarrow> bool" where
  "scan_ok st \<longleftrightarrow> (\<exists>items rest. scan_root st = IniNode INI_NODE_TYPE_ROOT [] [] (items @ rest) \<and>
     (\<forall>i \<in> set items. item_ok i) \<and> (\<forall>i \<in> set rest. section_ok i) \<and>
     scan_in_section st = (rest \<noteq> [])) \<and>
     (\<exists>ls. scan_div st = lines_text ls \<and> (\<forall>l \<in> set ls. div_line l))"

lemma scan_ok_div: "scan_ok st \<Longrightarrow> div_line l \<Longrightarrow> scan_ok (st\<lparr>scan_div := scan_div st @ l @ [NL]\<rparr>)"
  unfolding scan_ok_def
  by (elim conjE exE, intro conjI, force, rule_tac x = "ls @ [l]" in exI) (simp add: lines_text_def)

lemma section_ok_Add: "section_ok n \<Longrightarrow> item_ok i \<Longrightarrow> section_ok (node_Add n i)"
  unfolding section_ok_def node_Add_def
  by (elim exE conjE, rule_tac x = l in exI, rule_tac x = c in exI, rule_tac x = "items @ [i]" in exI)
    simp

lemma scan_ok_scope_Add:
  assumes "scan_ok st" "item_ok i"
  shows "scan_ok (scope_Add st i)"
proof -
  obtain items rest where st: "scan_root st = IniNode INI_NODE_TYPE_ROOT [] [] (items @ rest)"
    "\<forall>i \<in> set items. item_ok i" "\<forall>i \<in> set rest. section_ok i" "scan_in_section st = (rest \<noteq> [])"
    using assms(1) unfolding scan_ok_def by blast
  have "\<exists>items rest. scan_root (scope_Add st i) = IniNode INI_NODE_TYPE_ROOT [] [] (items @ rest) \<and>
     (\<forall>i \<in> set items. item_ok i) \<and> (\<forall>i \<in> set rest. section_ok i) \<and>
     scan_in_section (scope_Add st i) = (rest \<noteq> [])"
  proof (cases rest rule: rev_cases)
    case Nil
    with st assms(2) show ?thesis
      by (intro exI[of _ "items @ [i]"] exI[of _ "[]"]) (simp add: scope_Add_def node_Add_def)
  next
    case (snoc ss sec)
    have "map_last f (items @ ss @ [sec]) = items @ ss @ [f sec]" for f :: "IniNode \<Rightarrow> IniNode"
      using map_last_snoc[of f "items @ ss" sec] by simp
    with st assms(2) snoc show ?thesis
      by (intro exI[of _ items] exI[of _ "ss @ [node_Add sec i]"])
        (simp add: scope_Add_def on_last_child_def section_ok_Add)
  qed
  with assms(1) show ?thesis by (simp add: scan_ok_def)
qed

lemma scan_ok_flush: "scan_ok st \<Longrightarrow> scan_ok (flush_div st)"
proof (cases "scan_div st = []")
  case False
  assume st: "scan_ok st"
  then obtain ls where ls: "scan_div st = lines_text ls" "\<forall>l \<in> set ls. div_line l"
    unfolding scan_ok_def by blast
  with False have "item_ok (IniNode INI_NODE_TYPE_DIV (scan_div st) [] [])"
    unfolding item_ok_def div_ok_def by (auto simp: lines_text_def)
  then have "scan_ok (scope_Add st (IniNode INI_NODE_TYPE_DIV (scan_div st) [] []))"
    using st by (rule scan_ok_scope_Add[rotated])
  moreover have "scan_ok (s\<lparr>scan_div := []\<rparr>)" if "scan_ok s" for s
    using that unfolding scan_ok_def by (auto intro: exI[of _ "[]"] simp: lines_text_def)
  ultimately show ?thesis using False by (simp add: flush_div_def)
qed (simp add: flush_div_def)

lemma trim_trimmed: "trimmed (trim w SPACE_CHARS)"
  using trim_ends[of w SPACE_CHARS] by (auto simp: trimmed_def)

lemma set_trim: "set (trim w cs) \<subseteq> set w"
  using trim_decomp[of w cs] by (metis set_append Un_upper1 Un_upper2 order_trans)

lemma ini_word_trim:
  assumes "plain s" "CHR ''#'' \<notin> set s" "set w \<subseteq> set s"
  shows "ini_word (trim w SPACE_CHARS)"
  using assms set_trim[of w SPACE_CHARS] trim_trimmed[of w]
  by (auto simp: ini_word_def plain_def no_nul_def)

lemma scan_ok_content:
  assumes "scan_ok st" "trimmed content" "content \<noteq> []" "plain content" "CHR ''#'' \<notin> set content"
    "comment_ok c"
  shows "\<exists>st'. ini_content content c st = Some st' \<and> scan_ok st'"
proof (cases "hd content = CHR ''[''")
  case True
  let ?n = "IniNode INI_NODE_TYPE_SECTION (trim (substr content 1 (length content - 2)) SPACE_CHARS)
              [] (span_nodes c)"
  have "section_ok ?n"
    unfolding section_ok_def using assms
    by (intro exI[of _ "trim (substr content 1 (length content - 2)) SPACE_CHARS"] exI[of _ c] exI[of _ "[]"])
      (auto intro!: ini_word_trim[of content] simp: substr_def dest: in_set_takeD in_set_dropD)
  moreover obtain items rest where st: "scan_root st = IniNode INI_NODE_TYPE_ROOT [] [] (items @ rest)"
    "\<forall>i \<in> set items. item_ok i" "\<forall>i \<in> set rest. section_ok i"
    using assms(1) unfolding scan_ok_def by blast
  ultimately have "\<exists>items rest. node_Add (scan_root st) ?n = IniNode INI_NODE_TYPE_ROOT [] [] (items @ rest) \<and>
     (\<forall>i \<in> set items. item_ok i) \<and> (\<forall>i \<in> set rest. section_ok i) \<and> rest \<noteq> []"
    by (intro exI[of _ items] exI[of _ "rest @ [?n]"]) (simp add: node_Add_def)
  with True assms(1) show ?thesis by (simp add: ini_content_def scan_ok_def)
next
  case False
  show ?thesis
  proof (cases "find_first_of content ''=''")
    case None
    with False assms(1) show ?thesis by (simp add: ini_content_def)
  next
    case (Some p)
    let ?k = "trim (substr content 0 p) SPACE_CHARS" and ?v = "trim (substr_from content (p + 1)) SPACE_CHARS"
    have "ini_word ?k" "ini_word ?v"
      using assms by (auto intro!: ini_word_trim[of content] simp: substr_def substr_from_def
          dest: in_set_takeD in_set_dropD)
    moreover have "CHR ''='' \<notin> set (take p content)"
      using find_idx_take[of _ content p] Some by (auto simp: strops dest: set_takeWhileD)
    then have "CHR ''='' \<notin> set ?k" using set_trim[of "take p content" SPACE_CHARS] by (auto simp: substr_def)
    moreover have "?k = [] \<or> hd ?k = hd content"
    proof (cases "take p content")
      case Nil
      then show ?thesis by (auto simp: substr_def trim_empty)
    next
      case (Cons x t)
      then have x: "x = hd content" by (cases content; cases p) auto
      obtain l r where lr: "x # t = l @ trim (x # t) SPACE_CHARS @ r" "set l \<subseteq> set SPACE_CHARS"
        using trim_decomp[of "x # t" SPACE_CHARS] by blast
      have "l = []"
        using lr x assms(2,3) by (cases l) (auto simp: trimmed_def)
      with lr(1) x Cons show ?thesis
        by (cases "trim (x # t) SPACE_CHARS") (simp_all add: substr_def)
    qed
    ultimately have "kv_ok (IniNode INI_NODE_TYPE_KEY_VALUE ?k ?v (span_nodes c))"
      using False assms(6) unfolding kv_ok_def ini_key_def by fastforce
    then show ?thesis
      using Some False assms(1) by (simp add: ini_content_def scan_ok_scope_Add item_ok_def)
  qed
qed

lemma scan_ok_step:
  assumes "scan_ok st" "plain l"
  shows "\<exists>st'. ini_step l st = Some st' \<and> scan_ok st'"
  using assms(2)
proof (cases l rule: line_cases)
  case blank
  then have "trimL l SPACE_CHARS = []" using trimL_app[of l SPACE_CHARS "[]"] by simp
  then show ?thesis
    using scan_ok_div[OF assms(1), of "[]"] by (simp add: ini_line_def div_line_def plain_def)
next
  case div
  then show ?thesis using scan_ok_div[OF assms(1)] by (simp add: ini_step_div)
next
  case (content content c)
  then show ?thesis
    using scan_ok_content[OF scan_ok_flush[OF assms(1)], of content c]
    unfolding ini_step_content[OF content(1)] by (auto simp: line_split_def)
qed

lemma scan_ok_lines:
  "scan_ok st \<Longrightarrow> \<forall>l \<in> set ls. plain l \<Longrightarrow> \<exists>st'. ini_lines ''#'' ''='' ls st = Some st' \<and> scan_ok st'"
proof (induction ls arbitrary: st)
  case (Cons l ls)
  obtain st' where "ini_step l st = Some st'" "scan_ok st'"
    using scan_ok_step[of st l] Cons.prems by auto
  then show ?case using Cons by simp
qed simp

lemma scan_end_ok: "scan_ok st \<Longrightarrow> root_ok (scan_end st)"
proof -
  assume st: "scan_ok st"
  then obtain items rest where r: "scan_root st = IniNode INI_NODE_TYPE_ROOT [] [] (items @ rest)"
    "\<forall>i \<in> set items. item_ok i" "\<forall>i \<in> set rest. section_ok i"
    unfolding scan_ok_def by blast
  obtain ls where ls: "scan_div st = lines_text ls" "\<forall>l \<in> set ls. div_line l"
    using st unfolding scan_ok_def by blast
  let ?d = "IniNode INI_NODE_TYPE_DIV (scan_div st) [] []"
  have "scan_div st \<noteq> [] \<Longrightarrow> div_ok ?d"
    using ls unfolding div_ok_def by (auto simp: lines_text_def)
  then show ?thesis
    unfolding root_ok_def scan_end_def using r
    by (intro exI[of _ items] exI[of _ "rest @ (if scan_div st = [] then [] else [?d])"])
      (auto simp: node_Add_def)
qed

lemma plain_getlines: "\<forall>l \<in> set (getlines (c_str data)). plain l"
proof
  fix l assume "l \<in> set (getlines (c_str data))"
  then have l: "l \<in> set (split_from NL [] (c_str data))"
    by (auto simp: getlines_def Let_def split: if_splits dest: in_set_butlastD)
  moreover have "set l \<subseteq> set (c_str data)"
    using l join_split_from[of NL "[]" "c_str data"] set_join_with_sub
    by (metis append_Nil)
  ultimately show "plain l"
    using split_from_clean[of NL "[]" l "c_str data"] c_str_no_nul[of data]
    by (auto simp: plain_def no_nul_def)
qed

lemma load_ok:
  assumes "default_cfg self"
  shows "\<exists>r. ini_LoadFromMem self data = Some (self\<lparr>ini_root := Some r\<rparr>) \<and> root_ok r"
proof -
  have "scan_ok scan_start"
    unfolding scan_ok_def scan_start_def
    by (rule conjI) (auto intro: exI[of _ "[]"] simp: lines_text_def)
  moreover have "\<forall>l \<in> set (getlines (c_str data)). plain l" by (rule plain_getlines)
  ultimately obtain st where "ini_lines ''#'' ''='' (getlines (c_str data)) scan_start = Some st" "scan_ok st"
    using scan_ok_lines by blast
  with scan_end_ok show ?thesis
    using assms by (intro exI[of _ "scan_end st"]) (simp add: ini_LoadFromMem_def default_cfg_def)
qed

section \<open>Setting values\<close>

definition view_set :: "string \<Rightarrow> string \<Rightarrow> string \<Rightarrow> ini_view \<Rightarrow> ini_view" where
  "view_set key v sec w =
     (if sec = [] then (AList.update key v (fst w), snd w)
      else (fst w, AList.update sec
              (AList.update key v (case map_of (snd w) sec of None \<Rightarrow> [] | Some kvs \<Rightarrow> kvs)) (snd w)))"

definition self_view :: "IniParser \<Rightarrow> ini_view" where
  "self_view self = (case ini_root self of None \<Rightarrow> ([], []) | Some r \<Rightarrow> root_view r)"

lemma set_value_simps [simp]:
  "node_type (set_value v n) = node_type n" "node_label (set_value v n) = node_label n"
  "node_value (set_value v n) = v" "node_children (set_value v n) = node_children n"
  by (simp_all add: set_value_def)

lemma on_child_simps [simp]:
  "node_type (on_child i f p) = node_type p" "node_label (on_child i f p) = node_label p"
  "node_value (on_child i f p) = node_value p"
  "node_children (on_child i f p) = (node_children p)[i := f (node_children p ! i)]"
  by (simp_all add: on_child_def)

lemma kvs_update:
  "kvs_view (case find_idx (\<lambda>n. node_type n = INI_NODE_TYPE_KEY_VALUE \<and> node_label n = key) ns of
      None \<Rightarrow> ns @ [IniNode INI_NODE_TYPE_KEY_VALUE key v []]
    | Some i \<Rightarrow> ns[i := set_value v (ns ! i)]) = AList.update key v (kvs_view ns)"
  by (induction ns) (auto simp: kv_view_def split: option.splits)

lemma no_sec_update:
  "find_idx (\<lambda>n. node_type n = INI_NODE_TYPE_KEY_VALUE \<and> node_label n = key) ns = Some i \<Longrightarrow>
   concat (map sec_view (ns[i := set_value v (ns ! i)])) = concat (map sec_view ns)"
  by (induction ns arbitrary: i) (auto simp: sec_view_def split: if_splits)

lemma section_SetValue_simps [simp]:
  "node_type (section_SetValue key v n) = node_type n"
  "node_label (section_SetValue key v n) = node_label n"
  by (simp_all add: section_SetValue_def split: option.split)

lemma section_SetValue_kvs:
  "kvs_view (node_children (section_SetValue key v n)) = AList.update key v (kvs_view (node_children n))"
  using kvs_update[of "node_children n" key v]
  by (simp add: section_SetValue_def node_Get_def split: option.splits)

lemma section_SetValue_secs:
  "concat (map sec_view (node_children (section_SetValue key v n))) = concat (map sec_view (node_children n))"
  using no_sec_update[where key = key and ns = "node_children n"]
  by (simp add: section_SetValue_def node_Get_def sec_view_def split: option.splits)

lemma secs_update:
  assumes "\<And>n. node_type (f n) = node_type n" "\<And>n. node_label (f n) = node_label n"
    "\<And>n. kvs_view (node_children (f n)) = g (kvs_view (node_children n))"
  shows "concat (map sec_view
     (case find_idx (\<lambda>n. node_type n = INI_NODE_TYPE_SECTION \<and> node_label n = sec) ns of
        None \<Rightarrow> ns @ [f (IniNode INI_NODE_TYPE_SECTION sec [] [])]
      | Some i \<Rightarrow> ns[i := f (ns ! i)])) =
     AList.update sec (g (case map_of (concat (map sec_view ns)) sec of None \<Rightarrow> [] | Some kvs \<Rightarrow> kvs))
       (concat (map sec_view ns))"
  by (induction ns) (auto simp: sec_view_def assms split: option.splits)

lemma secs_update_kvs:
  assumes "\<And>n. node_type (f n) = node_type n"
  shows "kvs_view (case find_idx (\<lambda>n. node_type n = INI_NODE_TYPE_SECTION \<and> node_label n = sec) ns of
        None \<Rightarrow> ns @ [f (IniNode INI_NODE_TYPE_SECTION sec [] [])]
      | Some i \<Rightarrow> ns[i := f (ns ! i)]) = kvs_view ns"
  by (induction ns) (auto simp: kv_view_def assms split: option.splits)

lemma SetValue_view:
  "self_view (ini_SetValue junk self key v sec) = view_set key v sec (self_view self)"
proof -
  define root where "root = (case ini_root self of None \<Rightarrow> IniNode junk [] [] [] | Some r \<Rightarrow> r)"
  have root: "self_view self = root_view root"
    by (simp add: self_view_def root_def root_view_def split: option.split)
  show ?thesis
  proof (cases "sec = []")
    case True
    then show ?thesis
      by (simp add: root ini_SetValue_def root_def[symmetric] self_view_def[of "_\<lparr>ini_root := _\<rparr>"]
          root_view_def section_SetValue_kvs section_SetValue_secs view_set_def)
  next
    case False
    let ?f = "section_SetValue key v" and ?ns = "node_children root"
    have "ini_SetValue junk self key v sec = self\<lparr>ini_root := Some (IniNode (node_type root)
        (node_label root) (node_value root)
        (case find_idx (\<lambda>n. node_type n = INI_NODE_TYPE_SECTION \<and> node_label n = sec) ?ns of
           None \<Rightarrow> ?ns @ [?f (IniNode INI_NODE_TYPE_SECTION sec [] [])]
         | Some i \<Rightarrow> ?ns[i := ?f (?ns ! i)]))\<rparr>"
      using False by (simp add: ini_SetValue_def root_def[symmetric] node_Get_def on_child_def node_Add_def
          split: option.split)
    then show ?thesis
      using False secs_update[of ?f "AList.update key v" ?ns sec] secs_update_kvs[of ?f ?ns sec]
      by (simp add: root self_view_def[of "_\<lparr>ini_root := _\<rparr>"] root_view_def section_SetValue_kvs view_set_def)
  qed
qed

lemma GetValue_self: "ini_GetValue self key sec = view_get (self_view self) key sec"
proof (cases "ini_root self")
  case None
  then show ?thesis by (simp add: ini_GetValue_def self_view_def view_get_def)
next
  case (Some r)
  then show ?thesis by (simp add: GetValue_view self_view_def)
qed

lemma view_get_set:
  "view_get (view_set key v sec w) key' sec' =
     (if key' = key \<and> sec' = sec then v else view_get w key' sec')"
  by (auto simp: view_get_def view_set_def update_conv split: option.splits)

text \<open>Which edits keep a tree well formed.\<close>

definition edit_ok :: "IniParser \<Rightarrow> string \<times> string \<times> string \<Rightarrow> bool" where
  "edit_ok self e = (case e of (key, v, sec) \<Rightarrow>
     ini_key key \<and> ini_word v \<and> ini_word sec \<and>
     (sec = [] \<longrightarrow> snd (self_view self) = [] \<or> key \<in> fst ` set (fst (self_view self))))"

lemma kv_ok_set: "kv_ok n \<Longrightarrow> ini_word v \<Longrightarrow> kv_ok (set_value v n)"
  by (auto simp: kv_ok_def set_value_def)

lemma item_update:
  assumes "\<forall>i \<in> set ns. item_ok i" "ini_word v"
    "find_idx (\<lambda>n. node_type n = INI_NODE_TYPE_KEY_VALUE \<and> node_label n = key) ns = Some i"
  shows "\<forall>i \<in> set (ns[i := set_value v (ns ! i)]). item_ok i"
proof -
  have i: "i < length ns" "node_type (ns ! i) = INI_NODE_TYPE_KEY_VALUE"
    using assms(3) by (auto simp: find_idx_Some)
  then have "kv_ok (ns ! i)"
    using assms(1) by (metis item_ok_def div_ok_def IniNode.sel(1) ini_type.distinct nth_mem)
  then show ?thesis
    using assms set_update_subset_insert[of ns i] by (fastforce simp: item_ok_def kv_ok_set)
qed

lemma new_kv_ok: "ini_key k \<Longrightarrow> ini_word v \<Longrightarrow> item_ok (IniNode INI_NODE_TYPE_KEY_VALUE k v [])"
  unfolding item_ok_def kv_ok_def
  by (rule disjI1, rule exI[of _ k], rule exI[of _ v], rule exI[of _ "[]"])
    (simp add: span_nodes_def comment_ok_def plain_def)

lemma section_ok_SetValue:
  assumes "section_ok n" "ini_key key" "ini_word v"
  shows "section_ok (section_SetValue key v n)"
proof -
  obtain l c items where n: "n = IniNode INI_NODE_TYPE_SECTION l [] (span_nodes c @ items)"
    "ini_word l" "comment_ok c" and items: "\<forall>i \<in> set items. item_ok i"
    using assms(1) unfolding section_ok_def by blast
  let ?P = "\<lambda>n. node_type n = INI_NODE_TYPE_KEY_VALUE \<and> node_label n = key"
  have sp: "find_idx ?P (span_nodes c) = None" by (simp add: find_idx_None span_nodes_def)
  have "\<exists>items'. section_SetValue key v n = IniNode INI_NODE_TYPE_SECTION l [] (span_nodes c @ items') \<and>
      (\<forall>i \<in> set items'. item_ok i)"
  proof (cases "find_idx ?P items")
    case None
    then show ?thesis
      using n items new_kv_ok[OF assms(2,3)] sp
      by (intro exI[of _ "items @ [IniNode INI_NODE_TYPE_KEY_VALUE key v []]"])
        (simp add: section_SetValue_def node_Get_def find_idx_append node_Add_def)
  next
    case (Some i)
    then show ?thesis
      using n item_update[OF items assms(3) Some] sp
      by (intro exI[of _ "items[i := set_value v (items ! i)]"])
        (simp add: section_SetValue_def node_Get_def find_idx_append on_child_def list_update_append nth_append)
  qed
  with n show ?thesis unfolding section_ok_def by blast
qed

lemma find_kv_key:
  "find_idx (\<lambda>n. node_type n = INI_NODE_TYPE_KEY_VALUE \<and> node_label n = key) ns = None \<Longrightarrow>
   key \<notin> fst ` set (kvs_view ns)"
  by (auto simp: find_idx_None kvs_view_def kv_view_def split: if_splits)

lemma root_ok_SetValue:
  assumes "root_ok r" "ini_root self = Some r" "edit_ok self (key, v, sec)"
  shows "\<exists>r'. ini_SetValue junk self key v sec = self\<lparr>ini_root := Some r'\<rparr> \<and> root_ok r'"
proof -
  obtain items rest where r: "r = IniNode INI_NODE_TYPE_ROOT [] [] (items @ rest)"
    and items: "\<forall>i \<in> set items. item_ok i" and rest: "\<forall>i \<in> set rest. section_ok i \<or> div_ok i"
    using assms(1) by (auto simp: root_ok_def)
  have w: "ini_key key" "ini_word v" "ini_word sec" using assms(3) by (simp_all add: edit_ok_def)
  have okI: "root_ok (IniNode INI_NODE_TYPE_ROOT [] [] (a @ b))"
    if "\<forall>i \<in> set a. item_ok i" "\<forall>i \<in> set b. section_ok i \<or> div_ok i" for a b
    using that unfolding root_ok_def by blast
  have ex: "\<exists>r'. q = self\<lparr>ini_root := Some r'\<rparr> \<and> root_ok r'"
    if "root_ok x" "q = self\<lparr>ini_root := Some x\<rparr>" for q x
    using that by blast
  show ?thesis
  proof (cases "sec = []")
    case False
    let ?P = "\<lambda>n. node_type n = INI_NODE_TYPE_SECTION \<and> node_label n = sec"
    have no: "find_idx ?P items = None"
      using items item_type by (auto simp: find_idx_None)
    show ?thesis
    proof (cases "find_idx ?P rest")
      case None
      have "section_ok (IniNode INI_NODE_TYPE_SECTION sec [] [])"
        unfolding section_ok_def using w
        by (intro exI[of _ sec] exI[of _ "[]"]) (simp add: span_nodes_def comment_ok_def plain_def)
      then have "section_ok (section_SetValue key v (IniNode INI_NODE_TYPE_SECTION sec [] []))"
        using w by (simp add: section_ok_SetValue)
      then have "root_ok (IniNode INI_NODE_TYPE_ROOT [] [] (items @
          (rest @ [section_SetValue key v (IniNode INI_NODE_TYPE_SECTION sec [] [])])))"
        using items rest by (intro okI) auto
      then show ?thesis
        by (rule ex) (use False None no in \<open>simp add: ini_SetValue_def assms(2) node_Get_def r find_idx_append node_Add_def\<close>)
    next
      case (Some j)
      then have j: "j < length rest" "node_type (rest ! j) = INI_NODE_TYPE_SECTION"
        by (auto simp: find_idx_Some)
      then have "section_ok (rest ! j)"
        using rest nth_mem[of j rest] by (auto simp: div_ok_def)
      then have "section_ok (section_SetValue key v (rest ! j))"
        using w by (simp add: section_ok_SetValue)
      then have "\<forall>i \<in> set (rest[j := section_SetValue key v (rest ! j)]). section_ok i \<or> div_ok i"
        using rest set_update_subset_insert[of rest j] by blast
      then have "root_ok (IniNode INI_NODE_TYPE_ROOT [] [] (items @ rest[j := section_SetValue key v (rest ! j)]))"
        using items by (intro okI)
      then show ?thesis
        by (rule ex) (use False Some no in \<open>simp add: ini_SetValue_def assms(2) node_Get_def r find_idx_append
            on_child_def list_update_append nth_append\<close>)
    qed
  next
    case True
    let ?P = "\<lambda>n. node_type n = INI_NODE_TYPE_KEY_VALUE \<and> node_label n = key"
    have no: "find_idx ?P rest = None"
      using rest by (auto simp: find_idx_None section_ok_def div_ok_def)
    show ?thesis
    proof (cases "find_idx ?P items")
      case (Some i)
      have "root_ok (IniNode INI_NODE_TYPE_ROOT [] [] (items[i := set_value v (items ! i)] @ rest))"
        using item_update[OF items w(2) Some] rest by (intro okI)
      then show ?thesis
        by (rule ex) (use True Some find_idx_less[OF Some] in \<open>simp add: ini_SetValue_def assms(2) section_SetValue_def node_Get_def r
            find_idx_append on_child_def list_update_append nth_append\<close>)
    next
      case None
      then have "key \<notin> fst ` set (kvs_view (items @ rest))"
        using find_kv_key[of key items] find_kv_key[of key rest] no by auto
      then have "concat (map sec_view (items @ rest)) = []"
        using assms(3) True by (simp add: edit_ok_def self_view_def assms(2) r root_view_def image_Un)
      then have "\<forall>n \<in> set rest. sec_view n = []" by auto
      moreover have "sec_view n \<noteq> []" if "section_ok n" for n
        using that by (auto simp: section_ok_def sec_view_def)
      ultimately have "\<forall>n \<in> set rest. item_ok n"
        using rest by (auto simp: item_ok_def)
      then have "root_ok (IniNode INI_NODE_TYPE_ROOT [] []
          ((items @ rest @ [IniNode INI_NODE_TYPE_KEY_VALUE key v []]) @ []))"
        using items new_kv_ok[OF w(1,2)] by (intro okI) auto
      then show ?thesis
        by (rule ex) (use True None no in \<open>simp add: ini_SetValue_def assms(2) section_SetValue_def node_Get_def r
            find_idx_append node_Add_def\<close>)
    qed
  qed
qed

text \<open>A sequence of edits, each allowed where it happens.\<close>

fun apply_edits :: "ini_type \<Rightarrow> IniParser \<Rightarrow> (string \<times> string \<times> string) list \<Rightarrow> IniParser" where
  "apply_edits junk self [] = self"
| "apply_edits junk self ((key, v, sec) # es) = apply_edits junk (ini_SetValue junk self key v sec) es"

fun edits_ok :: "ini_type \<Rightarrow> IniParser \<Rightarrow> (string \<times> string \<times> string) list \<Rightarrow> bool" where
  "edits_ok junk self [] = True"
| "edits_ok junk self ((key, v, sec) # es) =
     (edit_ok self (key, v, sec) \<and> edits_ok junk (ini_SetValue junk self key v sec) es)"

lemma edits_root_ok:
  "root_ok r \<Longrightarrow> ini_root self = Some r \<Longrightarrow> edits_ok junk self es \<Longrightarrow>
   \<exists>r'. apply_edits junk self es = self\<lparr>ini_root := Some r'\<rparr> \<and> root_ok r'"
proof (induction es arbitrary: self r)
  case (Cons e es)
  obtain key v sec where e: "e = (key, v, sec)" by (cases e)
  then obtain r' where r': "ini_SetValue junk self key v sec = self\<lparr>ini_root := Some r'\<rparr>" "root_ok r'"
    using root_ok_SetValue[of r self key v sec junk] Cons.prems by auto
  then show ?case using Cons.IH[of r' "self\<lparr>ini_root := Some r'\<rparr>"] Cons.prems(3) by (auto simp: e)
next
  case Nil
  then have "self = self\<lparr>ini_root := Some r\<rparr>" by simp
  with Nil(1) show ?case by (auto intro: exI[of _ r])
qed

section \<open>The contract of the INI file\<close>

text \<open>
  The form in which a line of a file is written when it was loaded: a blank line is empty, a comment line is as it was, a header and
  a key with its value have their words trimmed and keep the comment behind them, and any other line - with its comment - is dropped.
\<close>

definition canon_line :: "string \<Rightarrow> string list" where
  "canon_line l =
     (let body = trim (takeWhile (\<lambda>c. c \<noteq> CHR ''#'') l) SPACE_CHARS;
          comment = dropWhile (\<lambda>c. c \<noteq> CHR ''#'') l
      in if body = [] then [if comment = [] then [] else l]
         else if hd body = CHR ''['' then
           (if last body = CHR '']'' then [''['' @ trim (butlast (tl body)) SPACE_CHARS @ '']'' @ span_text comment] else [])
         else if CHR ''='' \<in> set body then
           [trim (takeWhile (\<lambda>c. c \<noteq> CHR ''='') body) SPACE_CHARS @ '' = '' @
              trim (tl (dropWhile (\<lambda>c. c \<noteq> CHR ''='') body)) SPACE_CHARS @ span_text comment]
         else [])"

lemma takeWhile_hash: "CHR ''#'' \<notin> set a \<Longrightarrow> c = [] \<or> hd c = CHR ''#'' \<Longrightarrow>
  takeWhile (\<lambda>c. c \<noteq> CHR ''#'') (a @ c) = a \<and> dropWhile (\<lambda>c. c \<noteq> CHR ''#'') (a @ c) = c"
  by (cases c) (auto simp: takeWhile_append dropWhile_append)

lemma div_line_body: "div_line l \<Longrightarrow> set (takeWhile (\<lambda>c. c \<noteq> CHR ''#'') l) \<subseteq> set SPACE_CHARS"
  by (fastforce simp: div_line_def takeWhile_append dest: set_takeWhileD split: if_splits)

lemma trim_spaces: "set w \<subseteq> set SPACE_CHARS \<Longrightarrow> trim w SPACE_CHARS = []"
  using trim_app[of w "[]" "[]"] by (simp add: trimmed_def)

lemma canon_div:
  assumes "set l \<subseteq> set SPACE_CHARS \<or> div_line l" "plain l"
  shows "canon_line l = [if set l \<subseteq> set SPACE_CHARS then [] else l]"
proof -
  have h: "CHR ''#'' \<notin> set SPACE_CHARS" by (simp add: SPACE_CHARS_def)
  have "set (takeWhile (\<lambda>c. c \<noteq> CHR ''#'') l) \<subseteq> set SPACE_CHARS"
    using assms(1) div_line_body[of l] set_takeWhileD[of _ _ l] by blast
  moreover have d: "l = [] \<or> CHR ''#'' \<in> set l" if "div_line l" using that by (auto simp: div_line_def)
  have "dropWhile (\<lambda>c. c \<noteq> CHR ''#'') l = [] \<longleftrightarrow> CHR ''#'' \<notin> set l" by (auto simp: dropWhile_eq_Nil_conv)
  then have "dropWhile (\<lambda>c. c \<noteq> CHR ''#'') l = [] \<longleftrightarrow> set l \<subseteq> set SPACE_CHARS"
    using assms(1) h d by (cases "l = []") auto
  ultimately show ?thesis by (simp add: canon_line_def trim_spaces)
qed

lemma canon_content:
  assumes "line_split l content c"
  shows "canon_line l =
    (if hd content = CHR ''['' then
       (if last content = CHR '']'' then [''['' @ trim (substr content 1 (length content - 2)) SPACE_CHARS @ '']'' @ span_text c] else [])
     else case find_first_of content ''='' of
            None \<Rightarrow> []
          | Some p \<Rightarrow> [trim (substr content 0 p) SPACE_CHARS @ '' = '' @ trim (substr_from content (p + 1)) SPACE_CHARS @ span_text c])"
proof -
  obtain a b where l: "l = a @ content @ b @ c" "set a \<subseteq> set SPACE_CHARS" "set b \<subseteq> set SPACE_CHARS" "trimmed content" "content \<noteq> []"
    "CHR ''#'' \<notin> set content" "c = [] \<or> hd c = CHR ''#''" using assms by (auto simp: line_split_def)
  have "CHR ''#'' \<notin> set (a @ content @ b)" using l(2,3,6) by (auto simp: SPACE_CHARS_def)
  from takeWhile_hash[OF this l(7)] have w: "takeWhile (\<lambda>c. c \<noteq> CHR ''#'') l = a @ content @ b" "dropWhile (\<lambda>c. c \<noteq> CHR ''#'') l = c"
    by (simp_all add: l(1))
  have t: "trim (a @ content @ b) SPACE_CHARS = content" using l(2-5) by (intro trim_app) (auto simp: trimmed_def)
  have sub: "substr content 1 (length content - 2) = butlast (tl content)"
    by (simp add: substr_def butlast_conv_take drop_Suc numeral_2_eq_2)
  show ?thesis
  proof (cases "find_first_of content ''=''")
    case None
    then have "CHR ''='' \<notin> set content" by (auto simp: find_first_of_def find_idx_None)
    then show ?thesis using None l(5) by (simp add: canon_line_def w t sub[simplified])
  next
    case (Some p)
    then have f: "find_idx (\<lambda>c. c = CHR ''='') content = Some p" by (simp add: find_first_of_def)
    have "CHR ''='' \<in> set content" using f find_idx_None[of "\<lambda>c. c = CHR ''=''" content] by auto
    moreover have "substr content 0 p = takeWhile (\<lambda>c. c \<noteq> CHR ''='') content" using find_idx_take[OF f] by (simp add: substr_def)
    moreover have "substr_from content (p + 1) = tl (dropWhile (\<lambda>c. c \<noteq> CHR ''='') content)"
    proof -
      have "drop (p + 1) content = tl (drop p content)" by (simp add: drop_Suc tl_drop)
      then show ?thesis using find_idx_drop[OF f] by (simp add: substr_from_def)
    qed
    ultimately show ?thesis using Some l(5) by (simp add: canon_line_def w t sub[simplified])
  qed
qed

lemma canon_words:
  assumes "plain content" "CHR ''#'' \<notin> set content"
  shows "ini_word (trim (substr content i n) SPACE_CHARS)" "ini_word (trim (substr_from content i) SPACE_CHARS)"
  by (rule ini_word_trim[OF assms]; auto simp: substr_def substr_from_def dest: in_set_takeD in_set_dropD)+

lemma emit_line:
  assumes "c = [] \<or> hd c = CHR ''#''" "CHR ''#'' \<notin> set w" "x \<in> set w" "x \<notin> set SPACE_CHARS"
  shows "emit (w @ span_text c) str = fresh_line str @ w @ span_text c"
proof -
  have "CHR ''#'' \<notin> set (w @ (if c = [] then [] else [TAB]))" using assms(2) by auto
  from takeWhile_hash[OF this assms(1)] have "takeWhile (\<lambda>c. c \<noteq> CHR ''#'') (w @ span_text c) = w @ (if c = [] then [] else [TAB])"
    by (auto simp: span_text_def split: if_splits)
  then have "\<not> div_line (w @ span_text c)" using div_line_body assms(3,4) by fastforce
  then show ?thesis by (simp add: emit_def)
qed

lemma canon_step:
  assumes st: "scan_wf st" and l: "plain l"
  shows "\<exists>st'. ini_step l st = Some st' \<and> scan_wf st' \<and> scan_text st' = fold emit (canon_line l) (scan_text st) \<and>
    (\<forall>m \<in> set (canon_line l). plain m)"
proof -
  have div: "scan_wf (st\<lparr>scan_div := scan_div st @ m @ [NL]\<rparr>) \<and> scan_text (st\<lparr>scan_div := scan_div st @ m @ [NL]\<rparr>) = emit m (scan_text st)"
    if "div_line m" for m
    using that st by (auto simp: scan_wf_def scan_text_eq emit_def fresh_line_def)
  show ?thesis
    using l
  proof (cases l rule: line_cases)
    case blank
    then have "trimL l SPACE_CHARS = []" using trimL_app[of l SPACE_CHARS "[]"] by simp
    then have "ini_step l st = Some (st\<lparr>scan_div := scan_div st @ [] @ [NL]\<rparr>)" by (simp add: ini_line_def)
    then show ?thesis using div[of "[]"] blank canon_div[OF _ l] by (simp add: div_line_def plain_def)
  next
    case div
    show ?thesis
    proof (cases "set l \<subseteq> set SPACE_CHARS")
      case True
      then have "trimL l SPACE_CHARS = []" using trimL_app[of l SPACE_CHARS "[]"] by simp
      then have "ini_step l st = Some (st\<lparr>scan_div := scan_div st @ [] @ [NL]\<rparr>)" by (simp add: ini_line_def)
      then show ?thesis using \<open>\<And>m. div_line m \<Longrightarrow> _\<close>[of "[]"] True canon_div[OF _ l] by (simp add: div_line_def plain_def)
    next
      case False
      then show ?thesis
        using \<open>\<And>m. div_line m \<Longrightarrow> _\<close>[OF div] div canon_div[OF _ l] l by (simp add: ini_step_div)
    qed
  next
    case (content content c)
    then have C: "content \<noteq> []" "CHR ''#'' \<notin> set content" "trimmed content" "c = [] \<or> hd c = CHR ''#''"
      by (auto simp: line_split_def)
    let ?f = "flush_div st"
    have f: "scan_wf ?f" "scan_div ?f = []" "scan_text ?f = scan_text st"
      using st by (simp_all add: scan_text_eq[of "flush_div st"] flush_div_text)
    note W = canon_words[OF content(2) C(2)]
    have plain: "plain (a @ span_text c)" if "plain a" for a
      using that content(3) by (auto simp: plain_def comment_ok_def span_text_def)
    note S = ini_step_content[OF content(1), of st] and K = canon_content[OF content(1)]
    show ?thesis
    proof (cases "hd content = CHR ''[''")
      case True
      let ?n = "IniNode INI_NODE_TYPE_SECTION (trim (substr content 1 (length content - 2)) SPACE_CHARS) [] (span_nodes c)"
      let ?L = "''['' @ trim (substr content 1 (length content - 2)) SPACE_CHARS @ '']''"
      show ?thesis
      proof (cases "last content = CHR '']''")
        case lst: True
        have e: "emit (?L @ span_text c) (scan_text st) = fresh_line (scan_text st) @ ?L @ span_text c"
          by (rule emit_line[OF C(4), of _ "CHR ''[''"]) (use W(1)[of 1 "length content - 2"] in \<open>auto simp: ini_word_def SPACE_CHARS_def\<close>)
        have "plain ?L" using W(1)[of 1 "length content - 2"] by (auto simp: ini_word_def plain_def)
        note pl = plain[OF this]
        show ?thesis unfolding S K using True lst f e pl
          by (intro exI[of _ "?f\<lparr>scan_root := node_Add (scan_root ?f) ?n, scan_in_section := True\<rparr>"])
            (simp add: ini_content_def scan_wf_def scan_text_eq dump_node_Add dump_span_nodes node_text_def)
      next
        case False
        then show ?thesis unfolding S K using True f by (simp add: ini_content_def)
      qed
    next
      case False
      show ?thesis
      proof (cases "find_first_of content ''=''")
        case None
        then show ?thesis unfolding S K using False f by (simp add: ini_content_def)
      next
        case (Some p)
        let ?k = "trim (substr content 0 p) SPACE_CHARS" and ?v = "trim (substr_from content (p + 1)) SPACE_CHARS"
        let ?n = "IniNode INI_NODE_TYPE_KEY_VALUE ?k ?v (span_nodes c)" and ?L = "?k @ '' = '' @ ?v"
        have kv: "ini_word ?k" "ini_word ?v" using W by blast+
        have e: "emit (?L @ span_text c) (scan_text st) = fresh_line (scan_text st) @ ?L @ span_text c"
          by (rule emit_line[OF C(4), of _ "CHR ''=''"]) (use kv in \<open>auto simp: ini_word_def SPACE_CHARS_def\<close>)
        have "plain ?L" using kv by (auto simp: ini_word_def plain_def)
        note pl = plain[OF this]
        have "ini_dump ?n str = fresh_line str @ ?L @ span_text c" for str
          using kv by (simp add: dump_span_nodes node_text_def ini_word_def plain_def)
        moreover have "scan_text (scope_Add ?f ?n) = ini_dump ?n (scan_text st)"
          unfolding scan_text_eq[of "scope_Add ?f ?n"] scope_Add_simps f(2) scope_Add_text[OF f(1)] flush_div_text[OF st] by (rule if_P[OF refl])
        ultimately have "scan_text (scope_Add ?f ?n) = fresh_line (scan_text st) @ ?L @ span_text c" by metis
        then show ?thesis unfolding S K using False Some f(1) e pl
          by (intro exI[of _ "scope_Add ?f ?n"]) (simp add: ini_content_def)
      qed
    qed
  qed
qed

lemma canon_lines:
  "scan_wf st \<Longrightarrow> \<forall>l \<in> set ls. plain l \<Longrightarrow>
    \<exists>st'. ini_lines ''#'' ''='' ls st = Some st' \<and> scan_text st' = fold emit (concat (map canon_line ls)) (scan_text st) \<and>
      (\<forall>m \<in> set (concat (map canon_line ls)). plain m)"
proof (induction ls arbitrary: st)
  case (Cons l ls)
  obtain st1 where S: "ini_step l st = Some st1" "scan_wf st1" "scan_text st1 = fold emit (canon_line l) (scan_text st)"
    "\<forall>m \<in> set (canon_line l). plain m" using canon_step[of st l] Cons.prems by auto
  then show ?case using Cons.IH[OF S(2)] Cons.prems by auto
qed simp

lemma load_lines:
  assumes "default_cfg self"
  shows "\<exists>r. ini_LoadFromMem self data = Some (self\<lparr>ini_root := Some r\<rparr>) \<and> root_ok r \<and>
    getlines (ini_dump r []) = concat (map canon_line (getlines (c_str data)))"
proof -
  let ?ls = "concat (map canon_line (getlines (c_str data)))"
  obtain r where r: "ini_LoadFromMem self data = Some (self\<lparr>ini_root := Some r\<rparr>)" "root_ok r" using load_ok[OF assms] by blast
  have start: "scan_wf scan_start" "scan_text scan_start = []"
    by (simp_all add: scan_start_def scan_wf_def scan_text_def scan_end_def node_text_def fresh_line_def)
  obtain st where st: "ini_lines ''#'' ''='' (getlines (c_str data)) scan_start = Some st" "scan_text st = fold emit ?ls []"
    "\<forall>m \<in> set ?ls. plain m"
    using canon_lines[OF start(1), of "getlines (c_str data)"] plain_getlines[of data] start(2) by auto
  have "r = scan_end st" using r(1) st(1) assms by (auto simp: ini_LoadFromMem_def default_cfg_def dest: arg_cong[of _ _ ini_root])
  then have "getlines (ini_dump r []) = getlines (fresh_line (fold emit ?ls []))" using st(2) by (simp add: scan_text_def getlines_fresh)
  also have "\<dots> = ?ls" unfolding fresh_emit[OF st(3)] using getlines_lines_text[OF st(3)] by (simp add: fresh_line_def)
  finally show ?thesis using r by blast
qed

text \<open>
  C7.  Loading never fails with the default comment and delimiter, whatever the text, and nothing in it is lost but
  lines that are neither comments, headers nor keys: written at once, every line has the form \<open>canon_line\<close>
  says, comments and blank lines included.  After any sequence of printable edits the file is written, loaded
  and written again as the same text, and answers the same value for every key of every section.  An edit is printable
  when its words are trimmed, on one line and without the comment character, the key without the delimiter, and when it
  does not add a new top-level key to a file that has sections.
\<close>

theorem ini_edit_save_load:
  assumes "default_cfg self"
  shows "\<exists>p. ini_LoadFromMem self data = Some p \<and>
     getlines (ini_DumpString p) = concat (map canon_line (getlines (c_str data))) \<and>
     (\<forall>junk es. edits_ok junk p es \<longrightarrow>
        (\<exists>p'. ini_LoadFromMem (apply_edits junk p es) (ini_DumpString (apply_edits junk p es)) = Some p' \<and>
          ini_DumpString p' = ini_DumpString (apply_edits junk p es) \<and>
          (\<forall>key sec. ini_GetValue p' key sec = ini_GetValue (apply_edits junk p es) key sec)))"
proof -
  obtain r where r: "ini_LoadFromMem self data = Some (self\<lparr>ini_root := Some r\<rparr>)" "root_ok r"
    "getlines (ini_dump r []) = concat (map canon_line (getlines (c_str data)))"
    using load_lines[OF assms] by blast
  let ?p = "self\<lparr>ini_root := Some r\<rparr>"
  have "\<exists>p'. ini_LoadFromMem (apply_edits junk ?p es) (ini_DumpString (apply_edits junk ?p es)) = Some p' \<and>
      ini_DumpString p' = ini_DumpString (apply_edits junk ?p es) \<and>
      (\<forall>key sec. ini_GetValue p' key sec = ini_GetValue (apply_edits junk ?p es) key sec)" if es: "edits_ok junk ?p es" for junk es
  proof -
    obtain r' where q: "apply_edits junk ?p es = ?p\<lparr>ini_root := Some r'\<rparr>" "root_ok r'" using edits_root_ok[OF r(2) _ es] by auto
    have cfg: "default_cfg (?p\<lparr>ini_root := Some r'\<rparr>)" using assms by (simp add: default_cfg_def)
    obtain r'' where "ini_LoadFromMem (?p\<lparr>ini_root := Some r'\<rparr>) (ini_DumpString (?p\<lparr>ini_root := Some r'\<rparr>)) =
        Some (?p\<lparr>ini_root := Some r''\<rparr>)" "ini_dump r'' [] = ini_dump r' []" "root_view r'' = root_view r'"
      using load_dumped[OF q(2) _ cfg] by auto
    then show ?thesis using cfg unfolding q(1)
      by (intro exI[of _ "?p\<lparr>ini_root := Some r''\<rparr>"]) (simp_all add: GetValue_self self_view_def ini_DumpString_def default_cfg_def)
  qed
  moreover have "ini_DumpString ?p = ini_dump r []" using assms by (simp add: ini_DumpString_def default_cfg_def)
  ultimately show ?thesis using r(1,3) by metis
qed

definition ini_example :: string where
  "ini_example = ''# hv'' @ [NL, NL] @ ''[log]'' @ [NL] @ ''level=INFO # default'' @ [NL]"

theorem ini_edit_save_load_witness:
  "\<exists>p p'. ini_LoadFromMem ini_init ini_example = Some p \<and>
     ini_LoadFromMem (apply_edits INI_NODE_TYPE_ROOT p [(''level'', ''WARN'', ''log'')])
       (''# hv'' @ [NL, NL] @ ''[log]'' @ [NL] @ ''level = WARN'' @ [TAB] @ ''# default'') = Some p' \<and>
     ini_GetValue p' ''level'' ''log'' = ''WARN''"
proof -
  define p where "p = ini_init\<lparr>ini_root := Some (IniNode INI_NODE_TYPE_ROOT [] []
     [IniNode INI_NODE_TYPE_DIV (''# hv'' @ [NL, NL]) [] [],
      IniNode INI_NODE_TYPE_SECTION ''log'' []
        [IniNode INI_NODE_TYPE_KEY_VALUE ''level'' ''INFO''
           [IniNode INI_NODE_TYPE_SPAN ''# default'' [] []]]])\<rparr>"
  have p: "ini_LoadFromMem ini_init ini_example = Some p" unfolding p_def by code_simp
  let ?es = "[(''level'', ''WARN'', ''log'')]"
  have ok: "edits_ok INI_NODE_TYPE_ROOT p ?es"
    by (simp add: edit_ok_def ini_key_def ini_word_def trimmed_def plain_def SPACE_CHARS_def)
  have "ini_DumpString (apply_edits INI_NODE_TYPE_ROOT p ?es) =
      ''# hv'' @ [NL, NL] @ ''[log]'' @ [NL] @ ''level = WARN'' @ [TAB] @ ''# default''"
    unfolding p_def by code_simp
  moreover have "ini_GetValue (apply_edits INI_NODE_TYPE_ROOT p ?es) ''level'' ''log'' = ''WARN''"
    by (simp add: GetValue_self SetValue_view view_get_set)
  moreover have "default_cfg ini_init" by (simp add: default_cfg_def ini_init_def)
  from ini_edit_save_load[OF this, of ini_example] p
  have all: "\<forall>junk es. edits_ok junk p es \<longrightarrow>
      (\<exists>p'. ini_LoadFromMem (apply_edits junk p es) (ini_DumpString (apply_edits junk p es)) = Some p' \<and>
        ini_DumpString p' = ini_DumpString (apply_edits junk p es) \<and>
        (\<forall>key sec. ini_GetValue p' key sec = ini_GetValue (apply_edits junk p es) key sec))" by force
  note all[THEN spec, THEN spec, THEN mp, OF ok]
  ultimately show ?thesis using p by metis
qed

text \<open>
  C6.  An INI object refines a map from sections and keys to values: \<open>SetValue\<close> updates exactly
  the entry it names and every other entry keeps its value (first matches win, new keys and
  sections are appended), and the typed accessors give back the integers of the \<open>int\<close> range and
  the booleans that were set.
\<close>

theorem ini_refines_map:
  "self_view (ini_SetValue junk self key v sec) = view_set key v sec (self_view self) \<and>
   ini_GetValue self key' sec' = view_get (self_view self) key' sec' \<and>
   ini_GetValue (ini_SetValue junk self key v sec) key' sec' =
     (if key' = key \<and> sec' = sec then v else ini_GetValue self key' sec') \<and>
   (- (2 ^ 31) \<le> i \<and> i < 2 ^ 31 \<longrightarrow> ini_Get_int (ini_Set_int junk self key i sec) key sec d = i) \<and>
   ini_Get_bool (ini_Set_bool junk self key b sec) key sec e = b"
proof (intro conjI impI)
  assume "- (2 ^ 31) \<le> i \<and> i < 2 ^ 31"
  then show "ini_Get_int (ini_Set_int junk self key i sec) key sec d = i"
    by (simp add: ini_Get_int_def ini_Set_int_def GetValue_self SetValue_view view_get_set atoi_show_int)
next
  have "getboolean (Some ''true'')" "\<not> getboolean (Some ''false'')" by code_simp+
  then show "ini_Get_bool (ini_Set_bool junk self key b sec) key sec e = b"
    by (simp add: ini_Get_bool_def ini_Set_bool_def GetValue_self SetValue_view view_get_set)
qed (simp_all add: GetValue_self SetValue_view view_get_set)

theorem ini_refines_map_witness:
  "ini_Get_int (ini_Set_int INI_NODE_TYPE_ROOT ini_init ''port'' (- 1) ''net'') ''port'' ''net'' 0 = - 1"
  by (rule ini_refines_map[THEN conjunct2, THEN conjunct2, THEN conjunct2, THEN conjunct1, THEN mp]) simp

text \<open>
  A new top-level key that \<open>SetValue\<close> adds to a file with sections does not survive saving:
  it is written after the last section and belongs to that section when the file is read back.
\<close>

theorem ini_global_key_lost:
  "\<exists>p q. ini_LoadFromMem ini_init ini_example = Some p \<and>
     ini_GetValue (ini_SetValue INI_NODE_TYPE_ROOT p ''port'' ''80'' []) ''port'' [] = ''80'' \<and>
     ini_LoadFromMem p (ini_DumpString (ini_SetValue INI_NODE_TYPE_ROOT p ''port'' ''80'' [])) = Some q \<and>
     ini_GetValue q ''port'' [] = [] \<and> ini_GetValue q ''port'' ''log'' = ''80''"
proof -
  let ?kv = "IniNode INI_NODE_TYPE_KEY_VALUE"
  define p where "p = ini_init\<lparr>ini_root := Some (IniNode INI_NODE_TYPE_ROOT [] []
     [IniNode INI_NODE_TYPE_DIV (''# hv'' @ [NL, NL]) [] [],
      IniNode INI_NODE_TYPE_SECTION ''log'' []
        [?kv ''level'' ''INFO'' [IniNode INI_NODE_TYPE_SPAN ''# default'' [] []]]])\<rparr>"
  define q where "q = ini_init\<lparr>ini_root := Some (IniNode INI_NODE_TYPE_ROOT [] []
     [IniNode INI_NODE_TYPE_DIV (''# hv'' @ [NL, NL]) [] [],
      IniNode INI_NODE_TYPE_SECTION ''log'' []
        [?kv ''level'' ''INFO'' [IniNode INI_NODE_TYPE_SPAN ''# default'' [] []], ?kv ''port'' ''80'' []]])\<rparr>"
  have "ini_LoadFromMem ini_init ini_example = Some p" unfolding p_def by code_simp
  moreover have "ini_LoadFromMem p (ini_DumpString (ini_SetValue INI_NODE_TYPE_ROOT p ''port'' ''80'' [])) = Some q"
    unfolding p_def q_def by code_simp
  moreover have "ini_GetValue q ''port'' [] = []" "ini_GetValue q ''port'' ''log'' = ''80''"
    unfolding q_def by code_simp+
  moreover have "ini_GetValue (ini_SetValue INI_NODE_TYPE_ROOT p ''port'' ''80'' []) ''port'' [] = ''80''"
    by (simp add: GetValue_self SetValue_view view_get_set)
  ultimately show ?thesis by blast
qed

end
