(* ===== verification/HMain.thy ===== *)
theory HMain
  imports HString HBase
begin

text \<open>
  \<open>cpputil/hmain.cpp\<close> with \<open>cpputil/hmain.h\<close> and \<open>base/hproc.h\<close>: the program context, command
  line and environment parsing, the pid file, the signal handler of the master process, the
  \<open>-s\<close> commands and the master/worker start.  Every \<open>argv\<close> word is a C string (a list without
  NUL); the null pointer that ends \<open>argv\<close> is the end of the list.
\<close>

section \<open>The context\<close>

record proc_ctx =
  proc_pid :: int
  proc_start :: int
  proc_spawn_cnt :: int

record main_ctx =
  ctx_run_dir :: string
  ctx_program_name :: string
  ctx_confile :: string
  ctx_pidfile :: string
  ctx_logfile :: string
  ctx_pid :: int
  ctx_oldpid :: int
  ctx_argc :: nat
  ctx_arg_len :: nat
  ctx_save_argv :: "string list"
  ctx_cmdline :: string
  ctx_arg_kv :: keyval
  ctx_arg_list :: "string list"
  ctx_envc :: nat
  ctx_env_len :: nat
  ctx_save_envp :: "string list"
  ctx_env_kv :: keyval
  ctx_reload_fn :: bool
  ctx_worker_processes :: int
  ctx_worker_threads :: int
  ctx_proc_ctxs :: "proc_ctx list"

text \<open>The global \<open>g_main_ctx\<close> before anything has run.\<close>

definition main_ctx_zero :: main_ctx where
  "main_ctx_zero =
     \<lparr>ctx_run_dir = [], ctx_program_name = [], ctx_confile = [], ctx_pidfile = [], ctx_logfile = [],
      ctx_pid = 0, ctx_oldpid = 0, ctx_argc = 0, ctx_arg_len = 0, ctx_save_argv = [], ctx_cmdline = [],
      ctx_arg_kv = [], ctx_arg_list = [], ctx_envc = 0, ctx_env_len = 0, ctx_save_envp = [],
      ctx_env_kv = [], ctx_reload_fn = False, ctx_worker_processes = 0, ctx_worker_threads = 0,
      ctx_proc_ctxs = []\<rparr>"

text \<open>
  \<open>strncpy\<close> into a zeroed array and \<open>snprintf\<close>: the text the array then holds.  A name that fills
  \<open>program_name\<close> leaves it without a terminator (\<open>None\<close>).
\<close>

definition strncpy_text :: "string \<Rightarrow> nat \<Rightarrow> string option" where
  "strncpy_text src n = (if length (c_str src) < n then Some (c_str src) else None)"

definition snprintf_text :: "nat \<Rightarrow> string \<Rightarrow> string" where
  "snprintf_text n s = take (n - 1) s"

definition words_len :: "string list \<Rightarrow> nat" where
  "words_len ws = fold (\<lambda>w n. n + (length w + 1)) ws 0"

text \<open>
  The copy of the words into one line: each is followed by a blank, and the last blank is
  overwritten by the terminator.
\<close>

definition cmdline_buf :: "string list \<Rightarrow> string" where
  "cmdline_buf ws = fold (\<lambda>w buf. buf @ w @ '' '') ws []"

definition cmdline_of :: "string list \<Rightarrow> string" where
  "cmdline_of ws = c_str ((cmdline_buf ws)[words_len ws - 1 := NUL])"

definition parse_env1 :: "string \<Rightarrow> keyval \<Rightarrow> keyval" where
  "parse_env1 b kvs =
     (case find_idx (\<lambda>c. c = CHR ''='') b of
        None \<Rightarrow> kvs
      | Some delim \<Rightarrow> kv_put (take delim b) (drop (delim + 1) b) kvs)"

definition parse_env :: "string list \<Rightarrow> keyval \<Rightarrow> keyval" where
  "parse_env environ kvs = fold parse_env1 environ kvs"

text \<open>
  \<open>main_ctx_init\<close> for a non-empty \<open>argv\<close>; the run directory, the process id, the pid found in the
  pid file and whether that process exists come from the system.
\<close>

definition main_ctx_init ::
    "string \<Rightarrow> int \<Rightarrow> (string \<Rightarrow> int) \<Rightarrow> (int \<Rightarrow> bool) \<Rightarrow> string list \<Rightarrow> string list \<Rightarrow>
     main_ctx \<Rightarrow> main_ctx option" where
  "main_ctx_init run_dir getpid pidfile_pid alive argv environ ctx =
     (case argv of
        [] \<Rightarrow> None
      | argv0 # _ \<Rightarrow>
          map_option (\<lambda>program_name.
            let pidfile = snprintf_text MAX_PATH (run_dir @ ''/logs/'' @ program_name @ ''.pid'');
                oldpid = pidfile_pid pidfile
            in ctx\<lparr>ctx_run_dir := run_dir, ctx_program_name := program_name,
                   ctx_confile := snprintf_text MAX_PATH (run_dir @ ''/etc/'' @ program_name @ ''.conf''),
                   ctx_pidfile := pidfile,
                   ctx_logfile := snprintf_text MAX_PATH (run_dir @ ''/logs/'' @ program_name @ ''.log''),
                   ctx_pid := getpid, ctx_oldpid := (if alive oldpid then oldpid else - 1),
                   ctx_argc := length argv, ctx_arg_len := words_len argv, ctx_save_argv := argv,
                   ctx_cmdline := cmdline_of argv,
                   ctx_envc := length environ, ctx_env_len := words_len environ,
                   ctx_save_envp := environ, ctx_env_kv := parse_env environ (ctx_env_kv ctx),
                   ctx_reload_fn := False, ctx_worker_processes := 0, ctx_worker_threads := 0,
                   ctx_proc_ctxs := []\<rparr>)
            (strncpy_text (hv_basename argv0) MAX_PATH))"

definition get_arg :: "main_ctx \<Rightarrow> string \<Rightarrow> string option" where
  "get_arg ctx key = kv_get key (ctx_arg_kv ctx)"

definition get_env :: "main_ctx \<Rightarrow> string \<Rightarrow> string option" where
  "get_env ctx key = kv_get key (ctx_env_kv ctx)"

text \<open>
  \<open>setproctitle\<close> writes over the words and the environment, which lie in one block of memory:
  \<open>strncpy(dst, title, len - 1)\<close> copies at most \<open>len - 1\<close> characters and pads with zeros.
\<close>

definition setproctitle :: "main_ctx \<Rightarrow> string \<Rightarrow> string \<Rightarrow> string" where
  "setproctitle ctx title block =
     (let len = ctx_arg_len ctx + ctx_env_len ctx in
      if len \<noteq> 0 then
        take (len - 1) (c_str title @ replicate (len - 1) NUL) @ drop (len - 1) block
      else block)"

section \<open>Short options\<close>

datatype arg_type = NO_ARGUMENT | REQUIRED_ARGUMENT | OPTIONAL_ARGUMENT

definition OPTION_ENABLE :: string where "OPTION_ENABLE = ''on''"

text \<open>\<open>None\<close> is \<open>UNDEFINED_OPTION\<close>; \<open>options\<close> may be null.\<close>

fun arg_type_scan :: "char \<Rightarrow> string \<Rightarrow> arg_type option" where
  "arg_type_scan short_opt [] = None"
| "arg_type_scan short_opt (c # p) =
     (if c \<noteq> short_opt then arg_type_scan short_opt p
      else if p \<noteq> [] \<and> hd p = CHR '':'' then Some REQUIRED_ARGUMENT else Some NO_ARGUMENT)"

definition get_arg_type :: "char \<Rightarrow> string option \<Rightarrow> arg_type option" where
  "get_arg_type short_opt options =
     (case options of None \<Rightarrow> None | Some opts \<Rightarrow> arg_type_scan short_opt (c_str opts))"

text \<open>
  The inner loop of \<open>parse_opt\<close> over one word after its dash; \<open>rest\<close> is what follows in \<open>argv\<close>.
  The left values are the error codes.
\<close>

fun parse_opt_word ::
    "string option \<Rightarrow> string \<Rightarrow> string list \<Rightarrow> keyval \<Rightarrow> (int \<times> keyval) + (keyval \<times> string list)" where
  "parse_opt_word options [] rest kvs = Inr (kvs, rest)"
| "parse_opt_word options (c # p) rest kvs =
     (case get_arg_type c options of
        None \<Rightarrow> Inl (- 20, kvs)
      | Some REQUIRED_ARGUMENT \<Rightarrow>
          if p \<noteq> [] then Inr (kv_put [c] p kvs, rest)
          else (case rest of
                  a # rest' \<Rightarrow> Inr (kv_put [c] a kvs, rest')
                | [] \<Rightarrow> Inl (- 30, kvs))
      | Some _ \<Rightarrow> parse_opt_word options p rest (kv_put [c] OPTION_ENABLE kvs))"

lemma parse_opt_word_shorter:
  "parse_opt_word options p rest kvs = Inr (kvs', rest') \<Longrightarrow> length rest' \<le> length rest"
  by (induction options p rest kvs rule: parse_opt_word.induct)
    (auto split: option.splits arg_type.splits list.splits if_splits)

function parse_opt_args :: "string option \<Rightarrow> string list \<Rightarrow> main_ctx \<Rightarrow> int \<times> main_ctx" where
  "parse_opt_args options [] ctx = (0, ctx)"
| "parse_opt_args options (a # rest) ctx =
     (if a \<noteq> [] \<and> hd a = CHR ''-'' then
        (case parse_opt_word options (tl a) rest (ctx_arg_kv ctx) of
           Inl (err, kvs) \<Rightarrow> (err, ctx\<lparr>ctx_arg_kv := kvs\<rparr>)
         | Inr (kvs, rest') \<Rightarrow> parse_opt_args options rest' (ctx\<lparr>ctx_arg_kv := kvs\<rparr>))
      else parse_opt_args options rest (ctx\<lparr>ctx_arg_list := ctx_arg_list ctx @ [a]\<rparr>))"
  by pat_completeness auto
termination
  by (relation "measure (\<lambda>(options, args, ctx). length args)")
    (auto dest: parse_opt_word_shorter simp: le_imp_less_Suc)

definition parse_opt :: "string list \<Rightarrow> string option \<Rightarrow> main_ctx \<Rightarrow> int \<times> main_ctx" where
  "parse_opt argv options ctx = parse_opt_args options (tl argv) ctx"

section \<open>Long options\<close>

text \<open>\<open>short_opt\<close> is 0 and \<open>long_opt\<close> null for an option that has only the other.\<close>

record option_t =
  short_opt :: char
  long_opt :: "string option"
  opt_arg_type :: arg_type

text \<open>\<open>strcmp\<close> of a null pointer is undefined: the outer \<open>None\<close>.\<close>

fun find_long :: "string \<Rightarrow> option_t list \<Rightarrow> option_t option option" where
  "find_long opt [] = Some None"
| "find_long opt (o1 # os) =
     (case long_opt o1 of
        None \<Rightarrow> None
      | Some l \<Rightarrow> if l = opt then Some (Some o1) else find_long opt os)"

definition get_option :: "string \<Rightarrow> option_t list \<Rightarrow> option_t option option" where
  "get_option opt long_options =
     (if opt = [] then Some None
      else if length opt = 1 then Some (find (\<lambda>o1. short_opt o1 = hd opt) long_options)
      else find_long opt long_options)"

datatype opt_type = NOPREFIX_OPTION | SHORT_OPTION | LONG_OPTION

definition MAX_OPTION :: nat where "MAX_OPTION = 32"

definition strip_prefix :: "string \<Rightarrow> opt_type \<times> string" where
  "strip_prefix arg =
     (if arg \<noteq> [] \<and> hd arg = CHR ''-'' then
        if tl arg \<noteq> [] \<and> hd (tl arg) = CHR ''-'' then (LONG_OPTION, tl (tl arg))
        else (SHORT_OPTION, tl arg)
      else (NOPREFIX_OPTION, arg))"

text \<open>
  The name of the option in the word, as copied into \<open>opt\<close>, and the position of the delimiter;
  \<open>None\<close> where the code answers \<open>Invalid option\<close>.
\<close>

definition opt_name :: "opt_type \<Rightarrow> string \<Rightarrow> (string \<times> nat option) option" where
  "opt_name ty arg =
     (case find_idx (\<lambda>c. c = CHR ''='') arg of
        Some delim \<Rightarrow>
          if delim = 0 \<or> delim = length arg - 1 \<or> delim > MAX_OPTION then None
          else Some (take delim arg, Some delim)
      | None \<Rightarrow>
          Some (if ty = SHORT_OPTION then take 1 arg else take MAX_OPTION arg, None))"

text \<open>
  The value of the option: \<open>Inl\<close> is the error for a missing one, and a null value stays null
  (\<open>None\<close>), as it does for \<open>OPTIONAL_ARGUMENT\<close>, which the code never handles.
\<close>

definition opt_value ::
    "option_t \<Rightarrow> opt_type \<Rightarrow> string \<Rightarrow> nat option \<Rightarrow> string list \<Rightarrow> int + (string option \<times> string list)" where
  "opt_value o1 ty arg delim rest =
     (case opt_arg_type o1 of
        NO_ARGUMENT \<Rightarrow> Inr (Some OPTION_ENABLE, rest)
      | REQUIRED_ARGUMENT \<Rightarrow>
          (case delim of
             Some d \<Rightarrow> Inr (Some (drop (d + 1) arg), rest)
           | None \<Rightarrow>
               if ty = SHORT_OPTION \<and> length arg > 1 then Inr (Some (tl arg), rest)
               else (case rest of v # rest' \<Rightarrow> Inr (Some v, rest') | [] \<Rightarrow> Inl (- 20)))
      | OPTIONAL_ARGUMENT \<Rightarrow> Inr (None, rest))"

text \<open>
  \<open>arg_kv[key] = value\<close>: a \<open>std::string\<close> assigned from a null pointer is undefined (\<open>None\<close>).
\<close>

definition opt_store :: "option_t \<Rightarrow> string option \<Rightarrow> keyval \<Rightarrow> keyval option" where
  "opt_store o1 val kvs =
     (if (0 :: nat) < of_char (short_opt o1) \<and> of_char (short_opt o1) < (128 :: nat)
      then map_option (\<lambda>v. kv_put [short_opt o1] v kvs) val
      else (case long_opt o1 of
              Some l \<Rightarrow> map_option (\<lambda>v. kv_put l v kvs) val
            | None \<Rightarrow> Some kvs))"

text \<open>One turn of the loop; \<open>None\<close> is undefined behaviour, \<open>Inl\<close> a returned error.\<close>

definition parse_long_step ::
    "option_t list \<Rightarrow> string \<Rightarrow> string list \<Rightarrow> main_ctx \<Rightarrow> ((int \<times> main_ctx) + (main_ctx \<times> string list)) option" where
  "parse_long_step long_options a rest ctx =
     (case strip_prefix a of (ty, arg) \<Rightarrow>
        (case opt_name ty arg of
           None \<Rightarrow> Some (Inl (- 10, ctx))
         | Some (opt, delim) \<Rightarrow>
             (case get_option opt long_options of
                None \<Rightarrow> None
              | Some None \<Rightarrow>
                  if delim = None \<and> ty = NOPREFIX_OPTION
                  then Some (Inr (ctx\<lparr>ctx_arg_list := ctx_arg_list ctx @ [arg]\<rparr>, rest))
                  else Some (Inl (- 10, ctx))
              | Some (Some o1) \<Rightarrow>
                  (case opt_value o1 ty arg delim rest of
                     Inl err \<Rightarrow> Some (Inl (err, ctx))
                   | Inr (val, rest') \<Rightarrow>
                       map_option (\<lambda>kvs. Inr (ctx\<lparr>ctx_arg_kv := kvs\<rparr>, rest'))
                         (opt_store o1 val (ctx_arg_kv ctx))))))"

lemma parse_long_step_shorter:
  "parse_long_step long_options a rest ctx = Some (Inr (ctx', rest')) \<Longrightarrow> length rest' \<le> length rest"
  by (auto simp: parse_long_step_def opt_value_def
      split: prod.splits option.splits sum.splits arg_type.splits if_splits list.splits)

function parse_long_args :: "option_t list \<Rightarrow> string list \<Rightarrow> main_ctx \<Rightarrow> (int \<times> main_ctx) option" where
  "parse_long_args long_options [] ctx = Some (0, ctx)"
| "parse_long_args long_options (a # rest) ctx =
     (case parse_long_step long_options a rest ctx of
        None \<Rightarrow> None
      | Some (Inl r) \<Rightarrow> Some r
      | Some (Inr (ctx', rest')) \<Rightarrow> parse_long_args long_options rest' ctx')"
  by pat_completeness auto
termination
  by (relation "measure (\<lambda>(os, args, ctx). length args)")
    (auto dest: parse_long_step_shorter simp: le_imp_less_Suc)

definition parse_opt_long :: "string list \<Rightarrow> option_t list \<Rightarrow> main_ctx \<Rightarrow> (int \<times> main_ctx) option" where
  "parse_opt_long argv long_options ctx = parse_long_args long_options (tl argv) ctx"

section \<open>The pid file\<close>

definition pidfile_text :: "int \<Rightarrow> string" where
  "pidfile_text pid = take 15 (show_int pid @ [NL])"

text \<open>
  \<open>getpid_from_pidfile\<close> reads at most 64 bytes into an array that is not initialised: what is
  behind them is whatever the array held (\<open>junk\<close>).
\<close>

definition pid_of_contents :: "string \<Rightarrow> string option \<Rightarrow> int" where
  "pid_of_contents junk contents =
     (case contents of
        None \<Rightarrow> - 1
      | Some bytes \<Rightarrow> if bytes = [] then - 1 else atoi (take 64 bytes @ drop (length bytes) junk))"

text \<open>\<open>create_pidfile\<close> on a map of files; the pid file is removed again at exit.\<close>

definition create_pidfile ::
    "int \<Rightarrow> bool \<Rightarrow> main_ctx \<Rightarrow> (string \<Rightarrow> string option) \<Rightarrow> int \<times> main_ctx \<times> (string \<Rightarrow> string option)" where
  "create_pidfile getpid can_open ctx files =
     (if \<not> can_open then (- 1, ctx, files)
      else (0, ctx\<lparr>ctx_pid := getpid\<rparr>, files(ctx_pidfile ctx := Some (pidfile_text getpid))))"

definition delete_pidfile :: "main_ctx \<Rightarrow> (string \<Rightarrow> string option) \<Rightarrow> (string \<Rightarrow> string option)" where
  "delete_pidfile ctx files = files(ctx_pidfile ctx := None)"

definition getpid_from_pidfile :: "string \<Rightarrow> main_ctx \<Rightarrow> (string \<Rightarrow> string option) \<Rightarrow> int" where
  "getpid_from_pidfile junk ctx files = pid_of_contents junk (files (ctx_pidfile ctx))"

section \<open>Signals of the master process\<close>

datatype signo = SIGINT | SIGTERM | SIGCHLD | SIGUSR1 | SIGKILL

datatype sys_action =
    Kill int signo
  | Ignore_SIGCHLD
  | Reload_fn
  | Sleep
  | Exit

text \<open>
  The loops over \<open>proc_ctxs\<close>: the first worker without a process ends the loop (\<open>break\<close>).
\<close>

fun kill_workers :: "signo \<Rightarrow> proc_ctx list \<Rightarrow> sys_action list" where
  "kill_workers sig [] = []"
| "kill_workers sig (p # ps) =
     (if proc_pid p \<le> 0 then [] else Kill (proc_pid p) sig # kill_workers sig ps)"

fun forget_killed :: "proc_ctx list \<Rightarrow> proc_ctx list" where
  "forget_killed [] = []"
| "forget_killed (p # ps) =
     (if proc_pid p \<le> 0 then p # ps else p\<lparr>proc_pid := - 1\<rparr> # forget_killed ps)"

text \<open>\<open>hproc_spawn\<close> in the parent; \<open>fork\<close> answers the new pid or a negative number.\<close>

definition hproc_spawn :: "int \<Rightarrow> int \<Rightarrow> proc_ctx \<Rightarrow> proc_ctx" where
  "hproc_spawn now fork p =
     (let p = p\<lparr>proc_spawn_cnt := proc_spawn_cnt p + 1, proc_start := now\<rparr>
      in if fork > 0 then p\<lparr>proc_pid := fork\<rparr> else p)"

text \<open>
  One process that \<open>waitpid\<close> has reaped; the answer says whether the master exits because no
  worker is left.
\<close>

definition reap_worker :: "int \<Rightarrow> int \<Rightarrow> int \<Rightarrow> proc_ctx list \<Rightarrow> proc_ctx list \<times> bool" where
  "reap_worker now fork dead ps =
     (case find_idx (\<lambda>p. proc_pid p = dead) ps of
        None \<Rightarrow> (ps, False)
      | Some i \<Rightarrow>
          (let p = (ps ! i)\<lparr>proc_pid := - 1\<rparr>;
               run_time = now - proc_start p
           in if proc_spawn_cnt p < 3 \<or> run_time > 3600
              then (ps[i := hproc_spawn now fork p], False)
              else (ps[i := p], \<not> list_ex (\<lambda>q. proc_pid q > 0) (ps[i := p]))))"

text \<open>
  The loop over the reaped processes, each with the result of the \<open>fork\<close> it may cause.
\<close>

fun reap_workers :: "int \<Rightarrow> (int \<times> int) list \<Rightarrow> proc_ctx list \<Rightarrow> proc_ctx list \<times> bool" where
  "reap_workers now [] ps = (ps, False)"
| "reap_workers now ((dead, fork) # ds) ps =
     (case reap_worker now fork dead ps of
        (ps', True) \<Rightarrow> (ps', True)
      | (ps', False) \<Rightarrow> reap_workers now ds ps')"

definition signal_handler ::
    "int \<Rightarrow> int \<Rightarrow> (int \<times> int) list \<Rightarrow> int \<Rightarrow> signo \<Rightarrow> main_ctx \<Rightarrow> main_ctx \<times> sys_action list" where
  "signal_handler getpid now reaped pidfile_pid sig ctx =
     (let workers = take (nat (ctx_worker_processes ctx)) (ctx_proc_ctxs ctx) in
      case sig of
        SIGCHLD \<Rightarrow>
          (case reap_workers now reaped workers of
             (ps, quit) \<Rightarrow> (ctx\<lparr>ctx_proc_ctxs := ps\<rparr>, if quit then [Exit] else []))
      | SIGUSR1 \<Rightarrow>
          (ctx, if ctx_reload_fn ctx
                then Reload_fn # (if pidfile_pid = getpid then kill_workers SIGUSR1 workers else [])
                else [])
      | SIGKILL \<Rightarrow> (ctx, [])
      | _ \<Rightarrow>
          (ctx\<lparr>ctx_proc_ctxs := forget_killed workers\<rparr>,
           [Ignore_SIGCHLD] @ kill_workers SIGKILL workers @ [Exit]))"

section \<open>The commands of -s\<close>

text \<open>The actions up to \<open>exit\<close>; without an \<open>Exit\<close> the program goes on and starts.\<close>

definition signal_handle :: "main_ctx \<Rightarrow> string \<Rightarrow> sys_action list" where
  "signal_handle ctx cmd =
     (let old = ctx_oldpid ctx in
      if cmd = ''start'' then (if old > 0 then [Exit] else [])
      else if cmd = ''stop'' then (if old > 0 then [Kill old SIGTERM] else []) @ [Exit]
      else if cmd = ''restart'' then (if old > 0 then [Kill old SIGTERM, Sleep] else [])
      else if cmd = ''status'' then [Exit]
      else if cmd = ''reload'' then (if old > 0 then [Kill old SIGUSR1] else []) @ [Sleep, Exit]
      else [Exit])"

section \<open>Starting the workers\<close>

definition ERR_OVER_LIMIT :: int where "ERR_OVER_LIMIT = 1022"

text \<open>
  What runs \<open>worker_fn\<close>: the number of threads the process creates, and whether the calling
  thread runs it as well.
\<close>

definition worker_proc :: "main_ctx \<Rightarrow> nat \<times> bool" where
  "worker_proc ctx = (length [1 ..< nat (ctx_worker_threads ctx)], True)"

fun spawn_workers :: "int \<Rightarrow> int list \<Rightarrow> proc_ctx list \<Rightarrow> proc_ctx list" where
  "spawn_workers now (f # fs) (p # ps) = hproc_spawn now f p # spawn_workers now fs ps"
| "spawn_workers now _ ps = ps"

text \<open>
  \<open>master_workers_run\<close> up to its endless wait: the code, the context, and how the calling
  process runs the worker function.  \<open>forks\<close> are the pids of the new workers.
\<close>

definition master_workers_run ::
    "int \<Rightarrow> int \<Rightarrow> int list \<Rightarrow> int \<Rightarrow> int \<Rightarrow> bool \<Rightarrow> main_ctx \<Rightarrow> int \<times> main_ctx \<times> nat \<times> bool" where
  "master_workers_run getpid now forks processes threads wait ctx =
     (let threads = (if threads = 0 then 1 else threads);
          ctx = ctx\<lparr>ctx_worker_threads := threads\<rparr>
      in if processes = 0 then
           (0, ctx, if wait then (length [1 ..< nat threads], True) else (length [0 ..< nat threads], False))
         else if ctx_worker_processes ctx \<noteq> 0 then (ERR_OVER_LIMIT, ctx, 0, False)
         else (0, ctx\<lparr>ctx_worker_processes := processes,
                      ctx_proc_ctxs := spawn_workers now forks
                        (replicate (nat processes) \<lparr>proc_pid = 0, proc_start = 0, proc_spawn_cnt = 0\<rparr>),
                      ctx_pid := getpid\<rparr>, 0, False))"

section \<open>Command lines and what they mean\<close>

text \<open>The spellings of the uses of options on a command line, and their effect on the context.\<close>

datatype cl_item =
    FlagShort option_t
  | FlagLong option_t string
  | ShortAttached option_t string
  | ShortEq option_t string
  | ShortNext option_t string
  | LongEq option_t string string
  | LongNext option_t string string
  | Word string

fun cl_words :: "cl_item \<Rightarrow> string list" where
  "cl_words (FlagShort p) = [[CHR ''-'', short_opt p]]"
| "cl_words (FlagLong p l) = [''--'' @ l]"
| "cl_words (ShortAttached p v) = [[CHR ''-'', short_opt p] @ v]"
| "cl_words (ShortEq p v) = [[CHR ''-'', short_opt p, CHR ''=''] @ v]"
| "cl_words (ShortNext p v) = [[CHR ''-'', short_opt p], v]"
| "cl_words (LongEq p l v) = [''--'' @ l @ ''='' @ v]"
| "cl_words (LongNext p l v) = [''--'' @ l, v]"
| "cl_words (Word w) = [w]"

definition has_short :: "option_t \<Rightarrow> bool" where
  "has_short p \<longleftrightarrow> (0 :: nat) < of_char (short_opt p) \<and> of_char (short_opt p) < (128 :: nat)"

definition option_key :: "option_t \<Rightarrow> string" where
  "option_key p = (if has_short p then [short_opt p] else (case long_opt p of Some l \<Rightarrow> l | None \<Rightarrow> []))"

definition put_opt :: "option_t \<Rightarrow> string \<Rightarrow> main_ctx \<Rightarrow> main_ctx" where
  "put_opt p v ctx = ctx\<lparr>ctx_arg_kv := kv_put (option_key p) v (ctx_arg_kv ctx)\<rparr>"

definition push_word :: "string \<Rightarrow> main_ctx \<Rightarrow> main_ctx" where
  "push_word w ctx = ctx\<lparr>ctx_arg_list := ctx_arg_list ctx @ [w]\<rparr>"

fun cl_effect :: "cl_item \<Rightarrow> main_ctx \<Rightarrow> main_ctx" where
  "cl_effect (FlagShort p) = put_opt p OPTION_ENABLE"
| "cl_effect (FlagLong p l) = put_opt p OPTION_ENABLE"
| "cl_effect (ShortAttached p v) = put_opt p v"
| "cl_effect (ShortEq p v) = put_opt p v"
| "cl_effect (ShortNext p v) = put_opt p v"
| "cl_effect (LongEq p l v) = put_opt p v"
| "cl_effect (LongNext p l v) = put_opt p v"
| "cl_effect (Word w) = push_word w"

text \<open>An option that the table answers for its short or its long name.\<close>

definition short_ok :: "option_t list \<Rightarrow> option_t \<Rightarrow> bool" where
  "short_ok os p \<longleftrightarrow> find (\<lambda>q. short_opt q = short_opt p) os = Some p \<and> has_short p \<and>
     short_opt p \<noteq> CHR ''-'' \<and> short_opt p \<noteq> CHR ''=''"

definition long_ok :: "option_t list \<Rightarrow> option_t \<Rightarrow> string \<Rightarrow> bool" where
  "long_ok os p l \<longleftrightarrow> long_opt p = Some l \<and> find_long l os = Some (Some p) \<and>
     2 \<le> length l \<and> length l \<le> MAX_OPTION \<and> CHR ''='' \<notin> set l"

definition word_ok :: "option_t list \<Rightarrow> string \<Rightarrow> bool" where
  "word_ok os w \<longleftrightarrow> (w = [] \<or> hd w \<noteq> CHR ''-'') \<and> CHR ''='' \<notin> set w \<and>
     get_option (take MAX_OPTION w) os = Some None"

fun cl_ok :: "option_t list \<Rightarrow> cl_item \<Rightarrow> bool" where
  "cl_ok os (FlagShort p) \<longleftrightarrow> short_ok os p \<and> opt_arg_type p = NO_ARGUMENT"
| "cl_ok os (FlagLong p l) \<longleftrightarrow> long_ok os p l \<and> opt_arg_type p = NO_ARGUMENT"
| "cl_ok os (ShortAttached p v) \<longleftrightarrow>
     short_ok os p \<and> opt_arg_type p = REQUIRED_ARGUMENT \<and> v \<noteq> [] \<and> CHR ''='' \<notin> set v"
| "cl_ok os (ShortEq p v) \<longleftrightarrow> short_ok os p \<and> opt_arg_type p = REQUIRED_ARGUMENT \<and> v \<noteq> []"
| "cl_ok os (ShortNext p v) \<longleftrightarrow> short_ok os p \<and> opt_arg_type p = REQUIRED_ARGUMENT"
| "cl_ok os (LongEq p l v) \<longleftrightarrow> long_ok os p l \<and> opt_arg_type p = REQUIRED_ARGUMENT \<and> v \<noteq> []"
| "cl_ok os (LongNext p l v) \<longleftrightarrow> long_ok os p l \<and> opt_arg_type p = REQUIRED_ARGUMENT"
| "cl_ok os (Word w) \<longleftrightarrow> word_ok os w"

lemma find_idx_app_first: "\<forall>x \<in> set a. \<not> P x \<Longrightarrow> P y \<Longrightarrow> find_idx P (a @ y # b) = Some (length a)"
  by (induction a) auto

lemma opt_name_plain:
  assumes "CHR ''='' \<notin> set arg"
  shows "opt_name ty arg = Some (if ty = SHORT_OPTION then take 1 arg else take MAX_OPTION arg, None)"
proof -
  have "find_idx (\<lambda>c. c = CHR ''='') arg = None" using assms by (auto simp: find_idx_None)
  then show ?thesis by (simp add: opt_name_def)
qed

lemma opt_name_eq:
  assumes "CHR ''='' \<notin> set l" "l \<noteq> []" "length l \<le> MAX_OPTION" "v \<noteq> []"
  shows "opt_name ty (l @ CHR ''='' # v) = Some (l, Some (length l))"
proof -
  have "find_idx (\<lambda>c. c = CHR ''='') (l @ CHR ''='' # v) = Some (length l)"
    using assms(1) by (intro find_idx_app_first) auto
  then show ?thesis using assms by (simp add: opt_name_def)
qed

lemma get_option_short: "short_ok os p \<Longrightarrow> get_option [short_opt p] os = Some (Some p)"
  by (simp add: short_ok_def get_option_def)

lemma get_option_long: "long_ok os p l \<Longrightarrow> get_option l os = Some (Some p)"
  by (auto simp: long_ok_def get_option_def)

lemma opt_store_key:
  "has_short p \<or> long_opt p \<noteq> None \<Longrightarrow> opt_store p (Some v) kvs = Some (kv_put (option_key p) v kvs)"
  by (auto simp: opt_store_def option_key_def has_short_def)

lemma opt_store_short: "short_ok os p \<Longrightarrow> opt_store p (Some v) kvs = Some (kv_put (option_key p) v kvs)"
  and opt_store_long: "long_ok os p l \<Longrightarrow> opt_store p (Some v) kvs = Some (kv_put (option_key p) v kvs)"
  by (auto simp: short_ok_def long_ok_def intro!: opt_store_key)

lemma short_eq_arg:
  "short_ok os p \<Longrightarrow> v \<noteq> [] \<Longrightarrow>
   opt_name SHORT_OPTION (short_opt p # CHR ''='' # v) = Some ([short_opt p], Some 1)"
  using opt_name_eq[of "[short_opt p]" v SHORT_OPTION] by (auto simp: short_ok_def MAX_OPTION_def)

lemma parse_item:
  assumes "cl_ok os i"
  shows "parse_long_args os (cl_words i @ rest) ctx = parse_long_args os rest (cl_effect i ctx)"
proof (cases i)
  case (Word w)
  then show ?thesis
    using assms by (auto simp: word_ok_def parse_long_step_def strip_prefix_def opt_name_plain push_word_def)
next
  case (LongEq p l v)
  then have l: "long_ok os p l" "CHR ''='' \<notin> set l" "l \<noteq> []" "length l \<le> MAX_OPTION" "v \<noteq> []"
    using assms by (auto simp: long_ok_def)
  then show ?thesis
    using assms LongEq opt_name_eq[OF l(2-5), of LONG_OPTION]
    by (simp add: parse_long_step_def strip_prefix_def get_option_long opt_value_def
        opt_store_long put_opt_def)
qed (use assms in \<open>auto simp: parse_long_step_def strip_prefix_def opt_name_plain get_option_short
      get_option_long opt_value_def opt_store_short opt_store_long put_opt_def short_eq_arg short_ok_def
      long_ok_def MAX_OPTION_def\<close>)

lemma parse_items:
  "\<forall>i \<in> set items. cl_ok os i \<Longrightarrow>
   parse_long_args os (concat (map cl_words items) @ rest) ctx =
   parse_long_args os rest (fold cl_effect items ctx)"
  by (induction items arbitrary: ctx) (simp_all add: parse_item)

text \<open>
  C23.  \<open>parse_opt_long\<close> understands every documented spelling: on a command line made of flags
  (\<open>-h\<close>, \<open>--help\<close>), options with a value (\<open>-p80\<close>, \<open>-p=80\<close>, \<open>-p 80\<close>, \<open>--port=80\<close>, \<open>--port 80\<close>)
  and words that name no option (words and attached values without \<open>=\<close>; the spelling \<open>-std=cpp\<close> of
  \<open>hmain.h\<close> is not covered), in any order and number, it returns 0 and has stored exactly
  the values of the options, under the short name where there is one, later ones overriding
  earlier ones, and the words in order.
\<close>

theorem parse_opt_long_meaning:
  assumes "\<forall>i \<in> set items. cl_ok os i"
  shows "parse_opt_long (prog # concat (map cl_words items)) os ctx = Some (0, fold cl_effect items ctx)"
  using parse_items[OF assms, of "[]" ctx] by (simp add: parse_opt_long_def)

definition opt_help :: option_t where
  "opt_help = \<lparr>short_opt = CHR ''h'', long_opt = Some ''help'', opt_arg_type = NO_ARGUMENT\<rparr>"

definition opt_port :: option_t where
  "opt_port = \<lparr>short_opt = CHR ''p'', long_opt = Some ''port'', opt_arg_type = REQUIRED_ARGUMENT\<rparr>"

theorem parse_opt_long_meaning_witness:
  "map_option (\<lambda>(r, c). (r, get_arg c ''p'', get_arg c ''h'', ctx_arg_list c))
     (parse_opt_long [''hv'', ''-p80'', ''x'', ''--port'', ''90'', ''-h''] [opt_help, opt_port]
        (main_ctx_zero\<lparr>ctx_arg_kv := [], ctx_arg_list := []\<rparr>)) =
   Some (0, Some ''90'', Some ''on'', [''x''])"
proof -
  let ?items = "[ShortAttached opt_port ''80'', Word ''x'', LongNext opt_port ''port'' ''90'', FlagShort opt_help]"
  have "\<forall>i \<in> set ?items. cl_ok [opt_help, opt_port] i"
    by (simp add: short_ok_def long_ok_def word_ok_def has_short_def opt_help_def opt_port_def
        MAX_OPTION_def get_option_def)
  from parse_opt_long_meaning[OF this, of "''hv''" "main_ctx_zero\<lparr>ctx_arg_kv := [], ctx_arg_list := []\<rparr>"]
  have p: "parse_opt_long [''hv'', ''-p80'', ''x'', ''--port'', ''90'', ''-h''] [opt_help, opt_port]
      (main_ctx_zero\<lparr>ctx_arg_kv := [], ctx_arg_list := []\<rparr>) =
      Some (0, fold cl_effect ?items (main_ctx_zero\<lparr>ctx_arg_kv := [], ctx_arg_list := []\<rparr>))"
    by (simp add: opt_help_def opt_port_def)
  have "option_key opt_port = ''p''" "option_key opt_help = ''h''"
    by (simp_all add: option_key_def has_short_def opt_help_def opt_port_def)
  then show ?thesis
    unfolding p by (simp add: put_opt_def push_word_def get_arg_def OPTION_ENABLE_def str_lt_def)
qed

text \<open>The ways a command line can fail, and what the parser answers then.\<close>

datatype cl_error =
    UnknownOption string
  | EmptyName string
  | EmptyValue string
  | MissingValue option_t
  | OptionalShort option_t string
  | OptionalLong option_t string

fun error_word :: "cl_error \<Rightarrow> string" where
  "error_word (UnknownOption w) = ''--'' @ w"
| "error_word (EmptyName w) = ''--='' @ w"
| "error_word (EmptyValue w) = ''--'' @ w @ ''=''"
| "error_word (MissingValue p) = [CHR ''-'', short_opt p]"
| "error_word (OptionalShort p w) = [CHR ''-'', short_opt p] @ w"
| "error_word (OptionalLong p l) = ''--'' @ l"

fun error_ok :: "option_t list \<Rightarrow> string list \<Rightarrow> cl_error \<Rightarrow> bool" where
  "error_ok os rest (UnknownOption w) \<longleftrightarrow>
     CHR ''='' \<notin> set w \<and> get_option (take MAX_OPTION w) os = Some None"
| "error_ok os rest (EmptyName w) \<longleftrightarrow> True"
| "error_ok os rest (EmptyValue w) \<longleftrightarrow> CHR ''='' \<notin> set w"
| "error_ok os rest (MissingValue p) \<longleftrightarrow>
     short_ok os p \<and> opt_arg_type p = REQUIRED_ARGUMENT \<and> rest = []"
| "error_ok os rest (OptionalShort p w) \<longleftrightarrow>
     short_ok os p \<and> opt_arg_type p = OPTIONAL_ARGUMENT \<and> CHR ''='' \<notin> set w"
| "error_ok os rest (OptionalLong p l) \<longleftrightarrow> long_ok os p l \<and> opt_arg_type p = OPTIONAL_ARGUMENT"

fun error_result :: "main_ctx \<Rightarrow> cl_error \<Rightarrow> (int \<times> main_ctx) option" where
  "error_result ctx (MissingValue p) = Some (- 20, ctx)"
| "error_result ctx (OptionalShort p w) = None"
| "error_result ctx (OptionalLong p l) = None"
| "error_result ctx _ = Some (- 10, ctx)"

lemma opt_store_null:
  "has_short p \<or> long_opt p \<noteq> None \<Longrightarrow> opt_store p None kvs = None"
  by (auto simp: opt_store_def has_short_def)

lemma opt_value_optional: "opt_arg_type p = OPTIONAL_ARGUMENT \<Longrightarrow> opt_value p ty arg d rest = Inr (None, rest)"
  by (simp add: opt_value_def)

lemma parse_error:
  assumes "error_ok os rest e"
  shows "parse_long_args os (error_word e # rest) ctx = error_result ctx e"
proof (cases e)
  case (EmptyName w)
  then show ?thesis by (simp add: parse_long_step_def strip_prefix_def opt_name_def)
next
  case (EmptyValue w)
  have "find_idx (\<lambda>c. c = CHR ''='') (w @ CHR ''='' # []) = Some (length w)"
    using assms EmptyValue by (intro find_idx_app_first) auto
  then show ?thesis using EmptyValue by (simp add: parse_long_step_def strip_prefix_def opt_name_def)
next
  case (OptionalShort p w)
  then have "CHR ''='' \<notin> set (short_opt p # w)" "short_opt p \<noteq> CHR ''-''" "has_short p"
    using assms by (auto simp: short_ok_def)
  then show ?thesis
    using OptionalShort assms
    by (simp add: parse_long_step_def strip_prefix_def opt_name_plain get_option_short opt_value_optional
        opt_store_null)
next
  case (OptionalLong p l)
  then have l: "long_ok os p l" "opt_arg_type p = OPTIONAL_ARGUMENT" using assms by simp_all
  then have "take MAX_OPTION l = l" "long_opt p \<noteq> None" "CHR ''='' \<notin> set l" by (simp_all add: long_ok_def)
  then show ?thesis
    using OptionalLong get_option_long[OF l(1)] l(2)
    by (simp add: parse_long_step_def strip_prefix_def opt_name_plain opt_value_optional opt_store_null)
qed (use assms in \<open>auto simp: parse_long_step_def strip_prefix_def opt_name_plain get_option_short
      opt_value_def short_ok_def\<close>)

text \<open>
  Errors of \<open>parse_opt_long\<close> leave what was read before them: a prefixed word that names no
  option, an empty name or an empty value after \<open>=\<close> returns -10 and a missing value at the end
  returns -20.  An option of type \<open>OPTIONAL_ARGUMENT\<close> is undefined behaviour in every spelling,
  because its value stays a null pointer that is assigned to a \<open>std::string\<close>.
\<close>

theorem parse_opt_long_errors:
  assumes "\<forall>i \<in> set items. cl_ok os i" "error_ok os rest e"
  shows "parse_opt_long (prog # concat (map cl_words items) @ error_word e # rest) os ctx =
     error_result (fold cl_effect items ctx) e"
  using parse_items[OF assms(1), of "error_word e # rest" ctx] parse_error[OF assms(2)]
  by (simp add: parse_opt_long_def)

theorem parse_opt_long_errors_witness:
  "parse_opt_long [''hv'', ''-h'', ''-p''] [opt_help, opt_port] main_ctx_zero = Some (- 20, put_opt opt_help ''on'' main_ctx_zero)"
proof -
  have "\<forall>i \<in> set [FlagShort opt_help]. cl_ok [opt_help, opt_port] i"
    "error_ok [opt_help, opt_port] [] (MissingValue opt_port)"
    by (simp_all add: short_ok_def has_short_def opt_help_def opt_port_def)
  from parse_opt_long_errors[OF this, of "''hv''" main_ctx_zero] show ?thesis
    by (simp add: opt_help_def opt_port_def OPTION_ENABLE_def)
qed

section \<open>Short option clusters\<close>

datatype opt_item =
    Cluster string
  | ClusterAttached string char string
  | ClusterNext string char string
  | Plain string

fun opt_words :: "opt_item \<Rightarrow> string list" where
  "opt_words (Cluster fs) = [CHR ''-'' # fs]"
| "opt_words (ClusterAttached fs c v) = [CHR ''-'' # fs @ c # v]"
| "opt_words (ClusterNext fs c v) = [CHR ''-'' # fs @ [c], v]"
| "opt_words (Plain w) = [w]"

definition flags :: "string \<Rightarrow> keyval \<Rightarrow> keyval" where
  "flags fs kvs = fold (\<lambda>c. kv_put [c] OPTION_ENABLE) fs kvs"

definition put_flags :: "string \<Rightarrow> (string \<times> string) list \<Rightarrow> main_ctx \<Rightarrow> main_ctx" where
  "put_flags fs vs ctx =
     ctx\<lparr>ctx_arg_kv := fold (\<lambda>(k, v). kv_put k v) vs (flags fs (ctx_arg_kv ctx))\<rparr>"

fun opt_effect :: "opt_item \<Rightarrow> main_ctx \<Rightarrow> main_ctx" where
  "opt_effect (Cluster fs) = put_flags fs []"
| "opt_effect (ClusterAttached fs c v) = put_flags fs [([c], v)]"
| "opt_effect (ClusterNext fs c v) = put_flags fs [([c], v)]"
| "opt_effect (Plain w) = push_word w"

definition flags_ok :: "string option \<Rightarrow> string \<Rightarrow> bool" where
  "flags_ok options fs \<longleftrightarrow> (\<forall>c \<in> set fs. get_arg_type c options = Some NO_ARGUMENT)"

fun opt_ok :: "string option \<Rightarrow> opt_item \<Rightarrow> bool" where
  "opt_ok options (Cluster fs) \<longleftrightarrow> flags_ok options fs"
| "opt_ok options (ClusterAttached fs c v) \<longleftrightarrow>
     flags_ok options fs \<and> get_arg_type c options = Some REQUIRED_ARGUMENT \<and> v \<noteq> []"
| "opt_ok options (ClusterNext fs c v) \<longleftrightarrow>
     flags_ok options fs \<and> get_arg_type c options = Some REQUIRED_ARGUMENT"
| "opt_ok options (Plain w) \<longleftrightarrow> w = [] \<or> hd w \<noteq> CHR ''-''"

lemma parse_flags:
  "flags_ok options fs \<Longrightarrow>
   parse_opt_word options (fs @ p) rest kvs = parse_opt_word options p rest (flags fs kvs)"
  by (induction fs arbitrary: kvs) (simp_all add: flags_ok_def flags_def)

lemma parse_opt_item:
  assumes "opt_ok options i"
  shows "parse_opt_args options (opt_words i @ rest) ctx = parse_opt_args options rest (opt_effect i ctx)"
  using assms parse_flags[of options _ "[]"]
  by (cases i) (auto simp: parse_flags put_flags_def push_word_def)

lemma parse_opt_items:
  "\<forall>i \<in> set items. opt_ok options i \<Longrightarrow>
   parse_opt_args options (concat (map opt_words items) @ rest) ctx =
   parse_opt_args options rest (fold opt_effect items ctx)"
  by (induction items arbitrary: ctx) (simp_all add: parse_opt_item)

text \<open>
  C24.  \<open>parse_opt\<close> understands clusters of short options (\<open>-al\<close>, \<open>-aln10\<close>, \<open>-aln 10\<close>) mixed with
  words: it returns 0 with the flags set to on, the last option of a cluster given its value and
  the words kept in order.  After such a line, an unknown option returns -20 and an option
  without its value -30, with the flags of the failing cluster already stored.
\<close>

theorem parse_opt_meaning:
  assumes "\<forall>i \<in> set items. opt_ok options i" "flags_ok options fs"
  shows "parse_opt (prog # concat (map opt_words items)) options ctx = (0, fold opt_effect items ctx) \<and>
     (get_arg_type c options = None \<longrightarrow>
        parse_opt (prog # concat (map opt_words items) @ (CHR ''-'' # fs @ c # w) # rest) options ctx =
        (- 20, put_flags fs [] (fold opt_effect items ctx))) \<and>
     (get_arg_type c options = Some REQUIRED_ARGUMENT \<longrightarrow>
        parse_opt (prog # concat (map opt_words items) @ [CHR ''-'' # fs @ [c]]) options ctx =
        (- 30, put_flags fs [] (fold opt_effect items ctx)))"
  using parse_opt_items[OF assms(1)] parse_opt_items[OF assms(1), of "[]"]
  by (simp add: parse_opt_def parse_flags[OF assms(2)] put_flags_def)

theorem parse_opt_meaning_witness:
  "fst (parse_opt [''ls'', ''-al'', ''dir'', ''-n10''] (Some ''aln:'') main_ctx_zero) = 0 \<and>
   fst (parse_opt [''ls'', ''-al'', ''dir'', ''-n10'', ''-ax''] (Some ''aln:'') main_ctx_zero) = - 20 \<and>
   fst (parse_opt [''ls'', ''-al'', ''dir'', ''-n10'', ''-an''] (Some ''aln:'') main_ctx_zero) = - 30"
proof -
  let ?items = "[Cluster ''al'', Plain ''dir'', ClusterAttached [] (CHR ''n'') ''10'']"
  have t: "get_arg_type (CHR ''a'') (Some ''aln:'') = Some NO_ARGUMENT"
    "get_arg_type (CHR ''l'') (Some ''aln:'') = Some NO_ARGUMENT"
    "get_arg_type (CHR ''n'') (Some ''aln:'') = Some REQUIRED_ARGUMENT"
    "get_arg_type (CHR ''x'') (Some ''aln:'') = None"
    by (simp_all add: get_arg_type_def c_str_def)
  then have i: "\<forall>i \<in> set ?items. opt_ok (Some ''aln:'') i" and f: "flags_ok (Some ''aln:'') ''a''"
    by (simp_all add: flags_ok_def)
  from parse_opt_meaning[OF i f, of "''ls''" main_ctx_zero "CHR ''x''" "[]" "[]"]
    parse_opt_meaning[OF i f, of "''ls''" main_ctx_zero "CHR ''n''"] t
  show ?thesis by simp
qed

section \<open>Supervision of the workers\<close>

definition live_pids :: "proc_ctx list \<Rightarrow> int set" where
  "live_pids ps = {proc_pid p | p. p \<in> set ps \<and> proc_pid p > 0}"

definition pids_distinct :: "proc_ctx list \<Rightarrow> bool" where
  "pids_distinct ps \<longleftrightarrow> (\<forall>i < length ps. \<forall>j < length ps.
     proc_pid (ps ! i) = proc_pid (ps ! j) \<longrightarrow> proc_pid (ps ! i) > 0 \<longrightarrow> i = j)"

text \<open>
  The runs of the master: a worker dies, is reaped, and is started again or given up.  \<open>quick\<close>
  says that no reaped worker had run for more than an hour.
\<close>

inductive supervise :: "bool \<Rightarrow> proc_ctx list \<Rightarrow> proc_ctx list \<Rightarrow> bool" for quick where
  supervise_start: "supervise quick ps ps"
| supervise_reap: "supervise quick ps qs \<Longrightarrow> dead > 0 \<Longrightarrow> fork \<notin> live_pids qs \<Longrightarrow> fork \<noteq> dead \<Longrightarrow>
     (quick \<longrightarrow> (\<forall>q \<in> set qs. proc_pid q = dead \<longrightarrow> now - proc_start q \<le> 3600)) \<Longrightarrow>
     reap_worker now fork dead qs = (rs, quit) \<Longrightarrow> supervise quick ps rs"

lemma hproc_spawn_simps [simp]:
  "proc_pid (hproc_spawn now fork p) = (if fork > 0 then fork else proc_pid p)"
  "proc_spawn_cnt (hproc_spawn now fork p) = proc_spawn_cnt p + 1"
  by (simp_all add: hproc_spawn_def Let_def)

lemma reap_workerE:
  assumes "reap_worker now fork dead ps = (qs, quit)"
  obtains "dead \<notin> proc_pid ` set ps" "qs = ps" "\<not> quit"
  | i q where "i < length ps" "proc_pid (ps ! i) = dead" "qs = ps[i := q]"
      "proc_spawn_cnt q \<le> proc_spawn_cnt (ps ! i) + 1" "proc_spawn_cnt (ps ! i) \<le> proc_spawn_cnt q"
      "proc_spawn_cnt (ps ! i) \<ge> 3 \<longrightarrow> now - proc_start (ps ! i) \<le> 3600 \<longrightarrow>
         proc_spawn_cnt q = proc_spawn_cnt (ps ! i)"
      "proc_pid q = - 1 \<or> (proc_pid q = fork \<and> fork > 0)" "quit \<longrightarrow> live_pids qs = {}"
proof (cases "find_idx (\<lambda>p. proc_pid p = dead) ps")
  case None
  then have "dead \<notin> proc_pid ` set ps" by (auto simp: find_idx_None)
  moreover have "qs = ps" "\<not> quit" using assms None by (simp_all add: reap_worker_def)
  ultimately show thesis by (rule that(1))
next
  case (Some i)
  then have i: "i < length ps" "proc_pid (ps ! i) = dead" by (simp_all add: find_idx_Some)
  let ?p = "(ps ! i)\<lparr>proc_pid := - 1\<rparr>"
  show thesis
  proof (cases "proc_spawn_cnt ?p < 3 \<or> now - proc_start ?p > 3600")
    case True
    then have "qs = ps[i := hproc_spawn now fork ?p]" "\<not> quit"
      using assms Some by (auto simp: reap_worker_def Let_def)
    with i True show thesis by (intro that(2)[of i "hproc_spawn now fork ?p"]) auto
  next
    case False
    then have "qs = ps[i := ?p]" "quit = (\<not> list_ex (\<lambda>q. proc_pid q > 0) (ps[i := ?p]))"
      using assms Some by (auto simp: reap_worker_def Let_def)
    with i False show thesis
      by (intro that(2)[of i ?p]) (auto simp: live_pids_def list_ex_iff)
  qed
qed

lemma reap_distinct:
  assumes "reap_worker now fork dead ps = (qs, quit)" "pids_distinct ps" "fork \<notin> live_pids ps"
  shows "pids_distinct qs"
  using assms(1)
proof (cases rule: reap_workerE)
  case (2 i q)
  have "proc_pid (ps ! j) \<in> live_pids ps" if "proc_pid (ps ! j) > 0" "j < length ps" for j
    using that nth_mem[of j ps] unfolding live_pids_def by blast
  moreover have "proc_pid q > 0 \<Longrightarrow> proc_pid q \<notin> live_pids ps" using 2(7) assms(3) by auto
  ultimately have "proc_pid q > 0 \<Longrightarrow> j < length ps \<Longrightarrow> proc_pid (ps ! j) \<noteq> proc_pid q" for j
    by metis
  with 2 assms(2) show ?thesis
    unfolding pids_distinct_def by (simp add: nth_list_update) metis
qed (use assms in simp)

lemma reap_dead_gone:
  assumes "reap_worker now fork dead ps = (qs, quit)" "pids_distinct ps" "dead > 0" "fork \<noteq> dead"
  shows "dead \<notin> live_pids qs"
  using assms(1)
proof (cases rule: reap_workerE)
  case 1
  then show ?thesis by (auto simp: live_pids_def)
next
  case (2 i q)
  have "proc_pid (qs ! j) \<noteq> dead" if "j < length qs" for j
    using that 2 assms(2-4) unfolding pids_distinct_def by (auto simp: nth_list_update)
  then show ?thesis by (auto simp: live_pids_def in_set_conv_nth)
qed

text \<open>
  C27.  Supervision: whatever sequence of workers dies, the number of slots never changes, no two
  slots ever hold the same live process, and a reaped process is in no slot afterwards.  When no
  worker survives an hour, no slot is started more than three times (or than it already was),
  so a crash loop ends; the master exits only when it has no live worker.
\<close>

theorem supervision_bounded:
  assumes "supervise quick ps qs" "pids_distinct ps"
  shows "length qs = length ps \<and> pids_distinct qs \<and>
     (\<forall>i < length ps. proc_spawn_cnt (ps ! i) \<le> proc_spawn_cnt (qs ! i)) \<and>
     (quick \<longrightarrow> (\<forall>i < length ps. proc_spawn_cnt (qs ! i) \<le> max 3 (proc_spawn_cnt (ps ! i)))) \<and>
     (dead > 0 \<and> fork \<noteq> dead \<and> reap_worker now fork dead qs = (rs, quit) \<longrightarrow>
        dead \<notin> live_pids rs \<and> (quit \<longrightarrow> live_pids rs = {}))"
  using assms
proof (induction arbitrary: dead fork now rs quit)
  case (supervise_start ps)
  then show ?case
    using reap_dead_gone by (auto elim: reap_workerE)
next
  case (supervise_reap ps qs dead' fork' now' qs' quit')
  have IH: "length qs = length ps" "pids_distinct qs"
    "\<forall>i < length ps. proc_spawn_cnt (ps ! i) \<le> proc_spawn_cnt (qs ! i)"
    "quick \<longrightarrow> (\<forall>i < length ps. proc_spawn_cnt (qs ! i) \<le> max 3 (proc_spawn_cnt (ps ! i)))"
    using supervise_reap.IH supervise_reap.prems by blast+
  have d: "pids_distinct qs'"
    using reap_distinct[OF supervise_reap.hyps(6) IH(2) supervise_reap.hyps(3)] .
  have "length qs' = length ps \<and>
     (\<forall>i < length ps. proc_spawn_cnt (ps ! i) \<le> proc_spawn_cnt (qs' ! i)) \<and>
     (quick \<longrightarrow> (\<forall>i < length ps. proc_spawn_cnt (qs' ! i) \<le> max 3 (proc_spawn_cnt (ps ! i))))"
    using supervise_reap.hyps(6)
  proof (cases rule: reap_workerE)
    case 1
    with IH show ?thesis by simp
  next
    case (2 i q)
    have "quick \<longrightarrow> now' - proc_start (qs ! i) \<le> 3600"
      using supervise_reap.hyps(5) 2 by simp
    then have "quick \<longrightarrow> proc_spawn_cnt q \<le> max 3 (proc_spawn_cnt (ps ! i))"
      using 2 IH by fastforce
    moreover have "proc_spawn_cnt (ps ! i) \<le> proc_spawn_cnt q"
      using 2 IH by fastforce
    ultimately show ?thesis using IH 2 by (auto simp: nth_list_update)
  qed
  then show ?case
    using d reap_dead_gone[OF _ d] by (auto elim: reap_workerE)
qed

theorem supervision_bounded_witness:
  "reap_worker 10 7 5 [\<lparr>proc_pid = 5, proc_start = 0, proc_spawn_cnt = 3\<rparr>] =
     ([\<lparr>proc_pid = - 1, proc_start = 0, proc_spawn_cnt = 3\<rparr>], True) \<and>
   5 \<notin> live_pids [\<lparr>proc_pid = - 1, proc_start = 0, proc_spawn_cnt = 3\<rparr>]"
proof -
  let ?ps = "[\<lparr>proc_pid = 5, proc_start = 0, proc_spawn_cnt = 3\<rparr>]"
  have r: "reap_worker 10 7 5 ?ps = ([\<lparr>proc_pid = - 1, proc_start = 0, proc_spawn_cnt = 3\<rparr>], True)"
    by (simp add: reap_worker_def Let_def)
  have "supervise True ?ps ?ps" "pids_distinct ?ps"
    by (simp_all add: supervise_start pids_distinct_def)
  from supervision_bounded[OF this, of 5 7 10] r show ?thesis by simp
qed

text \<open>
  On SIGINT and SIGTERM the master kills the live workers of the slots before the first
  slot without a process; all of them are killed when every slot has one, but behind a slot
  that was given up after its crashes the workers are left running when the master exits.
\<close>

theorem sigterm_kills_prefix:
  assumes "sig = SIGINT \<or> sig = SIGTERM" "ctx_worker_processes ctx = int (length (ctx_proc_ctxs ctx))"
  shows "snd (signal_handler getpid now reaped pidpid sig ctx) =
       Ignore_SIGCHLD # map (\<lambda>p. Kill (proc_pid p) SIGKILL)
         (takeWhile (\<lambda>p. proc_pid p > 0) (ctx_proc_ctxs ctx)) @ [Exit] \<and>
     live_pids (ctx_proc_ctxs (fst (signal_handler getpid now reaped pidpid sig ctx))) =
       live_pids (dropWhile (\<lambda>p. proc_pid p > 0) (ctx_proc_ctxs ctx))"
proof -
  have k: "kill_workers SIGKILL ps = map (\<lambda>p. Kill (proc_pid p) SIGKILL) (takeWhile (\<lambda>p. proc_pid p > 0) ps)"
    for ps by (induction ps) auto
  have "live_pids (p # ps) = (if proc_pid p > 0 then {proc_pid p} else {}) \<union> live_pids ps" for p ps
    by (auto simp: live_pids_def)
  then have f: "live_pids (forget_killed ps) = live_pids (dropWhile (\<lambda>p. proc_pid p > 0) ps)" for ps
    by (induction ps) simp_all
  show ?thesis using assms by (auto simp: signal_handler_def Let_def k f)
qed

theorem sigterm_kills_prefix_witness:
  "snd (signal_handler 1 0 [] 1 SIGTERM
     (main_ctx_zero\<lparr>ctx_worker_processes := 2, ctx_proc_ctxs :=
        [\<lparr>proc_pid = - 1, proc_start = 0, proc_spawn_cnt = 3\<rparr>,
         \<lparr>proc_pid = 100, proc_start = 0, proc_spawn_cnt = 1\<rparr>]\<rparr>)) = [Ignore_SIGCHLD, Exit]"
  by (subst sigterm_kills_prefix[THEN conjunct1]) simp_all

lemma digits_val_stop: "\<forall>c \<in> set s. isdigit_c c \<Longrightarrow> digits_val acc (s @ NL # t) = digits_val acc s"
  by (induction s arbitrary: acc) (simp_all add: isdigit_c_def less_eq_char_def)

lemma strtol_show_int_nl:
  assumes "0 \<le> i" "i < 2 ^ 63"
  shows "strtol_10 (show_int i @ NL # junk) = i"
proof -
  obtain c q where q: "show_nat (nat i) = c # q" by (cases "show_nat (nat i)") auto
  have d: "\<forall>c \<in> set (show_nat (nat i)). isdigit_c c" using show_nat_digits by blast
  then have c: "isdigit_c c" by (simp add: q)
  have s: "show_int i = show_nat (nat i)" using assms by (simp add: show_int_def)
  have "c_str (show_int i @ NL # junk) = show_nat (nat i) @ NL # c_str junk"
    using d digit_not_special(4) unfolding s c_str_def by (subst takeWhile_append2) auto
  then have "dropWhile isspace_c (c_str (show_int i @ NL # junk)) = c # q @ NL # c_str junk"
    using digit_not_special(1)[OF c] q by simp
  then show ?thesis
    using assms digits_val_stop[OF d, of 0 "c_str junk"] digits_val_show_nat[of "nat i"] q
    by (simp add: strtol_10_def digit_not_special[OF c])
qed

lemma atoi_nl:
  assumes "0 \<le> i" "i < 2 ^ 31"
  shows "atoi (show_int i @ NL # junk) = i"
  using assms by (simp add: atoi_def strtol_show_int_nl sint_sbintrunc' signed_take_bit_int_eq_self)

lemma show_nat_length: "n < 10 ^ k \<Longrightarrow> 0 < k \<Longrightarrow> length (show_nat n) \<le> k"
proof (induction k arbitrary: n)
  case (Suc k)
  show ?case
  proof (cases "n < 10")
    case True
    then show ?thesis by (simp add: show_nat.simps[of n])
  next
    case False
    then have "n div 10 < 10 ^ k" "0 < k"
      using Suc.prems by (auto intro: Suc_leI gr0I)
    then show ?thesis using Suc.IH[of "n div 10"] False by (simp add: show_nat.simps[of n])
  qed
qed simp

text \<open>
  The pid file is read back as the pid that was written, whatever the uninitialised array
  behind the bytes read holds, and reading gives -1 once the file is deleted.
\<close>

theorem pidfile_roundtrip:
  assumes "0 \<le> pid" "pid < 2 ^ 31"
  shows "create_pidfile pid True ctx files = (0, ctx\<lparr>ctx_pid := pid\<rparr>, files') \<Longrightarrow>
     getpid_from_pidfile junk ctx files' = pid \<and>
     getpid_from_pidfile junk ctx (delete_pidfile ctx files') = - 1"
proof -
  assume "create_pidfile pid True ctx files = (0, ctx\<lparr>ctx_pid := pid\<rparr>, files')"
  then have f: "files' = files(ctx_pidfile ctx := Some (pidfile_text pid))"
    by (simp add: create_pidfile_def)
  have "nat pid < 10 ^ 10" using assms by (simp add: nat_less_iff)
  then have "length (show_int pid) \<le> 10"
    using assms show_nat_length[of "nat pid" 10] by (simp add: show_int_def)
  then have "pidfile_text pid = show_int pid @ [NL]" "length (show_int pid @ [NL]) \<le> 64"
    by (simp_all add: pidfile_text_def)
  then show ?thesis
    using atoi_nl[OF assms]
    by (simp add: f getpid_from_pidfile_def pid_of_contents_def delete_pidfile_def)
qed

theorem pidfile_roundtrip_witness:
  "getpid_from_pidfile ''junk'' main_ctx_zero (Map.empty(ctx_pidfile main_ctx_zero := Some (''4711'' @ [NL]))) = 4711"
proof -
  have "pidfile_text 4711 = ''4711'' @ [NL]" by code_simp
  then have "create_pidfile 4711 True main_ctx_zero Map.empty =
      (0, main_ctx_zero\<lparr>ctx_pid := 4711\<rparr>, Map.empty(ctx_pidfile main_ctx_zero := Some (''4711'' @ [NL])))"
    by (simp add: create_pidfile_def)
  then show ?thesis
    using pidfile_roundtrip[of 4711 main_ctx_zero Map.empty "Map.empty(ctx_pidfile main_ctx_zero := Some (''4711'' @ [NL]))" "''junk''"]
    by simp
qed

section \<open>Words and environment\<close>

lemma words_len_eq: "words_len ws = sum_list (map (\<lambda>w. length w + 1) ws)"
proof -
  have "fold (\<lambda>w n. n + (length w + 1)) ws k = k + sum_list (map (\<lambda>w. length w + 1) ws)" for k
    by (induction ws arbitrary: k) simp_all
  then show ?thesis by (simp add: words_len_def)
qed

lemma cmdline_buf_eq: "cmdline_buf ws = concat (map (\<lambda>w. w @ '' '') ws)"
proof -
  have "fold (\<lambda>w buf. buf @ w @ '' '') ws k = k @ concat (map (\<lambda>w. w @ '' '') ws)" for k
    by (induction ws arbitrary: k) simp_all
  then show ?thesis by (simp add: cmdline_buf_def)
qed

lemma cmdline_join:
  "ws \<noteq> [] \<Longrightarrow> concat (map (\<lambda>w. w @ '' '') ws) = join_with (CHR '' '') ws @ '' ''"
proof (induction ws)
  case (Cons w ws)
  then show ?case by (cases "ws = []") (simp_all add: join_with_Cons)
qed simp

lemma c_str_nul: "no_nul s \<Longrightarrow> c_str (s @ [NUL]) = s"
  by (induction s) (simp_all add: c_str_def)

lemma cmdline_of_eq:
  assumes "ws \<noteq> []" "\<forall>w \<in> set ws. no_nul w"
  shows "cmdline_of ws = join_with (CHR '' '') ws"
proof -
  let ?j = "join_with (CHR '' '') ws"
  have "length (concat (map (\<lambda>w. w @ '' '') ws)) = words_len ws"
    by (simp add: words_len_eq length_concat comp_def)
  then have "words_len ws - 1 = length ?j" using cmdline_join[OF assms(1)] by simp
  moreover have "no_nul ?j"
    using assms(2) set_join_with[of "CHR '' ''" ws] by (auto simp: no_nul_def)
  ultimately show ?thesis
    using assms(1) by (simp add: cmdline_of_def cmdline_buf_eq cmdline_join list_update_append c_str_nul)
qed

text \<open>
  The context keeps the command line as the words joined with blanks, and the environment
  as a map: for entries \<open>name=value\<close> whose names contain no \<open>=\<close>, \<open>get_env\<close> answers the value of
  the last entry of that name, \<open>=\<close> signs in the value included.  \<open>setproctitle\<close> stays within
  the words and the environment.
\<close>

theorem context_words:
  assumes "argv \<noteq> []" "\<forall>w \<in> set argv. no_nul w" "\<forall>(k, v) \<in> set env. CHR ''='' \<notin> set k"
    "main_ctx_init run_dir pid pidfile_pid alive argv (map (\<lambda>(k, v). k @ ''='' @ v) env)
       (ctx\<lparr>ctx_env_kv := []\<rparr>) = Some ctx'"
  shows "ctx_cmdline ctx' = join_with (CHR '' '') argv \<and>
     get_env ctx' key = map_of (rev env) key \<and>
     (length block = ctx_arg_len ctx' + ctx_env_len ctx' \<longrightarrow>
        length (setproctitle ctx' title block) = length block \<and>
        last (setproctitle ctx' title block) = last block)"
proof -
  have c: "ctx_cmdline ctx' = cmdline_of argv" "ctx_arg_len ctx' = words_len argv"
    "ctx_env_kv ctx' = parse_env (map (\<lambda>(k, v). k @ ''='' @ v) env) []"
    using assms(1,4) by (auto simp: main_ctx_init_def Let_def split: list.splits)
  have put: "parse_env1 (k @ ''='' @ v) kvs = kv_put k v kvs" if "CHR ''='' \<notin> set k" for k v kvs
  proof -
    have "find_idx (\<lambda>c. c = CHR ''='') (k @ CHR ''='' # v) = Some (length k)"
      using that by (intro find_idx_app_first) auto
    then show ?thesis by (simp add: parse_env1_def)
  qed
  have "kv_get key (parse_env (map (\<lambda>(k, v). k @ ''='' @ v) es) kvs) =
      (case map_of (rev es) key of Some v \<Rightarrow> Some v | None \<Rightarrow> kv_get key kvs)"
    if "\<forall>(k, v) \<in> set es. CHR ''='' \<notin> set k" for es kvs
    using that
  proof (induction es arbitrary: kvs)
    case (Cons e es)
    obtain k v where "e = (k, v)" by (cases e)
    then show ?case using Cons put[of k v kvs] by (auto simp: parse_env_def map_add_def split: option.splits)
  qed (simp add: parse_env_def)
  from this[OF assms(3), of "[]"] have "get_env ctx' key = map_of (rev env) key"
    by (simp add: get_env_def c split: option.splits)
  moreover have "words_len argv \<noteq> 0" using assms(1) by (cases argv) (simp_all add: words_len_eq)
  then have "length (setproctitle ctx' title block) = length block \<and>
      last (setproctitle ctx' title block) = last block"
    if "length block = ctx_arg_len ctx' + ctx_env_len ctx'"
    using that c(2) by (cases block rule: rev_cases) (auto simp: setproctitle_def Let_def min_def)
  ultimately show ?thesis using c(1) cmdline_of_eq[OF assms(1,2)] by simp
qed

theorem context_words_witness:
  "\<exists>main_ctx_zero'. main_ctx_init ''/opt'' 7 (\<lambda>_. - 1) (\<lambda>_. False) [''/opt/bin/hv'', ''-d''] [''A=1'', ''B=x=y'', ''A=2'']
     (main_ctx_zero\<lparr>ctx_env_kv := []\<rparr>) = Some main_ctx_zero' \<and> ctx_cmdline main_ctx_zero' = ''/opt/bin/hv -d'' \<and>
     get_env main_ctx_zero' ''A'' = Some ''2'' \<and> get_env main_ctx_zero' ''B'' = Some ''x=y''"
proof -
  let ?argv = "[''/opt/bin/hv'', ''-d'']" and ?env = "[(''A'', ''1''), (''B'', ''x=y''), (''A'', ''2'')]"
  have n: "strncpy_text (hv_basename ''/opt/bin/hv'') MAX_PATH = Some ''hv''" by code_simp
  obtain main_ctx_zero' where c: "main_ctx_init ''/opt'' 7 (\<lambda>_. - 1) (\<lambda>_. False) ?argv
      (map (\<lambda>(k, v). k @ ''='' @ v) ?env) (main_ctx_zero\<lparr>ctx_env_kv := []\<rparr>) = Some main_ctx_zero'"
    by (simp add: main_ctx_init_def n Let_def)
  have h: "?argv \<noteq> []" "\<forall>w \<in> set ?argv. no_nul w" "\<forall>(k, v) \<in> set ?env. CHR ''='' \<notin> set k" by simp_all
  show ?thesis
    using context_words[OF h c, of "''A''"] context_words[OF h c, of "''B''"] c by (intro exI[of _ main_ctx_zero']) simp
qed

end
