(* ===== verification/ListH.thy ===== *)
theory ListH
  imports Prelude
begin

text \<open>
  \<open>base/list.h\<close>: circular doubly linked lists threaded through the objects they hold.  The
  memory is two maps, the \<open>next\<close> and \<open>prev\<close> fields of every node; a node is its address.
  Every operation is the sequence of field writes of the code.
\<close>

section \<open>Nodes and operations\<close>

record 'a list_mem =
  nxt :: "'a \<Rightarrow> 'a"
  prv :: "'a \<Rightarrow> 'a"

definition set_next :: "'a \<Rightarrow> 'a \<Rightarrow> 'a list_mem \<Rightarrow> 'a list_mem" where
  "set_next p v m = m\<lparr>nxt := (nxt m)(p := v)\<rparr>"

definition set_prev :: "'a \<Rightarrow> 'a \<Rightarrow> 'a list_mem \<Rightarrow> 'a list_mem" where
  "set_prev p v m = m\<lparr>prv := (prv m)(p := v)\<rparr>"

definition list_init :: "'a \<Rightarrow> 'a list_mem \<Rightarrow> 'a list_mem" where
  "list_init l m = set_prev l l (set_next l l m)"

definition list_add_between :: "'a \<Rightarrow> 'a \<Rightarrow> 'a \<Rightarrow> 'a list_mem \<Rightarrow> 'a list_mem" where
  "list_add_between n prev nextp m =
     set_next prev n (set_prev n prev (set_next n nextp (set_prev nextp n m)))"

definition list_add :: "'a \<Rightarrow> 'a \<Rightarrow> 'a list_mem \<Rightarrow> 'a list_mem" where
  "list_add n head m = list_add_between n head (nxt m head) m"

definition list_add_tail :: "'a \<Rightarrow> 'a \<Rightarrow> 'a list_mem \<Rightarrow> 'a list_mem" where
  "list_add_tail n head m = list_add_between n (prv m head) head m"

definition list_del_between :: "'a \<Rightarrow> 'a \<Rightarrow> 'a list_mem \<Rightarrow> 'a list_mem" where
  "list_del_between prev nextp m = set_next prev nextp (set_prev nextp prev m)"

definition list_del :: "'a \<Rightarrow> 'a list_mem \<Rightarrow> 'a list_mem" where
  "list_del entry m = list_del_between (prv m entry) (nxt m entry) m"

definition list_replace :: "'a \<Rightarrow> 'a \<Rightarrow> 'a list_mem \<Rightarrow> 'a list_mem" where
  "list_replace old n m =
     (let m = set_next n (nxt m old) m;
          m = set_prev (nxt m n) n m;
          m = set_prev n (prv m old) m
      in set_next (prv m n) n m)"

definition list_replace_init :: "'a \<Rightarrow> 'a \<Rightarrow> 'a list_mem \<Rightarrow> 'a list_mem" where
  "list_replace_init old n m = list_init old (list_replace old n m)"

definition list_del_init :: "'a \<Rightarrow> 'a list_mem \<Rightarrow> 'a list_mem" where
  "list_del_init entry m = list_init entry (list_del entry m)"

definition list_move :: "'a \<Rightarrow> 'a \<Rightarrow> 'a list_mem \<Rightarrow> 'a list_mem" where
  "list_move l head m = list_add l head (list_del l m)"

definition list_move_tail :: "'a \<Rightarrow> 'a \<Rightarrow> 'a list_mem \<Rightarrow> 'a list_mem" where
  "list_move_tail l head m = list_add_tail l head (list_del l m)"

definition list_is_last :: "'a \<Rightarrow> 'a \<Rightarrow> 'a list_mem \<Rightarrow> bool" where
  "list_is_last l head m \<longleftrightarrow> nxt m l = head"

definition list_empty :: "'a \<Rightarrow> 'a list_mem \<Rightarrow> bool" where
  "list_empty head m \<longleftrightarrow> nxt m head = head"

definition list_empty_careful :: "'a \<Rightarrow> 'a list_mem \<Rightarrow> bool" where
  "list_empty_careful head m \<longleftrightarrow> (let n = nxt m head in n = head \<and> n = prv m head)"

definition list_rotate_left :: "'a \<Rightarrow> 'a list_mem \<Rightarrow> 'a list_mem" where
  "list_rotate_left head m =
     (if \<not> list_empty head m then list_move_tail (nxt m head) head m else m)"

definition list_is_singular :: "'a \<Rightarrow> 'a list_mem \<Rightarrow> bool" where
  "list_is_singular head m \<longleftrightarrow> \<not> list_empty head m \<and> nxt m head = prv m head"

definition list_cut_at :: "'a \<Rightarrow> 'a \<Rightarrow> 'a \<Rightarrow> 'a list_mem \<Rightarrow> 'a list_mem" where
  "list_cut_at l head entry m =
     (let new_first = nxt m entry;
          m = set_next l (nxt m head) m;
          m = set_prev (nxt m l) l m;
          m = set_prev l entry m;
          m = set_next entry l m;
          m = set_next head new_first m
      in set_prev new_first head m)"

definition list_cut_position :: "'a \<Rightarrow> 'a \<Rightarrow> 'a \<Rightarrow> 'a list_mem \<Rightarrow> 'a list_mem" where
  "list_cut_position l head entry m =
     (if list_empty head m then m
      else if list_is_singular head m \<and> nxt m head \<noteq> entry \<and> head \<noteq> entry then m
      else if entry = head then list_init l m
      else list_cut_at l head entry m)"

definition list_splice_between :: "'a \<Rightarrow> 'a \<Rightarrow> 'a \<Rightarrow> 'a list_mem \<Rightarrow> 'a list_mem" where
  "list_splice_between l prev nextp m =
     (let first = nxt m l; last = prv m l
      in set_prev nextp last (set_next last nextp (set_next prev first (set_prev first prev m))))"

definition list_splice :: "'a \<Rightarrow> 'a \<Rightarrow> 'a list_mem \<Rightarrow> 'a list_mem" where
  "list_splice l head m =
     (if \<not> list_empty l m then list_splice_between l head (nxt m head) m else m)"

definition list_splice_tail :: "'a \<Rightarrow> 'a \<Rightarrow> 'a list_mem \<Rightarrow> 'a list_mem" where
  "list_splice_tail l head m =
     (if \<not> list_empty l m then list_splice_between l (prv m head) head m else m)"

definition list_splice_init :: "'a \<Rightarrow> 'a \<Rightarrow> 'a list_mem \<Rightarrow> 'a list_mem" where
  "list_splice_init l head m =
     (if \<not> list_empty l m then list_init l (list_splice_between l head (nxt m head) m) else m)"

definition list_splice_tail_init :: "'a \<Rightarrow> 'a \<Rightarrow> 'a list_mem \<Rightarrow> 'a list_mem" where
  "list_splice_tail_init l head m =
     (if \<not> list_empty l m then list_init l (list_splice_between l (prv m head) head m) else m)"

text \<open>
  The loop of \<open>list_for_each\<close> and of \<open>list_for_each_prev\<close>, as the nodes the body sees; the fuel
  bounds the turns, and running out of it is \<open>None\<close>.
\<close>

fun for_each_from :: "('a \<Rightarrow> 'a) \<Rightarrow> 'a \<Rightarrow> nat \<Rightarrow> 'a \<Rightarrow> 'a list option" where
  "for_each_from step head fuel pos =
     (if pos = head then Some []
      else case fuel of
             0 \<Rightarrow> None
           | Suc k \<Rightarrow> map_option ((#) pos) (for_each_from step head k (step pos)))"

declare for_each_from.simps [simp del]

definition list_for_each :: "nat \<Rightarrow> 'a \<Rightarrow> 'a list_mem \<Rightarrow> 'a list option" where
  "list_for_each fuel head m = for_each_from (nxt m) head fuel (nxt m head)"

definition list_for_each_prev :: "nat \<Rightarrow> 'a \<Rightarrow> 'a list_mem \<Rightarrow> 'a list option" where
  "list_for_each_prev fuel head m = for_each_from (prv m) head fuel (prv m head)"

section \<open>The list a head stands for\<close>

text \<open>\<open>seg m x ys z\<close>: from \<open>x\<close> the links lead through \<open>ys\<close> to \<open>z\<close>, and back.\<close>

fun seg :: "'a list_mem \<Rightarrow> 'a \<Rightarrow> 'a list \<Rightarrow> 'a \<Rightarrow> bool" where
  "seg m x [] z \<longleftrightarrow> nxt m x = z \<and> prv m z = x"
| "seg m x (y # ys) z \<longleftrightarrow> nxt m x = y \<and> prv m y = x \<and> seg m y ys z"

definition is_list :: "'a list_mem \<Rightarrow> 'a \<Rightarrow> 'a list \<Rightarrow> bool" where
  "is_list m h xs \<longleftrightarrow> seg m h xs h \<and> distinct (h # xs)"

lemma seg_append: "seg m x (ys @ y # zs) z \<longleftrightarrow> seg m x ys y \<and> seg m y zs z"
  by (induction ys arbitrary: x) auto

lemma mem_upd_simps [simp]:
  "nxt (set_next p v m) q = (if q = p then v else nxt m q)" "prv (set_next p v m) = prv m"
  "prv (set_prev p v m) q = (if q = p then v else prv m q)" "nxt (set_prev p v m) = nxt m"
  by (simp_all add: set_next_def set_prev_def)

lemma seg_set_next: "p \<noteq> x \<Longrightarrow> p \<notin> set ys \<Longrightarrow> seg (set_next p v m) x ys z \<longleftrightarrow> seg m x ys z"
  by (induction ys arbitrary: x) auto

lemma seg_set_prev: "p \<noteq> z \<Longrightarrow> p \<notin> set ys \<Longrightarrow> seg (set_prev p v m) x ys z \<longleftrightarrow> seg m x ys z"
  by (induction ys arbitrary: x) auto

lemmas seg_frame = seg_set_next seg_set_prev

lemma seg_fst: "seg m x ys z \<Longrightarrow> nxt m x = hd (ys @ [z])"
  by (cases ys) auto

lemma seg_lst: "seg m x ys z \<Longrightarrow> prv m z = last (x # ys)"
  by (induction ys arbitrary: x) auto

lemma is_list_init: "is_list (list_init h m) h []"
  by (simp add: is_list_def list_init_def)

lemma seg_insert:
  assumes "seg m x (ys @ zs) z" "n \<notin> insert x (insert z (set (ys @ zs)))"
    "distinct (ys @ zs)" "x \<notin> set (ys @ zs)" "z \<notin> set (ys @ zs)"
  shows "seg (list_add_between n (last (x # ys)) (hd (zs @ [z])) m) x (ys @ n # zs) z"
  using assms
proof (induction ys arbitrary: x)
  case Nil
  show ?case
  proof (cases zs)
    case Nil
    with Nil.prems show ?thesis by (auto simp: list_add_between_def)
  next
    case (Cons y zs')
    with Nil.prems show ?thesis by (auto simp: list_add_between_def seg_frame)
  qed
next
  case (Cons y ys)
  have IH: "seg (list_add_between n (last (y # ys)) (hd (zs @ [z])) m) y (ys @ n # zs) z"
    using Cons.prems by (intro Cons.IH) auto
  have "last (y # ys) \<noteq> x" "hd (zs @ [z]) \<noteq> y" "n \<noteq> x" "n \<noteq> y"
    using Cons.prems last_in_set[of "y # ys"] by (cases zs; auto)+
  then show ?case using IH Cons.prems by (simp add: list_add_between_def)
qed

lemma is_list_add: "is_list m h xs \<Longrightarrow> n \<noteq> h \<Longrightarrow> n \<notin> set xs \<Longrightarrow> is_list (list_add n h m) h (n # xs)"
  using seg_insert[of m h "[]" xs h n] seg_fst[of m h xs h] by (auto simp: is_list_def list_add_def)

lemma is_list_add_tail:
  "is_list m h xs \<Longrightarrow> n \<noteq> h \<Longrightarrow> n \<notin> set xs \<Longrightarrow> is_list (list_add_tail n h m) h (xs @ [n])"
  using seg_insert[of m h xs "[]" h n] seg_lst[of m h xs h] by (auto simp: is_list_def list_add_tail_def)

lemma seg_cross:
  assumes "seg m x (ys @ n # zs) z" "distinct (ys @ n # zs)" "x \<notin> set (ys @ n # zs)"
    "z \<notin> set (ys @ n # zs)"
  shows "seg (list_del_between (last (x # ys)) (hd (zs @ [z])) m) x (ys @ zs) z"
  using assms
proof (induction ys arbitrary: x)
  case Nil
  show ?case
  proof (cases zs)
    case Nil
    with Nil.prems show ?thesis by (auto simp: list_del_between_def)
  next
    case (Cons y zs')
    with Nil.prems show ?thesis by (auto simp: list_del_between_def seg_frame)
  qed
next
  case (Cons y ys)
  have IH: "seg (list_del_between (last (y # ys)) (hd (zs @ [z])) m) y (ys @ zs) z"
    using Cons.prems by (intro Cons.IH) auto
  have "last (y # ys) \<noteq> x" "hd (zs @ [z]) \<noteq> y"
    using Cons.prems last_in_set[of "y # ys"] by (cases zs; auto)+
  then show ?case using IH Cons.prems by (simp add: list_del_between_def)
qed

lemma seg_neighbours:
  "seg m x (ys @ n # zs) z \<Longrightarrow> prv m n = last (x # ys) \<and> nxt m n = hd (zs @ [z])"
  using seg_lst[of m x ys n] seg_fst[of m n zs z] by (auto simp: seg_append)

lemma is_list_del:
  assumes "is_list m h (ys @ n # zs)"
  shows "is_list (list_del n m) h (ys @ zs)"
  using assms seg_cross[of m h ys n zs h] seg_neighbours[of m h ys n zs h]
  by (auto simp: is_list_def list_del_def)

lemma is_list_del_remove1: "is_list m h xs \<Longrightarrow> n \<in> set xs \<Longrightarrow> is_list (list_del n m) h (remove1 n xs)"
proof -
  assume a: "is_list m h xs" "n \<in> set xs"
  then obtain ys zs where xs: "xs = ys @ n # zs" "n \<notin> set ys" by (meson split_list_first)
  with a is_list_del[of m h ys n zs] show ?thesis by (simp add: remove1_append)
qed

lemma list_empty_iff: "is_list m h xs \<Longrightarrow> list_empty h m \<longleftrightarrow> xs = []"
  by (cases xs) (auto simp: is_list_def list_empty_def)

lemma for_each_seg:
  "seg m x ys h \<Longrightarrow> h \<notin> set ys \<Longrightarrow> length ys \<le> fuel \<Longrightarrow> for_each_from (nxt m) h fuel (nxt m x) = Some ys"
proof (induction ys arbitrary: x fuel)
  case Nil
  then show ?case by (simp add: for_each_from.simps)
next
  case (Cons y ys)
  then obtain k where "fuel = Suc k" by (cases fuel) auto
  with Cons show ?case by (subst for_each_from.simps) auto
qed

lemma for_each_prev_seg:
  "seg m h ys z \<Longrightarrow> h \<notin> set ys \<Longrightarrow> length ys \<le> fuel \<Longrightarrow>
   for_each_from (prv m) h fuel (prv m z) = Some (rev ys)"
proof (induction ys arbitrary: z fuel rule: rev_induct)
  case Nil
  then show ?case by (simp add: for_each_from.simps)
next
  case (snoc y ys)
  then obtain k where "fuel = Suc k" by (cases fuel) auto
  with snoc show ?case by (subst for_each_from.simps) (auto simp: seg_append)
qed

lemma list_for_each_list: "is_list m h xs \<Longrightarrow> length xs \<le> fuel \<Longrightarrow> list_for_each fuel h m = Some xs"
  by (simp add: is_list_def list_for_each_def for_each_seg)

lemma list_for_each_prev_list:
  "is_list m h xs \<Longrightarrow> length xs \<le> fuel \<Longrightarrow> list_for_each_prev fuel h m = Some (rev xs)"
  by (simp add: is_list_def list_for_each_prev_def for_each_prev_seg)

lemma is_list_move:
  assumes "is_list m h xs" "n \<in> set xs"
  shows "is_list (list_move n h m) h (n # remove1 n xs)"
  using is_list_add[OF is_list_del_remove1[OF assms], of n] assms
  by (auto simp: list_move_def is_list_def)

lemma is_list_move_tail:
  assumes "is_list m h xs" "n \<in> set xs"
  shows "is_list (list_move_tail n h m) h (remove1 n xs @ [n])"
  using is_list_add_tail[OF is_list_del_remove1[OF assms], of n] assms
  by (auto simp: list_move_tail_def is_list_def)

lemma is_list_rotate:
  assumes "is_list m h xs"
  shows "is_list (list_rotate_left h m) h (rotate1 xs)"
proof (cases xs)
  case Nil
  with assms show ?thesis by (simp add: list_rotate_left_def list_empty_iff)
next
  case (Cons x ys)
  then have "nxt m h = x" using assms by (simp add: is_list_def)
  moreover have "\<not> list_empty h m" using assms Cons by (simp add: list_empty_iff)
  ultimately show ?thesis
    using is_list_move_tail[OF assms, of x] Cons by (simp add: list_rotate_left_def)
qed

text \<open>An element taken out stays outside; one taken out and initialised is an empty list itself.\<close>

lemma seg_cong:
  "(\<And>p. p \<in> insert x (set ys) \<Longrightarrow> nxt m' p = nxt m p) \<Longrightarrow>
   (\<And>p. p \<in> insert z (set ys) \<Longrightarrow> prv m' p = prv m p) \<Longrightarrow> seg m' x ys z = seg m x ys z"
  by (induction ys arbitrary: x) auto

lemma is_list_frame:
  "is_list m h xs \<Longrightarrow> p \<notin> insert h (set xs) \<Longrightarrow>
   is_list (set_next p v m) h xs \<and> is_list (set_prev p v m) h xs"
  by (auto simp: is_list_def seg_frame)

lemma is_list_init_frame: "is_list m h xs \<Longrightarrow> p \<notin> insert h (set xs) \<Longrightarrow> is_list (list_init p m) h xs"
  by (simp add: list_init_def is_list_frame)

lemma is_list_replace:
  assumes "is_list m h (ys @ old # zs)" "n \<notin> insert h (set (ys @ old # zs))"
  shows "is_list (list_replace old n m) h (ys @ n # zs)"
proof -
  let ?p = "last (h # ys)" and ?q = "hd (zs @ [h])" and ?m = "list_replace old n m"
  have nb: "prv m old = ?p" "nxt m old = ?q"
    using seg_neighbours[of m h ys old zs h] assms(1) by (auto simp: is_list_def)
  have d: "distinct (h # ys @ old # zs)" using assms(1) by (simp add: is_list_def)
  have p: "?p \<in> insert h (set ys)" "?q \<in> insert h (set zs)"
    by (cases zs; simp)+
  then have ne: "?p \<noteq> n" "?q \<noteq> n" "?p \<noteq> old" "?q \<noteq> old" using assms(2) d by auto
  have fld: "nxt ?m = (nxt m)(n := ?q, ?p := n)" "prv ?m = (prv m)(?q := n, n := ?p)"
    using ne nb by (auto simp: list_replace_def Let_def fun_eq_iff)
  have s: "seg m h ys old" "seg m old zs h" using assms(1) by (auto simp: is_list_def seg_append)
  have 1: "seg ?m h ys n"
  proof (cases ys rule: rev_cases)
    case Nil
    then show ?thesis using ne by (simp add: fld)
  next
    case (snoc ys' y)
    then have "seg m h ys' y" using s(1) by (simp add: seg_append)
    moreover have "seg ?m h ys' y = seg m h ys' y"
      using snoc d assms(2) p(2) by (intro seg_cong) (auto simp: fld)
    ultimately show ?thesis using snoc ne by (simp add: seg_append fld)
  qed
  have 2: "seg ?m n zs h"
  proof (cases zs)
    case Nil
    then show ?thesis using ne by (simp add: fld)
  next
    case (Cons z zs')
    then have "seg m z zs' h" using s(2) by simp
    moreover have "seg ?m z zs' h = seg m z zs' h"
      using Cons d assms(2) p(1) by (intro seg_cong) (auto simp: fld)
    ultimately show ?thesis using Cons ne by (simp add: fld)
  qed
  from 1 2 show ?thesis using assms(2) d by (auto simp: is_list_def seg_append)
qed

lemma list_splice_seg:
  assumes "is_list m h (as @ bs)" "is_list m l xs" "xs \<noteq> []" "set (h # as @ bs) \<inter> set (l # xs) = {}"
  shows "is_list (list_splice_between l (last (h # as)) (hd (bs @ [h])) m) h (as @ xs @ bs)"
proof -
  define p where "p = last (h # as)"
  define q where "q = hd (bs @ [h])"
  define m' where "m' = list_splice_between l p q m"
  obtain f g where xs: "hd xs = f" "last xs = g" by blast
  have fl: "nxt m l = f" "prv m l = g"
    using assms(2,3) seg_fst[of m l xs l] seg_lst[of m l xs l] xs by (auto simp: is_list_def hd_append)
  have d: "distinct (h # as @ bs)" "distinct (l # xs)" using assms(1,2) by (simp_all add: is_list_def)
  have pq: "p \<in> insert h (set as)" "q \<in> insert h (set bs)" by (cases bs; simp add: p_def q_def)+
  have fg: "f \<in> set xs" "g \<in> set xs" using assms(3) xs by auto
  have ne: "f \<noteq> q" "g \<noteq> p" "p \<noteq> g" "q \<noteq> f" using pq fg assms(4) by auto
  have fld: "nxt m' = (nxt m)(p := f, g := q)" "prv m' = (prv m)(f := p, q := g)"
    by (auto simp: m'_def list_splice_between_def Let_def fl fun_eq_iff)
  obtain ys where ys: "xs = f # ys" using assms(3) xs by (cases xs) auto
  have segx: "seg m f ys l" using assms(2) ys by (simp add: is_list_def)
  have 1: "seg m' h as f"
  proof (cases as rule: rev_cases)
    case Nil
    then show ?thesis using ne by (simp add: fld p_def)
  next
    case (snoc as' a)
    then have pa: "p = a" by (simp add: p_def)
    have "seg m h as' a" using snoc assms(1) by (simp add: is_list_def seg_append)
    moreover have "seg m' h as' a = seg m h as' a"
      using snoc d assms(4) pq(2) fg pa by (intro seg_cong) (auto simp: fld)
    ultimately show ?thesis using snoc ne by (simp add: seg_append fld p_def)
  qed
  have 2: "seg m' g bs h"
  proof (cases bs)
    case Nil
    then show ?thesis using ne by (simp add: fld q_def)
  next
    case (Cons b bs')
    then have qb: "q = b" by (simp add: q_def)
    have "seg m b bs' h" using Cons assms(1) by (simp add: is_list_def seg_append)
    moreover have "seg m' b bs' h = seg m b bs' h"
      using Cons d assms(4) pq(1) fg qb by (intro seg_cong) (auto simp: fld)
    ultimately show ?thesis using Cons ne by (simp add: fld q_def)
  qed
  have 3: "seg m' f (butlast ys) g \<or> ys = [] \<and> f = g"
  proof (cases ys rule: rev_cases)
    case Nil
    with ys xs show ?thesis by simp
  next
    case (snoc ys' y)
    then have y: "y = g" "seg m f ys' g" using ys xs segx by (auto simp: seg_append)
    moreover have "seg m' f ys' g = seg m f ys' g"
      using snoc ys y d(2) assms(4) pq by (intro seg_cong) (auto simp: fld)
    ultimately show ?thesis using snoc by simp
  qed
  have "seg m' h (as @ xs @ bs) h"
  proof (cases ys rule: rev_cases)
    case Nil
    then have "xs = [f]" "f = g" using ys xs by simp_all
    then show ?thesis using 1 2 by (simp add: seg_append)
  next
    case (snoc ys' y)
    then have "y = g" using ys xs by simp
    then show ?thesis using 1 2 3 ys snoc by (simp add: seg_append)
  qed
  then show ?thesis using assms(4) d by (auto simp: is_list_def m'_def p_def q_def)
qed

lemma is_list_splice:
  assumes "is_list m h ys" "is_list m l xs" "set (h # ys) \<inter> set (l # xs) = {}"
  shows "is_list (list_splice l h m) h (xs @ ys) \<and> is_list (list_splice_tail l h m) h (ys @ xs)"
proof (cases "xs = []")
  case True
  with assms show ?thesis by (simp add: list_splice_def list_splice_tail_def list_empty_iff)
next
  case False
  then show ?thesis
    using list_splice_seg[of m h "[]" ys l xs] list_splice_seg[of m h ys "[]" l xs] assms
      seg_fst[of m h ys h] seg_lst[of m h ys h]
    by (simp add: list_splice_def list_splice_tail_def list_empty_iff is_list_def)
qed

lemma is_list_splice_init:
  assumes "is_list m h ys" "is_list m l xs" "set (h # ys) \<inter> set (l # xs) = {}"
  shows "is_list (list_splice_init l h m) h (xs @ ys) \<and> is_list (list_splice_init l h m) l [] \<and>
    is_list (list_splice_tail_init l h m) h (ys @ xs) \<and> is_list (list_splice_tail_init l h m) l []"
proof (cases "xs = []")
  case True
  with assms show ?thesis by (simp add: list_splice_init_def list_splice_tail_init_def list_empty_iff)
next
  case False
  have "l \<notin> insert h (set (xs @ ys))" "l \<notin> insert h (set (ys @ xs))"
    using assms by (auto simp: is_list_def)
  then show ?thesis
    using is_list_splice[OF assms] is_list_init_frame[of _ h _ l] False assms(2)
    by (simp add: is_list_init list_splice_def list_splice_tail_def list_splice_init_def list_splice_tail_init_def
        list_empty_iff)
qed

section \<open>The interface its clients rely on\<close>

text \<open>
  What the users of the lists (the client table of the server, the timers and pending events)
  rely on: a representation relation, the empty list, adding, removing and walking.
\<close>

locale intrusive_list =
  fixes repr :: "'m \<Rightarrow> 'a \<Rightarrow> 'a list \<Rightarrow> bool"
    and init :: "'a \<Rightarrow> 'm \<Rightarrow> 'm"
    and add :: "'a \<Rightarrow> 'a \<Rightarrow> 'm \<Rightarrow> 'm"
    and del :: "'a \<Rightarrow> 'm \<Rightarrow> 'm"
    and each :: "nat \<Rightarrow> 'a \<Rightarrow> 'm \<Rightarrow> 'a list option"
  assumes repr_init: "repr (init h m) h []"
    and repr_add: "repr m h xs \<Longrightarrow> n \<notin> insert h (set xs) \<Longrightarrow> repr (add n h m) h (n # xs)"
    and repr_del: "repr m h xs \<Longrightarrow> n \<in> set xs \<Longrightarrow> repr (del n m) h (remove1 n xs)"
    and repr_each: "repr m h xs \<Longrightarrow> length xs \<le> fuel \<Longrightarrow> each fuel h m = Some xs"
    and repr_distinct: "repr m h xs \<Longrightarrow> distinct xs"
begin

text \<open>A table whose members join and leave: adding what is not in it, deleting what is.\<close>

lemma each_unique: "repr m h xs \<Longrightarrow> repr m h ys \<Longrightarrow> xs = ys"
  using repr_each[of m h xs "length xs + length ys"] repr_each[of m h ys "length xs + length ys"] by simp

lemma add_del:
  "repr m h xs \<Longrightarrow> n \<notin> insert h (set xs) \<Longrightarrow> repr (del n (add n h m)) h xs"
  using repr_del[OF repr_add, of m h xs n n] by simp

lemma del_gone: "repr m h xs \<Longrightarrow> n \<in> set xs \<Longrightarrow> repr (del n m) h ys \<Longrightarrow> set ys = set xs - {n}"
proof -
  assume r: "repr m h xs" "n \<in> set xs" "repr (del n m) h ys"
  have "ys = remove1 n xs" using each_unique[OF r(3) repr_del[OF r(1,2)]] .
  with repr_distinct[OF r(1)] show ?thesis by simp
qed

end

lemma is_list_distinct: "is_list m h xs \<Longrightarrow> distinct xs"
  by (simp add: is_list_def)

interpretation dlist: intrusive_list is_list list_init list_add list_del list_for_each
  by unfold_locales (simp_all add: is_list_init is_list_add is_list_del_remove1 list_for_each_list
      is_list_distinct)

section \<open>Refinement\<close>

datatype 'a list_op =
    Add 'a | Add_tail 'a | Del 'a | Move 'a | Move_tail 'a | Rotate | Replace 'a 'a | Replace_init 'a 'a | Del_init 'a

fun run_op :: "'a \<Rightarrow> 'a list_op \<Rightarrow> 'a list_mem \<Rightarrow> 'a list_mem" where
  "run_op h (Add n) m = list_add n h m"
| "run_op h (Add_tail n) m = list_add_tail n h m"
| "run_op h (Del n) m = list_del n m"
| "run_op h (Move n) m = list_move n h m"
| "run_op h (Move_tail n) m = list_move_tail n h m"
| "run_op h Rotate m = list_rotate_left h m"
| "run_op h (Replace a b) m = list_replace a b m"
| "run_op h (Replace_init a b) m = list_replace_init a b m"
| "run_op h (Del_init n) m = list_del_init n m"

fun spec_op :: "'a list_op \<Rightarrow> 'a list \<Rightarrow> 'a list" where
  "spec_op (Add n) xs = n # xs"
| "spec_op (Add_tail n) xs = xs @ [n]"
| "spec_op (Del n) xs = remove1 n xs"
| "spec_op (Move n) xs = n # remove1 n xs"
| "spec_op (Move_tail n) xs = remove1 n xs @ [n]"
| "spec_op Rotate xs = rotate1 xs"
| "spec_op (Replace a b) xs = map (\<lambda>x. if x = a then b else x) xs"
| "spec_op (Replace_init a b) xs = map (\<lambda>x. if x = a then b else x) xs"
| "spec_op (Del_init n) xs = remove1 n xs"

fun op_ok :: "'a \<Rightarrow> 'a list_op \<Rightarrow> 'a list \<Rightarrow> bool" where
  "op_ok h (Add n) xs \<longleftrightarrow> n \<noteq> h \<and> n \<notin> set xs"
| "op_ok h (Add_tail n) xs \<longleftrightarrow> n \<noteq> h \<and> n \<notin> set xs"
| "op_ok h (Del n) xs \<longleftrightarrow> n \<in> set xs"
| "op_ok h (Move n) xs \<longleftrightarrow> n \<in> set xs"
| "op_ok h (Move_tail n) xs \<longleftrightarrow> n \<in> set xs"
| "op_ok h Rotate xs \<longleftrightarrow> True"
| "op_ok h (Replace a b) xs \<longleftrightarrow> a \<in> set xs \<and> b \<noteq> h \<and> b \<notin> set xs"
| "op_ok h (Replace_init a b) xs \<longleftrightarrow> a \<in> set xs \<and> b \<noteq> h \<and> b \<notin> set xs"
| "op_ok h (Del_init n) xs \<longleftrightarrow> n \<in> set xs"

fun ops_ok :: "'a \<Rightarrow> 'a list_op list \<Rightarrow> 'a list \<Rightarrow> bool" where
  "ops_ok h [] xs = True"
| "ops_ok h (c # cs) xs = (op_ok h c xs \<and> ops_ok h cs (spec_op c xs))"

lemma is_list_replace_map:
  assumes "is_list m h xs" "a \<in> set xs" "b \<notin> insert h (set xs)"
  shows "is_list (list_replace a b m) h (map (\<lambda>x. if x = a then b else x) xs)"
proof -
  obtain ys zs where xs: "xs = ys @ a # zs" using assms(2) by (meson split_list)
  then have "a \<notin> set ys" "a \<notin> set zs" using assms(1) by (auto simp: is_list_def)
  then have "map (\<lambda>x. if x = a then b else x) xs = ys @ b # zs"
    by (auto simp: xs intro!: map_idI)
  then show ?thesis using is_list_replace[of m h ys a zs b] assms(1,3) xs by simp
qed

lemma run_op_refines:
  assumes "is_list m h xs" "op_ok h c xs"
  shows "is_list (run_op h c m) h (spec_op c xs)"
proof (cases c)
  case (Replace_init a b)
  have "a \<notin> insert h (set (map (\<lambda>x. if x = a then b else x) xs))"
    using assms Replace_init by (auto simp: is_list_def)
  then show ?thesis
    using Replace_init assms is_list_init_frame[OF is_list_replace_map[OF assms(1)], of a b a]
    by (simp add: list_replace_init_def)
next
  case (Del_init n)
  have "n \<notin> insert h (set (remove1 n xs))" using assms Del_init by (auto simp: is_list_def)
  then show ?thesis
    using Del_init assms is_list_init_frame[OF is_list_del_remove1[OF assms(1)], of n n]
    by (simp add: list_del_init_def)
qed (use assms in \<open>simp_all add: is_list_add is_list_add_tail is_list_del_remove1 is_list_move
      is_list_move_tail is_list_rotate is_list_replace_map\<close>)

lemma run_ops_refine:
  "is_list m h xs \<Longrightarrow> ops_ok h cs xs \<Longrightarrow> is_list (fold (run_op h) cs m) h (fold spec_op cs xs)"
  by (induction cs arbitrary: m xs) (simp_all add: run_op_refines)

text \<open>
  C3.  A list head implements a sequence: from any well-linked list, any sequence of adding at
  either end, deleting, moving, rotating and replacing (of nodes that are, or are not yet, in
  the list, as each operation needs) leaves a well-linked list of exactly the nodes the same
  operations on sequences give; walking forward visits them in order and ends, walking backward
  in reverse; and splicing another list puts its nodes in front or behind, in order.
\<close>

theorem list_refines_sequence:
  assumes "is_list m h xs" "ops_ok h cs xs"
  shows "is_list (fold (run_op h) cs m) h (fold spec_op cs xs) \<and>
     (length (fold spec_op cs xs) \<le> fuel \<longrightarrow>
        list_for_each fuel h (fold (run_op h) cs m) = Some (fold spec_op cs xs) \<and>
        list_for_each_prev fuel h (fold (run_op h) cs m) = Some (rev (fold spec_op cs xs))) \<and>
     (list_empty h (fold (run_op h) cs m) \<longleftrightarrow> fold spec_op cs xs = []) \<and>
     (is_list m l ys \<and> set (h # xs) \<inter> set (l # ys) = {} \<longrightarrow>
        is_list (list_splice_init l h m) h (ys @ xs) \<and> is_list (list_splice_init l h m) l [] \<and>
        is_list (list_splice_tail_init l h m) h (xs @ ys) \<and> is_list (list_splice_tail_init l h m) l [])"
  using run_ops_refine[OF assms] is_list_splice_init[OF assms(1), of l ys]
  by (simp add: list_for_each_list list_for_each_prev_list list_empty_iff)

theorem list_refines_sequence_witness:
  "list_for_each 3 (0::nat) (fold (run_op 0) [Add 1, Add_tail 2, Add 3, Rotate, Del 1, Replace 2 4]
     (list_init 0 \<lparr>nxt = id, prv = id\<rparr>)) = Some [4, 3]"
proof -
  have "is_list (list_init 0 \<lparr>nxt = id, prv = id\<rparr>) (0::nat) []" by (rule is_list_init)
  moreover have "ops_ok 0 [Add 1, Add_tail 2, Add 3, Rotate, Del 1, Replace 2 4] ([] :: nat list)" by simp
  ultimately show ?thesis
    using list_refines_sequence[of "list_init 0 \<lparr>nxt = id, prv = id\<rparr>" "0::nat" "[]"
        "[Add 1, Add_tail 2, Add 3, Rotate, Del 1, Replace 2 4]" 3] by simp
qed

end
