(* ===== verification/Netmt.thy ===== *)
theory Netmt
  imports ListH
begin

text \<open>
  The network management programs of the repository: the server of \<open>Server.c\<close> with its table of
  connected clients, the client of \<open>Client.c\<close>, and the command splitting of
  \<open>source/pubinc/string_ini.h\<close>.  The event loop calls the handlers below with the buffer it has
  read into; that buffer is one block of memory that later reads overwrite from its start.
\<close>

section \<open>string_ini.h\<close>

definition splitstr :: char where "splitstr = CHR '' ''"

text \<open>
  The loop of \<open>strsplit\<close>: \<open>h\<close> is the offset of the last delimiter (or 0), \<open>p\<close> the one of the
  text that is left.  The items are the bytes copied; the code does not terminate them.
\<close>

fun strsplit_loop :: "string \<Rightarrow> char \<Rightarrow> nat \<Rightarrow> string \<Rightarrow> nat \<Rightarrow> string list \<Rightarrow> string list \<times> nat" where
  "strsplit_loop str delim p [] h items = (items, h)"
| "strsplit_loop str delim p (c # cs) h items =
     (if c = delim then
        strsplit_loop str delim (p + 1) cs p
          (items @ [if h = 0 then take (p - h) (drop h str) else take (p - h - 1) (drop (h + 1) str)])
      else strsplit_loop str delim (p + 1) cs h items)"

text \<open>
  For an empty string the last item has the length -1: \<open>malloc\<close> and \<open>memcpy\<close> of that size are
  undefined (\<open>None\<close>).
\<close>

definition strsplit :: "string \<Rightarrow> char \<Rightarrow> string list option" where
  "strsplit str delim =
     (case strsplit_loop str delim 0 str 0 [] of
        (items, h) \<Rightarrow>
          if str = [] then None
          else Some (items @ [take (length str - h - 1) (drop (h + 1) str)]))"

definition commandNum :: "string \<Rightarrow> char \<Rightarrow> nat" where
  "commandNum str delim = fold (\<lambda>c i. if c = delim then i + 1 else i) str 1"

section \<open>The server\<close>

text \<open>
  A client is a node of the list (its address), with the descriptor and the peer address it
  holds; \<open>sv_userdata\<close> is the user data of the connections.  The head of the list has address 0.
\<close>

record server =
  sv_mem :: "nat list_mem"
  sv_fd :: "nat \<Rightarrow> nat"
  sv_addr :: "nat \<Rightarrow> string"
  sv_userdata :: "nat \<Rightarrow> nat option"

datatype action =
    Write nat string
  | ReadStart nat
  | ReadStop nat
  | CloseIo nat
  | StopLoop
  | PrintFDs "(nat \<times> string) list"

definition server_init :: server where
  "server_init = \<lparr>sv_mem = list_init 0 \<lparr>nxt = id, prv = id\<rparr>, sv_fd = \<lambda>_. 0, sv_addr = \<lambda>_. [],
     sv_userdata = \<lambda>_. None\<rparr>"

definition starts_with :: "string \<Rightarrow> string \<Rightarrow> bool" where
  "starts_with pre s \<longleftrightarrow> take (length pre) s = pre"

definition ListFD :: "nat \<Rightarrow> server \<Rightarrow> action list option" where
  "ListFD fuel sv =
     map_option (\<lambda>ns. [PrintFDs (map (\<lambda>n. (sv_fd sv n, sv_addr sv n)) ns)])
       (list_for_each fuel 0 (sv_mem sv))"

definition SendStr :: "nat \<Rightarrow> string \<Rightarrow> server \<Rightarrow> action list option" where
  "SendStr fuel str sv =
     map_option (map (\<lambda>n. Write (sv_fd sv n) (c_str str))) (list_for_each fuel 0 (sv_mem sv))"

definition on_accept :: "nat \<Rightarrow> string \<Rightarrow> nat \<Rightarrow> server \<Rightarrow> server \<times> action list" where
  "on_accept fd addr conn sv =
     (sv\<lparr>sv_fd := (sv_fd sv)(conn := fd), sv_addr := (sv_addr sv)(conn := addr),
         sv_userdata := (sv_userdata sv)(fd := Some conn), sv_mem := list_add conn 0 (sv_mem sv)\<rparr>,
      [ReadStart fd])"

definition on_close :: "nat \<Rightarrow> server \<Rightarrow> server" where
  "on_close fd sv =
     (case sv_userdata sv fd of
        None \<Rightarrow> sv
      | Some client \<Rightarrow>
          sv\<lparr>sv_userdata := (sv_userdata sv)(fd := None), sv_mem := list_del client (sv_mem sv)\<rparr>)"

text \<open>
  Rewriting the end of line in place; \<open>None\<close> when that writes behind the buffer.
\<close>

definition crlf_fix :: "string \<Rightarrow> nat \<Rightarrow> (string \<times> nat) option" where
  "crlf_fix buf readbytes =
     (let eol = buf ! (readbytes - 1) in
      if eol = NL \<or> eol = CR then
        if readbytes > 1 \<and> buf ! (readbytes - 2) = CR \<and> eol = NL then Some (buf, readbytes)
        else if readbytes < length buf
             then Some (buf[readbytes - 1 := CR, readbytes := NL], readbytes + 1) else None
      else Some (buf, readbytes))"

definition on_recv :: "nat \<Rightarrow> string \<Rightarrow> nat \<Rightarrow> (string \<times> action list) option" where
  "on_recv fd buf readbytes =
     map_option (\<lambda>(buf, n). (buf, if starts_with ''PING'' buf then [Write fd (''PONG'' @ [CR, NL])] else []))
       (crlf_fix buf readbytes)"

text \<open>
  \<open>on_send\<close>: a command typed on the standard input \<open>io\<close>.  The string functions run to the first
  NUL of the buffer, not to \<open>readbytes\<close>; \<open>junk\<close> is what lies behind the unterminated items.
\<close>

definition on_send ::
    "nat \<Rightarrow> string \<Rightarrow> nat \<Rightarrow> string \<Rightarrow> nat \<Rightarrow> server \<Rightarrow> (string \<times> action list) option" where
  "on_send fuel junk io buf readbytes sv =
     (if NUL \<notin> set buf then None
      else let str = c_str buf; num = commandNum str splitstr in
      Option.bind (strsplit str splitstr) (\<lambda>command.
      if num = 1 then
        if starts_with ''start'' str then Some (buf, [ReadStart io])
        else if starts_with ''stop'' str then Some (buf, [ReadStop io])
        else if starts_with ''close'' str then Some (buf, [CloseIo io])
        else if starts_with ''quit'' str then Some (buf, [StopLoop])
        else if starts_with ''PING'' str then map_option (\<lambda>acts. (buf, acts)) (SendStr fuel str sv)
        else if starts_with ''list'' str then map_option (\<lambda>acts. (buf, acts)) (ListFD fuel sv)
        else Some (buf, [])
      else if num = 2 then
        if starts_with ''send'' (command ! 0 @ junk)
        then map_option (\<lambda>acts. (buf, acts)) (SendStr fuel (command ! 1 @ junk) sv)
        else Some (buf, [])
      else map_option (\<lambda>(buf, n). (buf, [Write io (take n buf)])) (crlf_fix buf readbytes)))"

section \<open>The client\<close>

definition send_heartbeat :: "nat \<Rightarrow> action list" where
  "send_heartbeat io = [Write io (''PING'' @ [CR, NL])]"

definition client_on_recv :: "nat \<Rightarrow> string \<Rightarrow> nat \<Rightarrow> (string \<times> action list) option" where
  "client_on_recv io buf readbytes =
     map_option (\<lambda>(buf, n). (buf, if starts_with ''PING'' buf then [Write io (''PONG'' @ [CR, NL])] else []))
       (crlf_fix buf readbytes)"

definition client_on_stdin :: "nat \<Rightarrow> string \<Rightarrow> nat \<Rightarrow> (string \<times> action list) option" where
  "client_on_stdin sockio buf readbytes =
     (if NUL \<notin> set buf then None
      else let str = c_str buf in
      if commandNum str splitstr = 1 \<and> starts_with ''start'' str then Some (buf, [ReadStart sockio])
      else if commandNum str splitstr = 1 \<and> starts_with ''stop'' str then Some (buf, [ReadStop sockio])
      else if commandNum str splitstr = 1 \<and> starts_with ''close'' str then Some (buf, [CloseIo sockio])
      else if commandNum str splitstr = 1 \<and> starts_with ''quit'' str then Some (buf, [StopLoop])
      else map_option (\<lambda>(buf, n). (buf, [Write sockio (take n buf)])) (crlf_fix buf readbytes))"

text \<open>
  The arguments of \<open>main\<close>: the code, or protocol, host and port; reading past the end of \<open>argv\<close>
  (the null pointer given to \<open>atoi\<close>) is undefined.
\<close>

definition client_args :: "string list \<Rightarrow> (int + (nat \<times> string \<times> int)) option" where
  "client_args argv =
     (if length argv < 3 then Some (Inl (- 10))
      else let dash = argv ! 1 \<noteq> [] \<and> hd (argv ! 1) = CHR ''-'';
               index = (if dash then 2 else 1);
               protocol = (if dash \<and> tl (argv ! 1) \<noteq> [] \<and> argv ! 1 ! 1 = CHR ''u'' then 2 else 1)
           in if index + 1 < length argv
              then Some (Inr (protocol, argv ! index, atoi (argv ! (index + 1)))) else None)"

section \<open>Splitting commands\<close>

lemma commandNum_count: "commandNum str delim = 1 + length (filter (\<lambda>c. c = delim) str)"
proof -
  have "fold (\<lambda>c i. if c = delim then i + 1 else i) str k = k + length (filter (\<lambda>c. c = delim) str)" for k
    by (induction str arbitrary: k) auto
  then show ?thesis by (simp add: commandNum_def)
qed

lemma strsplit_loop_word:
  "delim \<notin> set w \<Longrightarrow>
   strsplit_loop str delim p (w @ cs) h items = strsplit_loop str delim (p + length w) cs h items"
  by (induction w arbitrary: p) auto

lemma strsplit_loop_words:
  assumes "ws \<noteq> []" "\<forall>w \<in> set ws. delim \<notin> set w" "h \<noteq> 0"
    "str = pre @ delim # join_with delim ws" "h = length pre"
  shows "strsplit_loop str delim (h + 1) (join_with delim ws) h items =
           (items @ butlast ws, length str - length (last ws) - 1)"
  using assms
proof (induction ws arbitrary: h pre items)
  case (Cons w ws)
  show ?case
  proof (cases "ws = []")
    case True
    with Cons.prems show ?thesis using strsplit_loop_word[of delim w str "h + 1" "[]"] by simp
  next
    case False
    let ?pre = "pre @ delim # w"
    have str: "str = ?pre @ delim # join_with delim ws"
      using Cons.prems False by (simp add: join_with_Cons)
    have "strsplit_loop str delim (h + 1) (join_with delim (w # ws)) h items =
        strsplit_loop str delim (h + 1 + length w) (delim # join_with delim ws) h items"
      using Cons.prems False strsplit_loop_word[of delim w str "h + 1"] by (simp add: join_with_Cons)
    also have "\<dots> = strsplit_loop str delim (length ?pre + 1) (join_with delim ws) (length ?pre) (items @ [w])"
      using Cons.prems False by (simp add: join_with_Cons)
    also have "\<dots> = ((items @ [w]) @ butlast ws, length str - length (last ws) - 1)"
      using Cons.prems(2) False str by (intro Cons.IH) auto
    finally show ?thesis using False by simp
  qed
qed simp

lemma filter_none: "d \<notin> set v \<Longrightarrow> filter (\<lambda>c. c = d) v = []"
  by (induction v) auto

text \<open>
  \<open>strsplit\<close> takes a line apart at the delimiters: for two or more words without the
  delimiter, the first one not empty, it gives exactly the words, and \<open>commandNum\<close> counts them.
  A line of one word loses its first character, and an empty line is undefined behaviour.
\<close>

theorem strsplit_words:
  assumes "\<forall>w \<in> set ws. delim \<notin> set w" "ws \<noteq> []" "w \<noteq> []" "delim \<notin> set w"
  shows "strsplit (join_with delim (w # ws)) delim = Some (w # ws) \<and>
     commandNum (join_with delim (w # ws)) delim = length (w # ws) \<and>
     strsplit w delim = Some [tl w] \<and> strsplit [] delim = None"
proof (intro conjI)
  let ?str = "join_with delim (w # ws)"
  have str: "?str = w @ delim # join_with delim ws" using assms by (simp add: join_with_Cons)
  have "strsplit_loop ?str delim 0 ?str 0 [] =
      strsplit_loop ?str delim (length w + 1) (join_with delim ws) (length w) [w]"
    using assms strsplit_loop_word[of delim w ?str 0 "delim # join_with delim ws" 0 "[]"]
    by (simp add: join_with_Cons)
  also have "\<dots> = ([w] @ butlast ws, length ?str - length (last ws) - 1)"
    using assms str by (intro strsplit_loop_words) auto
  finally have loop: "strsplit_loop ?str delim 0 ?str 0 [] =
      (w # butlast ws, length ?str - length (last ws) - 1)" by simp
  obtain pre where pre: "?str = pre @ delim # last ws"
  proof (cases "butlast ws = []")
    case True
    then have "ws = [last ws]" using assms(2) append_butlast_last_id[of ws] by simp
    then have "?str = w @ delim # last ws" using str by (metis join_with.simps(2))
    then show thesis by (rule that)
  next
    case False
    have "ws = butlast ws @ [last ws]" using assms(2) by simp
    then have "join_with delim ws = join_with delim (butlast ws) @ delim # last ws"
      using False join_with_append[of "butlast ws" "[last ws]" delim] by (metis join_with.simps(2) list.discI)
    then show thesis using that[of "w @ delim # join_with delim (butlast ws)"] str by simp
  qed
  have "length ?str - length (last ws) - 1 = length pre" by (subst pre) simp
  moreover have "take (length ?str - length pre - 1) (drop (length pre + 1) ?str) = last ws"
    by (subst pre, subst pre) simp
  moreover have "?str \<noteq> []" using pre by simp
  ultimately show "strsplit ?str delim = Some (w # ws)"
    using loop assms(2) by (simp add: strsplit_def)
  have "length (filter (\<lambda>c. c = delim) (join_with delim vs)) = length vs - 1"
    if "\<forall>v \<in> set vs. delim \<notin> set v" for vs
    using that by (induction delim vs rule: join_with.induct) (simp_all add: filter_none)
  from this[of "w # ws"] show "commandNum ?str delim = length (w # ws)"
    using assms by (simp add: commandNum_count)
  show "strsplit w delim = Some [tl w]"
    using assms strsplit_loop_word[of delim w w 0 "[]" 0 "[]"] by (cases w) (simp_all add: strsplit_def)
  show "strsplit [] delim = None" by (simp add: strsplit_def)
qed

theorem strsplit_words_witness:
  "strsplit ''send a b'' splitstr = Some [''send'', ''a'', ''b''] \<and> strsplit ''list'' splitstr = Some [''ist'']"
  using strsplit_words[of "[''a'', ''b'']" splitstr "''send''"]
    strsplit_words[of "[''a'', ''b'']" splitstr "''list''"] by (simp add: splitstr_def)

section \<open>The table of clients\<close>

text \<open>
  What can happen to the server; the event loop accepts only descriptors that are not open, and
  the allocator gives nodes that are not in use.
\<close>

datatype event = Accept nat string nat | Close nat

fun handle :: "event \<Rightarrow> server \<Rightarrow> server" where
  "handle (Accept fd addr conn) sv = fst (on_accept fd addr conn sv)"
| "handle (Close fd) sv = on_close fd sv"

text \<open>The open connections, latest first.\<close>

fun connected :: "event \<Rightarrow> (nat \<times> string) list \<Rightarrow> (nat \<times> string) list" where
  "connected (Accept fd addr conn) cs = (fd, addr) # cs"
| "connected (Close fd) cs = filter (\<lambda>c. fst c \<noteq> fd) cs"

definition event_ok :: "event \<Rightarrow> server \<Rightarrow> bool" where
  "event_ok e sv = (case e of
     Accept fd addr conn \<Rightarrow> conn \<noteq> 0 \<and> sv_userdata sv fd = None \<and> (\<forall>f. sv_userdata sv f \<noteq> Some conn)
   | Close fd \<Rightarrow> True)"

fun events_ok :: "event list \<Rightarrow> server \<Rightarrow> bool" where
  "events_ok [] sv = True"
| "events_ok (e # es) sv = (event_ok e sv \<and> events_ok es (handle e sv))"

definition table_inv :: "server \<Rightarrow> (nat \<times> string) list \<Rightarrow> bool" where
  "table_inv sv cs \<longleftrightarrow> (\<exists>ns. is_list (sv_mem sv) 0 ns \<and>
     map (\<lambda>n. (sv_fd sv n, sv_addr sv n)) ns = cs \<and>
     (\<forall>fd n. sv_userdata sv fd = Some n \<longleftrightarrow> n \<in> set ns \<and> sv_fd sv n = fd) \<and> inj_on (sv_fd sv) (set ns))"

lemma table_init: "table_inv server_init []"
  unfolding table_inv_def by (rule exI[of _ "[]"]) (simp add: server_init_def dlist.repr_init)

lemma table_accept:
  assumes "table_inv sv cs" "event_ok (Accept fd addr conn) sv"
  shows "table_inv (fst (on_accept fd addr conn sv)) ((fd, addr) # cs)"
proof -
  obtain ns where ns: "is_list (sv_mem sv) 0 ns" "map (\<lambda>n. (sv_fd sv n, sv_addr sv n)) ns = cs"
    "\<forall>fd n. sv_userdata sv fd = Some n \<longleftrightarrow> n \<in> set ns \<and> sv_fd sv n = fd" "inj_on (sv_fd sv) (set ns)"
    using assms(1) unfolding table_inv_def by blast
  have u: "sv_userdata sv (sv_fd sv n) = Some n" if "n \<in> set ns" for n using ns(3) that by blast
  have fresh: "conn \<notin> insert 0 (set ns)" "\<forall>n \<in> set ns. sv_fd sv n \<noteq> fd"
    using assms(2) u by (auto simp: event_ok_def)
  have "is_list (list_add conn 0 (sv_mem sv)) 0 (conn # ns)"
    using ns(1) fresh(1) by (rule dlist.repr_add)
  moreover have "map (\<lambda>n. (((sv_fd sv)(conn := fd)) n, ((sv_addr sv)(conn := addr)) n)) ns = cs"
    using ns(2) fresh(1) by auto
  moreover have "inj_on ((sv_fd sv)(conn := fd)) (set (conn # ns))"
    using ns(4) fresh by (auto simp: inj_on_def)
  ultimately show ?thesis
    unfolding table_inv_def on_accept_def
    by (intro exI[of _ "conn # ns"]) (use ns(3) fresh in auto)
qed

lemma table_close:
  assumes "table_inv sv cs"
  shows "table_inv (on_close fd sv) (filter (\<lambda>c. fst c \<noteq> fd) cs)"
proof -
  obtain ns where ns: "is_list (sv_mem sv) 0 ns" "map (\<lambda>n. (sv_fd sv n, sv_addr sv n)) ns = cs"
    "\<forall>fd n. sv_userdata sv fd = Some n \<longleftrightarrow> n \<in> set ns \<and> sv_fd sv n = fd" "inj_on (sv_fd sv) (set ns)"
    using assms unfolding table_inv_def by blast
  show ?thesis
  proof (cases "sv_userdata sv fd")
    case None
    have "sv_userdata sv (sv_fd sv n) = Some n" if "n \<in> set ns" for n using ns(3) that by blast
    with None have "\<forall>n \<in> set ns. sv_fd sv n \<noteq> fd" by auto
    then have "filter (\<lambda>c. fst c \<noteq> fd) cs = cs" using ns(2) by (auto simp: filter_id_conv)
    with None assms show ?thesis by (simp add: on_close_def)
  next
    case (Some n)
    then have n: "n \<in> set ns" "sv_fd sv n = fd" using ns(3) by auto
    have d: "distinct ns" using ns(1) by (rule dlist.repr_distinct)
    have "remove1 n ns = filter (\<lambda>k. sv_fd sv k \<noteq> fd) ns"
      using n ns(4) d unfolding distinct_remove1_removeAll[OF d] removeAll_filter_not_eq
      by (intro filter_cong) (auto simp: inj_on_def)
    then have "map (\<lambda>n. (sv_fd sv n, sv_addr sv n)) (remove1 n ns) = filter (\<lambda>c. fst c \<noteq> fd) cs"
      by (simp add: ns(2)[symmetric] filter_map comp_def)
    moreover have "is_list (list_del n (sv_mem sv)) 0 (remove1 n ns)"
      using ns(1) n(1) by (rule dlist.repr_del)
    moreover have "inj_on (sv_fd sv) (set (remove1 n ns))"
      using ns(4) by (meson inj_on_subset set_remove1_subset)
    moreover have "set (remove1 n ns) = set ns - {n}" using d by simp
    ultimately show ?thesis
      unfolding table_inv_def on_close_def Some option.case
      by (intro exI[of _ "remove1 n ns"]) (use ns(3,4) n in \<open>auto simp: inj_on_def\<close>)
  qed
qed

lemma table_events:
  "table_inv sv cs \<Longrightarrow> events_ok es sv \<Longrightarrow> table_inv (fold handle es sv) (fold connected es cs)"
proof (induction es arbitrary: sv cs)
  case (Cons e es)
  then have "table_inv (handle e sv) (connected e cs)"
    by (cases e) (auto intro: table_accept table_close)
  with Cons show ?case by simp
qed simp

text \<open>
  C25.  The client table: after any sequence of connections and disconnections the linked list of
  the server holds exactly the open connections, latest first; \<open>list\<close> prints them, and \<open>PING\<close>
  (or any text given to \<open>SendStr\<close>) is written once to each of them and to nobody else.
\<close>

theorem server_table:
  assumes "events_ok es server_init" "length (fold connected es []) \<le> fuel"
  shows "ListFD fuel (fold handle es server_init) = Some [PrintFDs (fold connected es [])] \<and>
     SendStr fuel str (fold handle es server_init) =
       Some (map (\<lambda>c. Write (fst c) (c_str str)) (fold connected es [])) \<and>
     distinct (map fst (fold connected es []))"
proof -
  let ?sv = "fold handle es server_init" and ?cs = "fold connected es []"
  obtain ns where ns: "is_list (sv_mem ?sv) 0 ns" "map (\<lambda>n. (sv_fd ?sv n, sv_addr ?sv n)) ns = ?cs"
    "inj_on (sv_fd ?sv) (set ns)"
    using table_events[OF table_init assms(1)] unfolding table_inv_def by blast
  have "list_for_each fuel 0 (sv_mem ?sv) = Some ns"
    using assms(2) by (intro dlist.repr_each[OF ns(1)]) (simp add: ns(2)[symmetric])
  moreover have "map fst ?cs = map (sv_fd ?sv) ns" by (simp add: ns(2)[symmetric])
  then have "distinct (map fst ?cs)"
    using dlist.repr_distinct[OF ns(1)] ns(3) by (simp add: distinct_map)
  ultimately show ?thesis
    unfolding ListFD_def SendStr_def by (simp add: ns(2)[symmetric] comp_def)
qed

theorem server_table_witness:
  "SendStr 5 ''PING'' (fold handle [Accept 7 ''a'' 1, Accept 8 ''b'' 2, Close 7, Accept 7 ''c'' 1] server_init) =
     Some [Write 7 ''PING'', Write 8 ''PING'']"
proof -
  have "events_ok [Accept 7 ''a'' 1, Accept 8 ''b'' 2, Close 7, Accept 7 ''c'' 1] server_init"
    by (auto simp: event_ok_def on_accept_def on_close_def server_init_def)
  from server_table[OF this, of 5 "''PING''"] show ?thesis by simp
qed

section \<open>The exchange of messages\<close>

definition read_into :: "string \<Rightarrow> string \<Rightarrow> string" where
  "read_into buf data = data @ drop (length data) buf"

lemma crlf_fix_room:
  "0 < n \<Longrightarrow> n < length buf \<Longrightarrow> \<exists>buf' n'. crlf_fix buf n = Some (buf', n')"
  by (simp add: crlf_fix_def Let_def)

text \<open>
  C26.  End-of-line repair and keep-alive: with room for one more byte, the repaired message is
  the one that was read with its final \<open>\n\<close> or \<open>\r\<close> turned into \<open>\r\n\<close>; a message that fills
  the buffer and ends in a bare \<open>\n\<close> is written past its end.  A \<open>PING\<close> is answered by one
  \<open>PONG\<close> to its sender, on both sides, and a \<open>PONG\<close> by nothing, so the exchange ends.
\<close>

theorem message_exchange:
  assumes "data \<noteq> []" "length data < length buf"
  shows "crlf_fix (read_into buf data) (length data) =
       (if last data \<in> {NL, CR} \<and> \<not> (length data > 1 \<and> data ! (length data - 2) = CR \<and> last data = NL)
        then Some (read_into buf (butlast data @ [CR, NL]), length data + 1)
        else Some (read_into buf data, length data)) \<and>
     (length data = length buf' \<and> last data = NL \<and> (1 < length data \<longrightarrow> data ! (length data - 2) \<noteq> CR) \<longrightarrow>
        crlf_fix (read_into buf' data) (length data) = None) \<and>
     (take 4 data = ''PING'' \<longrightarrow>
        map_option snd (on_recv io (read_into buf data) (length data)) = Some [Write io (''PONG'' @ [CR, NL])] \<and>
        map_option snd (client_on_recv io (read_into buf data) (length data)) = Some [Write io (''PONG'' @ [CR, NL])]) \<and>
     (take 4 data = ''PONG'' \<longrightarrow>
        map_option snd (on_recv io (read_into buf data) (length data)) = Some [] \<and>
        map_option snd (client_on_recv io (read_into buf data) (length data)) = Some [])"
proof -
  let ?n = "length data"
  obtain d x where data: "data = d @ [x]" using assms(1) by (cases data rule: rev_cases) auto
  let ?b = "read_into buf data"
  have len: "length ?b = length buf" using assms(2) by (simp add: read_into_def)
  have last: "?b ! (?n - 1) = last data" by (simp add: read_into_def data nth_append)
  have "?n - 2 < ?n" using assms(1) by (cases data) auto
  then have prev: "?n > 1 \<Longrightarrow> ?b ! (?n - 2) = data ! (?n - 2)" by (simp add: read_into_def nth_append)
  have upd: "?b[?n - 1 := CR, ?n := NL] = read_into buf (butlast data @ [CR, NL])"
  proof -
    obtain y r where r: "drop ?n buf = y # r" using assms(2) by (cases "drop ?n buf") auto
    then have "drop (Suc ?n) buf = r" by (metis drop_Suc list.sel(3) tl_drop)
    then show ?thesis using r by (simp add: read_into_def data list_update_append)
  qed
  have fixed: "crlf_fix ?b ?n =
      (if last data \<in> {NL, CR} \<and> \<not> (?n > 1 \<and> data ! (?n - 2) = CR \<and> last data = NL)
       then Some (read_into buf (butlast data @ [CR, NL]), ?n + 1) else Some (?b, ?n))"
    using assms(2) prev unfolding crlf_fix_def Let_def last upd[symmetric] len by auto
  have t4: "starts_with p (read_into buf (butlast data @ [CR, NL])) \<longleftrightarrow> starts_with p ?b"
    if "take 4 data \<in> {''PING'', ''PONG''}" "length p = 4" "last data \<in> {NL, CR}" for p
  proof -
    have "length (take 4 data) = 4" using that(1) by (elim insertE emptyE; simp del: length_take)
    then have "4 \<le> ?n" by simp
    moreover have "?n \<noteq> 4" using that(1,3) by auto
    ultimately have "4 \<le> length d" by (simp add: data)
    then show ?thesis using that(2) by (simp add: starts_with_def read_into_def data)
  qed
  have s4: "starts_with p ?b \<longleftrightarrow> take 4 data = p" if "take 4 data \<in> {''PING'', ''PONG''}" "length p = 4" for p
  proof -
    have "length (take 4 data) = 4" using that(1) by (elim insertE emptyE; simp del: length_take)
    then have "4 \<le> ?n" by simp
    then show ?thesis using that(2) by (simp add: starts_with_def read_into_def)
  qed
  have reply: "map_option snd (on_recv io ?b ?n) =
        Some (if take 4 data = ''PING'' then [Write io (''PONG'' @ [CR, NL])] else [])"
      "client_on_recv io ?b ?n = on_recv io ?b ?n"
    if "take 4 data \<in> {''PING'', ''PONG''}"
    using s4[OF that, of "''PING''"] t4[OF that, of "''PING''"]
    by (auto simp: on_recv_def client_on_recv_def fixed)
  have full: "crlf_fix (read_into buf' data) ?n = None"
    if "?n = length buf'" "last data = NL" "1 < ?n \<longrightarrow> data ! (?n - 2) \<noteq> CR"
    using that by (cases d rule: rev_cases) (auto simp: crlf_fix_def Let_def read_into_def data nth_append)
  show ?thesis using fixed full reply by auto
qed

theorem message_exchange_witness:
  "map_option snd (on_recv 5 (read_into (replicate 16 NUL) (''PING'' @ [CR, NL])) (length (''PING'' @ [CR, NL]))) =
     Some [Write 5 (''PONG'' @ [CR, NL])]"
  by (rule message_exchange[where buf' = "[]", THEN conjunct2, THEN conjunct2, THEN conjunct1, THEN mp, THEN conjunct1])
    simp_all

lemma strsplit_loop_prefix: "\<exists>r. fst (strsplit_loop str d p cs h items) = items @ r"
proof (induction str d p cs h items rule: strsplit_loop.induct)
  case (2 str delim p c cs h items)
  then show ?case by (cases "c = delim") fastforce+
qed simp

text \<open>
  The command line of the server depends on bytes of earlier input: a one-word command is
  recognised when the buffer behind it is clear, but when what an earlier, longer input left
  there contains one blank before its end, the same command does nothing.
\<close>

theorem server_stale_command:
  assumes "buf = data @ stale" "NUL \<in> set stale" "no_nul data" "CHR '' '' \<notin> set data"
    "data \<noteq> []" "\<not> starts_with ''send'' data" "length data \<ge> 4"
  shows "(hd stale = NUL \<and> starts_with ''list'' data \<and>
            list_for_each fuel 0 (sv_mem sv) = Some ns \<longrightarrow>
          on_send fuel junk io buf (length data) sv =
            Some (buf, [PrintFDs (map (\<lambda>n. (sv_fd sv n, sv_addr sv n)) ns)])) \<and>
     (length (filter (\<lambda>c. c = CHR '' '') (c_str stale)) = 1 \<longrightarrow>
          on_send fuel junk io buf (length data) sv = Some (buf, []))"
proof -
  have str: "c_str buf = data @ c_str stale"
    using assms(1,3) by (induction data arbitrary: buf) (simp_all add: c_str_def)
  have nul: "NUL \<in> set buf" using assms(1,2) by simp
  have num: "commandNum (c_str buf) splitstr = 1 + length (filter (\<lambda>c. c = CHR '' '') (c_str stale))"
    using assms(4) by (simp add: commandNum_count str splitstr_def filter_none)
  have "c_str buf \<noteq> []" using str assms(5) by simp
  then have "strsplit (c_str buf) splitstr \<noteq> None" by (simp add: strsplit_def split: prod.split)
  then obtain items where items: "strsplit (c_str buf) splitstr = Some items" by blast
  have "on_send fuel junk io buf (length data) sv =
      Some (buf, [PrintFDs (map (\<lambda>n. (sv_fd sv n, sv_addr sv n)) ns)])"
    if "hd stale = NUL" "starts_with ''list'' data" "list_for_each fuel 0 (sv_mem sv) = Some ns"
  proof -
    have "c_str stale = []" using that(1) assms(2) by (cases stale) (simp_all add: c_str_def)
    then have "commandNum (c_str buf) splitstr = 1" "c_str buf = data" using num str by simp_all
    moreover have "take 4 data = ''list''" using that(2) by (simp add: starts_with_def numeral_eq_Suc)
    then have "\<not> starts_with ''start'' data \<and> \<not> starts_with ''stop'' data \<and> \<not> starts_with ''close'' data \<and>
        \<not> starts_with ''quit'' data \<and> \<not> starts_with ''PING'' data"
      by (cases data; cases "tl data") (auto simp: starts_with_def)
    ultimately show ?thesis
      using nul items that by (simp add: on_send_def ListFD_def starts_with_def)
  qed
  moreover have "on_send fuel junk io buf (length data) sv = Some (buf, [])"
    if "length (filter (\<lambda>c. c = CHR '' '') (c_str stale)) = 1"
  proof -
    have "CHR '' '' \<in> set (c_str stale)"
      by (rule ccontr) (use that in \<open>simp add: filter_none\<close>)
    then obtain x y where xy: "c_str stale = x @ CHR '' '' # y" "CHR '' '' \<notin> set x"
      by (blast dest: split_list_first)
    have "strsplit_loop (c_str buf) splitstr 0 (c_str buf) 0 [] =
        strsplit_loop (c_str buf) splitstr (length (data @ x)) (CHR '' '' # y) 0 []"
      using strsplit_loop_word[of splitstr "data @ x" "c_str buf" 0 "CHR '' '' # y" 0 "[]"] xy assms(4) str
      by (simp add: splitstr_def)
    also have "\<dots> = strsplit_loop (c_str buf) splitstr (length (data @ x) + 1) y (length (data @ x)) [data @ x]"
      using str xy by (simp add: splitstr_def)
    finally obtain r where "fst (strsplit_loop (c_str buf) splitstr 0 (c_str buf) 0 []) = [data @ x] @ r"
      using strsplit_loop_prefix by metis
    then have "items ! 0 = data @ x"
      using items by (auto simp: strsplit_def split: prod.splits if_splits)
    moreover have "\<not> starts_with ''send'' ((data @ x) @ junk)"
      using assms(6,7) by (simp add: starts_with_def)
    ultimately show ?thesis using nul items num that by (simp add: on_send_def)
  qed
  ultimately show ?thesis by blast
qed

theorem server_stale_command_witness:
  "on_send 9 [] 0 (read_into (read_into (replicate 20 NUL) ''hello world'') ''list'') 4 server_init =
     Some (''listo world'' @ replicate 9 NUL, [])"
proof -
  let ?stale = "''o world'' @ replicate 9 NUL"
  have "c_str ?stale = ''o world''" by code_simp
  then have "on_send 9 [] 0 (''list'' @ ?stale) (length ''list'') server_init = Some (''list'' @ ?stale, [])"
    by (intro server_stale_command[where data = "''list''" and stale = ?stale, THEN conjunct2, THEN mp])
      (simp_all add: starts_with_def)
  then show ?thesis by (simp add: read_into_def numeral_eq_Suc)
qed

end
