(* ===== verification/Order.thy ===== *)
theory Order
  imports HMain IniParser
begin

text \<open>
  \<open>source/netmtServer/order.c\<close> with \<open>order.h\<close> and \<open>cat.h\<close>: the option table of the tool, its
  configuration file, and \<open>order_main\<close>, the sequence from the command line to the workers.  The
  functions \<open>get_option\<close> and \<open>parse_opt_long\<close> of order.c are copies of those of hmain.cpp, which
  \<open>HMain\<close> models.
\<close>

section \<open>Options and configuration\<close>

definition long_options :: "option_t list" where
  "long_options =
     [\<lparr>short_opt = CHR ''h'', long_opt = Some ''help'', opt_arg_type = NO_ARGUMENT\<rparr>,
      \<lparr>short_opt = CHR ''v'', long_opt = Some ''version'', opt_arg_type = NO_ARGUMENT\<rparr>,
      \<lparr>short_opt = CHR ''c'', long_opt = Some ''confile'', opt_arg_type = REQUIRED_ARGUMENT\<rparr>,
      \<lparr>short_opt = CHR ''t'', long_opt = Some ''test'', opt_arg_type = NO_ARGUMENT\<rparr>,
      \<lparr>short_opt = CHR ''s'', long_opt = Some ''signal'', opt_arg_type = REQUIRED_ARGUMENT\<rparr>,
      \<lparr>short_opt = CHR ''d'', long_opt = Some ''daemon'', opt_arg_type = NO_ARGUMENT\<rparr>,
      \<lparr>short_opt = CHR ''p'', long_opt = Some ''port'', opt_arg_type = REQUIRED_ARGUMENT\<rparr>,
      \<lparr>short_opt = CHR ''o'', long_opt = Some ''command'', opt_arg_type = OPTIONAL_ARGUMENT\<rparr>]"

text \<open>The settings that go to the logger, in the order of the calls.\<close>

datatype log_call =
    Log_set_file string
  | Log_set_level_by_str string
  | Log_set_max_filesize_by_str string
  | Log_set_remain_days int
  | Log_enable_fsync bool

record conf_ctx =
  conf_parser :: IniParser
  conf_worker_processes :: int
  conf_worker_threads :: int
  conf_port :: int
  conf_log :: "log_call list"

definition conf_ctx_init :: conf_ctx where
  "conf_ctx_init =
     \<lparr>conf_parser = ini_init, conf_worker_processes = 0, conf_worker_threads = 0, conf_port = 0, conf_log = []\<rparr>"

definition LIMIT :: "int \<Rightarrow> int \<Rightarrow> int \<Rightarrow> int" where
  "LIMIT lower v upper = (if v < lower then lower else if v > upper then upper else v)"

definition MAXNUM_WORKER_PROCESSES :: int where "MAXNUM_WORKER_PROCESSES = 1024"

definition unless_empty :: "string \<Rightarrow> (string \<Rightarrow> log_call) \<Rightarrow> log_call list" where
  "unless_empty str call = (if str \<noteq> [] then [call str] else [])"

definition set_logfile :: "IniParser \<Rightarrow> main_ctx \<Rightarrow> main_ctx option" where
  "set_logfile parser ctx =
     (let str = ini_GetValue parser ''logfile'' []
      in if str \<noteq> [] then map_option (\<lambda>t. ctx\<lparr>ctx_logfile := t\<rparr>) (strncpy_text str MAX_PATH) else Some ctx)"

definition log_calls :: "IniParser \<Rightarrow> main_ctx \<Rightarrow> log_call list" where
  "log_calls parser ctx =
     [Log_set_file (ctx_logfile ctx)] @
     unless_empty (ini_GetValue parser ''loglevel'' []) Log_set_level_by_str @
     unless_empty (ini_GetValue parser ''log_filesize'' []) Log_set_max_filesize_by_str @
     unless_empty (ini_GetValue parser ''log_remain_days'' []) (\<lambda>s. Log_set_remain_days (atoi s)) @
     unless_empty (ini_GetValue parser ''log_fsync'' []) (\<lambda>s. Log_enable_fsync (getboolean (Some s)))"

definition get_worker_processes :: "IniParser \<Rightarrow> int \<Rightarrow> int" where
  "get_worker_processes parser ncpu =
     (let str = ini_GetValue parser ''worker_processes'' []
      in if str \<noteq> [] then if c_str str = ''auto'' then ncpu else atoi str else 0)"

definition get_port :: "IniParser \<Rightarrow> main_ctx \<Rightarrow> int" where
  "get_port parser ctx =
     (let port = (case get_arg ctx ''p'' of Some szPort \<Rightarrow> atoi szPort | None \<Rightarrow> 0)
      in if port = 0 then ini_Get_int parser ''port'' [] 0 else port)"

text \<open>
  \<open>parse_confile\<close>: \<open>Inl\<close> is the argument of \<open>exit\<close>; \<open>None\<close> is an undefined scan or a log file
  name that fills its array.
\<close>

definition parse_confile ::
    "(string \<Rightarrow> string option) \<Rightarrow> int \<Rightarrow> main_ctx \<Rightarrow> conf_ctx \<Rightarrow> string \<Rightarrow> (int + main_ctx \<times> conf_ctx) option" where
  "parse_confile files ncpu ctx conf confile =
     Option.bind (ini_LoadFromFile files (conf_parser conf) confile) (\<lambda>(ret, parser).
       if ret \<noteq> ERR_OK then Some (Inl (- 40))
       else Option.bind (set_logfile parser ctx) (\<lambda>ctx.
         let port = get_port parser ctx in
         Some (if port = 0 then Inl (- 10)
               else Inr (ctx, conf\<lparr>conf_parser := parser,
                 conf_worker_processes := LIMIT 0 (get_worker_processes parser ncpu) MAXNUM_WORKER_PROCESSES,
                 conf_worker_threads := LIMIT 0 (ini_Get_int parser ''worker_threads'' [] 0) 16,
                 conf_port := port, conf_log := conf_log conf @ log_calls parser ctx\<rparr>))))"

definition on_reload ::
    "(string \<Rightarrow> string option) \<Rightarrow> int \<Rightarrow> main_ctx \<Rightarrow> conf_ctx \<Rightarrow> (int + main_ctx \<times> conf_ctx) option" where
  "on_reload files ncpu ctx conf = parse_confile files ncpu ctx conf (ctx_confile ctx)"

section \<open>The commands of -o\<close>

datatype order_cmd = Usage | Ls_dir string

definition ls_dir :: "string list \<Rightarrow> order_cmd" where
  "ls_dir argv = Ls_dir (if length argv > 3 then argv ! 3 else ''.'')"

text \<open>
  With four words or more the code compares the pointer \<open>argv[2]\<close> with the addresses of string
  literals, which no word of the command line has: nothing is run.
\<close>

definition run_command :: "string list \<Rightarrow> order_cmd list" where
  "run_command argv =
     (if length argv < 3 then [Usage] else if length argv = 3 then [ls_dir argv] else [])"

text \<open>The permissions of a line of the listing.\<close>

definition ls_mode :: "nat \<Rightarrow> string" where
  "ls_mode mode =
     map (\<lambda>(b, c). if bit mode b then c else CHR ''-'')
       [(8, CHR ''r''), (7, CHR ''w''), (6, CHR ''x''), (5, CHR ''r''), (4, CHR ''w''), (3, CHR ''x''),
        (2, CHR ''r''), (1, CHR ''w''), (0, CHR ''x'')]"

text \<open>
  \<open>my_cat\<close>: reads of 100 bytes into an array of 100 bytes that \<open>printf\<close> prints up to its
  terminator; a read that fills the array without a NUL has none (\<open>None\<close>).
\<close>

function cat_loop :: "string \<Rightarrow> string option" where
  "cat_loop bytes =
     (if bytes = [] then Some []
      else let buf = take 100 bytes in
        if length buf = 100 \<and> NUL \<notin> set buf then None
        else map_option (\<lambda>out. c_str buf @ out) (cat_loop (drop 100 bytes)))"
  by pat_completeness auto
termination
  by (relation "measure length") simp_all

definition my_cat :: "string option \<Rightarrow> (int \<times> string) option" where
  "my_cat file = (case file of None \<Rightarrow> Some (- 1, []) | Some bytes \<Rightarrow> map_option (Pair 0) (cat_loop bytes))"

section \<open>\<open>order_main\<close>\<close>

text \<open>What the program finds in the system.\<close>

record order_env =
  env_run_dir :: string
  env_getpid :: int
  env_pidfile_pid :: "string \<Rightarrow> int"
  env_alive :: "int \<Rightarrow> bool"
  env_environ :: "string list"
  env_files :: "string \<Rightarrow> string option"
  env_ncpu :: int
  env_daemon :: int
  env_can_open :: bool
  env_now :: int
  env_forks :: "int list"

text \<open>
  How a run ends: an \<open>exit\<close>, the end in \<open>signal_handle\<close> with its actions, or the workers, with the
  commands run, the code and the context of \<open>master_workers_run\<close>, and the configuration.
\<close>

datatype order_outcome =
    Exits int
  | Signalled "sys_action list"
  | Serves "order_cmd list" int main_ctx conf_ctx

definition order_serve :: "order_env \<Rightarrow> string list \<Rightarrow> main_ctx \<Rightarrow> conf_ctx \<Rightarrow> order_outcome" where
  "order_serve env argv ctx conf =
     (if get_arg ctx ''d'' \<noteq> None \<and> env_daemon env \<noteq> 0 then Exits (- 10)
      else
        let cmds = (if get_arg ctx ''o'' \<noteq> None then run_command argv else []);
            (_, ctx, _) = create_pidfile (env_getpid env) (env_can_open env) ctx (env_files env);
            (code, ctx, _) = master_workers_run (env_getpid env) (env_now env) (env_forks env)
              (conf_worker_processes conf) (conf_worker_threads conf) True ctx
        in Serves cmds code ctx conf)"

definition set_confile :: "main_ctx \<Rightarrow> main_ctx option" where
  "set_confile ctx =
     (case get_arg ctx ''c'' of
        Some confile \<Rightarrow> map_option (\<lambda>t. ctx\<lparr>ctx_confile := t\<rparr>) (strncpy_text confile MAX_PATH)
      | None \<Rightarrow> Some ctx)"

definition order_configured :: "order_env \<Rightarrow> string list \<Rightarrow> main_ctx \<Rightarrow> conf_ctx \<Rightarrow> order_outcome" where
  "order_configured env argv ctx conf =
     (if get_arg ctx ''t'' \<noteq> None then Exits 0
      else
        let ctx = ctx\<lparr>ctx_reload_fn := True\<rparr>;
            acts = (case get_arg ctx ''s'' of Some cmd \<Rightarrow> signal_handle ctx cmd | None \<Rightarrow> [])
        in if Exit \<in> set acts then Signalled acts else order_serve env argv ctx conf)"

definition order_configure :: "order_env \<Rightarrow> string list \<Rightarrow> main_ctx \<Rightarrow> order_outcome option" where
  "order_configure env argv ctx =
     Option.bind (set_confile ctx) (\<lambda>ctx.
       map_option (case_sum Exits (\<lambda>(ctx, conf). order_configured env argv ctx conf))
         (parse_confile (env_files env) (env_ncpu env) ctx conf_ctx_init (ctx_confile ctx)))"

definition order_main :: "order_env \<Rightarrow> string list \<Rightarrow> main_ctx \<Rightarrow> order_outcome option" where
  "order_main env argv ctx =
     Option.bind (main_ctx_init (env_run_dir env) (env_getpid env) (env_pidfile_pid env) (env_alive env)
                    argv (env_environ env) ctx) (\<lambda>ctx.
       if length argv = 1 then Some (Exits 10)
       else Option.bind (parse_opt_long argv long_options ctx) (\<lambda>(ret, ctx).
         if ret \<noteq> 0 then Some (Exits ret)
         else if get_arg ctx ''h'' \<noteq> None then Some (Exits 0)
         else if get_arg ctx ''v'' \<noteq> None then Some (Exits 0)
         else order_configure env argv ctx))"

section \<open>What a run can come to\<close>

lemma find_long_mem: "find_long opt os = Some (Some p) \<Longrightarrow> p \<in> set os"
  by (induction opt os rule: find_long.induct) (auto split: option.splits if_splits)

lemma get_option_mem: "get_option opt os = Some (Some p) \<Longrightarrow> p \<in> set os"
  by (auto simp: get_option_def find_Some_iff dest: find_long_mem split: if_splits)

text \<open>No option of the table stores a value under \<open>o\<close>: the only one that could has none.\<close>

lemma opt_store_no_o:
  assumes "p \<in> set long_options" "opt_value p ty arg delim rest = Inr (val, rest')"
    "opt_store p val kvs = Some kvs'" "kv_get ''o'' kvs = None"
  shows "kv_get ''o'' kvs' = None"
  using assms by (auto simp: long_options_def opt_store_def opt_value_def)

lemma parse_long_step_keeps:
  assumes "parse_long_step long_options a rest ctx = Some r" "get_arg ctx ''o'' = None"
  shows "(case r of Inl (err, ctx') \<Rightarrow> err \<in> {- 10, - 20} | Inr (ctx', rest') \<Rightarrow> get_arg ctx' ''o'' = None)"
proof -
  obtain ty arg where s: "strip_prefix a = (ty, arg)" by (cases "strip_prefix a")
  show ?thesis
  proof (cases "opt_name ty arg")
    case None
    with assms s show ?thesis by (auto simp: parse_long_step_def)
  next
    case (Some nd)
    obtain opt delim where nd: "nd = (opt, delim)" by (cases nd)
    consider (none) "get_option opt long_options = Some None"
      | (opt) p where "get_option opt long_options = Some (Some p)"
      using assms(1) s Some nd by (auto simp: parse_long_step_def split: option.splits)
    then show ?thesis
    proof cases
      case none
      with assms s Some nd show ?thesis
        by (auto simp: parse_long_step_def get_arg_def split: if_splits)
    next
      case (opt p)
      have err: "opt_value p ty arg delim rest = Inl e \<Longrightarrow> e = - 20" for e
        by (auto simp: opt_value_def split: arg_type.splits option.splits list.splits if_splits)
      show ?thesis
        using assms s Some nd opt err opt_store_no_o[OF get_option_mem[OF opt]]
        by (auto simp: parse_long_step_def get_arg_def split: sum.splits)
    qed
  qed
qed

lemma parse_opt_long_keeps:
  assumes "parse_opt_long argv long_options ctx = Some (ret, ctx')" "get_arg ctx ''o'' = None"
  shows "get_arg ctx' ''o'' = None \<or> ret \<noteq> 0" "ret \<in> {0, - 10, - 20}"
proof -
  have "(get_arg ctx' ''o'' = None \<or> ret \<noteq> 0) \<and> ret \<in> {0, - 10, - 20}"
    if "parse_long_args long_options args ctx = Some (ret, ctx')" "get_arg ctx ''o'' = None" for args
    using that
  proof (induction "length args" arbitrary: args ctx rule: less_induct)
    case less
    show ?case
    proof (cases args)
      case (Cons a rest)
      then obtain r where r: "parse_long_step long_options a rest ctx = Some r"
        using less.prems by (auto split: option.splits)
      note keeps = parse_long_step_keeps[OF r less.prems(2)]
      show ?thesis
      proof (cases r)
        case (Inl e)
        with r keeps less.prems Cons show ?thesis by auto
      next
        case (Inr c)
        obtain ctx1 rest1 where c: "c = (ctx1, rest1)" by (cases c)
        have "length rest1 < length args" using parse_long_step_shorter r Inr c Cons by fastforce
        then show ?thesis using less.hyps[of rest1 ctx1] r keeps less.prems Cons Inr c by simp
      qed
    qed (use less.prems in auto)
  qed
  then show "get_arg ctx' ''o'' = None \<or> ret \<noteq> 0" "ret \<in> {0, - 10, - 20}"
    using assms by (auto simp: parse_opt_long_def)
qed

lemma LIMIT_range: "lower \<le> upper \<Longrightarrow> lower \<le> LIMIT lower v upper \<and> LIMIT lower v upper \<le> upper"
  by (simp add: LIMIT_def)

text \<open>What a configuration that was read is like.\<close>

definition conf_ok :: "main_ctx \<Rightarrow> conf_ctx \<Rightarrow> bool" where
  "conf_ok ctx conf \<longleftrightarrow>
     0 \<le> conf_worker_processes conf \<and> conf_worker_processes conf \<le> 1024 \<and>
     0 \<le> conf_worker_threads conf \<and> conf_worker_threads conf \<le> 16 \<and> conf_port conf \<noteq> 0 \<and>
     (case get_arg ctx ''p'' of
        Some p \<Rightarrow> conf_port conf = (if atoi p \<noteq> 0 then atoi p else ini_Get_int (conf_parser conf) ''port'' [] 0)
      | None \<Rightarrow> conf_port conf = ini_Get_int (conf_parser conf) ''port'' [] 0)"

lemma set_logfile_keeps:
  assumes "set_logfile parser ctx = Some ctx'"
  shows "ctx_arg_kv ctx' = ctx_arg_kv ctx" "ctx_confile ctx' = ctx_confile ctx"
    "ctx_logfile ctx2 = ctx_logfile ctx' \<Longrightarrow> set_logfile parser ctx2 = Some ctx2"
  using assms by (auto simp: set_logfile_def Let_def split: if_splits)

lemma parse_confile_Inr:
  assumes "parse_confile files ncpu ctx conf f = Some (Inr (ctx', conf'))"
  obtains p where "ini_LoadFromFile files (conf_parser conf) f = Some (ERR_OK, p)"
    "set_logfile p ctx = Some ctx'" "get_port p ctx' \<noteq> 0"
    "conf' = conf\<lparr>conf_parser := p,
       conf_worker_processes := LIMIT 0 (get_worker_processes p ncpu) MAXNUM_WORKER_PROCESSES,
       conf_worker_threads := LIMIT 0 (ini_Get_int p ''worker_threads'' [] 0) 16,
       conf_port := get_port p ctx', conf_log := conf_log conf @ log_calls p ctx'\<rparr>"
  using assms by (auto simp: parse_confile_def Let_def bind_eq_Some_conv split: if_splits)

lemma parse_confile_ok:
  assumes "parse_confile files ncpu ctx conf f = Some (Inr (ctx', conf'))"
  shows "conf_ok ctx' conf'" "ctx_arg_kv ctx' = ctx_arg_kv ctx" "ctx_confile ctx' = ctx_confile ctx"
  using assms
  by (auto elim!: parse_confile_Inr dest: set_logfile_keeps
      simp: conf_ok_def LIMIT_range MAXNUM_WORKER_PROCESSES_def get_port_def Let_def split: option.splits)

lemma parse_confile_exit:
  "parse_confile files ncpu ctx conf confile = Some (Inl c) \<Longrightarrow> c \<in> {- 40, - 10}"
  by (auto simp: parse_confile_def Let_def bind_eq_Some_conv split: if_splits)

lemma load_again:
  assumes "ini_LoadFromFile files self f = Some (ERR_OK, p)"
  shows "ini_LoadFromFile files p f = Some (ERR_OK, p)"
proof -
  obtain str where "files f = Some str" "ini_LoadFromMem (self\<lparr>ini_filepath := c_str f\<rparr>) str = Some p"
    using assms by (auto simp: ini_LoadFromFile_def Let_def split: option.splits)
  moreover from this obtain st where
      "ini_lines (ini_comment self) (ini_delim self) (getlines (c_str str)) scan_start = Some st"
      "p = self\<lparr>ini_filepath := c_str f, ini_root := Some (scan_end st)\<rparr>"
    by (auto simp: ini_LoadFromMem_def)
  ultimately show ?thesis by (simp add: ini_LoadFromFile_def ini_LoadFromMem_def)
qed

lemma parse_confile_again:
  assumes first: "parse_confile files ncpu ctx conf f = Some (Inr (ctx', conf'))"
    and same: "ctx_arg_kv ctx2 = ctx_arg_kv ctx'" "ctx_logfile ctx2 = ctx_logfile ctx'"
  shows "parse_confile files ncpu ctx2 conf' f =
    Some (Inr (ctx2, conf'\<lparr>conf_log := conf_log conf' @ drop (length (conf_log conf)) (conf_log conf')\<rparr>))"
  using first
proof (rule parse_confile_Inr)
  fix p
  assume p: "ini_LoadFromFile files (conf_parser conf) f = Some (ERR_OK, p)" "set_logfile p ctx = Some ctx'"
    "get_port p ctx' \<noteq> 0"
    and conf': "conf' = conf\<lparr>conf_parser := p,
       conf_worker_processes := LIMIT 0 (get_worker_processes p ncpu) MAXNUM_WORKER_PROCESSES,
       conf_worker_threads := LIMIT 0 (ini_Get_int p ''worker_threads'' [] 0) 16,
       conf_port := get_port p ctx', conf_log := conf_log conf @ log_calls p ctx'\<rparr>"
  have "get_port p ctx2 = get_port p ctx'" "log_calls p ctx2 = log_calls p ctx'"
    using same by (simp_all add: get_port_def log_calls_def get_arg_def)
  then show ?thesis
    using load_again[OF p(1)] set_logfile_keeps(3)[OF p(2) same(2)] p(3) conf'
    by (simp add: parse_confile_def)
qed

lemma order_serve_cases:
  assumes "order_serve env argv ctx conf = r" "get_arg ctx ''o'' = None"
  shows "r = Exits (- 10) \<or> (\<exists>code ctx'. r = Serves [] code ctx' conf \<and>
     ctx_arg_kv ctx' = ctx_arg_kv ctx \<and> ctx_logfile ctx' = ctx_logfile ctx \<and> ctx_confile ctx' = ctx_confile ctx)"
  using assms
  by (auto simp: order_serve_def Let_def create_pidfile_def master_workers_run_def split: if_splits prod.splits)

definition outcome_ok :: "order_env \<Rightarrow> order_outcome \<Rightarrow> bool" where
  "outcome_ok env r \<longleftrightarrow>
     (case r of
        Exits c \<Rightarrow> c \<in> {10, 0, - 10, - 20, - 40}
      | Signalled acts \<Rightarrow> Exit \<in> set acts
      | Serves cmds code ctx conf \<Rightarrow>
          cmds = [] \<and> conf_ok ctx conf \<and>
          on_reload (env_files env) (env_ncpu env) ctx conf =
            Some (Inr (ctx, conf\<lparr>conf_log := conf_log conf @ conf_log conf\<rparr>)))"

lemma order_configured_ok:
  assumes p: "parse_confile (env_files env) (env_ncpu env) ctx conf_ctx_init (ctx_confile ctx) = Some (Inr (ctx', conf))"
    and kv: "get_arg ctx ''o'' = None"
  shows "outcome_ok env (order_configured env argv ctx' conf)"
proof -
  let ?ctx = "ctx'\<lparr>ctx_reload_fn := True\<rparr>"
  have "get_arg ?ctx ''o'' = None" using kv parse_confile_ok(2)[OF p] by (simp add: get_arg_def)
  from order_serve_cases[OF refl this, of env argv conf]
  have "outcome_ok env (order_serve env argv ?ctx conf)"
  proof
    assume "\<exists>code ctx2. order_serve env argv ?ctx conf = Serves [] code ctx2 conf \<and> ctx_arg_kv ctx2 = ctx_arg_kv ?ctx \<and>
       ctx_logfile ctx2 = ctx_logfile ?ctx \<and> ctx_confile ctx2 = ctx_confile ?ctx"
    then obtain code ctx2 where s: "order_serve env argv ?ctx conf = Serves [] code ctx2 conf"
        "ctx_arg_kv ctx2 = ctx_arg_kv ctx'" "ctx_logfile ctx2 = ctx_logfile ctx'" "ctx_confile ctx2 = ctx_confile ctx'"
      by auto
    have "conf_ok ctx2 conf" using parse_confile_ok(1)[OF p] s(2) by (simp add: conf_ok_def get_arg_def)
    moreover have "on_reload (env_files env) (env_ncpu env) ctx2 conf =
        Some (Inr (ctx2, conf\<lparr>conf_log := conf_log conf @ conf_log conf\<rparr>))"
      using parse_confile_again[OF p s(2,3)] s(4) parse_confile_ok(3)[OF p]
      by (simp add: on_reload_def conf_ctx_init_def)
    ultimately show ?thesis using s(1) by (simp add: outcome_ok_def)
  qed (simp add: outcome_ok_def)
  then show ?thesis by (auto simp: order_configured_def Let_def outcome_ok_def)
qed

lemma order_configure_ok:
  assumes "order_configure env argv ctx = Some r" "get_arg ctx ''o'' = None"
  shows "outcome_ok env r"
proof -
  obtain ctx1 pr where c1: "set_confile ctx = Some ctx1"
      "parse_confile (env_files env) (env_ncpu env) ctx1 conf_ctx_init (ctx_confile ctx1) = Some pr"
      "r = case_sum Exits (\<lambda>(ctx, conf). order_configured env argv ctx conf) pr"
    using assms(1) by (auto simp: order_configure_def bind_eq_Some_conv)
  have "get_arg ctx1 ''o'' = None"
    using c1(1) assms(2) by (auto simp: set_confile_def get_arg_def split: option.splits)
  then show ?thesis
    using c1 parse_confile_exit[of _ _ _ _ _] order_configured_ok
    by (cases pr) (auto simp: outcome_ok_def[of env "Exits c" for c] dest: parse_confile_exit)
qed

text \<open>
  Every run of \<open>order_main\<close> comes to one of the documented ends, whatever the command line,
  the files and the system answer: an exit with code 10, 0, -10, -20 or -40, the end of a \<open>-s\<close>
  command, or the workers, and these start only with a non-zero port (the one of \<open>-p\<close> before the
  one of the file), at most 1024 worker processes and at most 16 threads; a reload with the file
  unchanged changes nothing.  The commands of \<open>-o\<close> are never run.
\<close>

theorem order_main_outcomes:
  assumes "order_main env argv ctx = Some r" "get_arg ctx ''o'' = None"
  shows "outcome_ok env r"
proof -
  obtain ctx1 where init: "main_ctx_init (env_run_dir env) (env_getpid env) (env_pidfile_pid env) (env_alive env)
      argv (env_environ env) ctx = Some ctx1"
    using assms(1) by (auto simp: order_main_def bind_eq_Some_conv)
  then have kv: "get_arg ctx1 ''o'' = None"
    using assms(2) by (auto simp: main_ctx_init_def Let_def get_arg_def split: list.splits)
  show ?thesis
  proof (cases "length argv = 1")
    case True
    with assms(1) init show ?thesis by (auto simp: order_main_def outcome_ok_def)
  next
    case False
    then obtain ret ctx2 where p: "parse_opt_long argv long_options ctx1 = Some (ret, ctx2)"
      using assms(1) init by (auto simp: order_main_def bind_eq_Some_conv)
    note keeps = parse_opt_long_keeps[OF p kv]
    show ?thesis
      using assms(1) init False p keeps
      by (auto simp: order_main_def outcome_ok_def[of env "Exits c" for c] intro: order_configure_ok split: if_splits)
  qed
qed

definition env_example :: order_env where
  "env_example =
     \<lparr>env_run_dir = ''/r'', env_getpid = 7, env_pidfile_pid = (\<lambda>_. - 1), env_alive = (\<lambda>_. False), env_environ = [],
      env_files = (\<lambda>f. if f = ''/r/etc/tool.conf'' then Some ''port = 80'' else None), env_ncpu = 2,
      env_daemon = 0, env_can_open = True, env_now = 0, env_forks = []\<rparr>"

theorem order_main_outcomes_witness:
  "\<exists>code ctx conf. order_main env_example [''tool'', ''-p'', ''90''] main_ctx_zero = Some (Serves [] code ctx conf) \<and>
     conf_port conf = 90"
proof -
  let ?run = "order_main env_example [''tool'', ''-p'', ''90''] main_ctx_zero"
  have "case ?run of Some (Serves cmds code ctx conf) \<Rightarrow> conf_port conf = 90 | _ \<Rightarrow> False"
    by code_simp
  then obtain cmds code ctx conf where r: "?run = Some (Serves cmds code ctx conf)" "conf_port conf = 90"
    by (auto split: option.splits order_outcome.splits)
  have "get_arg main_ctx_zero ''o'' = None" by (simp add: get_arg_def main_ctx_zero_def)
  from order_main_outcomes[OF r(1) this] r show ?thesis by (auto simp: outcome_ok_def)
qed

text \<open>
  \<open>my_cat\<close> prints a file of fewer than 100 bytes without NUL exactly; a file that begins with
  100 bytes without NUL fills the array, and the \<open>printf\<close> of it has no terminator to stop at.
\<close>

theorem my_cat_terminator:
  "(length bytes < 100 \<and> no_nul bytes \<longrightarrow> my_cat (Some bytes) = Some (0, bytes)) \<and>
   (100 \<le> length bytes \<and> no_nul (take 100 bytes) \<longrightarrow> my_cat (Some bytes) = None)"
proof (intro conjI impI)
  assume a: "length bytes < 100 \<and> no_nul bytes"
  have "cat_loop [] = Some []" by simp
  with a show "my_cat (Some bytes) = Some (0, bytes)"
    by (simp add: my_cat_def cat_loop.simps[of bytes] del: cat_loop.simps)
next
  assume "100 \<le> length bytes \<and> no_nul (take 100 bytes)"
  then show "my_cat (Some bytes) = None"
    by (auto simp: my_cat_def cat_loop.simps[of bytes] no_nul_def simp del: cat_loop.simps)
qed

theorem my_cat_terminator_witness: "my_cat (Some ''hello'') = Some (0, ''hello'')"
  using my_cat_terminator[of "''hello''"] by simp

end
