(* ===== verification/HttpDef.thy ===== *)
theory HttpDef
  imports HBase
begin

text \<open>
  \<open>http/httpdef.h\<close> and \<open>http/httpdef.c\<close>: status codes, methods and content types with their
  texts.  The enumerations are numbers with the tables of the \<open>XX\<close> macros; the switches and the
  chains of comparisons are searches of the tables in their order.
\<close>

section \<open>Tables\<close>

definition HTTP_STATUS_MAP :: "(nat \<times> string) list" where
  "HTTP_STATUS_MAP =
     [
      (100, ''Continue''), (101, ''Switching Protocols''), (102, ''Processing''), (200, ''OK''),
      (201, ''Created''), (202, ''Accepted''), (203, ''Non-Authoritative Information''),
      (204, ''No Content''), (205, ''Reset Content''), (206, ''Partial Content''),
      (207, ''Multi-Status''), (208, ''Already Reported''), (226, ''IM Used''),
      (300, ''Multiple Choices''), (301, ''Moved Permanently''), (302, ''Found''),
      (303, ''See Other''), (304, ''Not Modified''), (305, ''Use Proxy''),
      (307, ''Temporary Redirect''), (308, ''Permanent Redirect''), (400, ''Bad Request''),
      (401, ''Unauthorized''), (402, ''Payment Required''), (403, ''Forbidden''),
      (404, ''Not Found''), (405, ''Method Not Allowed''), (406, ''Not Acceptable''),
      (407, ''Proxy Authentication Required''), (408, ''Request Timeout''), (409, ''Conflict''),
      (410, ''Gone''), (411, ''Length Required''), (412, ''Precondition Failed''),
      (413, ''Payload Too Large''), (414, ''URI Too Long''), (415, ''Unsupported Media Type''),
      (416, ''Range Not Satisfiable''), (417, ''Expectation Failed''),
      (421, ''Misdirected Request''), (422, ''Unprocessable Entity''), (423, ''Locked''),
      (424, ''Failed Dependency''), (426, ''Upgrade Required''),
      (428, ''Precondition Required''), (429, ''Too Many Requests''),
      (431, ''Request Header Fields Too Large''), (451, ''Unavailable For Legal Reasons''),
      (500, ''Internal Server Error''), (501, ''Not Implemented''), (502, ''Bad Gateway''),
      (503, ''Service Unavailable''), (504, ''Gateway Timeout''),
      (505, ''HTTP Version Not Supported''), (506, ''Variant Also Negotiates''),
      (507, ''Insufficient Storage''), (508, ''Loop Detected''), (510, ''Not Extended''),
      (511, ''Network Authentication Required'')]"

definition HTTP_METHOD_MAP :: "(nat \<times> string) list" where
  "HTTP_METHOD_MAP =
     [
      (0, ''DELETE''), (1, ''GET''), (2, ''HEAD''), (3, ''POST''), (4, ''PUT''),
      (5, ''CONNECT''), (6, ''OPTIONS''), (7, ''TRACE''), (8, ''COPY''), (9, ''LOCK''),
      (10, ''MKCOL''), (11, ''MOVE''), (12, ''PROPFIND''), (13, ''PROPPATCH''), (14, ''SEARCH''),
      (15, ''UNLOCK''), (16, ''BIND''), (17, ''REBIND''), (18, ''UNBIND''), (19, ''ACL''),
      (20, ''REPORT''), (21, ''MKACTIVITY''), (22, ''CHECKOUT''), (23, ''MERGE''),
      (24, ''M-SEARCH''), (25, ''NOTIFY''), (26, ''SUBSCRIBE''), (27, ''UNSUBSCRIBE''),
      (28, ''PATCH''), (29, ''PURGE''), (30, ''MKCALENDAR''), (31, ''LINK''), (32, ''UNLINK''),
      (33, ''SOURCE'')]"

text \<open>The values after the last of the table.\<close>

definition HTTP_CUSTOM_STATUS :: nat where "HTTP_CUSTOM_STATUS = 512"
definition HTTP_CUSTOM_METHOD :: nat where "HTTP_CUSTOM_METHOD = 34"

datatype http_content_type =
    CONTENT_TYPE_NONE
  | TEXT_PLAIN
  | TEXT_HTML
  | TEXT_CSS
  | IMAGE_JPEG
  | IMAGE_PNG
  | IMAGE_GIF
  | IMAGE_BMP
  | IMAGE_SVG
  | APPLICATION_OCTET_STREAM
  | APPLICATION_JAVASCRIPT
  | APPLICATION_XML
  | APPLICATION_JSON
  | APPLICATION_GRPC
  | APPLICATION_URLENCODED
  | MULTIPART_FORM_DATA
  | CONTENT_TYPE_UNDEFINED

definition HTTP_CONTENT_TYPE_MAP :: "(http_content_type \<times> string \<times> string) list" where
  "HTTP_CONTENT_TYPE_MAP =
     [(TEXT_PLAIN, ''text/plain'', ''txt''),
      (TEXT_HTML, ''text/html'', ''html''),
      (TEXT_CSS, ''text/css'', ''css''),
      (IMAGE_JPEG, ''image/jpeg'', ''jpg''),
      (IMAGE_PNG, ''image/png'', ''png''),
      (IMAGE_GIF, ''image/gif'', ''gif''),
      (IMAGE_BMP, ''image/bmp'', ''bmp''),
      (IMAGE_SVG, ''image/svg'', ''svg''),
      (APPLICATION_OCTET_STREAM, ''application/octet-stream'', ''bin''),
      (APPLICATION_JAVASCRIPT, ''application/javascript'', ''js''),
      (APPLICATION_XML, ''application/xml'', ''xml''),
      (APPLICATION_JSON, ''application/json'', ''json''),
      (APPLICATION_GRPC, ''application/grpc'', ''grpc''),
      (APPLICATION_URLENCODED, ''application/x-www-form-urlencoded'', ''kv''),
      (MULTIPART_FORM_DATA, ''multipart/form-data'', ''mp'')]"

section \<open>Lookups\<close>

definition table_str :: "(nat \<times> string) list \<Rightarrow> nat \<Rightarrow> string" where
  "table_str tab n = (case map_of tab n of Some s \<Rightarrow> s | None \<Rightarrow> ''<unknown>'')"

definition table_enum :: "(nat \<times> string) list \<Rightarrow> nat \<Rightarrow> string \<Rightarrow> nat" where
  "table_enum tab custom str =
     (case find (\<lambda>(n, s). s = c_str str) tab of Some (n, _) \<Rightarrow> n | None \<Rightarrow> custom)"

definition http_status_str :: "nat \<Rightarrow> string" where
  "http_status_str = table_str HTTP_STATUS_MAP"

definition http_method_str :: "nat \<Rightarrow> string" where
  "http_method_str = table_str HTTP_METHOD_MAP"

definition http_status_enum :: "string \<Rightarrow> nat" where
  "http_status_enum = table_enum HTTP_STATUS_MAP HTTP_CUSTOM_STATUS"

definition http_method_enum :: "string \<Rightarrow> nat" where
  "http_method_enum = table_enum HTTP_METHOD_MAP HTTP_CUSTOM_METHOD"

definition http_content_type_str :: "http_content_type \<Rightarrow> string" where
  "http_content_type_str t =
     (case map_of HTTP_CONTENT_TYPE_MAP t of Some (s, _) \<Rightarrow> s | None \<Rightarrow> ''<unknown>'')"

definition http_content_type_suffix :: "http_content_type \<Rightarrow> string" where
  "http_content_type_suffix t =
     (case map_of HTTP_CONTENT_TYPE_MAP t of Some (_, x) \<Rightarrow> x | None \<Rightarrow> ''<unknown>'')"

definition http_content_type_enum :: "string \<Rightarrow> http_content_type" where
  "http_content_type_enum str =
     (if c_str str = [] then CONTENT_TYPE_NONE
      else case find (\<lambda>(t, s, x). strstartswith str s) HTTP_CONTENT_TYPE_MAP of
             Some (t, _) \<Rightarrow> t | None \<Rightarrow> CONTENT_TYPE_UNDEFINED)"

definition http_content_type_str_by_suffix :: "string \<Rightarrow> string" where
  "http_content_type_str_by_suffix str =
     (if c_str str = [] then []
      else case find (\<lambda>(t, s, x). x = c_str str) HTTP_CONTENT_TYPE_MAP of
             Some (_, s, _) \<Rightarrow> s | None \<Rightarrow> [])"

definition http_content_type_enum_by_suffix :: "string \<Rightarrow> http_content_type" where
  "http_content_type_enum_by_suffix str =
     (if c_str str = [] then CONTENT_TYPE_NONE
      else case find (\<lambda>(t, s, x). x = c_str str) HTTP_CONTENT_TYPE_MAP of
             Some (t, _) \<Rightarrow> t | None \<Rightarrow> CONTENT_TYPE_UNDEFINED)"

section \<open>The texts determine the codes\<close>

lemma table_inverse:
  "distinct (map snd tab) \<Longrightarrow> distinct (map fst tab) \<Longrightarrow> \<forall>(n, s) \<in> set tab. no_nul s \<Longrightarrow> (n, s) \<in> set tab \<Longrightarrow>
   table_str tab n = s \<and> table_enum tab custom s = n"
proof (induction tab)
  case (Cons p tab)
  obtain m t where p: "p = (m, t)" by (cases p)
  show ?case
  proof (cases "(n, s) = p")
    case True
    with Cons.prems p show ?thesis by (simp add: table_str_def table_enum_def)
  next
    case False
    then have mem: "(n, s) \<in> set tab" using Cons.prems by auto
    then have "t \<noteq> s" "m \<noteq> n"
      using Cons.prems p by (auto simp: image_iff)
    moreover have "c_str s = s" using Cons.prems mem by auto
    ultimately show ?thesis
      using Cons mem p by (simp add: table_str_def table_enum_def)
  qed
qed simp

lemma status_table: "distinct (map snd HTTP_STATUS_MAP)" "distinct (map fst HTTP_STATUS_MAP)"
  "\<forall>(n, s) \<in> set HTTP_STATUS_MAP. no_nul s"
  unfolding HTTP_STATUS_MAP_def by code_simp+

lemma method_table: "distinct (map snd HTTP_METHOD_MAP)" "distinct (map fst HTTP_METHOD_MAP)"
  "\<forall>(n, s) \<in> set HTTP_METHOD_MAP. no_nul s"
  unfolding HTTP_METHOD_MAP_def by code_simp+

lemma content_type_table:
  "sorted_wrt (\<lambda>(t, s, x) (t', s', x'). \<not> prefix s s' \<and> \<not> prefix s' s \<and> t \<noteq> t' \<and> x \<noteq> x') HTTP_CONTENT_TYPE_MAP"
  "\<forall>(t, s, x) \<in> set HTTP_CONTENT_TYPE_MAP. no_nul s \<and> no_nul x \<and> s \<noteq> [] \<and> x \<noteq> []"
  unfolding HTTP_CONTENT_TYPE_MAP_def by code_simp+

lemma find_sorted_wrt:
  "sorted_wrt R tab \<Longrightarrow> p \<in> set tab \<Longrightarrow> P p \<Longrightarrow> \<forall>q \<in> set tab. R q p \<longrightarrow> \<not> P q \<Longrightarrow> find P tab = Some p"
  by (induction tab) auto

text \<open>
  The protocol tables are consistent: every status code and every method has a text that
  reads back as that code, every MIME type (also with parameters after it) and every file suffix
  is recognised as its content type, and the MIME type found for a suffix is that of its content
  type.  Texts outside the tables give the custom codes.
\<close>

theorem http_codes_inverse:
  "(\<forall>(n, s) \<in> set HTTP_STATUS_MAP. http_status_str n = s \<and> http_status_enum s = n) \<and>
   (\<forall>(n, s) \<in> set HTTP_METHOD_MAP. http_method_str n = s \<and> http_method_enum s = n) \<and>
   (\<forall>(t, s, x) \<in> set HTTP_CONTENT_TYPE_MAP. http_content_type_str t = s \<and>
      http_content_type_enum (s @ params) = t \<and> http_content_type_suffix t = x \<and>
      http_content_type_enum_by_suffix x = t \<and> http_content_type_str_by_suffix x = s) \<and>
   (c_str str \<notin> snd ` set HTTP_METHOD_MAP \<longrightarrow> http_method_enum str = HTTP_CUSTOM_METHOD) \<and>
   (c_str str \<notin> snd ` set HTTP_STATUS_MAP \<longrightarrow> http_status_enum str = HTTP_CUSTOM_STATUS)"
proof (intro conjI)
  show "\<forall>(n, s) \<in> set HTTP_STATUS_MAP. http_status_str n = s \<and> http_status_enum s = n"
    using table_inverse[OF status_table] by (auto simp: http_status_str_def http_status_enum_def)
  show "\<forall>(n, s) \<in> set HTTP_METHOD_MAP. http_method_str n = s \<and> http_method_enum s = n"
    using table_inverse[OF method_table] by (auto simp: http_method_str_def http_method_enum_def)
  have unknown: "c_str str \<notin> snd ` set tab \<Longrightarrow> table_enum tab custom str = custom" for tab custom
    by (induction tab) (auto simp: table_enum_def)
  show "c_str str \<notin> snd ` set HTTP_METHOD_MAP \<longrightarrow> http_method_enum str = HTTP_CUSTOM_METHOD"
    "c_str str \<notin> snd ` set HTTP_STATUS_MAP \<longrightarrow> http_status_enum str = HTTP_CUSTOM_STATUS"
    by (simp_all add: http_method_enum_def http_status_enum_def unknown)
  show "\<forall>(t, s, x) \<in> set HTTP_CONTENT_TYPE_MAP. http_content_type_str t = s \<and>
      http_content_type_enum (s @ params) = t \<and> http_content_type_suffix t = x \<and>
      http_content_type_enum_by_suffix x = t \<and> http_content_type_str_by_suffix x = s"
  proof clarify
    fix t s x assume mem: "(t, s, x) \<in> set HTTP_CONTENT_TYPE_MAP"
    then have ok: "no_nul s" "no_nul x" "s \<noteq> []" "x \<noteq> []" using content_type_table(2) by auto
    have cs: "c_str (s @ params) = s @ c_str params" using ok(1) by (induction s) (auto simp: c_str_def)
    have "find (\<lambda>(t, s', x). strstartswith (s @ params) s') HTTP_CONTENT_TYPE_MAP = Some (t, s, x)"
    proof (rule find_sorted_wrt[OF content_type_table(1) mem])
      show "case (t, s, x) of (t, s', x) \<Rightarrow> strstartswith (s @ params) s'"
        using ok(1) cs by (simp add: strstartswith_def startswith_loop_prefix)
      show "\<forall>q \<in> set HTTP_CONTENT_TYPE_MAP.
          (case q of (t, s, x) \<Rightarrow> \<lambda>(t', s', x'). \<not> prefix s s' \<and> \<not> prefix s' s \<and> t \<noteq> t' \<and> x \<noteq> x') (t, s, x) \<longrightarrow>
          \<not> (case q of (t, s', x) \<Rightarrow> strstartswith (s @ params) s')"
      proof clarify
        fix t' s' x' assume q: "(t', s', x') \<in> set HTTP_CONTENT_TYPE_MAP" "\<not> prefix s' s" "\<not> prefix s s'"
          and st: "strstartswith (s @ params) s'"
        have "no_nul s'" using q(1) content_type_table(2) by auto
        with st cs have "prefix s' (s @ c_str params)" by (simp add: strstartswith_def startswith_loop_prefix)
        then show False using prefix_same_cases[of s' "s @ c_str params" s] q(2,3) by auto
      qed
    qed
    then have 1: "http_content_type_enum (s @ params) = t"
      using ok(3) cs by (simp add: http_content_type_enum_def)
    have "find (\<lambda>(t, s, x'). x' = c_str x) HTTP_CONTENT_TYPE_MAP = Some (t, s, x)"
      by (rule find_sorted_wrt[OF content_type_table(1) mem]) (use ok in auto)
    then have 2: "http_content_type_enum_by_suffix x = t" "http_content_type_str_by_suffix x = s"
      using ok by (simp_all add: http_content_type_enum_by_suffix_def http_content_type_str_by_suffix_def)
    have "distinct (map fst HTTP_CONTENT_TYPE_MAP)" unfolding HTTP_CONTENT_TYPE_MAP_def by simp
    then have "map_of HTTP_CONTENT_TYPE_MAP t = Some (s, x)" using mem by simp
    then show "http_content_type_str t = s \<and> http_content_type_enum (s @ params) = t \<and>
        http_content_type_suffix t = x \<and> http_content_type_enum_by_suffix x = t \<and>
        http_content_type_str_by_suffix x = s"
      using 1 2 by (simp add: http_content_type_str_def http_content_type_suffix_def)
  qed
qed

theorem http_codes_inverse_witness:
  "http_status_enum ''Not Found'' = 404 \<and> http_content_type_enum (''text/html'' @ ''; charset=utf-8'') = TEXT_HTML \<and>
   http_method_enum ''FOO'' = HTTP_CUSTOM_METHOD"
proof -
  note all = http_codes_inverse[of "''; charset=utf-8''" "''FOO''"]
  have "(404, ''Not Found'') \<in> set HTTP_STATUS_MAP" unfolding HTTP_STATUS_MAP_def by simp
  from bspec[OF all[THEN conjunct1] this] have 1: "http_status_enum ''Not Found'' = 404"
    unfolding prod.case by (rule conjunct2)
  have "(TEXT_HTML, ''text/html'', ''html'') \<in> set HTTP_CONTENT_TYPE_MAP"
    unfolding HTTP_CONTENT_TYPE_MAP_def by simp
  from bspec[OF all[THEN conjunct2, THEN conjunct2, THEN conjunct1] this]
  have 2: "http_content_type_enum (''text/html'' @ ''; charset=utf-8'') = TEXT_HTML"
    unfolding prod.case by (rule conjunct1[OF conjunct2])
  have "c_str ''FOO'' \<notin> snd ` set HTTP_METHOD_MAP" unfolding HTTP_METHOD_MAP_def by simp
  from all[THEN conjunct2, THEN conjunct2, THEN conjunct2, THEN conjunct1, rule_format, OF this]
  show ?thesis using 1 2 by (intro conjI)
qed

end
