(* ===== verification/HUrl.thy ===== *)
theory HUrl
  imports Prelude
begin

unbundle bit_operations_syntax

text \<open>
  \<open>cpputil/hurl.cpp\<close>: percent-encoding.  \<open>char\<close> is signed on the platforms the build targets,
  so \<open>sprintf(szHex, "%%%02X", *p)\<close> prints a byte above 0x7F sign-extended to eight digits,
  ten bytes with the percent sign and the terminator, into the four bytes of \<open>szHex\<close>:
  escaping such a byte has no result (\<open>None\<close>).
\<close>

definition IS_NUM :: "char \<Rightarrow> bool" where
  "IS_NUM c \<longleftrightarrow> CHR ''0'' \<le> c \<and> c \<le> CHR ''9''"

definition IS_ALPHA :: "char \<Rightarrow> bool" where
  "IS_ALPHA c \<longleftrightarrow> (CHR ''a'' \<le> c \<and> c \<le> CHR ''z'') \<or> (CHR ''A'' \<le> c \<and> c \<le> CHR ''Z'')"

definition IS_ALPHANUM :: "char \<Rightarrow> bool" where
  "IS_ALPHANUM c \<longleftrightarrow> IS_ALPHA c \<or> IS_NUM c"

definition IS_HEX :: "char \<Rightarrow> bool" where
  "IS_HEX c \<longleftrightarrow> IS_NUM c \<or> (CHR ''a'' \<le> c \<and> c \<le> CHR ''f'') \<or> (CHR ''A'' \<le> c \<and> c \<le> CHR ''F'')"

definition is_unambiguous :: "char \<Rightarrow> bool" where
  "is_unambiguous c \<longleftrightarrow> IS_ALPHANUM c \<or> c = CHR ''-'' \<or> c = CHR ''_'' \<or> c = CHR ''.'' \<or> c = CHR ''~''"

definition hex2i :: "char \<Rightarrow> 8 word" where
  "hex2i hex =
     (if hex \<le> CHR ''9'' then of_nat (of_char hex) - of_nat (of_char (CHR ''0''))
      else if hex \<le> CHR ''F'' then of_nat (of_char hex) - of_nat (of_char (CHR ''A'')) + 10
      else of_nat (of_char hex) - of_nat (of_char (CHR ''a'')) + 10)"

text \<open>The digits \<open>printf\<close> uses for \<open>%X\<close>, and its output for \<open>%%%02X\<close> of a byte below 0x80.\<close>

definition hex_digit :: "nat \<Rightarrow> char" where
  "hex_digit n = ''0123456789ABCDEF'' ! n"

definition print_hex :: "char \<Rightarrow> string option" where
  "print_hex c =
     (if (of_char c :: nat) < 128
      then Some [CHR ''%'', hex_digit (of_char c div 16), hex_digit (of_char c mod 16)] else None)"

fun url_escape_loop :: "string \<Rightarrow> string \<Rightarrow> string option" where
  "url_escape_loop ostr [] = Some ostr"
| "url_escape_loop ostr (c # p) =
     (if is_unambiguous c then url_escape_loop (ostr @ [c]) p
      else case print_hex c of None \<Rightarrow> None | Some szHex \<Rightarrow> url_escape_loop (ostr @ szHex) p)"

definition url_escape :: "string \<Rightarrow> string option" where
  "url_escape istr = url_escape_loop [] (c_str istr)"

fun url_unescape_loop :: "string \<Rightarrow> string \<Rightarrow> string" where
  "url_unescape_loop ostr [] = ostr"
| "url_unescape_loop ostr (c # a # b # p) =
     (if c = CHR ''%'' \<and> IS_HEX a \<and> IS_HEX b
      then url_unescape_loop
             (ostr @ [char_of (unat (push_bit 4 (hex2i a) OR hex2i b))]) p
      else url_unescape_loop (ostr @ [c]) (a # b # p))"
| "url_unescape_loop ostr (c # p) = url_unescape_loop (ostr @ [c]) p"

definition url_unescape :: "string \<Rightarrow> string" where
  "url_unescape istr = url_unescape_loop [] (c_str istr)"

section \<open>Escaping and unescaping are inverse\<close>

lemma less_16_cases:
  "(n::nat) < 16 \<Longrightarrow> n \<in> {0, 1, 2, 3, 4, 5, 6, 7, 8, 9, 10, 11, 12, 13, 14, 15}"
  by simp arith

lemma hex2i_hex_digit: "n < 16 \<Longrightarrow> hex2i (hex_digit n) = of_nat n"
  by (drule less_16_cases, elim insertE emptyE) (simp_all add: hex2i_def hex_digit_def less_eq_char_def)

lemma IS_HEX_hex_digit: "n < 16 \<Longrightarrow> IS_HEX (hex_digit n)"
  by (drule less_16_cases, elim insertE emptyE) (simp_all add: IS_HEX_def IS_NUM_def hex_digit_def less_eq_char_def)

lemma is_unambiguous_hex_digit: "n < 16 \<Longrightarrow> is_unambiguous (hex_digit n)"
  by (drule less_16_cases, elim insertE emptyE)
    (simp_all add: is_unambiguous_def IS_ALPHANUM_def IS_ALPHA_def IS_NUM_def hex_digit_def
      less_eq_char_def)

lemma nibbles_or: "hi < 16 \<Longrightarrow> lo < 16 \<Longrightarrow>
    unat (push_bit 4 (of_nat hi :: 8 word) OR of_nat lo) = 16 * hi + lo"
  by (drule less_16_cases, drule less_16_cases, elim insertE emptyE) simp_all

lemma hex_byte:
  "char_of (unat (push_bit 4 (hex2i (hex_digit (of_char c div 16)))
              OR hex2i (hex_digit (of_char c mod 16)))) = c"
proof -
  have "(of_char c :: nat) < 256" by simp
  then have "(of_char c :: nat) div 16 < 16" "(of_char c :: nat) mod 16 < 16" by arith+
  then show ?thesis by (simp add: hex2i_hex_digit nibbles_or)
qed

lemma unambiguous_not_percent: "is_unambiguous c \<Longrightarrow> c \<noteq> CHR ''%'' \<and> c \<noteq> NUL"
  by (auto simp: is_unambiguous_def IS_ALPHANUM_def IS_ALPHA_def IS_NUM_def less_eq_char_def)

lemma unambiguous_ascii: "is_unambiguous c \<Longrightarrow> (of_char c :: nat) < 128"
  by (auto simp: is_unambiguous_def IS_ALPHANUM_def IS_ALPHA_def IS_NUM_def less_eq_char_def)

lemma url_escape_loop_Some:
  "url_escape_loop ostr p =
     (if \<forall>c \<in> set p. (of_char c :: nat) < 128
      then Some (ostr @ concat (map (\<lambda>c. if is_unambiguous c then [c] else the (print_hex c)) p))
      else None)"
  by (induction ostr p rule: url_escape_loop.induct)
    (auto simp: print_hex_def dest: unambiguous_ascii split: if_splits)

lemma url_unescape_loop_other:
  "c \<noteq> CHR ''%'' \<Longrightarrow> url_unescape_loop ostr (c # p) = url_unescape_loop (ostr @ [c]) p"
  by (cases p; cases "tl p") auto

lemma url_unescape_loop_escaped:
  "\<forall>c \<in> set p. (of_char c :: nat) < 128 \<Longrightarrow>
   url_unescape_loop ostr
     (concat (map (\<lambda>c. if is_unambiguous c then [c] else the (print_hex c)) p)) = ostr @ p"
proof (induction p arbitrary: ostr)
  case (Cons c p)
  then show ?case
    by (auto simp: url_unescape_loop_other print_hex_def unambiguous_not_percent
        IS_HEX_hex_digit hex_byte)
qed simp

lemma escaped_chars:
  "\<forall>c \<in> set p. (of_char c :: nat) < 128 \<Longrightarrow>
   \<forall>c \<in> set (concat (map (\<lambda>c. if is_unambiguous c then [c] else the (print_hex c)) p)).
      is_unambiguous c \<or> c = CHR ''%''"
  by (auto simp: print_hex_def is_unambiguous_hex_digit split: if_splits)

text \<open>
  C31.  \<open>url_escape\<close> has a result exactly for text of 7-bit characters (any other byte overruns
  the buffer the escape is printed into); its result holds only unreserved characters and
  percent signs, and \<open>url_unescape\<close> turns it back into the text.
\<close>

theorem url_escape_unescape:
  "(\<exists>e. url_escape istr = Some e) = (\<forall>c \<in> set (c_str istr). (of_char c :: nat) < 128) \<and>
   (\<forall>e. url_escape istr = Some e \<longrightarrow>
      (\<forall>c \<in> set e. is_unambiguous c \<or> c = CHR ''%'') \<and> url_unescape e = c_str istr)"
proof (cases "\<forall>c \<in> set (c_str istr). (of_char c :: nat) < 128")
  case True
  let ?e = "concat (map (\<lambda>c. if is_unambiguous c then [c] else the (print_hex c)) (c_str istr))"
  have e: "url_escape istr = Some ?e"
    using True by (simp add: url_escape_def url_escape_loop_Some)
  have chars: "\<forall>c \<in> set ?e. is_unambiguous c \<or> c = CHR ''%''"
    by (rule escaped_chars[OF True])
  then have "no_nul ?e"
    unfolding no_nul_def using unambiguous_not_percent by blast
  then have "url_unescape ?e = c_str istr"
    using True by (simp add: url_unescape_def url_unescape_loop_escaped del: set_concat)
  with True e chars show ?thesis by auto
next
  case False
  then show ?thesis by (auto simp: url_escape_def url_escape_loop_Some)
qed

theorem url_escape_unescape_witness:
  "url_escape ''a b/c%'' = Some ''a%20b%2Fc%25'' \<and> url_unescape ''a%20b%2Fc%25'' = ''a b/c%''"
proof -
  have e: "url_escape ''a b/c%'' = Some ''a%20b%2Fc%25''" by code_simp
  have "c_str ''a b/c%'' = ''a b/c%''" by code_simp
  then show ?thesis using e url_escape_unescape[of "''a b/c%''"] by simp
qed
end
