(* ===== verification/HttpContent.thy ===== *)
theory HttpContent
  imports HttpDef HString HUrl "HOL-Library.Sublist"
begin

text \<open>
  \<open>http/http_content.cpp\<close> and \<open>http/multipart_parser.c\<close>: query strings and multipart forms,
  written and parsed.  The JSON functions of the file are calls of the vendored library and are
  not modelled.
\<close>

section \<open>Query strings\<close>

type_synonym QueryParams = keyval

fun dump_query_loop :: "QueryParams \<Rightarrow> string \<Rightarrow> string option" where
  "dump_query_loop [] query_string = Some query_string"
| "dump_query_loop ((k, v) # ps) query_string =
     Option.bind (url_escape k) (\<lambda>ek. Option.bind (url_escape v) (\<lambda>ev.
       dump_query_loop ps
         (query_string @ (if query_string \<noteq> [] then ''&'' else []) @ ek @ ''='' @ ev)))"

definition dump_query_params :: "QueryParams \<Rightarrow> string option" where
  "dump_query_params query_params = dump_query_loop query_params []"

text \<open>
  \<open>query_params[url_unescape(key)] = url_unescape(value)\<close> for the spans the scan has measured.
\<close>

definition qp_flush :: "string \<Rightarrow> kv_scan \<Rightarrow> kv_scan option" where
  "qp_flush s st =
     (case (read_span s (kv_key st) (key_len st),
            Option.bind (kv_val st) (\<lambda>i. read_span s i (value_len st))) of
        (Some k, Some v) \<Rightarrow>
          Some (st\<lparr>kv_kvs := kv_put (url_unescape k) (url_unescape v) (kv_kvs st),
                   key_len := 0, value_len := 0\<rparr>)
      | _ \<Rightarrow> None)"

definition qp_step :: "string \<Rightarrow> nat \<Rightarrow> char \<Rightarrow> kv_scan \<Rightarrow> kv_scan option" where
  "qp_step s p c st =
     (if c = CHR ''&'' then
        map_option (\<lambda>st. st\<lparr>kv_st := s_key, kv_key := p + 1\<rparr>)
          (if key_len st \<noteq> 0 \<and> value_len st \<noteq> 0 then qp_flush s st else Some st)
      else if c = CHR ''='' then Some (st\<lparr>kv_st := s_value, kv_val := Some (p + 1)\<rparr>)
      else if kv_st st = s_key then Some (st\<lparr>key_len := key_len st + 1\<rparr>)
      else Some (st\<lparr>value_len := value_len st + 1\<rparr>))"

fun qp_loop :: "string \<Rightarrow> nat \<Rightarrow> string \<Rightarrow> kv_scan \<Rightarrow> kv_scan option" where
  "qp_loop s p [] st = (if key_len st \<noteq> 0 \<and> value_len st \<noteq> 0 then qp_flush s st else Some st)"
| "qp_loop s p (c # cs) st = Option.bind (qp_step s p c st) (qp_loop s (p + 1) cs)"

definition parse_query_params :: "string \<Rightarrow> QueryParams \<Rightarrow> (int \<times> QueryParams) option" where
  "parse_query_params query_string query_params =
     (let s = c_str query_string;
          p = (case find_idx (\<lambda>c. c = CHR ''?'') s of Some i \<Rightarrow> i + 1 | None \<Rightarrow> 0)
      in map_option (\<lambda>st. (if kv_kvs st = [] then - 1 else 0, kv_kvs st))
           (qp_loop s p (drop p s)
             \<lparr>kv_st = s_key, kv_key = p, kv_val = None, key_len = 0, value_len = 0, kv_kvs = query_params\<rparr>))"

section \<open>Multipart forms\<close>

record FormData =
  form_filename :: string
  form_content :: string

type_synonym MultiPart = "(string, FormData) omap"

abbreviation mp_put :: "string \<Rightarrow> FormData \<Rightarrow> MultiPart \<Rightarrow> MultiPart" where
  "mp_put \<equiv> omap_put str_lt"

text \<open>\<open>snprintf\<close> into the 256 bytes of \<open>c_str\<close>.\<close>

definition snprintf_256 :: "string \<Rightarrow> string" where
  "snprintf_256 s = take 255 s"

definition CRLF :: string where "CRLF = [CR, NL]"

definition DQUOTE :: char where "DQUOTE = CHR 0x22"

definition dump_content_type :: "string \<Rightarrow> string" where
  "dump_content_type fname =
     (case find_last_idx (\<lambda>c. c = CHR ''.'') (c_str fname) of
        None \<Rightarrow> []
      | Some i \<Rightarrow>
          (let stype = http_content_type_str_by_suffix (drop (i + 1) (c_str fname))
           in if stype \<noteq> [] then CRLF @ ''Content-Type: '' @ stype else []))"

text \<open>One part; \<open>readall\<close> is the contents of a file, when it opens.\<close>

definition dump_part ::
    "(string \<Rightarrow> string option) \<Rightarrow> string \<Rightarrow> string \<Rightarrow> FormData \<Rightarrow> string \<times> FormData" where
  "dump_part readall boundary name form =
     (let form = (if form_filename form \<noteq> [] \<and> form_content form = []
                  then (case readall (form_filename form) of
                          Some bytes \<Rightarrow> form\<lparr>form_content := bytes\<rparr> | None \<Rightarrow> form)
                  else form)
      in (''--'' @ boundary @ CRLF @ ''Content-Disposition: form-data''
          @ snprintf_256 (''; name='' @ [DQUOTE] @ c_str name @ [DQUOTE])
          @ (if form_filename form \<noteq> []
             then snprintf_256 (''; filename='' @ [DQUOTE] @ c_str (basename (form_filename form)) @ [DQUOTE])
                  @ dump_content_type (form_filename form)
             else [])
          @ CRLF @ CRLF @ form_content form @ CRLF, form))"

fun dump_parts :: "(string \<Rightarrow> string option) \<Rightarrow> string \<Rightarrow> MultiPart \<Rightarrow> string \<Rightarrow> string \<times> MultiPart" where
  "dump_parts readall boundary [] str = (str, [])"
| "dump_parts readall boundary ((name, form) # mp) str =
     (case dump_part readall boundary name form of (t, form') \<Rightarrow>
        (case dump_parts readall boundary mp (str @ t) of (str', mp') \<Rightarrow> (str', (name, form') # mp')))"

text \<open>The text, and the map with the contents of the files that were read into it.\<close>

definition dump_multipart ::
    "(string \<Rightarrow> string option) \<Rightarrow> MultiPart \<Rightarrow> string \<Rightarrow> string \<times> MultiPart" where
  "dump_multipart readall mp boundary =
     (case dump_parts readall boundary mp [] of (str, mp') \<Rightarrow> (str @ ''--'' @ boundary @ ''--'', mp'))"

section \<open>The multipart parser\<close>

datatype mp_state =
    mp_start
  | mp_start_boundary
  | mp_header_field_start
  | mp_header_field
  | mp_headers_almost_done
  | mp_header_value_start
  | mp_header_value
  | mp_header_value_almost_done
  | mp_part_data_start
  | mp_part_data
  | mp_part_data_almost_boundary
  | mp_part_data_boundary
  | mp_part_data_almost_end
  | mp_part_data_end
  | mp_part_data_final_hyphen
  | mp_end

datatype mp_event =
    On_header_field string
  | On_header_value string
  | On_part_data string
  | On_part_data_begin
  | On_headers_complete
  | On_part_data_end
  | On_body_end

text \<open>
  The parser with the callbacks it has made so far; \<open>mp_marked\<close> is the text from \<open>mark\<close> to the
  current position.
\<close>

record multipart_parser =
  mp_st :: mp_state
  mp_index :: nat
  mp_lookbehind :: string
  mp_marked :: string
  mp_events :: "mp_event list"

definition multipart_parser_init :: multipart_parser where
  "multipart_parser_init =
     \<lparr>mp_st = mp_start, mp_index = 0, mp_lookbehind = [], mp_marked = [], mp_events = []\<rparr>"

definition mp_emit :: "mp_event \<Rightarrow> multipart_parser \<Rightarrow> multipart_parser" where
  "mp_emit e p = p\<lparr>mp_events := mp_events p @ [e]\<rparr>"

definition mp_goto :: "mp_state \<Rightarrow> multipart_parser \<Rightarrow> multipart_parser" where
  "mp_goto s p = p\<lparr>mp_st := s\<rparr>"

text \<open>The cases that other cases fall through to; \<open>None\<close> is \<open>return i\<close> before the end.\<close>

definition mp_do_start_boundary :: "string \<Rightarrow> char \<Rightarrow> multipart_parser \<Rightarrow> multipart_parser option" where
  "mp_do_start_boundary boundary c p =
     (if mp_index p = length boundary then
        if c \<noteq> CR then None else Some (p\<lparr>mp_index := mp_index p + 1\<rparr>)
      else if mp_index p = length boundary + 1 then
        if c \<noteq> NL then None
        else Some (mp_goto mp_header_field_start (mp_emit On_part_data_begin (p\<lparr>mp_index := 0\<rparr>)))
      else if c \<noteq> boundary ! mp_index p then None
      else Some (p\<lparr>mp_index := mp_index p + 1\<rparr>))"

definition mp_header_char :: "char \<Rightarrow> bool" where
  "mp_header_char c \<longleftrightarrow> c = CHR ''-'' \<or> (CHR ''a'' \<le> tolower_c c \<and> tolower_c c \<le> CHR ''z'')"

definition mp_do_header_field :: "bool \<Rightarrow> char \<Rightarrow> multipart_parser \<Rightarrow> multipart_parser option" where
  "mp_do_header_field is_last c p =
     (if c = CR then Some (mp_goto mp_headers_almost_done p)
      else if c = CHR '':'' then
        Some (mp_goto mp_header_value_start (mp_emit (On_header_field (mp_marked p)) p))
      else if \<not> mp_header_char c then None
      else let p = p\<lparr>mp_marked := mp_marked p @ [c]\<rparr>
           in Some (if is_last then mp_emit (On_header_field (mp_marked p)) p else p))"

definition mp_do_header_value :: "bool \<Rightarrow> char \<Rightarrow> multipart_parser \<Rightarrow> multipart_parser" where
  "mp_do_header_value is_last c p =
     (if c = CR then mp_goto mp_header_value_almost_done (mp_emit (On_header_value (mp_marked p)) p)
      else let p = p\<lparr>mp_marked := mp_marked p @ [c]\<rparr>
           in if is_last then mp_emit (On_header_value (mp_marked p)) p else p)"

definition mp_do_part_data :: "bool \<Rightarrow> char \<Rightarrow> multipart_parser \<Rightarrow> multipart_parser" where
  "mp_do_part_data is_last c p =
     (if c = CR then
        (mp_goto mp_part_data_almost_boundary (mp_emit (On_part_data (mp_marked p)) p))
          \<lparr>mp_marked := [], mp_lookbehind := [CR]\<rparr>
      else let p = p\<lparr>mp_marked := mp_marked p @ [c]\<rparr>
           in if is_last then mp_emit (On_part_data (mp_marked p)) p else p)"

text \<open>
  One character.  In the two boundary states a mismatch puts back the character (\<open>i --\<close>): the
  bytes held back are emitted as data and the character is data.
\<close>

definition mp_step :: "string \<Rightarrow> bool \<Rightarrow> char \<Rightarrow> multipart_parser \<Rightarrow> multipart_parser option" where
  "mp_step boundary is_last c p =
     (case mp_st p of
        mp_start \<Rightarrow> mp_do_start_boundary boundary c (mp_goto mp_start_boundary (p\<lparr>mp_index := 0\<rparr>))
      | mp_start_boundary \<Rightarrow> mp_do_start_boundary boundary c p
      | mp_header_field_start \<Rightarrow> mp_do_header_field is_last c (mp_goto mp_header_field (p\<lparr>mp_marked := []\<rparr>))
      | mp_header_field \<Rightarrow> mp_do_header_field is_last c p
      | mp_headers_almost_done \<Rightarrow> if c \<noteq> NL then None else Some (mp_goto mp_part_data_start p)
      | mp_header_value_start \<Rightarrow>
          if c = CHR '' '' then Some p
          else Some (mp_do_header_value is_last c (mp_goto mp_header_value (p\<lparr>mp_marked := []\<rparr>)))
      | mp_header_value \<Rightarrow> Some (mp_do_header_value is_last c p)
      | mp_header_value_almost_done \<Rightarrow> if c \<noteq> NL then None else Some (mp_goto mp_header_field_start p)
      | mp_part_data_start \<Rightarrow>
          Some (mp_do_part_data is_last c (mp_goto mp_part_data ((mp_emit On_headers_complete p)\<lparr>mp_marked := []\<rparr>)))
      | mp_part_data \<Rightarrow> Some (mp_do_part_data is_last c p)
      | mp_part_data_almost_boundary \<Rightarrow>
          if c = NL then
            Some ((mp_goto mp_part_data_boundary p)\<lparr>mp_lookbehind := take 1 (mp_lookbehind p) @ [NL], mp_index := 0\<rparr>)
          else Some (mp_do_part_data is_last c
                 (mp_goto mp_part_data ((mp_emit (On_part_data (take 1 (mp_lookbehind p))) p)\<lparr>mp_marked := []\<rparr>)))
      | mp_part_data_boundary \<Rightarrow>
          if mp_index p < length boundary \<and> boundary ! mp_index p = c then
            let p = p\<lparr>mp_lookbehind := take (2 + mp_index p) (mp_lookbehind p) @ [c], mp_index := mp_index p + 1\<rparr>
            in Some (if mp_index p = length boundary
                     then mp_goto mp_part_data_almost_end (mp_emit On_part_data_end p) else p)
          else Some (mp_do_part_data is_last c
                 (mp_goto mp_part_data
                   ((mp_emit (On_part_data (take (2 + mp_index p) (mp_lookbehind p))) p)\<lparr>mp_marked := []\<rparr>)))
      | mp_part_data_almost_end \<Rightarrow>
          if c = CHR ''-'' then Some (mp_goto mp_part_data_final_hyphen p)
          else if c = CR then Some (mp_goto mp_part_data_end p) else None
      | mp_part_data_final_hyphen \<Rightarrow>
          if c = CHR ''-'' then Some (mp_goto mp_end (mp_emit On_body_end p)) else None
      | mp_part_data_end \<Rightarrow>
          if c = NL then Some (mp_emit On_part_data_begin (mp_goto mp_header_field_start p)) else None
      | mp_end \<Rightarrow> Some p)"

text \<open>
  \<open>multipart_parser_execute\<close>: the number of characters parsed, and the parser with its calls.
\<close>

fun mp_execute_from :: "string \<Rightarrow> nat \<Rightarrow> string \<Rightarrow> multipart_parser \<Rightarrow> nat \<times> multipart_parser" where
  "mp_execute_from boundary i [] p = (i, p)"
| "mp_execute_from boundary i (c # cs) p =
     (case mp_step boundary (cs = []) c p of
        None \<Rightarrow> (i, p)
      | Some p' \<Rightarrow> mp_execute_from boundary (i + 1) cs p')"

definition multipart_parser_execute ::
    "string \<Rightarrow> multipart_parser \<Rightarrow> string \<Rightarrow> nat \<times> multipart_parser" where
  "multipart_parser_execute boundary p buf = mp_execute_from boundary 0 buf (p\<lparr>mp_marked := []\<rparr>)"

section \<open>The callbacks\<close>

record mp_userdata =
  ud_mp :: MultiPart
  ud_header_field :: string
  ud_header_value :: string
  ud_part_data :: string
  ud_name :: string
  ud_filename :: string

definition stricmp_eq0 :: "string \<Rightarrow> string \<Rightarrow> bool" where
  "stricmp_eq0 a b \<longleftrightarrow> strcasekey a = strcasekey b"

text \<open>One of the pieces of a \<open>Content-Disposition\<close> value.\<close>

definition handle_attr :: "string \<Rightarrow> mp_userdata \<Rightarrow> mp_userdata" where
  "handle_attr str ud =
     (case split (trim str '' '') (CHR ''='') of
        [key, v] \<Rightarrow>
          (let v = trim_pairs v [DQUOTE, DQUOTE, CHR 0x27, CHR 0x27] in
           if c_str key = ''name'' then ud\<lparr>ud_name := v\<rparr>
           else if c_str key = ''filename'' then ud\<lparr>ud_filename := v\<rparr> else ud)
      | _ \<Rightarrow> ud)"

definition handle_header :: "mp_userdata \<Rightarrow> mp_userdata" where
  "handle_header ud =
     (if ud_header_field ud = [] \<or> ud_header_value ud = [] then ud
      else (if stricmp_eq0 (ud_header_field ud) ''Content-Disposition''
            then fold handle_attr (split (ud_header_value ud) (CHR '';'')) ud else ud)
             \<lparr>ud_header_field := [], ud_header_value := []\<rparr>)"

definition handle_data :: "mp_userdata \<Rightarrow> mp_userdata" where
  "handle_data ud =
     (if ud_name ud \<noteq> []
      then ud\<lparr>ud_mp := mp_put (ud_name ud)
                \<lparr>form_filename = ud_filename ud, form_content = ud_part_data ud\<rparr> (ud_mp ud)\<rparr>
      else ud)\<lparr>ud_name := [], ud_filename := [], ud_part_data := []\<rparr>"

fun on_event :: "mp_event \<Rightarrow> mp_userdata \<Rightarrow> mp_userdata" where
  "on_event (On_header_field s) ud =
     (let ud = handle_header ud in ud\<lparr>ud_header_field := ud_header_field ud @ s\<rparr>)"
| "on_event (On_header_value s) ud = ud\<lparr>ud_header_value := ud_header_value ud @ s\<rparr>"
| "on_event (On_part_data s) ud = ud\<lparr>ud_part_data := ud_part_data ud @ s\<rparr>"
| "on_event On_part_data_begin ud = ud"
| "on_event On_headers_complete ud = handle_header ud"
| "on_event On_part_data_end ud = handle_data ud"
| "on_event On_body_end ud = ud"

definition parse_multipart :: "string \<Rightarrow> MultiPart \<Rightarrow> string \<Rightarrow> int \<times> MultiPart" where
  "parse_multipart str mp boundary =
     (case multipart_parser_execute (c_str (''--'' @ boundary)) multipart_parser_init str of
        (nparse, p) \<Rightarrow>
          (if nparse = length str then 0 else - 1,
           ud_mp (fold on_event (mp_events p)
             \<lparr>ud_mp = mp, ud_header_field = [], ud_header_value = [], ud_part_data = [],
              ud_name = [], ud_filename = []\<rparr>)))"

section \<open>Query strings: writing and reading\<close>

definition qp_ok :: "string \<times> string \<Rightarrow> bool" where
  "qp_ok p \<longleftrightarrow> fst p \<noteq> [] \<and> snd p \<noteq> [] \<and> no_nul (fst p) \<and> no_nul (snd p) \<and>
     (\<forall>c \<in> set (fst p @ snd p). (of_char c :: nat) < 128)"

definition escaped :: "string \<Rightarrow> string" where
  "escaped s = concat (map (\<lambda>c. if is_unambiguous c then [c] else the (print_hex c)) s)"

lemma escaped_ok:
  assumes "\<forall>c \<in> set s. (of_char c :: nat) < 128" "no_nul s"
  shows "url_escape s = Some (escaped s)" "url_unescape (escaped s) = s"
    "\<forall>c \<in> set (escaped s). c \<noteq> CHR ''&'' \<and> c \<noteq> CHR ''='' \<and> c \<noteq> CHR ''?'' \<and> c \<noteq> NUL"
proof -
  show "url_escape s = Some (escaped s)"
    using assms by (simp add: url_escape_def escaped_def url_escape_loop_Some)
  have chars: "\<forall>c \<in> set (escaped s). is_unambiguous c \<or> c = CHR ''%''"
    unfolding escaped_def by (rule escaped_chars[OF assms(1)])
  have "\<not> is_unambiguous c" if "c \<in> {CHR ''&'', CHR ''='', CHR ''?'', NUL}" for c
    using that by (elim insertE emptyE)
      (simp_all add: is_unambiguous_def IS_ALPHANUM_def IS_ALPHA_def IS_NUM_def less_eq_char_def)
  then show *: "\<forall>c \<in> set (escaped s). c \<noteq> CHR ''&'' \<and> c \<noteq> CHR ''='' \<and> c \<noteq> CHR ''?'' \<and> c \<noteq> NUL"
    using chars by fastforce
  then have "no_nul (escaped s)" by (auto simp: no_nul_def)
  then show "url_unescape (escaped s) = s"
    using assms by (simp add: url_unescape_def escaped_def url_unescape_loop_escaped del: set_concat)
qed

lemma escaped_nonempty: "s \<noteq> [] \<Longrightarrow> \<forall>c \<in> set s. (of_char c :: nat) < 128 \<Longrightarrow> escaped s \<noteq> []"
  by (cases s) (auto simp: escaped_def print_hex_def)

definition qp_text :: "string \<times> string \<Rightarrow> string" where
  "qp_text p = kv_text (CHR ''='') (escaped (fst p), escaped (snd p))"

lemma dump_query_loop_eq:
  "\<forall>p \<in> set ps. qp_ok p \<Longrightarrow>
   dump_query_loop ps q =
     Some (if ps = [] then q
           else if q = [] then join_with (CHR ''&'') (map qp_text ps)
           else q @ ''&'' @ join_with (CHR ''&'') (map qp_text ps))"
proof (induction ps arbitrary: q)
  case (Cons p ps)
  obtain k v where p: "p = (k, v)" by (cases p)
  have e: "url_escape k = Some (escaped k)" "url_escape v = Some (escaped v)"
    using Cons.prems by (auto simp: p qp_ok_def intro!: escaped_ok(1))
  show ?case
    using Cons e by (cases "ps = []") (simp_all add: p qp_text_def kv_text_def join_with_Cons)
qed simp

lemma qp_loop_key:
  assumes "kv_st st = s_key" "CHR ''&'' \<notin> set w" "CHR ''='' \<notin> set w"
  shows "qp_loop s p (w @ cs) st = qp_loop s (p + length w) cs (st\<lparr>key_len := key_len st + length w\<rparr>)"
  using assms by (induction w arbitrary: p st) (auto simp: qp_step_def)

lemma qp_loop_value:
  assumes "kv_st st = s_value" "CHR ''&'' \<notin> set w" "CHR ''='' \<notin> set w"
  shows "qp_loop s p (w @ cs) st = qp_loop s (p + length w) cs (st\<lparr>value_len := value_len st + length w\<rparr>)"
  using assms by (induction w arbitrary: p st) (auto simp: qp_step_def)

lemma qp_flush_pair:
  assumes "s = pre @ k @ CHR ''='' # v @ cs"
  shows "qp_flush s \<lparr>kv_st = st, kv_key = length pre, kv_val = Some (length pre + length k + 1),
            key_len = length k, value_len = length v, kv_kvs = m\<rparr> =
         Some \<lparr>kv_st = st, kv_key = length pre, kv_val = Some (length pre + length k + 1),
            key_len = 0, value_len = 0, kv_kvs = kv_put (url_unescape k) (url_unescape v) m\<rparr>"
  using assms by (simp add: qp_flush_def read_span_in)

definition clean :: "string \<Rightarrow> bool" where
  "clean w \<longleftrightarrow> w \<noteq> [] \<and> CHR ''&'' \<notin> set w \<and> CHR ''='' \<notin> set w"

lemma qp_loop_pair:
  assumes s: "s = pre @ k @ CHR ''='' # v @ cs" and ok: "clean k" "clean v"
  shows "qp_loop s (length pre) (k @ CHR ''='' # v @ cs) (kv_start (length pre) v0 m) =
         qp_loop s (length pre + length k + 1 + length v) cs
           \<lparr>kv_st = s_value, kv_key = length pre, kv_val = Some (length pre + length k + 1),
            key_len = length k, value_len = length v, kv_kvs = m\<rparr>"
  using ok by (simp add: clean_def qp_loop_key qp_loop_value kv_start_def qp_step_def)

lemma qp_loop_pairs:
  assumes "ps \<noteq> []" "\<forall>p \<in> set ps. clean (fst p) \<and> clean (snd p)"
    and "s = pre @ join_with (CHR ''&'') (map (kv_text (CHR ''='')) ps)"
  shows "map_option kv_kvs (qp_loop s (length pre)
            (join_with (CHR ''&'') (map (kv_text (CHR ''='')) ps)) (kv_start (length pre) v0 m)) =
         Some (fold (\<lambda>(k, v). kv_put (url_unescape k) (url_unescape v)) ps m)"
  using assms
proof (induction ps arbitrary: pre v0 m)
  case (Cons p ps)
  obtain k v where p: "p = (k, v)" by (cases p)
  have ok: "clean k" "clean v" using Cons.prems(2) by (auto simp: p)
  then have ne: "k \<noteq> []" "v \<noteq> []" by (auto simp: clean_def)
  show ?case
  proof (cases "ps = []")
    case True
    then have s: "s = pre @ k @ CHR ''='' # v @ []" using Cons.prems(3) by (simp add: p kv_text_def)
    have tx: "join_with (CHR ''&'') (map (kv_text (CHR ''='')) (p # ps)) = k @ CHR ''='' # v @ []"
      using True by (simp add: p kv_text_def)
    show ?thesis
      unfolding tx using True ne qp_flush_pair[OF s, of s_value m]
      by (subst qp_loop_pair[OF s ok]) (simp add: p)
  next
    case False
    let ?rest = "join_with (CHR ''&'') (map (kv_text (CHR ''='')) ps)"
    have tx: "join_with (CHR ''&'') (map (kv_text (CHR ''='')) (p # ps)) = k @ CHR ''='' # v @ CHR ''&'' # ?rest"
      using False by (simp add: p kv_text_def join_with_Cons)
    have s: "s = pre @ k @ CHR ''='' # v @ CHR ''&'' # ?rest" using Cons.prems(3) tx by simp
    have s': "s = (pre @ k @ CHR ''='' # v @ ''&'') @ ?rest" by (simp add: s)
    have "qp_loop s (length pre) (k @ CHR ''='' # v @ CHR ''&'' # ?rest) (kv_start (length pre) v0 m) =
          qp_loop s (length (pre @ k @ CHR ''='' # v @ ''&'')) ?rest
            (kv_start (length (pre @ k @ CHR ''='' # v @ ''&'')) (Some (length pre + length k + 1))
               (kv_put (url_unescape k) (url_unescape v) m))"
      using ne qp_flush_pair[OF s, of s_value m]
      by (subst qp_loop_pair[OF s ok]) (simp add: qp_step_def kv_start_def add.assoc)
    then show ?thesis
      unfolding tx using Cons.IH[OF False _ s', of "Some (length pre + length k + 1)"] Cons.prems(2)
      by (simp add: p)
  qed
qed simp

lemma put_last: "\<forall>q \<in> set m. lt (fst q) k \<Longrightarrow> comparator lt \<Longrightarrow> omap_put lt k v m = m @ [(k, v)]"
  by (induction m) (auto dest: comparator.asym)

lemma fold_put_sorted:
  assumes "comparator lt" "omap_inv lt (m @ ps)"
  shows "fold (\<lambda>(k, v). omap_put lt k v) ps m = m @ ps"
  using assms(2)
proof (induction ps arbitrary: m)
  case (Cons p ps)
  obtain k v where p: "p = (k, v)" by (cases p)
  have "\<forall>q \<in> set m. lt (fst q) k" using Cons.prems by (auto simp: omap_inv_def sorted_wrt_append p)
  then have "omap_put lt k v m = m @ [p]" using put_last[of m lt k v] assms(1) by (simp add: p)
  then show ?case using Cons.IH[of "m @ [p]"] Cons.prems by (simp add: p)
qed simp

text \<open>
  C30.  Query parameters survive writing and reading: for a map of non-empty ASCII keys and values,
  \<open>dump_query_params\<close> gives a text (also when a path and \<open>?\<close> are put in front of it) that
  \<open>parse_query_params\<close> reads back as exactly that map, and answers 0.  A parameter with an
  empty value is written but not read back (computed for \<open>a=\<close>).
\<close>

theorem query_params_roundtrip:
  assumes "omap_inv str_lt ps" "ps \<noteq> []" "\<forall>p \<in> set ps. qp_ok p" "no_nul path" "CHR ''?'' \<notin> set path"
  shows "\<exists>q. dump_query_params ps = Some q \<and> parse_query_params q [] = Some (0, ps) \<and>
     parse_query_params (path @ ''?'' @ q) [] = Some (0, ps) \<and>
     dump_query_params [(''k'', [])] = Some ''k='' \<and> parse_query_params ''k='' [] = Some (- 1, [])"
proof -
  let ?es = "map (\<lambda>p. (escaped (fst p), escaped (snd p))) ps"
  let ?q = "join_with (CHR ''&'') (map (kv_text (CHR ''='')) ?es)"
  have "map qp_text ps = map (kv_text (CHR ''='')) ?es" by (simp add: qp_text_def)
  then have q: "dump_query_params ps = Some ?q"
    using dump_query_loop_eq[OF assms(3), of "[]"] assms(2) by (simp only: dump_query_params_def refl if_False if_True simp_thms)
  have e: "\<forall>c \<in> set (escaped (fst p) @ escaped (snd p)).
        c \<noteq> CHR ''&'' \<and> c \<noteq> CHR ''='' \<and> c \<noteq> CHR ''?'' \<and> c \<noteq> NUL"
      "escaped (fst p) \<noteq> []" "escaped (snd p) \<noteq> []"
      "url_unescape (escaped (fst p)) = fst p" "url_unescape (escaped (snd p)) = snd p" if "p \<in> set ps" for p
    using that assms(3) escaped_ok[of "fst p"] escaped_ok[of "snd p"] escaped_nonempty[of "fst p"]
      escaped_nonempty[of "snd p"] unfolding qp_ok_def by auto
  have clean: "\<forall>p \<in> set ?es. clean (fst p) \<and> clean (snd p)"
    using e(1-3) by (fastforce simp: clean_def)
  have "set ?q \<subseteq> insert (CHR ''&'') (\<Union> (set ` set (map (kv_text (CHR ''='')) ?es)))"
    by (rule set_join_with)
  then have chars: "CHR ''?'' \<notin> set ?q" "no_nul ?q"
    using e(1) by (fastforce simp: kv_text_def no_nul_def)+
  have run: "map_option kv_kvs (qp_loop (pre @ ?q) (length pre) ?q
        \<lparr>kv_st = s_key, kv_key = length pre, kv_val = None, key_len = 0, value_len = 0, kv_kvs = []\<rparr>) = Some ps"
    for pre
  proof -
    have "fold (\<lambda>(k, v). kv_put (url_unescape k) (url_unescape v)) ?es [] = fold (\<lambda>(k, v). kv_put k v) ps []"
      using e(4,5) unfolding fold_map comp_def by (intro fold_cong) (auto simp: split_def)
    also have "\<dots> = ps"
      using fold_put_sorted[OF strmap.comparator_axioms, of "[]" ps] assms(1) by simp
    finally show ?thesis
      using qp_loop_pairs[OF _ clean refl, of pre None "[]"] assms(2) by (simp add: kv_start_def)
  qed
  have "find_idx (\<lambda>c. c = CHR ''?'') ?q = None" using chars(1) by (auto simp: find_idx_None)
  then have "parse_query_params ?q [] = Some (0, ps)"
    using run[of "[]"] chars(2) assms(2) by (auto simp: parse_query_params_def Let_def)
  moreover have "find_idx (\<lambda>c. c = CHR ''?'') (path @ CHR ''?'' # ?q) = Some (length path)"
    using assms(5) by (induction path) auto
  then have "parse_query_params (path @ ''?'' @ ?q) [] = Some (0, ps)"
    using run[of "path @ ''?''"] chars(2) assms(2,4) by (auto simp: parse_query_params_def Let_def)
  moreover have "dump_query_params [(''k'', [])] = Some ''k=''" "parse_query_params ''k='' [] = Some (- 1, [])"
    by code_simp+
  ultimately show ?thesis using q by blast
qed

theorem query_params_roundtrip_witness:
  "\<exists>q. dump_query_params [(''name'', ''a b''), (''page'', ''2'')] = Some q \<and>
     parse_query_params q [] = Some (0, [(''name'', ''a b''), (''page'', ''2'')])"
  using query_params_roundtrip[of "[(''name'', ''a b''), (''page'', ''2'')]" "''/x''"]
  by (auto simp: omap_inv_def str_lt_def qp_ok_def)

section \<open>Multipart forms: writing and reading\<close>

text \<open>
  \<open>feed B x rest p p'\<close>: reading \<open>x\<close> when \<open>rest\<close> is still to come takes the parser from \<open>p\<close> to \<open>p'\<close>.
\<close>

definition feed :: "string \<Rightarrow> string \<Rightarrow> string \<Rightarrow> multipart_parser \<Rightarrow> multipart_parser \<Rightarrow> bool" where
  "feed B x rest p p' \<longleftrightarrow>
     (\<forall>i. mp_execute_from B i (x @ rest) p = mp_execute_from B (i + length x) rest p')"

lemma feed_Nil [simp]: "feed B [] rest p p"
  by (simp add: feed_def)

lemma feed_app: "feed B x (y @ rest) p q \<Longrightarrow> feed B y rest q r \<Longrightarrow> feed B (x @ y) rest p r"
  by (simp add: feed_def add.assoc)

lemma feed_char: "mp_step B (rest = []) c p = Some q \<Longrightarrow> feed B [c] rest p q"
  by (simp add: feed_def)

lemma feed_Cons:
  "mp_step B (x @ rest = []) c p = Some q \<Longrightarrow> feed B x rest q r \<Longrightarrow> feed B (c # x) rest p r"
  by (simp add: feed_def)

lemma mp_fields [simp]:
  "mp_st (mp_goto s p) = s" "mp_index (mp_goto s p) = mp_index p" "mp_marked (mp_goto s p) = mp_marked p"
  "mp_events (mp_goto s p) = mp_events p" "mp_lookbehind (mp_goto s p) = mp_lookbehind p"
  "mp_st (mp_emit e p) = mp_st p" "mp_index (mp_emit e p) = mp_index p" "mp_marked (mp_emit e p) = mp_marked p"
  "mp_events (mp_emit e p) = mp_events p @ [e]" "mp_lookbehind (mp_emit e p) = mp_lookbehind p"
  by (simp_all add: mp_goto_def mp_emit_def)

text \<open>The first boundary, its end of line, and a header line.\<close>

lemma feed_boundary:
  assumes "mp_st p = mp_start_boundary" "mp_index p = length b" "B = b @ x"
  shows "feed B x rest p (p\<lparr>mp_index := length B\<rparr>)"
  using assms
proof (induction x arbitrary: p b)
  case (Cons c x)
  have "mp_step B (x @ rest = []) c p = Some (p\<lparr>mp_index := Suc (length b)\<rparr>)"
    using Cons.prems by (simp add: mp_step_def mp_do_start_boundary_def)
  moreover have "feed B x rest (p\<lparr>mp_index := Suc (length b)\<rparr>)
      ((p\<lparr>mp_index := Suc (length b)\<rparr>)\<lparr>mp_index := length B\<rparr>)"
    using Cons.prems by (intro Cons.IH[of _ "b @ [c]"]) simp_all
  ultimately show ?case by (auto intro: feed_Cons)
next
  case Nil
  then have "p\<lparr>mp_index := length B\<rparr> = p" by (cases p) simp
  then show ?case by simp
qed

lemma feed_field:
  assumes "mp_st p = mp_header_field" "\<forall>c \<in> set f. mp_header_char c \<and> c \<noteq> CR \<and> c \<noteq> CHR '':''" "rest \<noteq> []"
  shows "feed B f rest p (p\<lparr>mp_marked := mp_marked p @ f\<rparr>)"
  using assms
proof (induction f arbitrary: p)
  case (Cons c f)
  have "mp_step B (f @ rest = []) c p = Some (p\<lparr>mp_marked := mp_marked p @ [c]\<rparr>)"
    using Cons.prems by (simp add: mp_step_def mp_do_header_field_def Let_def)
  moreover have "feed B f rest (p\<lparr>mp_marked := mp_marked p @ [c]\<rparr>)
      ((p\<lparr>mp_marked := mp_marked p @ [c]\<rparr>)\<lparr>mp_marked := mp_marked (p\<lparr>mp_marked := mp_marked p @ [c]\<rparr>) @ f\<rparr>)"
    using Cons.prems by (intro Cons.IH) simp_all
  ultimately show ?case by (auto intro: feed_Cons)
qed simp

lemma feed_value:
  assumes "mp_st p = mp_header_value" "CR \<notin> set v" "rest \<noteq> []"
  shows "feed B v rest p (p\<lparr>mp_marked := mp_marked p @ v\<rparr>)"
  using assms
proof (induction v arbitrary: p)
  case (Cons c v)
  have "mp_step B (v @ rest = []) c p = Some (p\<lparr>mp_marked := mp_marked p @ [c]\<rparr>)"
    using Cons.prems by (auto simp: mp_step_def mp_do_header_value_def Let_def)
  moreover have "feed B v rest (p\<lparr>mp_marked := mp_marked p @ [c]\<rparr>)
      ((p\<lparr>mp_marked := mp_marked p @ [c]\<rparr>)\<lparr>mp_marked := mp_marked (p\<lparr>mp_marked := mp_marked p @ [c]\<rparr>) @ v\<rparr>)"
    using Cons.prems by (intro Cons.IH) simp_all
  ultimately show ?case by (auto intro: feed_Cons)
qed simp

lemma feed_header:
  assumes p: "mp_st p = mp_header_field_start"
    and f: "f \<noteq> []" "\<forall>c \<in> set f. mp_header_char c \<and> c \<noteq> CR \<and> c \<noteq> CHR '':''"
    and v: "v \<noteq> []" "hd v \<noteq> CHR '' ''" "CR \<notin> set v" and rest: "rest \<noteq> []"
  shows "\<exists>q. feed B (f @ '': '' @ v @ CRLF) rest p q \<and> mp_st q = mp_header_field_start \<and>
     mp_events q = mp_events p @ [On_header_field f, On_header_value v]"
proof -
  let ?p1 = "mp_goto mp_header_field (p\<lparr>mp_marked := []\<rparr>)"
  let ?p2 = "?p1\<lparr>mp_marked := f\<rparr>"
  let ?p3 = "mp_goto mp_header_value_start (mp_emit (On_header_field f) ?p2)"
  let ?p4 = "mp_goto mp_header_value (?p3\<lparr>mp_marked := []\<rparr>)"
  let ?p5 = "?p4\<lparr>mp_marked := v\<rparr>"
  let ?p6 = "mp_goto mp_header_value_almost_done (mp_emit (On_header_value v) ?p5)"
  let ?q = "mp_goto mp_header_field_start ?p6"
  have start: "mp_execute_from B i (f @ r) p = mp_execute_from B i (f @ r) ?p1" for i r
    using f p by (cases f) (simp_all add: mp_step_def mp_do_header_field_def Let_def)
  have "feed B f (('': '' @ v @ CRLF) @ rest) ?p1 ?p2"
    using feed_field[of ?p1 f] f by simp
  then have 1: "feed B f (('': '' @ v @ CRLF) @ rest) p ?p2"
    unfolding feed_def using start by simp
  have 2: "feed B '': '' ((v @ CRLF) @ rest) ?p2 ?p3"
    by (rule feed_Cons[where q = ?p3], simp add: mp_step_def mp_do_header_field_def,
        rule feed_Cons[where q = ?p3]) (simp_all add: mp_step_def)
  have vstart: "mp_execute_from B i (v @ r) ?p3 = mp_execute_from B i (v @ r) ?p4" for i r
    using v by (cases v) (simp_all add: mp_step_def)
  have "feed B v (CRLF @ rest) ?p4 ?p5"
    using feed_value[of ?p4 v "CRLF @ rest"] v by (simp add: CRLF_def)
  then have 3: "feed B v (CRLF @ rest) ?p3 ?p5"
    unfolding feed_def using vstart by simp
  have 4: "feed B CRLF rest ?p5 ?q"
    unfolding CRLF_def
    by (rule feed_Cons[where q = ?p6], simp add: mp_step_def mp_do_header_value_def,
        rule feed_Cons[where q = ?q]) (simp_all add: mp_step_def)
  have "feed B (f @ '': '' @ v @ CRLF) rest p ?q"
    using feed_app[OF 1 feed_app[OF 2 feed_app[OF 3 4]]] .
  then show ?thesis by (intro exI[of _ ?q]) simp
qed

text \<open>
  The data of a part: the parser finds the first line break followed by the boundary, and what it
  emits adds up to the data before it.
\<close>

definition data_events :: "mp_event list \<Rightarrow> string \<Rightarrow> bool" where
  "data_events es s \<longleftrightarrow> (\<exists>ss. es = map On_part_data ss \<and> concat ss = s)"

lemma data_events_Nil [simp]: "data_events [] []"
  by (simp add: data_events_def)

lemma data_events_Cons: "data_events es s \<Longrightarrow> data_events (On_part_data t # es) (t @ s)"
  unfolding data_events_def by (elim exE conjE, rule_tac x = "t # ss" in exI) simp

lemma feed_match:
  assumes "mp_st p = mp_part_data_boundary" "mp_index p = length b" "mp_lookbehind p = [CR, NL] @ b"
    "B = b @ x @ y" "x \<noteq> [] \<or> y \<noteq> []"
  shows "\<exists>q. feed B x rest p q \<and>
     (if y = [] then mp_st q = mp_part_data_almost_end \<and> mp_events q = mp_events p @ [On_part_data_end]
      else mp_st q = mp_part_data_boundary \<and> mp_events q = mp_events p \<and>
        mp_index q = length (b @ x) \<and> mp_lookbehind q = [CR, NL] @ b @ x)"
  using assms
proof (induction x arbitrary: p b)
  case Nil
  then show ?case by (intro exI[of _ p]) simp
next
  case (Cons c x)
  let ?p1 = "p\<lparr>mp_lookbehind := [CR, NL] @ b @ [c], mp_index := Suc (length b)\<rparr>"
  show ?case
  proof (cases "x = [] \<and> y = []")
    case True
    have "mp_step B (x @ rest = []) c p = Some (mp_goto mp_part_data_almost_end (mp_emit On_part_data_end ?p1))"
      using Cons.prems True by (simp add: mp_step_def Let_def)
    with True show ?thesis
      by (intro exI[of _ "mp_goto mp_part_data_almost_end (mp_emit On_part_data_end ?p1)"])
        (auto intro: feed_Cons)
  next
    case False
    have s: "mp_step B (x @ rest = []) c p = Some ?p1"
      using Cons.prems False by (auto simp: mp_step_def Let_def)
    obtain q where q: "feed B x rest ?p1 q"
      "if y = [] then mp_st q = mp_part_data_almost_end \<and> mp_events q = mp_events ?p1 @ [On_part_data_end]
      else mp_st q = mp_part_data_boundary \<and> mp_events q = mp_events ?p1 \<and>
        mp_index q = length ((b @ [c]) @ x) \<and> mp_lookbehind q = [CR, NL] @ (b @ [c]) @ x"
      using Cons.IH[of ?p1 "b @ [c]"] Cons.prems False by auto
    then show ?thesis
      using feed_Cons[OF s q(1)] by (intro exI[of _ q]) simp
  qed
qed

lemma common_prefix:
  assumes "\<not> prefix B w"
  obtains x y c where "B = x @ c # y" "w = x" | x y c d z where "B = x @ c # y" "w = x @ d # z" "c \<noteq> d"
proof -
  let ?x = "longest_common_prefix B w"
  obtain y where y: "B = ?x @ y" using longest_common_prefix_prefix1[of B w] by (auto simp: prefix_def)
  obtain z where z: "w = ?x @ z" using longest_common_prefix_prefix2[of B w] by (auto simp: prefix_def)
  have "y \<noteq> []" using y z assms by (metis append_Nil2 prefix_def)
  then obtain c y' where c: "y = c # y'" by (cases y) auto
  show thesis
  proof (cases z)
    case Nil
    then show thesis using that(1) y z c by (metis append_Nil2)
  next
    case (Cons d z')
    have "c \<noteq> d"
    proof
      assume "c = d"
      then have "prefix (?x @ [c]) B" "prefix (?x @ [c]) w"
        using y z c Cons by (metis append.assoc append_Cons append_Nil prefixI)+
      then have "prefix (?x @ [c]) ?x" by (rule longest_common_prefix_max_prefix)
      then show False by (metis length_append_singleton not_less_eq_eq prefix_length_le order_refl)
    qed
    then show thesis using that(2) y z c Cons by metis
  qed
qed

lemma feed_transfer:
  "(\<And>i. mp_execute_from B i (x @ rest) p = mp_execute_from B i (x @ rest) p') \<Longrightarrow>
   feed B x rest p' q \<Longrightarrow> feed B x rest p q"
  by (simp add: feed_def)

lemma feed_data:
  assumes B: "CR \<notin> set B" "B \<noteq> []" and rest: "rest \<noteq> []"
  shows "mp_st p = mp_part_data \<Longrightarrow> \<not> sublist (CRLF @ B) s \<Longrightarrow>
     \<exists>q es. feed B (s @ CRLF @ B) rest p q \<and> mp_st q = mp_part_data_almost_end \<and>
       mp_events q = mp_events p @ es @ [On_part_data_end] \<and> data_events es (mp_marked p @ s)"
proof (induction "length s" arbitrary: s p rule: less_induct)
  case less
  let ?cr = "(mp_goto mp_part_data_almost_boundary (mp_emit (On_part_data (mp_marked p)) p))
               \<lparr>mp_marked := [], mp_lookbehind := [CR]\<rparr>"
  let ?nl = "(mp_goto mp_part_data_boundary ?cr)\<lparr>mp_lookbehind := [CR, NL], mp_index := 0\<rparr>"
  have step_cr: "mp_step B last CR p = Some ?cr" for last
    using less.prems(1) by (simp add: mp_step_def mp_do_part_data_def)
  have nl: "mp_step B last NL ?cr = Some ?nl" for last
    by (simp add: mp_step_def)
  consider (Nil) "s = []" | (plain) c t where "s = c # t" "c \<noteq> CR" | (cr) t where "s = CR # t"
    by (cases s) auto
  then show ?case
  proof cases
    case Nil
    obtain q where q: "feed B B rest ?nl q" "mp_st q = mp_part_data_almost_end"
        "mp_events q = mp_events ?nl @ [On_part_data_end]"
      using feed_match[of ?nl "[]" B B "[]"] B(2) by auto
    have "feed B (s @ CRLF @ B) rest p q"
      unfolding Nil CRLF_def append_Nil append_Cons using feed_Cons[OF step_cr feed_Cons[OF nl q(1)]] .
    moreover have "data_events [On_part_data (mp_marked p)] (mp_marked p)"
      using data_events_Cons[OF data_events_Nil, of "mp_marked p"] by simp
    ultimately show ?thesis
      using q Nil by (intro exI[of _ q] exI[of _ "[On_part_data (mp_marked p)]"]) simp
  next
    case (plain c t)
    let ?p1 = "p\<lparr>mp_marked := mp_marked p @ [c]\<rparr>"
    have step: "mp_step B ((t @ CRLF @ B) @ rest = []) c p = Some ?p1"
      using less.prems(1) plain rest by (simp add: mp_step_def mp_do_part_data_def Let_def)
    have "\<not> sublist (CRLF @ B) t" using less.prems(2) plain by (simp add: sublist_Cons_right)
    then obtain q es where "feed B (t @ CRLF @ B) rest ?p1 q" "mp_st q = mp_part_data_almost_end"
        "mp_events q = mp_events p @ es @ [On_part_data_end]" "data_events es ((mp_marked p @ [c]) @ t)"
      using less.hyps[of t ?p1] less.prems(1) plain by auto
    then show ?thesis
      using feed_Cons[OF step] plain by (intro exI[of _ q] exI[of _ es]) auto
  next
    case (cr t)
    have nt: "\<not> sublist (CRLF @ B) t" using less.prems(2) cr by (simp add: sublist_Cons_right)
    show ?thesis
    proof (cases "\<exists>u. t = NL # u")
      case False
      let ?p1 = "mp_goto mp_part_data ((mp_emit (On_part_data [CR]) ?cr)\<lparr>mp_marked := []\<rparr>)"
      have hd: "t @ CRLF @ B = d # w \<Longrightarrow> d \<noteq> NL" for d w
        using False by (cases t) (auto simp: CRLF_def)
      have "mp_execute_from B i ((t @ CRLF @ B) @ rest) ?cr = mp_execute_from B i ((t @ CRLF @ B) @ rest) ?p1" for i
        using hd by (cases "t @ CRLF @ B") (auto simp: mp_step_def CRLF_def)
      then have tr: "feed B (t @ CRLF @ B) rest ?cr q" if "feed B (t @ CRLF @ B) rest ?p1 q" for q
        using that by (rule feed_transfer)
      obtain q es where q: "feed B (t @ CRLF @ B) rest ?p1 q" "mp_st q = mp_part_data_almost_end"
          "mp_events q = mp_events ?p1 @ es @ [On_part_data_end]" "data_events es (mp_marked ?p1 @ t)"
        using less.hyps[of t ?p1] cr nt by auto
      have "feed B (s @ CRLF @ B) rest p q"
        unfolding cr append_Cons using feed_Cons[OF step_cr tr[OF q(1)]] .
      moreover have "data_events (On_part_data (mp_marked p) # On_part_data [CR] # es) (mp_marked p @ [CR] @ t)"
        using q(4) by (intro data_events_Cons) simp
      ultimately show ?thesis
        using q(2,3) cr by (intro exI[of _ q] exI[of _ "On_part_data (mp_marked p) # On_part_data [CR] # es"]) simp
    next
      case True
      then obtain u where u: "t = NL # u" by blast
      have npre: "\<not> prefix B u"
      proof
        assume "prefix B u"
        then obtain z where "u = B @ z" by (auto simp: prefix_def)
        then have "s = [] @ (CRLF @ B) @ z" by (simp add: cr u CRLF_def)
        then show False using less.prems(2) sublist_appendI by metis
      qed
      obtain x c y u' where B': "B = x @ c # y" and u': "u = x @ u'"
        and c: "\<And>e w. u' @ CRLF @ B = e # w \<Longrightarrow> e \<noteq> c"
      proof (cases rule: common_prefix[OF npre])
        case (1 x y c)
        then have "c \<noteq> CR" using B(1) by auto
        then show thesis using 1 that[of x c y "[]"] by (auto simp: CRLF_def)
      next
        case (2 x y c d z)
        then show thesis using that[of x c y "d # z"] by auto
      qed
      obtain q where q: "feed B x ((u' @ CRLF @ B) @ rest) ?nl q" "mp_st q = mp_part_data_boundary"
          "mp_events q = mp_events ?nl" "mp_index q = length x" "mp_lookbehind q = [CR, NL] @ x"
        using feed_match[of ?nl "[]" B x "c # y"] B' by auto
      let ?p1 = "mp_goto mp_part_data ((mp_emit (On_part_data ([CR, NL] @ x)) q)\<lparr>mp_marked := []\<rparr>)"
      have "mp_execute_from B i ((u' @ CRLF @ B) @ rest) q = mp_execute_from B i ((u' @ CRLF @ B) @ rest) ?p1" for i
        using c q B' by (cases "u' @ CRLF @ B") (auto simp: mp_step_def CRLF_def nth_append)
      then have tr: "feed B (u' @ CRLF @ B) rest q r" if "feed B (u' @ CRLF @ B) rest ?p1 r" for r
        using that by (rule feed_transfer)
      have "\<not> sublist (CRLF @ B) u'"
        using nt unfolding u u' by (metis append_Cons append_Nil sublist_appendI sublist_order.order.trans append_Nil2)
      then obtain r es where r: "feed B (u' @ CRLF @ B) rest ?p1 r" "mp_st r = mp_part_data_almost_end"
          "mp_events r = mp_events ?p1 @ es @ [On_part_data_end]" "data_events es (mp_marked ?p1 @ u')"
        using less.hyps[of u' ?p1] cr u u' by auto
      have "feed B (x @ u' @ CRLF @ B) rest ?nl r"
        using feed_app[OF q(1) tr[OF r(1)]] .
      then have "feed B (s @ CRLF @ B) rest p r"
        unfolding cr u u' append_Cons append.assoc
        using feed_Cons[OF step_cr feed_Cons[OF nl]] by blast
      moreover have "data_events (On_part_data (mp_marked p) # On_part_data ([CR, NL] @ x) # es)
          (mp_marked p @ ([CR, NL] @ x) @ u')"
        using r(4) by (intro data_events_Cons) simp
      ultimately show ?thesis
        using r(2,3) q(3) cr u u'
        by (intro exI[of _ r] exI[of _ "On_part_data (mp_marked p) # On_part_data ([CR, NL] @ x) # es"]) simp
    qed
  qed
qed

text \<open>The parts a form may have so that it can be read back.\<close>

definition attr_text :: "string \<Rightarrow> bool" where
  "attr_text w \<longleftrightarrow> no_nul w \<and> CR \<notin> set w \<and> DQUOTE \<notin> set w \<and> CHR '';'' \<notin> set w \<and> CHR ''='' \<notin> set w"

definition part_ok :: "string \<Rightarrow> string \<times> FormData \<Rightarrow> bool" where
  "part_ok boundary p \<longleftrightarrow>
     fst p \<noteq> [] \<and> attr_text (fst p) \<and> length (fst p) \<le> 246 \<and>
     (form_filename (snd p) \<noteq> [] \<longrightarrow> form_content (snd p) \<noteq> [] \<and> attr_text (form_filename (snd p)) \<and>
        length (form_filename (snd p)) \<le> 242 \<and> basename (form_filename (snd p)) = form_filename (snd p)) \<and>
     \<not> sublist (CRLF @ ''--'' @ boundary) (form_content (snd p))"

definition disposition :: "string \<times> FormData \<Rightarrow> string list" where
  "disposition p = [''form-data'', '' name='' @ [DQUOTE] @ fst p @ [DQUOTE]] @
     (if form_filename (snd p) \<noteq> []
      then ['' filename='' @ [DQUOTE] @ form_filename (snd p) @ [DQUOTE]] else [])"

definition stype_of :: "string \<times> FormData \<Rightarrow> string" where
  "stype_of p = (if form_filename (snd p) = [] then []
     else case find_last_idx (\<lambda>c. c = CHR ''.'') (form_filename (snd p)) of
       None \<Rightarrow> [] | Some i \<Rightarrow> http_content_type_str_by_suffix (drop (i + 1) (form_filename (snd p))))"

definition header_lines :: "string \<times> FormData \<Rightarrow> string" where
  "header_lines p = ''Content-Disposition'' @ '': '' @ join_with (CHR '';'') (disposition p) @ CRLF @
     (if stype_of p \<noteq> [] then ''Content-Type'' @ '': '' @ stype_of p @ CRLF else [])"

definition part_text :: "string \<times> FormData \<Rightarrow> string" where
  "part_text p = header_lines p @ CRLF @ form_content (snd p)"

lemma attr_c_str: "attr_text w \<Longrightarrow> c_str w = w"
  by (simp add: attr_text_def)

lemma dump_part_text:
  assumes "part_ok boundary p"
  shows "dump_part readall boundary (fst p) (snd p) =
     (''--'' @ boundary @ CRLF @ part_text p @ CRLF, snd p)"
proof -
  have s1: "snprintf_256 (''; name='' @ [DQUOTE] @ fst p @ [DQUOTE]) = ''; name='' @ [DQUOTE] @ fst p @ [DQUOTE]"
    unfolding snprintf_256_def using assms by (intro take_all) (simp add: part_ok_def)
  show ?thesis
  proof (cases "form_filename (snd p) = []")
    case True
    then show ?thesis
      using assms s1 by (simp add: dump_part_def Let_def part_text_def header_lines_def disposition_def
          stype_of_def part_ok_def attr_c_str)
  next
    case False
    then have f: "form_content (snd p) \<noteq> []" "attr_text (form_filename (snd p))" "attr_text (fst p)"
      "basename (form_filename (snd p)) = form_filename (snd p)" "length (form_filename (snd p)) \<le> 242"
      using assms by (simp_all add: part_ok_def)
    then have s2: "snprintf_256 (''; filename='' @ [DQUOTE] @ form_filename (snd p) @ [DQUOTE]) =
        ''; filename='' @ [DQUOTE] @ form_filename (snd p) @ [DQUOTE]"
      unfolding snprintf_256_def by (intro take_all) simp
    have "dump_content_type (form_filename (snd p)) =
        (if stype_of p \<noteq> [] then CRLF @ ''Content-Type: '' @ stype_of p else [])"
      using False f(2) by (auto simp: dump_content_type_def stype_of_def attr_c_str Let_def split: option.split)
    then show ?thesis
      using False f s1 s2 by (simp add: dump_part_def Let_def part_text_def header_lines_def disposition_def
          attr_c_str)
  qed
qed

lemma dump_multipart_text:
  assumes "\<forall>p \<in> set mp. part_ok boundary p"
  shows "dump_multipart readall mp boundary =
    (concat (map (\<lambda>p. ''--'' @ boundary @ CRLF @ part_text p @ CRLF) mp) @ ''--'' @ boundary @ ''--'', mp)"
proof -
  have "dump_parts readall boundary mp str =
      (str @ concat (map (\<lambda>p. ''--'' @ boundary @ CRLF @ part_text p @ CRLF) mp), mp)" for str
    using assms
  proof (induction mp arbitrary: str)
    case (Cons p mp)
    then show ?case using dump_part_text[of boundary p readall] by (cases p) simp
  qed simp
  from this[of "[]"] show ?thesis by (simp add: dump_multipart_def)
qed

text \<open>What the callbacks make of the headers.\<close>

lemma split_join:
  assumes "ws \<noteq> []" "\<forall>w \<in> set ws. d \<notin> set w \<and> no_nul w" "d \<noteq> NUL"
  shows "split (join_with d ws) d = ws"
proof -
  have "no_nul (join_with d ws)"
    using assms set_join_with[of d ws] by (fastforce simp: no_nul_def)
  then show ?thesis using assms split_from_join[of ws d "[]"] by (simp add: split_def)
qed

lemma handle_attr_quoted:
  assumes "attr_text v" "key \<in> {''name'', ''filename''}"
  shows "handle_attr (CHR '' '' # key @ ''='' @ [DQUOTE] @ v @ [DQUOTE]) ud =
    (if key = ''name'' then ud\<lparr>ud_name := v\<rparr> else ud\<lparr>ud_filename := v\<rparr>)"
proof -
  have q: "DQUOTE \<noteq> CHR '' ''" "DQUOTE \<noteq> NUL" "DQUOTE \<noteq> CHR ''=''" by (simp_all add: DQUOTE_def)
  have "trim (CHR '' '' # key @ ''='' @ [DQUOTE] @ v @ [DQUOTE]) '' '' = join_with (CHR ''='') [key, DQUOTE # v @ [DQUOTE]]"
    using assms(2) q by (auto simp: trim_trimL_trimR trimL_eq trimR_eq)
  moreover have "split (join_with (CHR ''='') [key, DQUOTE # v @ [DQUOTE]]) (CHR ''='') = [key, DQUOTE # v @ [DQUOTE]]"
    using assms q by (intro split_join) (auto simp: attr_text_def)
  moreover have "trim_pairs (DQUOTE # v @ [DQUOTE]) [DQUOTE, DQUOTE, CHR 0x27, CHR 0x27] = v"
    using q by (simp add: trim_pairs_def c_str_def substr_def)
  moreover have "c_str key = key" using assms(2) by auto
  ultimately show ?thesis using assms(2) by (auto simp: handle_attr_def)
qed

lemma handle_attrs:
  assumes "part_ok boundary p"
  shows "fold handle_attr (split (join_with (CHR '';'') (disposition p)) (CHR '';'')) ud =
    (let ud = ud\<lparr>ud_name := fst p\<rparr> in
     if form_filename (snd p) \<noteq> [] then ud\<lparr>ud_filename := form_filename (snd p)\<rparr> else ud)"
proof -
  have q: "DQUOTE \<noteq> CHR '';''" "DQUOTE \<noteq> NUL" by (simp_all add: DQUOTE_def)
  have a: "attr_text (fst p)" "form_filename (snd p) \<noteq> [] \<Longrightarrow> attr_text (form_filename (snd p))"
    using assms by (auto simp: part_ok_def)
  have "split (join_with (CHR '';'') (disposition p)) (CHR '';'') = disposition p"
    using a q by (intro split_join) (auto simp: disposition_def attr_text_def)
  moreover have "handle_attr ''form-data'' ud = ud" for ud
  proof -
    have "split (trim ''form-data'' '' '') (CHR ''='') = [''form-data'']" by code_simp
    then show ?thesis by (simp add: handle_attr_def)
  qed
  ultimately show ?thesis
    using handle_attr_quoted[OF a(1), of "''name''"] handle_attr_quoted[OF a(2), of "''filename''"]
    by (simp add: disposition_def Let_def)
qed

definition blank :: "mp_userdata \<Rightarrow> bool" where
  "blank ud \<longleftrightarrow> ud_header_field ud = [] \<and> ud_header_value ud = [] \<and> ud_part_data ud = [] \<and>
     ud_name ud = [] \<and> ud_filename ud = []"

definition header_events :: "string \<times> FormData \<Rightarrow> mp_event list" where
  "header_events p = [On_header_field ''Content-Disposition'', On_header_value (join_with (CHR '';'') (disposition p))] @
     (if stype_of p \<noteq> [] then [On_header_field ''Content-Type'', On_header_value (stype_of p)] else [])"

lemma disposition_nonempty [simp]: "join_with (CHR '';'') (disposition p) \<noteq> []"
  by (simp add: disposition_def)

lemma fold_headers:
  assumes "part_ok boundary p" "blank ud"
  shows "fold on_event (header_events p @ [On_headers_complete]) ud =
    ud\<lparr>ud_name := fst p, ud_filename := form_filename (snd p)\<rparr>"
proof -
  let ?ud = "ud\<lparr>ud_header_field := ''Content-Disposition'', ud_header_value := join_with (CHR '';'') (disposition p)\<rparr>"
  have same: "stricmp_eq0 ''Content-Disposition'' ''Content-Disposition''" by (simp add: stricmp_eq0_def)
  have diff: "\<not> stricmp_eq0 ''Content-Type'' ''Content-Disposition''" by (simp add: stricmp_eq0_def) code_simp
  have h: "handle_header ?ud = ud\<lparr>ud_name := fst p, ud_filename := form_filename (snd p)\<rparr>"
    using assms(2) handle_attrs[OF assms(1), of ?ud] same
    by (cases ud) (auto simp: handle_header_def blank_def Let_def)
  have b: "handle_header ud = ud" using assms(2) by (simp add: handle_header_def blank_def)
  have t: "handle_header (ud\<lparr>ud_name := n, ud_filename := f, ud_header_field := ''Content-Type'', ud_header_value := v\<rparr>) =
      ud\<lparr>ud_name := n, ud_filename := f\<rparr>" if "v \<noteq> []" for n f v
    using that assms(2) diff by (cases ud) (simp add: handle_header_def blank_def)
  show ?thesis
    using h b t[of "stype_of p"] assms(2) by (auto simp: header_events_def Let_def blank_def)
qed

lemma fold_data_events: "data_events es s \<Longrightarrow> fold on_event es ud = ud\<lparr>ud_part_data := ud_part_data ud @ s\<rparr>"
proof -
  assume "data_events es s"
  then obtain ss where "es = map On_part_data ss" "concat ss = s" by (auto simp: data_events_def)
  moreover have "fold on_event (map On_part_data ss) ud = ud\<lparr>ud_part_data := ud_part_data ud @ concat ss\<rparr>"
    by (induction ss arbitrary: ud) simp_all
  ultimately show ?thesis by simp
qed

lemma stype_ok: "stype_of p \<noteq> [] \<Longrightarrow> hd (stype_of p) \<noteq> CHR '' '' \<and> CR \<notin> set (stype_of p)"
proof -
  assume ne: "stype_of p \<noteq> []"
  have "\<forall>(t, s, x) \<in> set HTTP_CONTENT_TYPE_MAP. hd s \<noteq> CHR '' '' \<and> CR \<notin> set s"
    unfolding HTTP_CONTENT_TYPE_MAP_def by code_simp
  moreover obtain w where w: "stype_of p = http_content_type_str_by_suffix w"
    using ne by (auto simp: stype_of_def split: if_splits option.splits)
  then obtain t x where "(t, stype_of p, x) \<in> set HTTP_CONTENT_TYPE_MAP"
    using ne by (auto simp: http_content_type_str_by_suffix_def find_Some_iff split: if_splits option.splits
        dest: nth_mem)
  ultimately show ?thesis by auto
qed

lemma feed_headers:
  assumes "part_ok boundary p" "mp_st m = mp_header_field_start" "rest \<noteq> []"
  shows "\<exists>q. feed B (header_lines p) rest m q \<and> mp_st q = mp_header_field_start \<and>
    mp_events q = mp_events m @ header_events p"
proof -
  have cd: "\<forall>c \<in> set ''Content-Disposition''. mp_header_char c \<and> c \<noteq> CR \<and> c \<noteq> CHR '':''"
    "\<forall>c \<in> set ''Content-Type''. mp_header_char c \<and> c \<noteq> CR \<and> c \<noteq> CHR '':''"
    by (simp_all add: mp_header_char_def tolower_c_def less_eq_char_def)
  have v: "hd (join_with (CHR '';'') (disposition p)) \<noteq> CHR '' ''" "CR \<notin> set (join_with (CHR '';'') (disposition p))"
    using assms(1) by (auto simp: disposition_def part_ok_def attr_text_def DQUOTE_def)
  let ?ct = "if stype_of p \<noteq> [] then ''Content-Type'' @ '': '' @ stype_of p @ CRLF else []"
  obtain q where q: "feed B (''Content-Disposition'' @ '': '' @ join_with (CHR '';'') (disposition p) @ CRLF) (?ct @ rest) m q"
      "mp_st q = mp_header_field_start"
      "mp_events q = mp_events m @ [On_header_field ''Content-Disposition'', On_header_value (join_with (CHR '';'') (disposition p))]"
    using feed_header[OF assms(2) _ cd(1) disposition_nonempty v, of "?ct @ rest" B] assms(3) by auto
  show ?thesis
  proof (cases "stype_of p = []")
    case True
    with q show ?thesis by (intro exI[of _ q]) (simp add: header_lines_def header_events_def)
  next
    case False
    then obtain r where r: "feed B (''Content-Type'' @ '': '' @ stype_of p @ CRLF) rest q r"
        "mp_st r = mp_header_field_start"
        "mp_events r = mp_events q @ [On_header_field ''Content-Type'', On_header_value (stype_of p)]"
      using feed_header[OF q(2) _ cd(2), of "stype_of p" rest B] stype_ok[of p] assms(3) by auto
    have ct: "?ct = ''Content-Type'' @ '': '' @ stype_of p @ CRLF"
      using False by (simp only: not_False_eq_True if_True)
    have hl: "header_lines p = (''Content-Disposition'' @ '': '' @ join_with (CHR '';'') (disposition p) @ CRLF) @ ?ct"
      unfolding header_lines_def append.assoc ..
    have "feed B ((''Content-Disposition'' @ '': '' @ join_with (CHR '';'') (disposition p) @ CRLF) @ ?ct) rest m r"
      using feed_app[OF q(1)] r(1) unfolding ct by blast
    then have "feed B (header_lines p) rest m r" unfolding hl .
    with q(3) r(2,3) False show ?thesis by (intro exI[of _ r]) (simp add: header_events_def)
  qed
qed

text \<open>One part of a form, from its headers to the boundary after it.\<close>

lemma part_run:
  assumes ok: "part_ok boundary p" and B: "B = ''--'' @ boundary" "CR \<notin> set boundary"
    and m: "mp_st m = mp_header_field_start" and rest: "rest \<noteq> []"
  shows "\<exists>q es. feed B (part_text p @ CRLF @ B) rest m q \<and> mp_st q = mp_part_data_almost_end \<and>
     mp_events q = mp_events m @ header_events p @ [On_headers_complete] @ es @ [On_part_data_end] \<and>
     data_events es (form_content (snd p))"
proof -
  let ?data = "form_content (snd p) @ CRLF @ B"
  obtain q where q: "feed B (header_lines p) ((CRLF @ ?data) @ rest) m q" "mp_st q = mp_header_field_start"
      "mp_events q = mp_events m @ header_events p"
    using feed_headers[OF ok m, of "(CRLF @ ?data) @ rest" B] rest by blast
  let ?q1 = "mp_goto mp_headers_almost_done (mp_goto mp_header_field (q\<lparr>mp_marked := []\<rparr>))"
  let ?q2 = "mp_goto mp_part_data_start ?q1"
  let ?q3 = "mp_goto mp_part_data ((mp_emit On_headers_complete ?q2)\<lparr>mp_marked := []\<rparr>)"
  have crlf: "feed B CRLF (?data @ rest) q ?q2"
    unfolding CRLF_def
    by (rule feed_Cons[where q = ?q1], simp add: mp_step_def mp_do_header_field_def q(2),
        rule feed_Cons[where q = ?q2]) (simp_all add: mp_step_def)
  have "mp_execute_from B i (?data @ rest) ?q2 = mp_execute_from B i (?data @ rest) ?q3" for i
    by (cases "?data @ rest") (simp_all add: mp_step_def CRLF_def)
  then have start: "feed B ?data rest ?q2 r" if "feed B ?data rest ?q3 r" for r
    using that by (rule feed_transfer)
  have "\<not> sublist (CRLF @ B) (form_content (snd p))" using ok by (simp add: part_ok_def B)
  moreover have "CR \<notin> set B" "B \<noteq> []" using B by auto
  ultimately obtain r es where r: "feed B ?data rest ?q3 r" "mp_st r = mp_part_data_almost_end"
      "mp_events r = mp_events ?q3 @ es @ [On_part_data_end]" "data_events es (mp_marked ?q3 @ form_content (snd p))"
    using feed_data[of B rest ?q3 "form_content (snd p)"] rest by auto
  have "feed B (part_text p @ CRLF @ B) rest m r"
    using feed_app[OF q(1) feed_app[OF crlf start[OF r(1)]]] by (simp only: part_text_def append.assoc)
  with r q(3) show ?thesis by (intro exI[of _ r] exI[of _ es]) simp
qed

lemma fold_part:
  assumes "part_ok boundary p" "blank ud" "data_events es (form_content (snd p))"
  shows "fold on_event (On_part_data_begin # header_events p @ [On_headers_complete] @ es @ [On_part_data_end]) ud =
    ud\<lparr>ud_mp := mp_put (fst p) (snd p) (ud_mp ud)\<rparr>"
proof -
  have "fold on_event (On_part_data_begin # header_events p @ [On_headers_complete] @ es @ [On_part_data_end]) ud =
      handle_data (fold on_event es (fold on_event (header_events p @ [On_headers_complete]) ud))"
    by simp
  also have "\<dots> = handle_data (ud\<lparr>ud_name := fst p, ud_filename := form_filename (snd p),
                                  ud_part_data := form_content (snd p)\<rparr>)"
    using fold_headers[OF assms(1,2)] fold_data_events[OF assms(3)] assms(2)
    by (simp add: blank_def del: fold_append)
  also have "\<dots> = ud\<lparr>ud_mp := mp_put (fst p) (snd p) (ud_mp ud)\<rparr>"
    using assms(1,2) by (cases ud; cases "snd p") (simp add: handle_data_def part_ok_def blank_def)
  finally show ?thesis .
qed

definition form_tail :: "string \<Rightarrow> MultiPart \<Rightarrow> string" where
  "form_tail B ps = concat (map (\<lambda>p. CRLF @ part_text p @ CRLF @ B) ps) @ ''--''"

lemma form_text:
  "concat (map (\<lambda>p. B @ CRLF @ part_text p @ CRLF) ps) @ B @ ''--'' = B @ form_tail B ps"
  by (induction ps) (simp_all add: form_tail_def)

lemma parts_run:
  assumes "\<forall>p \<in> set ps. part_ok boundary p" "B = ''--'' @ boundary" "CR \<notin> set boundary"
    and "mp_st m = mp_part_data_almost_end" "blank (fold on_event (mp_events m) ud)"
  shows "\<exists>q. mp_execute_from B i (form_tail B ps) m = (i + length (form_tail B ps), q) \<and>
     ud_mp (fold on_event (mp_events q) ud) =
       fold (\<lambda>(k, v). mp_put k v) ps (ud_mp (fold on_event (mp_events m) ud))"
  using assms(1,4,5)
proof (induction ps arbitrary: i m)
  case Nil
  then show ?case by (simp add: form_tail_def mp_step_def)
next
  case (Cons p ps)
  let ?m1 = "mp_goto mp_part_data_end m"
  let ?m2 = "mp_emit On_part_data_begin (mp_goto mp_header_field_start ?m1)"
  have ok: "part_ok boundary p" "\<forall>p \<in> set ps. part_ok boundary p" using Cons.prems(1) by auto
  have tail: "form_tail B (p # ps) = CRLF @ (part_text p @ CRLF @ B) @ form_tail B ps"
    by (simp add: form_tail_def)
  have ne: "form_tail B ps \<noteq> []" by (simp add: form_tail_def)
  have 1: "feed B CRLF ((part_text p @ CRLF @ B) @ form_tail B ps) m ?m2"
    unfolding CRLF_def
    by (rule feed_Cons[where q = ?m1], simp add: mp_step_def Cons.prems(2),
        rule feed_Cons[where q = ?m2]) (simp_all add: mp_step_def)
  have "mp_st ?m2 = mp_header_field_start" by simp
  then obtain q es where q: "feed B (part_text p @ CRLF @ B) (form_tail B ps) ?m2 q"
      "mp_st q = mp_part_data_almost_end"
      "mp_events q = mp_events ?m2 @ header_events p @ [On_headers_complete] @ es @ [On_part_data_end]"
      "data_events es (form_content (snd p))"
    using part_run[OF ok(1) assms(2,3) _ ne] by blast
  let ?U = "fold on_event (mp_events m) ud"
  have "mp_events q = mp_events m @ On_part_data_begin # header_events p @ [On_headers_complete] @ es @ [On_part_data_end]"
    using q(3) by simp
  then have U: "fold on_event (mp_events q) ud = ?U\<lparr>ud_mp := mp_put (fst p) (snd p) (ud_mp ?U)\<rparr>"
    using fold_part[OF ok(1) Cons.prems(3) q(4)] by (simp only: fold_append comp_apply)
  then have bl: "blank (fold on_event (mp_events q) ud)" using Cons.prems(3) by (simp add: blank_def)
  have "mp_execute_from B i (form_tail B (p # ps)) m =
      mp_execute_from B (i + length (CRLF @ part_text p @ CRLF @ B)) (form_tail B ps) q"
    using feed_app[OF 1 q(1)] unfolding tail feed_def append.assoc by blast
  moreover have "length (form_tail B (p # ps)) = length (CRLF @ part_text p @ CRLF @ B) + length (form_tail B ps)"
    by (simp add: tail)
  ultimately show ?case
    using Cons.IH[OF ok(2) q(2) bl, of "i + length (CRLF @ part_text p @ CRLF @ B)"] U
    by (cases p) (auto simp: add.assoc)
qed

text \<open>
  C2.  Forms survive the wire: for a non-empty form whose names and file
  names are plain text that fits the 256-byte buffers (a file name without a directory, its part not empty)
  and whose contents do not contain the delimiter, the text that
  \<open>dump_multipart\<close> writes is consumed completely by the parser, and \<open>parse_multipart\<close> with the
  same boundary answers 0 and rebuilds exactly the form, contents of any bytes included (carriage
  returns, dashes and pieces of the boundary).  The empty form is written as a text that is
  refused.
\<close>

theorem multipart_roundtrip:
  assumes "omap_inv str_lt mp" "mp \<noteq> []" "\<forall>p \<in> set mp. part_ok boundary p"
    and "no_nul boundary" "CR \<notin> set boundary"
  shows "snd (dump_multipart readall mp boundary) = mp \<and>
     parse_multipart (fst (dump_multipart readall mp boundary)) [] boundary = (0, mp) \<and>
     parse_multipart (fst (dump_multipart readall [] boundary)) [] boundary = (- 1, [])"
proof -
  let ?B = "''--'' @ boundary"
  let ?ud = "\<lparr>ud_mp = [], ud_header_field = [], ud_header_value = [], ud_part_data = [],
              ud_name = [], ud_filename = []\<rparr>"
  obtain p ps where mp: "mp = p # ps" using assms(2) by (cases mp) auto
  have cB: "c_str ?B = ?B" using assms(4) by simp
  let ?m = "(mp_goto mp_start_boundary multipart_parser_init)\<lparr>mp_index := length ?B\<rparr>"
  have start: "mp_execute_from ?B 0 (?B @ r) multipart_parser_init = mp_execute_from ?B (length ?B) r ?m" for r
  proof -
    have "mp_execute_from ?B 0 (?B @ r) multipart_parser_init =
        mp_execute_from ?B 0 (?B @ r) (mp_goto mp_start_boundary multipart_parser_init)"
      by (simp add: mp_step_def multipart_parser_init_def mp_goto_def mp_do_start_boundary_def)
    then show ?thesis
      using feed_boundary[of "mp_goto mp_start_boundary multipart_parser_init" "[]" ?B ?B r]
      by (simp only: feed_def multipart_parser_init_def mp_goto_def) simp
  qed
  have init: "multipart_parser_init\<lparr>mp_marked := []\<rparr> = multipart_parser_init"
    by (simp add: multipart_parser_init_def)
  let ?rest = "part_text p @ CRLF @ ?B @ form_tail ?B ps"
  have written: "dump_multipart readall mp boundary = (?B @ CRLF @ ?rest, mp)"
  proof -
    have "dump_multipart readall mp boundary = (?B @ form_tail ?B mp, mp)"
      unfolding dump_multipart_text[OF assms(3)] using form_text[of ?B mp] by simp
    then show ?thesis by (simp add: mp form_tail_def)
  qed
  let ?m1 = "?m\<lparr>mp_index := length ?B + 1\<rparr>"
  let ?m2 = "mp_goto mp_header_field_start (mp_emit On_part_data_begin (?m1\<lparr>mp_index := 0\<rparr>))"
  have 1: "feed ?B CRLF ((part_text p @ CRLF @ ?B) @ form_tail ?B ps) ?m ?m2"
    unfolding CRLF_def
    by (rule feed_Cons[where q = ?m1], simp add: mp_step_def mp_do_start_boundary_def mp_goto_def,
        rule feed_Cons[where q = ?m2]) (simp_all add: mp_step_def mp_do_start_boundary_def mp_goto_def mp_emit_def)
  have ok: "part_ok boundary p" "\<forall>p \<in> set ps. part_ok boundary p" using assms(3) mp by auto
  have st: "mp_st ?m2 = mp_header_field_start" and ne: "form_tail ?B ps \<noteq> []" by (simp_all add: form_tail_def)
  obtain q es where q: "feed ?B (part_text p @ CRLF @ ?B) (form_tail ?B ps) ?m2 q"
      "mp_st q = mp_part_data_almost_end"
      "mp_events q = mp_events ?m2 @ header_events p @ [On_headers_complete] @ es @ [On_part_data_end]"
      "data_events es (form_content (snd p))"
    using part_run[OF ok(1) refl assms(5) st ne] by blast
  have "mp_events q = On_part_data_begin # header_events p @ [On_headers_complete] @ es @ [On_part_data_end]"
    using q(3) by (simp add: mp_goto_def mp_emit_def multipart_parser_init_def)
  moreover have "blank ?ud" by (simp add: blank_def)
  ultimately have U: "fold on_event (mp_events q) ?ud = ?ud\<lparr>ud_mp := mp_put (fst p) (snd p) []\<rparr>"
    using fold_part[OF ok(1) _ q(4), of ?ud] by (simp only:) simp
  then have bl: "blank (fold on_event (mp_events q) ?ud)" by (simp add: blank_def)
  let ?n = "length ?B + length (CRLF @ part_text p @ CRLF @ ?B)"
  obtain r where r: "mp_execute_from ?B ?n (form_tail ?B ps) q = (?n + length (form_tail ?B ps), r)"
      "ud_mp (fold on_event (mp_events r) ?ud) =
         fold (\<lambda>(k, v). mp_put k v) ps (ud_mp (fold on_event (mp_events q) ?ud))"
    using parts_run[OF ok(2) refl assms(5) q(2) bl] by blast
  have "fold (\<lambda>(k, v). mp_put k v) mp [] = mp"
    using fold_put_sorted[OF strmap.comparator_axioms, of "[]" mp] assms(1) by simp
  then have "ud_mp (fold on_event (mp_events r) ?ud) = mp"
    using r(2) U by (cases p) (simp add: mp)
  moreover have "mp_execute_from ?B 0 (?B @ CRLF @ ?rest) multipart_parser_init = (length (?B @ CRLF @ ?rest), r)"
  proof -
    let ?t = "(CRLF @ part_text p @ CRLF @ ?B) @ form_tail ?B ps"
    have "mp_execute_from ?B (length ?B) ?t ?m = mp_execute_from ?B ?n (form_tail ?B ps) q"
      using feed_app[OF 1 q(1)] unfolding feed_def by blast
    then have run: "mp_execute_from ?B 0 (?B @ ?t) multipart_parser_init = (?n + length (form_tail ?B ps), r)"
      using start[of ?t] r(1) by (simp only:)
    have "?B @ CRLF @ ?rest = ?B @ ?t" by (simp only: append.assoc)
    moreover have "?n + length (form_tail ?B ps) = length (?B @ ?t)" by simp
    ultimately show ?thesis using run by (simp only:)
  qed
  ultimately have good: "parse_multipart (?B @ CRLF @ ?rest) [] boundary = (0, mp)"
    unfolding parse_multipart_def multipart_parser_execute_def cB init by (simp only: prod.case refl if_True)
  have "dump_multipart readall [] boundary = (?B @ ''--'', [])" by (simp add: dump_multipart_def)
  moreover have "mp_execute_from ?B 0 (?B @ ''--'') multipart_parser_init = (length ?B, ?m)"
    unfolding start by (simp add: mp_step_def mp_do_start_boundary_def mp_goto_def)
  then have "parse_multipart (?B @ ''--'') [] boundary = (- 1, [])"
    unfolding parse_multipart_def multipart_parser_execute_def cB init
    by (simp add: mp_goto_def multipart_parser_init_def)
  ultimately show ?thesis using good written by (simp only: fst_conv snd_conv simp_thms)
qed

theorem multipart_roundtrip_witness:
  "let mp = [(''file'', \<lparr>form_filename = ''a.txt'', form_content = [CR, NL] @ ''--x''\<rparr>),
             (''user'', \<lparr>form_filename = [], form_content = []\<rparr>)]
   in parse_multipart (fst (dump_multipart (\<lambda>_. None) mp ''xyz'')) [] ''xyz'' = (0, mp)"
proof -
  let ?mp = "[(''file'', \<lparr>form_filename = ''a.txt'', form_content = [CR, NL] @ ''--x''\<rparr>),
             (''user'', \<lparr>form_filename = [], form_content = []\<rparr>)]"
  have "omap_inv str_lt ?mp" by (simp add: omap_inv_def str_lt_def)
  moreover have "\<forall>p \<in> set ?mp. part_ok ''xyz'' p"
    by (simp add: part_ok_def) (intro conjI; code_simp)
  moreover have "no_nul ''xyz''" "CR \<notin> set ''xyz''" by simp_all
  ultimately show ?thesis using multipart_roundtrip[of ?mp "''xyz''" "\<lambda>_. None"] by (simp only: Let_def) simp
qed

end
