(* ===== verification/HttpService.thy ===== *)
theory HttpService
  imports HttpContent
begin

text \<open>
  \<open>http/server/HttpService.cpp\<close>: the table of API handlers (a map from paths to lists of
  methods with their handlers), and the two lookups, by exact path and with wildcards and
  RESTful fields.  Handlers are abstract; an empty \<open>std::function\<close> is \<open>None\<close>.
\<close>

section \<open>The table\<close>

record ('s, 'a) http_method_handler =
  mh_method :: nat
  mh_sync :: "'s option"
  mh_async :: "'a option"

type_synonym ('s, 'a) http_api_handlers = "(string, ('s, 'a) http_method_handler list) omap"

record ('s, 'a) HttpService =
  svc_base_url :: string
  svc_api_handlers :: "('s, 'a) http_api_handlers"

text \<open>The loop that updates the first entry of the method, or the entry that is appended.\<close>

fun set_method ::
    "nat \<Rightarrow> 's option \<Rightarrow> 'a option \<Rightarrow> ('s, 'a) http_method_handler list \<Rightarrow> ('s, 'a) http_method_handler list" where
  "set_method mth s a [] = [\<lparr>mh_method = mth, mh_sync = s, mh_async = a\<rparr>]"
| "set_method mth s a (h # hs) =
     (if mh_method h = mth then h\<lparr>mh_sync := s, mh_async := a\<rparr> # hs else h # set_method mth s a hs)"

definition AddApi ::
    "string \<Rightarrow> nat \<Rightarrow> 's option \<Rightarrow> 'a option \<Rightarrow> ('s, 'a) HttpService \<Rightarrow> ('s, 'a) HttpService" where
  "AddApi path mth s a svc =
     (let m = svc_api_handlers svc;
          hs = (case omap_get str_lt (c_str path) m of None \<Rightarrow> [] | Some hs \<Rightarrow> hs)
      in svc\<lparr>svc_api_handlers := omap_put str_lt (c_str path) (set_method mth s a hs) m\<rparr>)"

definition Paths :: "('s, 'a) HttpService \<Rightarrow> string list" where
  "Paths svc = map fst (svc_api_handlers svc)"

text \<open>The registrations by the name of a method: with a synchronous or an asynchronous handler.\<close>

definition Handle :: "string \<Rightarrow> string \<Rightarrow> 's + 'a \<Rightarrow> ('s, 'a) HttpService \<Rightarrow> ('s, 'a) HttpService" where
  "Handle httpMethod relativePath handlerFunc =
     (case handlerFunc of
        Inl s \<Rightarrow> AddApi relativePath (http_method_enum httpMethod) (Some s) None
      | Inr a \<Rightarrow> AddApi relativePath (http_method_enum httpMethod) None (Some a))"

definition Any :: "string \<Rightarrow> 's + 'a \<Rightarrow> ('s, 'a) HttpService \<Rightarrow> ('s, 'a) HttpService" where
  "Any relativePath h svc =
     Handle ''PATCH'' relativePath h (Handle ''DELETE'' relativePath h (Handle ''PUT'' relativePath h
       (Handle ''POST'' relativePath h (Handle ''GET'' relativePath h (Handle ''HEAD'' relativePath h svc)))))"

section \<open>Lookups\<close>

text \<open>\<open>while (*s && *b && *s == *b) {++s;++b;}\<close>\<close>

fun strip_base :: "string \<Rightarrow> string \<Rightarrow> string \<times> string" where
  "strip_base (c # s) (d # b) = (if c = d then strip_base s b else (c # s, d # b))"
| "strip_base s b = (s, b)"

text \<open>
  The result of a lookup: the code, what is stored through the two out pointers (\<open>None\<close> when they
  are left alone), and the parameters found in the path.
\<close>

record ('s, 'a) api_result =
  api_code :: nat
  api_handler :: "('s option \<times> 'a option) option"
  api_params :: "(string \<times> string) list"

definition api_none :: "nat \<Rightarrow> ('s, 'a) api_result" where
  "api_none code = \<lparr>api_code = code, api_handler = Some (None, None), api_params = []\<rparr>"

text \<open>The path of the url behind the base url and before the query; \<open>None\<close> when the base differs.\<close>

definition api_path :: "string \<Rightarrow> string \<Rightarrow> string option" where
  "api_path base_url url =
     (case strip_base (c_str url) (c_str base_url) of
        (s, b) \<Rightarrow> if b \<noteq> [] then None else Some (takeWhile (\<lambda>c. c \<noteq> CHR ''?'') s))"

definition find_method :: "nat \<Rightarrow> ('s, 'a) http_method_handler list \<Rightarrow> ('s option \<times> 'a option) option" where
  "find_method mth hs = map_option (\<lambda>h. (mh_sync h, mh_async h)) (find (\<lambda>h. mh_method h = mth) hs)"

definition GetApi_url :: "string \<Rightarrow> nat \<Rightarrow> ('s, 'a) HttpService \<Rightarrow> ('s, 'a) api_result" where
  "GetApi_url url mth svc =
     (case api_path (svc_base_url svc) url of
        None \<Rightarrow> \<lparr>api_code = 404, api_handler = None, api_params = []\<rparr>
      | Some path \<Rightarrow>
          (case omap_get str_lt path (svc_api_handlers svc) of
             None \<Rightarrow> api_none 404
           | Some hs \<Rightarrow>
               (case find_method mth hs of
                  Some h \<Rightarrow> \<lparr>api_code = 0, api_handler = Some h, api_params = []\<rparr>
                | None \<Rightarrow> api_none 405)))"

text \<open>
  The comparison of a pattern with the path: whether a wildcard matched, what is left of both, and
  the fields.  After a field in braces the closing brace is cut off.
\<close>

function match_loop :: "string \<Rightarrow> string \<Rightarrow> keyval \<Rightarrow> bool \<times> string \<times> string \<times> keyval" where
  "match_loop [] vp params = (False, [], vp, params)"
| "match_loop (k # kp) [] params = (False, k # kp, [], params)"
| "match_loop (k # kp) (v # vp) params =
     (if k = CHR ''*'' then (strendswith (v # vp) kp, k # kp, v # vp, params)
      else if k \<noteq> v then (False, k # kp, v # vp, params)
      else if k = CHR ''/'' \<and> kp \<noteq> [] \<and> (hd kp = CHR '':'' \<or> hd kp = CHR ''{'') then
        let field = takeWhile (\<lambda>c. c \<noteq> CHR ''/'') (tl kp);
            key = (if hd kp = CHR ''{'' \<and> field \<noteq> [] \<and> last field = CHR ''}'' then butlast field else field)
        in match_loop (dropWhile (\<lambda>c. c \<noteq> CHR ''/'') (tl kp)) (dropWhile (\<lambda>c. c \<noteq> CHR ''/'') vp)
             (kv_put key (takeWhile (\<lambda>c. c \<noteq> CHR ''/'') vp) params)
      else match_loop kp vp params)"
  by pat_completeness auto
termination
proof (relation "measure (\<lambda>(kp, vp, params). length kp)", goal_cases)
  case (2 k kp v vp params field key)
  have "length (dropWhile (\<lambda>c. c \<noteq> CHR ''/'') (tl kp)) \<le> length (tl kp)" by (rule length_dropWhile_le)
  then show ?case using 2 by simp
qed simp_all

definition route_match :: "string \<Rightarrow> string \<Rightarrow> bool \<times> keyval" where
  "route_match pattern path =
     (case match_loop (c_str pattern) (c_str path) [] of
        (m, kp, vp, params) \<Rightarrow> (m \<or> (kp = [] \<and> vp = []), params))"

fun api_loop :: "string \<Rightarrow> nat \<Rightarrow> ('s, 'a) http_api_handlers \<Rightarrow> ('s, 'a) api_result" where
  "api_loop path mth [] = api_none 404"
| "api_loop path mth ((pattern, hs) # m) =
     (case route_match pattern path of
        (True, params) \<Rightarrow>
          (case find_method mth hs of
             Some h \<Rightarrow> \<lparr>api_code = 0, api_handler = Some h, api_params = params\<rparr>
           | None \<Rightarrow> if params = [] then api_none 405 else api_loop path mth m)
      | (False, _) \<Rightarrow> api_loop path mth m)"

text \<open>
  \<open>GetApi\<close> of a request: the result and the query parameters of the request afterwards.
\<close>

definition GetApi ::
    "string \<Rightarrow> nat \<Rightarrow> keyval \<Rightarrow> ('s, 'a) HttpService \<Rightarrow> ('s, 'a) api_result \<times> keyval" where
  "GetApi path mth query_params svc =
     (case api_path (svc_base_url svc) path of
        None \<Rightarrow> (\<lparr>api_code = 404, api_handler = None, api_params = []\<rparr>, query_params)
      | Some path \<Rightarrow>
          (let r = api_loop path mth (svc_api_handlers svc)
           in (r, fold (\<lambda>(k, v). kv_put k v) (api_params r) query_params)))"

section \<open>What the patterns mean\<close>

datatype segment = Lit string | Colon string | Brace string

fun seg_text :: "segment \<Rightarrow> string" where
  "seg_text (Lit w) = w"
| "seg_text (Colon n) = CHR '':'' # n"
| "seg_text (Brace n) = CHR ''{'' # n @ ''}''"

definition slashed :: "string list \<Rightarrow> string" where
  "slashed ws = concat (map (\<lambda>w. CHR ''/'' # w) ws)"

definition word_seg :: "string \<Rightarrow> bool" where
  "word_seg w \<longleftrightarrow> CHR ''/'' \<notin> set w \<and> no_nul w"

fun seg_ok :: "segment \<Rightarrow> bool" where
  "seg_ok (Lit w) \<longleftrightarrow> word_seg w \<and> CHR ''*'' \<notin> set w \<and> (w \<noteq> [] \<longrightarrow> hd w \<noteq> CHR '':'' \<and> hd w \<noteq> CHR ''{'')"
| "seg_ok (Colon n) \<longleftrightarrow> word_seg n"
| "seg_ok (Brace n) \<longleftrightarrow> word_seg n"

text \<open>The fields a path binds, when it fits the segments.\<close>

fun bind_segs :: "segment list \<Rightarrow> string list \<Rightarrow> (string \<times> string) list option" where
  "bind_segs [] [] = Some []"
| "bind_segs (Lit w # ss) (v # vs) = (if w = v then bind_segs ss vs else None)"
| "bind_segs (Colon n # ss) (v # vs) = map_option (Cons (n, v)) (bind_segs ss vs)"
| "bind_segs (Brace n # ss) (v # vs) = map_option (Cons (n, v)) (bind_segs ss vs)"
| "bind_segs _ _ = None"

definition seg_fields :: "(string \<times> string) list \<Rightarrow> keyval \<Rightarrow> keyval" where
  "seg_fields bs m = fold (\<lambda>(k, v). kv_put k v) bs m"

definition route_text :: "segment list \<Rightarrow> string" where
  "route_text ss = slashed (map seg_text ss)"

text \<open>The fields of a match, \<open>None\<close> when there is none.\<close>

definition match_params :: "string \<Rightarrow> string \<Rightarrow> keyval \<Rightarrow> keyval option" where
  "match_params kp vp params =
     (case match_loop kp vp params of
        (m, kp', vp', params') \<Rightarrow> if m \<or> (kp' = [] \<and> vp' = []) then Some params' else None)"

text \<open>What follows a segment: nothing, or another slash.\<close>

definition tail_ok :: "string \<Rightarrow> bool" where
  "tail_ok K \<longleftrightarrow> K = [] \<or> hd K = CHR ''/''"

lemma tail_ok_simps [simp]: "tail_ok []" "tail_ok (c # K) \<longleftrightarrow> c = CHR ''/''"
  by (simp_all add: tail_ok_def)

lemma tail_ok_slashed [simp]: "tail_ok (slashed ws)"
  by (cases ws) (simp_all add: slashed_def)

lemma slashed_simps [simp]: "slashed [] = []" "slashed (w # ws) = CHR ''/'' # w @ slashed ws"
  by (simp_all add: slashed_def)

lemma take_seg [simp]:
  "CHR ''/'' \<notin> set w \<Longrightarrow> tail_ok K \<Longrightarrow> takeWhile (\<lambda>c. c \<noteq> CHR ''/'') (w @ K) = w"
  "CHR ''/'' \<notin> set w \<Longrightarrow> tail_ok K \<Longrightarrow> dropWhile (\<lambda>c. c \<noteq> CHR ''/'') (w @ K) = K"
  by (induction w) (cases K; auto)+

lemma match_params_simps [simp]:
  "match_params [] [] ps = Some ps"
  "match_params [] (v # V) ps = None"
  "match_params (k # K) [] ps = None"
  by (simp_all add: match_params_def)

lemma match_params_lit:
  "CHR ''/'' \<notin> set w \<Longrightarrow> CHR ''*'' \<notin> set w \<Longrightarrow> CHR ''/'' \<notin> set v \<Longrightarrow> tail_ok K \<Longrightarrow> tail_ok V \<Longrightarrow>
     match_params (w @ K) (v @ V) ps = (if w = v then match_params K V ps else None)"
proof (induction w arbitrary: v)
  case Nil
  then show ?case by (cases v; cases K) (auto simp: match_params_def)
next
  case (Cons c w)
  show ?case
  proof (cases v)
    case Nil
    then show ?thesis using Cons.prems by (cases V) (auto simp: match_params_def)
  next
    case (Cons d v')
    have "match_params (c # w @ K) (d # v' @ V) ps = (if c = d then match_params (w @ K) (v' @ V) ps else None)"
      using Cons.prems by (auto simp: match_params_def)
    then show ?thesis using Cons.prems Cons.IH[of v'] Cons by (cases "w = v'") auto
  qed
qed

lemma match_params_slash:
  assumes "w @ K = [] \<or> (hd (w @ K) \<noteq> CHR '':'' \<and> hd (w @ K) \<noteq> CHR ''{'')"
  shows "match_params (CHR ''/'' # w @ K) (CHR ''/'' # V) ps = match_params (w @ K) V ps"
  using assms by (auto simp: match_params_def)

lemma match_params_field:
  assumes "CHR ''/'' \<notin> set n" "CHR ''/'' \<notin> set v" "tail_ok K" "tail_ok V"
  shows "match_params (CHR ''/'' # CHR '':'' # n @ K) (CHR ''/'' # v @ V) ps =
           match_params K V (kv_put n v ps)"
    and "match_params (CHR ''/'' # CHR ''{'' # (n @ ''}'') @ K) (CHR ''/'' # v @ V) ps =
           match_params K V (kv_put n v ps)"
proof -
  have B: "CHR ''/'' \<notin> set (n @ ''}'')" using assms(1) by simp
  show "match_params (CHR ''/'' # CHR '':'' # n @ K) (CHR ''/'' # v @ V) ps = match_params K V (kv_put n v ps)"
    using assms by (simp add: match_params_def)
  show "match_params (CHR ''/'' # CHR ''{'' # (n @ ''}'') @ K) (CHR ''/'' # v @ V) ps = match_params K V (kv_put n v ps)"
    using assms take_seg[OF B assms(3)] by (simp add: match_params_def)
qed

lemma match_params_route:
  "\<forall>x \<in> set ss. seg_ok x \<Longrightarrow> \<forall>v \<in> set vs. word_seg v \<Longrightarrow>
     match_params (route_text ss) (slashed vs) ps = map_option (\<lambda>bs. seg_fields bs ps) (bind_segs ss vs)"
proof (induction ss vs arbitrary: ps rule: bind_segs.induct)
  case (2 w ss v vs)
  let ?K = "slashed (map seg_text ss)"
  have "w @ ?K = [] \<or> (hd (w @ ?K) \<noteq> CHR '':'' \<and> hd (w @ ?K) \<noteq> CHR ''{'')"
    using 2(2) by (cases w; cases ss) auto
  note S = match_params_slash[OF this, of "v @ slashed vs" ps]
  have L: "match_params (w @ ?K) (v @ slashed vs) ps = (if w = v then match_params ?K (slashed vs) ps else None)"
    using 2(2,3) by (intro match_params_lit) (auto simp: word_seg_def)
  show ?case using S L 2 by (cases "w = v") (auto simp: route_text_def)
next
  case (3 n ss v vs)
  then show ?case
    by (simp add: route_text_def word_seg_def match_params_field option.map_comp comp_def seg_fields_def)
next
  case (4 n ss v vs)
  then show ?case
    using match_params_field(2)[of n v "slashed (map seg_text ss)" "slashed vs" ps]
    by (simp add: route_text_def word_seg_def option.map_comp comp_def seg_fields_def)
qed (simp_all add: route_text_def seg_fields_def)

section \<open>A table built from routes\<close>

type_synonym ('s, 'a) route = "segment list \<times> nat \<times> 's option \<times> 'a option"

definition add_route :: "('s, 'a) route \<Rightarrow> ('s, 'a) HttpService \<Rightarrow> ('s, 'a) HttpService" where
  "add_route r svc = (case r of (ss, mth, s, a) \<Rightarrow> AddApi (route_text ss) mth s a svc)"

definition routes_service :: "string \<Rightarrow> ('s, 'a) route list \<Rightarrow> ('s, 'a) HttpService" where
  "routes_service base rs = fold add_route rs \<lparr>svc_base_url = base, svc_api_handlers = []\<rparr>"

definition route_ok :: "('s, 'a) route \<Rightarrow> bool" where
  "route_ok r \<longleftrightarrow> (\<forall>x \<in> set (fst r). seg_ok x)"

text \<open>What was last registered for a pattern and a method.\<close>

definition registered :: "('s, 'a) route list \<Rightarrow> segment list \<Rightarrow> nat \<Rightarrow> ('s option \<times> 'a option) option" where
  "registered rs ss mth =
     map_option (\<lambda>r. snd (snd r))
       (find (\<lambda>r. route_text (fst r) = route_text ss \<and> fst (snd r) = mth) (rev rs))"

lemma no_nul_route [simp]: "\<forall>x \<in> set ss. seg_ok x \<Longrightarrow> no_nul (route_text ss)"
proof (induction ss)
  case (Cons x ss)
  then show ?case by (cases x) (simp_all add: route_text_def word_seg_def)
qed (simp add: route_text_def)

lemma find_method_set [simp]:
  "find_method m (set_method m' s a hs) = (if m = m' then Some (s, a) else find_method m hs)"
  by (induction hs) (auto simp: find_method_def)

lemma find_method_Nil [simp]: "find_method m [] = None"
  by (simp add: find_method_def)

definition put_handlers :: "('s, 'a) route list \<Rightarrow> ('s, 'a) http_method_handler list" where
  "put_handlers rs = fold (\<lambda>(ss, mth, s, a). set_method mth s a) rs []"

lemma find_put_handlers:
  "find_method mth (put_handlers rs) =
     map_option (\<lambda>r. snd (snd r)) (find (\<lambda>r. fst (snd r) = mth) (rev rs))"
  by (induction rs rule: rev_induct) (auto simp: put_handlers_def split: prod.splits)

lemma find_rev_filter: "find P (rev (filter Q xs)) = find (\<lambda>x. Q x \<and> P x) (rev xs)"
  by (induction xs rule: rev_induct) auto

lemma str_get_put: "omap_get str_lt j (omap_put str_lt k v m) = (if j = k then Some v else omap_get str_lt j m)"
  by (simp only: strmap.get_put str_lt_equiv)

lemma put_handlers_snoc: "put_handlers (rs @ [(ss, mth, s, a)]) = set_method mth s a (put_handlers rs)"
  by (simp add: put_handlers_def)

lemma routes_table:
  assumes "\<forall>r \<in> set rs. route_ok r"
  shows "omap_inv str_lt (svc_api_handlers (routes_service base rs)) \<and>
    svc_base_url (routes_service base rs) = base \<and>
    (\<forall>k. omap_get str_lt k (svc_api_handlers (routes_service base rs)) =
       (let fs = filter (\<lambda>r. route_text (fst r) = k) rs in if fs = [] then None else Some (put_handlers fs)))"
  using assms
proof (induction rs rule: rev_induct)
  case Nil
  then show ?case by (simp add: routes_service_def)
next
  case (snoc r rs)
  let ?svc = "routes_service base rs"
  obtain ss mth s a where r: "r = (ss, mth, s, a)" by (cases r)
  have c: "c_str (route_text ss) = route_text ss" using snoc.prems by (simp add: r route_ok_def)
  have S: "routes_service base (rs @ [r]) = AddApi (route_text ss) mth s a ?svc"
    by (simp add: routes_service_def add_route_def r)
  have IH: "omap_inv str_lt (svc_api_handlers ?svc)" "svc_base_url ?svc = base"
    "\<And>k. omap_get str_lt k (svc_api_handlers ?svc) =
       (let fs = filter (\<lambda>r. route_text (fst r) = k) rs in if fs = [] then None else Some (put_handlers fs))"
    using snoc by auto
  show ?case
    unfolding S AddApi_def Let_def c
    using IH by (auto simp: strmap.put_inv str_get_put r put_handlers_snoc Let_def put_handlers_def)
qed

lemma omap_keys_get: "omap_inv str_lt m \<Longrightarrow> (k, v) \<in> set m \<Longrightarrow> omap_get str_lt k m = Some v"
  by (rule strmap.get_member)

section \<open>Dispatch\<close>

lemma strip_base_append: "strip_base (b @ s) b = (s, [])"
  by (induction b) (cases s; simp)+

lemma c_str_app: "no_nul a \<Longrightarrow> c_str (a @ b) = a @ c_str b"
  by (induction a) (auto simp: c_str_def)

lemma api_path_base:
  assumes "no_nul base" "no_nul path" "CHR ''?'' \<notin> set path" "q = [] \<or> hd q = CHR ''?''"
  shows "api_path base (base @ path @ q) = Some path"
proof -
  have c: "c_str (base @ path @ q) = base @ path @ c_str q"
    using assms(1,2) by (simp add: c_str_app)
  have "takeWhile (\<lambda>c. c \<noteq> CHR ''?'') (path @ c_str q) = path"
    using assms(3,4) by (cases q) (auto simp: takeWhile_append c_str_def)
  then show ?thesis using assms(1) by (simp add: api_path_def c strip_base_append)
qed

lemma api_loop_skip: "\<not> fst (route_match p path) \<Longrightarrow> api_loop path mth ((p, hs) # m) = api_loop path mth m"
  by (cases "route_match p path") auto

lemma api_loop_none: "(\<And>p hs. (p, hs) \<in> set m \<Longrightarrow> \<not> fst (route_match p path)) \<Longrightarrow> api_loop path mth m = api_none 404"
proof (induction m)
  case (Cons e m)
  obtain p hs where e: "e = (p, hs)" by (cases e)
  have "\<not> fst (route_match p path)" using Cons.prems[of p hs] by (simp add: e)
  note S = api_loop_skip[OF this]
  have "api_loop path mth m = api_none 404" using Cons.prems by (intro Cons.IH) auto
  then show ?case by (simp only: e S)
qed simp

lemma api_loop_unique:
  assumes "omap_inv str_lt m" "omap_get str_lt pat m = Some hs" "route_match pat path = (True, ps)"
    and "\<And>p hs. (p, hs) \<in> set m \<Longrightarrow> fst (route_match p path) \<Longrightarrow> p = pat"
  shows "api_loop path mth m =
    (case find_method mth hs of
       Some h \<Rightarrow> \<lparr>api_code = 0, api_handler = Some h, api_params = ps\<rparr>
     | None \<Rightarrow> if ps = [] then api_none 405 else api_none 404)"
  using assms
proof (induction m)
  case (Cons e m)
  obtain p hs' where e: "e = (p, hs')" by (cases e)
  show ?case
  proof (cases "p = pat")
    case True
    have "\<not> fst (route_match p' path)" if "(p', h) \<in> set m" for p' h
    proof
      assume "fst (route_match p' path)"
      then have "p' = pat" using Cons.prems(4)[of p' h] that by (simp add: e)
      then show False using Cons.prems(1) that by (auto simp: e True str_lt_def)
    qed
    then have "api_loop path mth m = api_none 404" by (rule api_loop_none)
    moreover have "hs' = hs" using Cons.prems(2) by (simp add: e True strmap.irrefl)
    ultimately show ?thesis using Cons.prems(3) by (simp add: e True split: option.split)
  next
    case False
    then have "\<not> fst (route_match p path)" using Cons.prems(4)[of p hs'] by (auto simp: e)
    note S = api_loop_skip[OF this]
    have "omap_get str_lt pat m = Some hs" using Cons.prems(2) False by (simp add: e split: if_splits)
    then have "api_loop path mth m = (case find_method mth hs of
         Some h \<Rightarrow> \<lparr>api_code = 0, api_handler = Some h, api_params = ps\<rparr>
       | None \<Rightarrow> if ps = [] then api_none 405 else api_none 404)"
      using Cons.prems by (intro Cons.IH) auto
    then show ?thesis by (simp only: e S)
  qed
qed simp

lemma route_match_fits:
  assumes "\<forall>x \<in> set ss. seg_ok x" "\<forall>v \<in> set vs. word_seg v"
  shows "fst (route_match (route_text ss) (slashed vs)) \<longleftrightarrow> bind_segs ss vs \<noteq> None"
    and "bind_segs ss vs = Some bs \<Longrightarrow> route_match (route_text ss) (slashed vs) = (True, seg_fields bs [])"
proof -
  have "no_nul (slashed vs)" using assms(2) by (induction vs) (auto simp: word_seg_def)
  then have "route_match (route_text ss) (slashed vs) =
      (case match_loop (route_text ss) (slashed vs) [] of (m, kp, vp, ps) \<Rightarrow> (m \<or> (kp = [] \<and> vp = []), ps))"
    using assms(1) by (simp add: route_match_def)
  moreover note match_params_route[OF assms, of "[]"]
  ultimately show "fst (route_match (route_text ss) (slashed vs)) \<longleftrightarrow> bind_segs ss vs \<noteq> None"
    and "bind_segs ss vs = Some bs \<Longrightarrow> route_match (route_text ss) (slashed vs) = (True, seg_fields bs [])"
    by (cases "bind_segs ss vs"; auto simp: match_params_def split: prod.splits if_splits)+
qed

lemma seg_fields_get: "kv_get k (seg_fields bs q) = (case map_of (rev bs) k of Some v \<Rightarrow> Some v | None \<Rightarrow> kv_get k q)"
  by (induction bs rule: rev_induct) (auto simp: seg_fields_def)

lemma seg_fields_inv: "omap_inv str_lt q \<Longrightarrow> omap_inv str_lt (seg_fields bs q)"
  by (induction bs rule: rev_induct) (auto simp: seg_fields_def strmap.put_inv)

lemma seg_fields_Nil: "seg_fields bs [] = [] \<longleftrightarrow> bs = []"
proof (cases bs rule: rev_exhaust)
  case (snoc bs' b)
  have "omap_put str_lt k v m \<noteq> []" for k v and m :: keyval
    by (cases m) (auto split: if_splits)
  then show ?thesis using snoc by (auto simp: seg_fields_def split: prod.split)
qed (simp add: seg_fields_def)

lemma map_of_omap: "omap_inv str_lt m \<Longrightarrow> map_of (rev m) k = kv_get k m"
proof (induction m)
  case (Cons e m)
  have "kv_get (fst e) m = None" using Cons.prems by (intro strmap.get_above) auto
  then show ?case using Cons by (cases e) (auto simp: map_add_def split: option.split)
qed simp

lemma seg_fields_twice:
  "kv_get k (seg_fields (seg_fields bs []) q) = (case map_of (rev bs) k of Some v \<Rightarrow> Some v | None \<Rightarrow> kv_get k q)"
  by (simp add: seg_fields_get map_of_omap seg_fields_inv split: option.split)

text \<open>A registration with \<open>Any\<close> is found under all six methods, by the exact path.\<close>

lemma find_AddApi:
  "no_nul p \<Longrightarrow> omap_get str_lt p (svc_api_handlers (AddApi p m s a svc)) =
     Some (set_method m s a (case omap_get str_lt p (svc_api_handlers svc) of None \<Rightarrow> [] | Some hs \<Rightarrow> hs))"
  by (simp add: AddApi_def str_get_put Let_def)

lemma base_AddApi: "svc_base_url (AddApi p m s a svc) = svc_base_url svc"
  by (simp add: AddApi_def Let_def)

lemma method_numbers:
  "http_method_enum ''HEAD'' = 2" "http_method_enum ''GET'' = 1" "http_method_enum ''POST'' = 3"
  "http_method_enum ''PUT'' = 4" "http_method_enum ''DELETE'' = 0" "http_method_enum ''PATCH'' = 28"
  by code_simp+

lemma Any_found:
  assumes "no_nul p" "CHR ''?'' \<notin> set p" "svc_base_url svc = []" "mth \<in> {0, 1, 2, 3, 4, 28}"
  shows "GetApi_url p mth (Any p h svc) =
    \<lparr>api_code = 0, api_handler = Some (case h of Inl s \<Rightarrow> (Some s, None) | Inr a \<Rightarrow> (None, Some a)), api_params = []\<rparr>"
proof -
  have "api_path [] p = Some p" using api_path_base[of "[]" p "[]"] assms(1,2) by simp
  moreover have "svc_base_url (Any p h svc) = []"
    using assms(3) by (cases h) (simp_all add: Any_def Handle_def base_AddApi)
  ultimately show ?thesis
    using assms(1,4) by (cases h) (auto simp: GetApi_url_def Any_def Handle_def method_numbers find_AddApi)
qed

text \<open>The two lookups of a path that at most one registered pattern fits.\<close>

lemma routes_entry:
  assumes "\<forall>r \<in> set rs. route_ok r" "(p, hs) \<in> set (svc_api_handlers (routes_service base rs))"
  obtains r where "r \<in> set rs" "route_text (fst r) = p"
proof -
  note T = routes_table[OF assms(1), of base]
  have "omap_get str_lt p (svc_api_handlers (routes_service base rs)) = Some hs"
    by (rule omap_keys_get[OF conjunct1[OF T] assms(2)])
  then have "filter (\<lambda>r. route_text (fst r) = p) rs \<noteq> []"
    using T by (auto simp: Let_def split: if_splits)
  then show thesis using that by (auto simp: filter_empty_conv)
qed

lemma routes_get:
  assumes "\<forall>r \<in> set rs. route_ok r" "ss \<in> fst ` set rs"
  obtains hs where "omap_get str_lt (route_text ss) (svc_api_handlers (routes_service base rs)) = Some hs"
    "\<And>mth. find_method mth hs = registered rs ss mth"
proof
  let ?fs = "filter (\<lambda>r. route_text (fst r) = route_text ss) rs"
  have "?fs \<noteq> []" using assms(2) by (auto simp: filter_empty_conv)
  then show "omap_get str_lt (route_text ss) (svc_api_handlers (routes_service base rs)) = Some (put_handlers ?fs)"
    using routes_table[OF assms(1), of base] by (auto simp: Let_def)
  show "find_method mth (put_handlers ?fs) = registered rs ss mth" for mth
    by (simp add: find_put_handlers registered_def find_rev_filter)
qed

lemma no_nul_slashed: "\<forall>v \<in> set vs. word_seg v \<Longrightarrow> no_nul (slashed vs)"
  by (induction vs) (auto simp: word_seg_def)

text \<open>
  C15.  Routing: in a service built from any list of routes without the wildcard \<open>*\<close>, a request below the base url whose
  path fits exactly one pattern gets the handler last registered for that pattern and the
  method, and the fields of the pattern are added to its query parameters (for a field named
  twice the last value); when the method is missing the answer is 405 for a pattern without fields
  and 404 for one with fields.  A path that fits no pattern gets 404 and changes no parameter.
\<close>

theorem service_dispatch:
  assumes rs: "\<forall>r \<in> set rs. route_ok r" and vs: "\<forall>v \<in> set vs. word_seg v"
    and nq: "CHR ''?'' \<notin> set (slashed vs)" and base: "no_nul base" and q: "q = [] \<or> hd q = CHR ''?''"
  shows "(\<forall>ss bs. ss \<in> fst ` set rs \<and> bind_segs ss vs = Some bs \<and>
            (\<forall>r \<in> set rs. bind_segs (fst r) vs \<noteq> None \<longrightarrow> route_text (fst r) = route_text ss) \<longrightarrow>
          GetApi (base @ slashed vs @ q) mth qp (routes_service base rs) =
            (case registered rs ss mth of
               Some h \<Rightarrow> (\<lparr>api_code = 0, api_handler = Some h, api_params = seg_fields bs []\<rparr>,
                          seg_fields (seg_fields bs []) qp)
             | None \<Rightarrow> (api_none (if bs = [] then 405 else 404), qp)) \<and>
          (\<forall>k. kv_get k (seg_fields (seg_fields bs []) qp) =
                 (case map_of (rev bs) k of Some v \<Rightarrow> Some v | None \<Rightarrow> kv_get k qp))) \<and>
         ((\<forall>r \<in> set rs. bind_segs (fst r) vs = None) \<longrightarrow>
          GetApi (base @ slashed vs @ q) mth qp (routes_service base rs) = (api_none 404, qp))"
proof -
  let ?m = "svc_api_handlers (routes_service base rs)"
  note T = routes_table[OF rs, of base]
  have P: "api_path base (base @ slashed vs @ q) = Some (slashed vs)"
    by (rule api_path_base[OF base no_nul_slashed[OF vs] nq q])
  have fits: "\<exists>r \<in> set rs. route_text (fst r) = p \<and> bind_segs (fst r) vs \<noteq> None"
    if "(p, hs) \<in> set ?m" "fst (route_match p (slashed vs))" for p hs
  proof -
    obtain r where "r \<in> set rs" "route_text (fst r) = p" using routes_entry[OF rs] \<open>(p, hs) \<in> set ?m\<close> by blast
    then show ?thesis using \<open>fst (route_match p (slashed vs))\<close> rs route_match_fits(1)[OF _ vs]
      by (fastforce simp: route_ok_def)
  qed
  have G: "GetApi (base @ slashed vs @ q) mth qp (routes_service base rs) =
      (let r = api_loop (slashed vs) mth ?m in (r, seg_fields (api_params r) qp))"
    using T by (simp add: GetApi_def P seg_fields_def)
  have N: "api_loop (slashed vs) mth ?m = api_none 404" if "\<forall>r \<in> set rs. bind_segs (fst r) vs = None"
    by (rule api_loop_none) (use that fits in metis)
  have U: "api_loop (slashed vs) mth ?m =
      (case registered rs ss mth of
         Some h \<Rightarrow> \<lparr>api_code = 0, api_handler = Some h, api_params = seg_fields bs []\<rparr>
       | None \<Rightarrow> if seg_fields bs [] = [] then api_none 405 else api_none 404)"
    if ss: "ss \<in> fst ` set rs" and bs: "bind_segs ss vs = Some bs"
      and uniq: "\<forall>r \<in> set rs. bind_segs (fst r) vs \<noteq> None \<longrightarrow> route_text (fst r) = route_text ss" for ss bs
  proof -
    obtain hs where hs: "omap_get str_lt (route_text ss) ?m = Some hs"
      "\<And>mth. find_method mth hs = registered rs ss mth" using routes_get[OF rs ss] by metis
    have "\<forall>x \<in> set ss. seg_ok x" using rs ss by (auto simp: route_ok_def)
    note M = route_match_fits(2)[OF this vs bs]
    have "p = route_text ss" if "(p, h) \<in> set ?m" "fst (route_match p (slashed vs))" for p h
      using fits[OF that] uniq by auto
    then show ?thesis
      using api_loop_unique[OF _ hs(1) M] T hs(2) by simp
  qed
  have none: "(let r = api_none c in (r, seg_fields (api_params r) qp)) = (api_none c, qp)" for c
    by (simp add: api_none_def seg_fields_def)
  show ?thesis
  proof (intro conjI allI impI; (elim conjE)?)
    fix ss bs
    assume "ss \<in> fst ` set rs" "bind_segs ss vs = Some bs"
      "\<forall>r \<in> set rs. bind_segs (fst r) vs \<noteq> None \<longrightarrow> route_text (fst r) = route_text ss"
    note U = U[OF this]
    show "GetApi (base @ slashed vs @ q) mth qp (routes_service base rs) =
        (case registered rs ss mth of
           Some h \<Rightarrow> (\<lparr>api_code = 0, api_handler = Some h, api_params = seg_fields bs []\<rparr>,
                      seg_fields (seg_fields bs []) qp)
         | None \<Rightarrow> (api_none (if bs = [] then 405 else 404), qp))"
      unfolding G U seg_fields_Nil by (cases "registered rs ss mth") (simp_all add: none)
  qed (simp_all add: seg_fields_twice G N none)
qed

theorem service_dispatch_witness:
  "GetApi (''/api'' @ slashed [''user'', ''42''] @ ''?x=1'') 1 []
     (routes_service ''/api'' [([Lit ''user'', Colon ''id''], 1, Some 7, None),
                             ([Lit ''user''], 1, Some (8 :: nat), None :: nat option)]) =
   (\<lparr>api_code = 0, api_handler = Some (Some 7, None), api_params = [(''id'', ''42'')]\<rparr>, [(''id'', ''42'')])"
proof -
  let ?ss = "[Lit ''user'', Colon ''id'']"
  let ?rs = "[(?ss, 1, Some 7, None), ([Lit ''user''], 1, Some (8 :: nat), None :: nat option)]"
  have "registered ?rs ?ss 1 = Some (Some 7, None)" by code_simp
  moreover have "seg_fields [(''id'', ''42'')] [] = [(''id'', ''42'')]"
    "seg_fields [(''id'', ''42'')] (seg_fields [] []) = [(''id'', ''42'')]" by code_simp+
  ultimately show ?thesis
    using conjunct1[OF service_dispatch[where rs = ?rs and vs = "[''user'', ''42'']" and base = "''/api''"
          and q = "''?x=1''" and mth = 1 and qp = "[]"], THEN spec[of _ ?ss], THEN spec[of _ "[(''id'', ''42'')]"]]
    by (simp add: route_ok_def word_seg_def seg_fields_def)
qed

section \<open>Overlapping patterns\<close>

lemma str_lt_app [simp]: "str_lt (a @ b) (a @ c) \<longleftrightarrow> str_lt b c"
  by (induction a) (auto simp: str_lt_def)

lemma route_text_app: "route_text (ss @ ts) = route_text ss @ route_text ts"
  by (simp add: route_text_def slashed_def)

lemma bind_lits: "bind_segs (map Lit ws @ ss) (ws @ vs) = bind_segs ss vs"
  by (induction ws) auto

lemma two_apis:
  assumes "no_nul A" "no_nul B" "str_lt A B"
  shows "AddApi A m s a (AddApi B m' s' a' \<lparr>svc_base_url = base, svc_api_handlers = []\<rparr>) =
      \<lparr>svc_base_url = base, svc_api_handlers =
        [(A, [\<lparr>mh_method = m, mh_sync = s, mh_async = a\<rparr>]), (B, [\<lparr>mh_method = m', mh_sync = s', mh_async = a'\<rparr>])]\<rparr>"
    and "AddApi B m' s' a' (AddApi A m s a \<lparr>svc_base_url = base, svc_api_handlers = []\<rparr>) =
      \<lparr>svc_base_url = base, svc_api_handlers =
        [(A, [\<lparr>mh_method = m, mh_sync = s, mh_async = a\<rparr>]), (B, [\<lparr>mh_method = m', mh_sync = s', mh_async = a'\<rparr>])]\<rparr>"
  using assms strmap.asym[OF assms(3)] by (simp_all add: AddApi_def)

text \<open>
  Order of the routes: the table is searched in the order of the pattern texts, not in the
  order of registration, and a colon comes before every letter.  So when a route ends in a
  literal that starts with a character above the colon, and a route with a field in its place
  exists for the same method, the handler of the literal route is never reached, whichever is
  registered first: its own path runs the other handler, with the literal as the field's value.
\<close>

theorem literal_route_shadowed:
  assumes "\<forall>v \<in> set ws. seg_ok (Lit v)" "seg_ok (Lit w)" "seg_ok (Colon n)"
    and "w \<noteq> []" "CHR '':'' < hd w" "CHR ''?'' \<notin> set (slashed (ws @ [w]))"
    and rs: "rs = [(map Lit ws @ [Lit w], mth, s, a), (map Lit ws @ [Colon n], mth, s', a')] \<or>
        rs = [(map Lit ws @ [Colon n], mth, s', a'), (map Lit ws @ [Lit w], mth, s, a)]"
  shows "fst (GetApi (slashed (ws @ [w])) mth qp (routes_service [] rs)) =
    \<lparr>api_code = 0, api_handler = Some (s', a'), api_params = [(n, w)]\<rparr>"
proof -
  let ?L = "map Lit ws @ [Lit w]" and ?C = "map Lit ws @ [Colon n]"
  have ok: "\<forall>x \<in> set ?L. seg_ok x" "\<forall>x \<in> set ?C. seg_ok x" using assms(1-3) by auto
  have lt: "str_lt (route_text ?C) (route_text ?L)"
    unfolding route_text_app str_lt_app using assms(4,5) by (cases w) (auto simp: route_text_def str_lt_def)
  have tab: "routes_service [] rs = \<lparr>svc_base_url = [], svc_api_handlers =
      [(route_text ?C, [\<lparr>mh_method = mth, mh_sync = s', mh_async = a'\<rparr>]),
       (route_text ?L, [\<lparr>mh_method = mth, mh_sync = s, mh_async = a\<rparr>])]\<rparr>"
    using rs two_apis[OF no_nul_route[OF ok(2)] no_nul_route[OF ok(1)] lt]
    by (elim disjE) (simp_all only: routes_service_def add_route_def fold_simps prod.case comp_apply id_apply)
  have vs: "\<forall>v \<in> set (ws @ [w]). word_seg v" using assms(1,2) by auto
  have M: "route_match (route_text ?C) (slashed (ws @ [w])) = (True, [(n, w)])"
    using route_match_fits(2)[OF ok(2) vs, of "[(n, w)]"] by (simp add: bind_lits seg_fields_def)
  have "api_path [] (slashed (ws @ [w])) = Some (slashed (ws @ [w]))"
    using api_path_base[of "[]" "slashed (ws @ [w])" "[]"] assms(6) no_nul_slashed[OF vs] by simp
  then show ?thesis
    by (simp add: GetApi_def tab M find_method_def Let_def)
qed

theorem literal_route_shadowed_witness:
  "fst (GetApi (slashed [''user'', ''list'']) 1 []
     (routes_service [] [([Lit ''user'', Lit ''list''], 1, Some 1, None),
                        ([Lit ''user'', Colon ''id''], 1, Some (2 :: nat), None :: nat option)])) =
   \<lparr>api_code = 0, api_handler = Some (Some 2, None), api_params = [(''id'', ''list'')]\<rparr>"
  using literal_route_shadowed[of "[''user'']" "''list''" "''id''" _ 1 "Some 1" None "Some (2 :: nat)" "None :: nat option" "[]"]
  by (simp add: word_seg_def)

end
