(* ===== verification/HttpMessage.thy ===== *)
theory HttpMessage
  imports HttpContent
begin

text \<open>
  \<open>http/HttpMessage.h\<close>, \<open>http/HttpMessage.cpp\<close> and the callbacks of \<open>http/Http1Parser\<close>:
  cookies, the state of a message, the completion of its headers, and the texts that are sent.
  The JSON library, the file system and the clock are parameters.  The parser of
  \<open>http_parser.c\<close> is third-party code: what it reports is a sequence of events here.
\<close>

section \<open>Cookies\<close>

record HttpCookie =
  ck_name :: string
  ck_value :: string
  ck_domain :: string
  ck_path :: string
  ck_max_age :: int
  ck_secure :: bool
  ck_httponly :: bool

definition HttpCookie_new :: HttpCookie where
  "HttpCookie_new = \<lparr>ck_name = [], ck_value = [], ck_domain = [], ck_path = [], ck_max_age = 0,
     ck_secure = False, ck_httponly = False\<rparr>"

text \<open>The pieces \<open>std::getline\<close> reads: an empty last one is not reported.\<close>

definition getlines :: "char \<Rightarrow> string \<Rightarrow> string list" where
  "getlines d s = (let ps = split_from d [] s in if last ps = [] then butlast ps else ps)"

text \<open>One attribute.  The value is the one of an earlier attribute when there is no \<open>=\<close>.\<close>

definition cookie_attr :: "string \<Rightarrow> string \<times> HttpCookie \<Rightarrow> string \<times> HttpCookie" where
  "cookie_attr kv st =
     (case st of (val0, ck) \<Rightarrow>
       (let (key, val) = (case find_first_of kv ''='' of
                            Some pos \<Rightarrow> (trim (substr kv 0 pos) SPACE_CHARS, trim (substr_from kv (pos + 1)) SPACE_CHARS)
                          | None \<Rightarrow> (trim kv SPACE_CHARS, val0))
        in (val,
            if stricmp_eq key ''domain'' then ck\<lparr>ck_domain := val\<rparr>
            else if stricmp_eq key ''path'' then ck\<lparr>ck_path := val\<rparr>
            else if stricmp_eq key ''max-age'' then ck\<lparr>ck_max_age := atoi val\<rparr>
            else if stricmp_eq key ''secure'' then ck\<lparr>ck_secure := True\<rparr>
            else if stricmp_eq key ''httponly'' then ck\<lparr>ck_httponly := True\<rparr>
            else if val \<noteq> [] then ck\<lparr>ck_name := key, ck_value := val\<rparr>
            else ck)))"

definition HttpCookie_parse :: "string \<Rightarrow> HttpCookie \<Rightarrow> bool \<times> HttpCookie" where
  "HttpCookie_parse str ck =
     (let ck' = snd (fold cookie_attr (getlines CHR '';'' str) ([], ck))
      in (ck_name ck' \<noteq> [] \<and> ck_value ck' \<noteq> [], ck'))"

text \<open>\<open>None\<close> when the assertion fails.\<close>

definition HttpCookie_dump :: "HttpCookie \<Rightarrow> string option" where
  "HttpCookie_dump ck =
     (if ck_name ck = [] \<or> ck_value ck = [] then None
      else Some (ck_name ck @ ''='' @ ck_value ck
             @ (if ck_domain ck \<noteq> [] then ''; domain='' @ ck_domain ck else [])
             @ (if ck_path ck \<noteq> [] then ''; path='' @ ck_path ck else [])
             @ (if ck_max_age ck > 0 then ''; max-age='' @ show_int (ck_max_age ck) else [])
             @ (if ck_secure ck then ''; secure'' else [])
             @ (if ck_httponly ck then ''; httponly'' else [])))"

section \<open>The state of a message\<close>

type_synonym http_headers = "(string, string) omap"

abbreviation hput :: "string \<Rightarrow> string \<Rightarrow> http_headers \<Rightarrow> http_headers" where
  "hput \<equiv> omap_put StringCaseLess"

abbreviation hget :: "string \<Rightarrow> http_headers \<Rightarrow> string option" where
  "hget \<equiv> omap_get StringCaseLess"

text \<open>The pointer \<open>content\<close>: null, the data of the body, or memory of the caller.\<close>

datatype content_ptr = Content_null | Content_body | Content_data string

text \<open>What the model takes from outside: the contents of files, and the JSON library.\<close>

record 'j ext =
  ext_readall :: "string \<Rightarrow> string option"
  ext_json_clear :: 'j
  ext_json_empty :: "'j \<Rightarrow> bool"
  ext_json_dump :: "'j \<Rightarrow> string"
  ext_json_parse :: "string \<Rightarrow> int \<times> 'j"

record 'j HttpMessage =
  http_major :: nat
  http_minor :: nat
  headers :: http_headers
  body :: string
  content :: content_ptr
  content_length :: int
  content_type :: http_content_type
  json :: 'j
  form :: MultiPart
  kv :: keyval

definition Init :: "('j, 'z) HttpMessage_scheme \<Rightarrow> ('j, 'z) HttpMessage_scheme" where
  "Init m = m\<lparr>http_major := 1, http_minor := 1, content := Content_null, content_length := 0,
     content_type := CONTENT_TYPE_NONE\<rparr>"

definition Reset :: "'j ext \<Rightarrow> ('j, 'z) HttpMessage_scheme \<Rightarrow> ('j, 'z) HttpMessage_scheme" where
  "Reset E m = (Init m)\<lparr>headers := [], body := [], json := ext_json_clear E, form := [], kv := []\<rparr>"

text \<open>A size assigned to an \<open>int\<close>.\<close>

definition int_of_size :: "nat \<Rightarrow> int" where
  "int_of_size n = sint (word_of_nat n :: 32 word)"

definition DEFAULT_MULTIPART_BOUNDARY :: string where
  "DEFAULT_MULTIPART_BOUNDARY = ''----WebKitFormBoundary7MA4YWxkTrZu0gW''"

section \<open>Completing the headers\<close>

definition infer_type :: "'j ext \<Rightarrow> ('j, 'z) HttpMessage_scheme \<Rightarrow> http_content_type" where
  "infer_type E m =
     (if content_type m \<noteq> CONTENT_TYPE_NONE then content_type m
      else if \<not> ext_json_empty E (json m) then APPLICATION_JSON
      else if form m \<noteq> [] then MULTIPART_FORM_DATA
      else if kv m \<noteq> [] then APPLICATION_URLENCODED
      else if body m \<noteq> [] then TEXT_PLAIN
      else CONTENT_TYPE_NONE)"

definition append_boundary :: "('j, 'z) HttpMessage_scheme \<Rightarrow> ('j, 'z) HttpMessage_scheme" where
  "append_boundary m =
     (if content_type m = MULTIPART_FORM_DATA then
        (case hget ''Content-Type'' (headers m) of
           None \<Rightarrow> m
         | Some v \<Rightarrow>
             if find_sub ''boundary='' (c_str v) = None
             then m\<lparr>headers := hput ''Content-Type'' (v @ ''; boundary='' @ DEFAULT_MULTIPART_BOUNDARY) (headers m)\<rparr>
             else m)
      else m)"

definition FillContentType :: "'j ext \<Rightarrow> ('j, 'z) HttpMessage_scheme \<Rightarrow> ('j, 'z) HttpMessage_scheme" where
  "FillContentType E m =
     (case hget ''Content-Type'' (headers m) of
        Some v \<Rightarrow> append_boundary (m\<lparr>content_type := http_content_type_enum v\<rparr>)
      | None \<Rightarrow>
          (let t = infer_type E m; m = m\<lparr>content_type := t\<rparr>
           in append_boundary
                (if t \<noteq> CONTENT_TYPE_NONE
                 then m\<lparr>headers := hput ''Content-Type'' (http_content_type_str t) (headers m)\<rparr> else m)))"

text \<open>The text after \<open>boundary=\<close> of the content type.\<close>

definition boundary_of :: "('j, 'z) HttpMessage_scheme \<Rightarrow> string option" where
  "boundary_of m =
     Option.bind (hget ''Content-Type'' (headers m)) (\<lambda>v.
       map_option (\<lambda>i. drop (i + length ''boundary='') (c_str v)) (find_sub ''boundary='' (c_str v)))"

definition DumpBody :: "'j ext \<Rightarrow> ('j, 'z) HttpMessage_scheme \<Rightarrow> ('j, 'z) HttpMessage_scheme option" where
  "DumpBody E m0 =
     (if body m0 \<noteq> [] then Some m0
      else let m = FillContentType E m0
      in (case content_type m of
            APPLICATION_JSON \<Rightarrow> Some (m\<lparr>body := ext_json_dump E (json m)\<rparr>)
          | MULTIPART_FORM_DATA \<Rightarrow>
              (case boundary_of m of
                 None \<Rightarrow> Some m
               | Some boundary \<Rightarrow>
                   (case dump_multipart (ext_readall E) (form m) boundary of
                      (str, mp) \<Rightarrow> Some (m\<lparr>body := str, form := mp\<rparr>)))
          | APPLICATION_URLENCODED \<Rightarrow>
              map_option (\<lambda>str. m\<lparr>body := str\<rparr>) (dump_query_params (kv m))
          | _ \<Rightarrow> Some m))"

definition FillContentLength :: "'j ext \<Rightarrow> ('j, 'z) HttpMessage_scheme \<Rightarrow> ('j, 'z) HttpMessage_scheme option" where
  "FillContentLength E m =
     (let found = hget ''Content-Length'' (headers m);
          m1 = (case found of Some v \<Rightarrow> m\<lparr>content_length := atoi v\<rparr> | None \<Rightarrow> m)
      in if found = None \<or> content_length m1 = 0 then
           (let m2 = (if content_length m1 = 0 then m1\<lparr>content_length := int_of_size (length (body m1))\<rparr> else m1)
            in map_option (\<lambda>m. m\<lparr>headers := hput ''Content-Length'' (show_int (content_length m)) (headers m)\<rparr>)
                 (if content_length m2 = 0
                  then map_option (\<lambda>m. m\<lparr>content_length := int_of_size (length (body m))\<rparr>) (DumpBody E m2)
                  else Some m2))
         else Some m1)"

definition IsKeepAlive :: "('j, 'z) HttpMessage_scheme \<Rightarrow> bool" where
  "IsKeepAlive m =
     (case hget ''connection'' (headers m) of
        Some v \<Rightarrow>
          if stricmp_eq v ''keep-alive'' then True
          else if stricmp_eq v ''close'' then False
          else if stricmp_eq v ''upgrade'' then True
          else True
      | None \<Rightarrow> if http_major m = 1 \<and> http_minor m = 0 then False else True)"

definition GetHeader :: "string \<Rightarrow> string \<Rightarrow> ('j, 'z) HttpMessage_scheme \<Rightarrow> string" where
  "GetHeader key defvalue m = (case hget key (headers m) of Some v \<Rightarrow> v | None \<Rightarrow> defvalue)"

section \<open>Writing a message\<close>

definition header_line :: "string \<times> string \<Rightarrow> string" where
  "header_line h = fst h @ '': '' @ snd h @ CRLF"

text \<open>The test for a colon looks at the text that is written, not at the header.\<close>

definition put_header :: "string \<times> string \<Rightarrow> string \<Rightarrow> string" where
  "put_header h str = (if c_str str \<noteq> [] \<and> hd (c_str str) = CHR '':'' then str else str @ header_line h)"

definition DumpHeaders ::
    "'j ext \<Rightarrow> string \<Rightarrow> ('j, 'z) HttpMessage_scheme \<Rightarrow> (string \<times> ('j, 'z) HttpMessage_scheme) option" where
  "DumpHeaders E str m =
     map_option (\<lambda>m. (fold put_header (headers m) str, m)) (FillContentLength E (FillContentType E m))"

definition Content :: "('j, 'z) HttpMessage_scheme \<Rightarrow> ('j, 'z) HttpMessage_scheme" where
  "Content m = (if content m = Content_null \<and> body m \<noteq> [] then m\<lparr>content := Content_body\<rparr> else m)"

text \<open>The bytes a non-null pointer points to.\<close>

fun content_bytes :: "('j, 'z) HttpMessage_scheme \<Rightarrow> content_ptr \<Rightarrow> string" where
  "content_bytes m Content_null = []"
| "content_bytes m Content_body = body m"
| "content_bytes m (Content_data s) = s"

definition ContentLength :: "'j ext \<Rightarrow> ('j, 'z) HttpMessage_scheme \<Rightarrow> (int \<times> ('j, 'z) HttpMessage_scheme) option" where
  "ContentLength E m =
     map_option (\<lambda>m. (content_length m, m)) (if content_length m = 0 then FillContentLength E m else Some m)"

text \<open>Appending the content: \<open>None\<close> also when more is read than there is, or the length is negative.\<close>

definition append_content :: "string \<Rightarrow> string \<Rightarrow> int \<Rightarrow> string option" where
  "append_content str bytes n = (if 0 \<le> n \<and> nat n \<le> length bytes then Some (str @ take (nat n) bytes) else None)"

definition DumpBody_to ::
    "'j ext \<Rightarrow> string \<Rightarrow> ('j, 'z) HttpMessage_scheme \<Rightarrow> (string \<times> ('j, 'z) HttpMessage_scheme) option" where
  "DumpBody_to E str m =
     Option.bind (DumpBody E m) (\<lambda>m.
       (let m = Content m
        in Option.bind (ContentLength E m) (\<lambda>(n, m).
             if content m \<noteq> Content_null \<and> n \<noteq> 0
             then map_option (\<lambda>s. (s, m)) (append_content str (content_bytes m (content m)) n)
             else Some (str, m))))"

text \<open>\<open>Dump\<close> behind the first line: the headers, an empty line, the body.\<close>

definition Dump_from ::
    "'j ext \<Rightarrow> bool \<Rightarrow> bool \<Rightarrow> string \<Rightarrow> ('j, 'z) HttpMessage_scheme \<Rightarrow> (string \<times> ('j, 'z) HttpMessage_scheme) option" where
  "Dump_from E is_dump_headers is_dump_body str m =
     Option.bind (if is_dump_headers then DumpHeaders E str m else Some (str, m)) (\<lambda>(str, m).
       if is_dump_body then DumpBody_to E (str @ CRLF) m else Some (str @ CRLF, m))"

record 'j HttpResponse = "'j HttpMessage" +
  status_code :: nat

text \<open>The status line is printed into 256 bytes; the date is a parameter.\<close>

definition status_line :: "'j HttpResponse \<Rightarrow> string" where
  "status_line m = snprintf_256 (''HTTP/'' @ show_nat (http_major m) @ ''.'' @ show_nat (http_minor m) @ '' ''
     @ show_nat (status_code m) @ '' '' @ http_status_str (status_code m) @ CRLF)"

definition HttpResponse_Dump ::
    "'j ext \<Rightarrow> string \<Rightarrow> bool \<Rightarrow> bool \<Rightarrow> 'j HttpResponse \<Rightarrow> (string \<times> 'j HttpResponse) option" where
  "HttpResponse_Dump E date is_dump_headers is_dump_body m =
     Dump_from E is_dump_headers is_dump_body (status_line m)
       (if is_dump_headers then m\<lparr>headers := hput ''Date'' date (headers m)\<rparr> else m)"

text \<open>
  \<open>ParseBody\<close>: the result and the message; \<open>None\<close> when the parser of query strings reads out of
  bounds.
\<close>

definition ParseBody :: "'j ext \<Rightarrow> ('j, 'z) HttpMessage_scheme \<Rightarrow> (int \<times> ('j, 'z) HttpMessage_scheme) option" where
  "ParseBody E m0 =
     (if body m0 = [] then Some (- 1, m0)
      else let m = FillContentType E m0
      in (case content_type m of
            APPLICATION_JSON \<Rightarrow> (case ext_json_parse E (body m) of (r, j) \<Rightarrow> Some (r, m\<lparr>json := j\<rparr>))
          | MULTIPART_FORM_DATA \<Rightarrow>
              (case boundary_of m of
                 None \<Rightarrow> Some (0, m)
               | Some boundary \<Rightarrow>
                   (case parse_multipart (body m) (form m) (trim_pairs boundary ([DQUOTE, DQUOTE] @ [CHR 0x27, CHR 0x27])) of
                      (r, mp) \<Rightarrow> Some (r, m\<lparr>form := mp\<rparr>)))
          | APPLICATION_URLENCODED \<Rightarrow>
              map_option (\<lambda>(r, q). (r, m\<lparr>kv := q\<rparr>)) (parse_query_params (body m) (kv m))
          | _ \<Rightarrow> Some (0, m)))"

section \<open>Requests\<close>

record 'j HttpRequest = "'j HttpMessage" +
  req_method :: nat
  url :: string
  scheme :: string
  host :: string
  port :: int
  path :: string
  query_params :: QueryParams

definition DEFAULT_HTTP_PORT :: int where "DEFAULT_HTTP_PORT = 80"
definition DEFAULT_HTTPS_PORT :: int where "DEFAULT_HTTPS_PORT = 443"

definition Host :: "'j HttpRequest \<Rightarrow> 'j HttpRequest" where
  "Host r = (case hget ''Host'' (headers r) of Some v \<Rightarrow> r\<lparr>host := v\<rparr> | None \<Rightarrow> r)"

definition Path :: "'j HttpRequest \<Rightarrow> string" where
  "Path r = takeWhile (\<lambda>c. c \<noteq> CHR ''?'' \<and> c \<noteq> CHR ''#'') (c_str (path r))"

definition standard_port :: "int \<Rightarrow> bool" where
  "standard_port p \<longleftrightarrow> p = 0 \<or> p = DEFAULT_HTTP_PORT \<or> p = DEFAULT_HTTPS_PORT"

definition host_port :: "'j HttpRequest \<Rightarrow> string" where
  "host_port r = snprintf_256 (c_str (host r) @ '':'' @ show_int (port r))"

definition starts_slash :: "string \<Rightarrow> bool" where
  "starts_slash s \<longleftrightarrow> c_str s \<noteq> [] \<and> hd (c_str s) = CHR ''/''"

text \<open>The parts of a complete url: the authority, and the path.\<close>

definition url_authority :: "'j HttpRequest \<Rightarrow> string \<times> 'j HttpRequest" where
  "url_authority r =
     (if url r \<noteq> [] \<and> \<not> starts_slash (url r) then (url r, r)
      else if standard_port (port r) then (host (Host r), Host r)
      else (host_port r, r))"

definition url_path :: "'j HttpRequest \<Rightarrow> string" where
  "url_path r =
     (if url r \<noteq> [] \<and> starts_slash (url r) then url r
      else if 1 < length (path r) \<and> starts_slash (path r) then path r
      else if url r = [] then ''/'' else [])"

definition DumpUrl :: "'j HttpRequest \<Rightarrow> 'j HttpRequest option" where
  "DumpUrl r =
     (if url r \<noteq> [] \<and> find_sub ''://'' (c_str (url r)) \<noteq> None then Some r
      else (case url_authority r of (auth, r') \<Rightarrow>
        (let str = scheme r' @ ''://'' @ auth @ url_path r'
         in if CHR ''?'' \<notin> set (c_str str) \<and> query_params r' \<noteq> []
            then map_option (\<lambda>q. r'\<lparr>url := str @ ''?'' @ q\<rparr>) (dump_query_params (query_params r'))
            else Some (r'\<lparr>url := str\<rparr>))))"

text \<open>What the parser of \<open>http_parser.c\<close> reports of a url: offsets and lengths, and the port.\<close>

record url_fields =
  uf_schema :: "nat \<times> nat"
  uf_host :: "(nat \<times> nat) option"
  uf_port :: int
  uf_path :: "nat option"
  uf_query :: "nat option"

definition ParseUrl :: "(string \<Rightarrow> url_fields) \<Rightarrow> 'j HttpRequest \<Rightarrow> 'j HttpRequest option" where
  "ParseUrl parse_url r0 =
     Option.bind (DumpUrl r0) (\<lambda>r.
       (let f = parse_url (url r);
            sch = substr (url r) (fst (uf_schema f)) (snd (uf_schema f));
            r = r\<lparr>scheme := sch,
                  host := (case uf_host f of Some (off, len) \<Rightarrow> substr (url r) off len | None \<Rightarrow> host r),
                  port := (if uf_port f \<noteq> 0 then uf_port f
                           else if c_str sch \<noteq> ''https'' then DEFAULT_HTTP_PORT else DEFAULT_HTTPS_PORT),
                  path := (case uf_path f of Some off \<Rightarrow> drop off (c_str (url r)) | None \<Rightarrow> path r)\<rparr>
        in (case uf_query f of
              None \<Rightarrow> Some r
            | Some off \<Rightarrow>
                map_option (\<lambda>(_, q). r\<lparr>query_params := q\<rparr>)
                  (parse_query_params (drop off (c_str (url r))) (query_params r)))))"

text \<open>The request line is printed into 256 bytes.\<close>

definition request_line :: "'j HttpRequest \<Rightarrow> string" where
  "request_line r = snprintf_256 (http_method_str (req_method r) @ '' '' @ c_str (path r) @ '' HTTP/''
     @ show_nat (http_major r) @ ''.'' @ show_nat (http_minor r) @ CRLF)"

definition add_host :: "'j HttpRequest \<Rightarrow> 'j HttpRequest" where
  "add_host r =
     (if hget ''Host'' (headers r) = None
      then r\<lparr>headers := hput ''Host'' (if standard_port (port r) then host r else host_port r) (headers r)\<rparr>
      else r)"

definition HttpRequest_Dump ::
    "'j ext \<Rightarrow> (string \<Rightarrow> url_fields) \<Rightarrow> bool \<Rightarrow> bool \<Rightarrow> 'j HttpRequest \<Rightarrow> (string \<times> 'j HttpRequest) option" where
  "HttpRequest_Dump E parse_url is_dump_headers is_dump_body r0 =
     Option.bind (ParseUrl parse_url r0) (\<lambda>r.
       Dump_from E is_dump_headers is_dump_body (request_line r) (if is_dump_headers then add_host r else r))"

section \<open>The callbacks of the parser\<close>

datatype http_parser_state =
    HP_START_REQ_OR_RES | HP_MESSAGE_BEGIN | HP_URL | HP_STATUS | HP_HEADER_FIELD | HP_HEADER_VALUE
  | HP_HEADERS_COMPLETE | HP_BODY | HP_MESSAGE_COMPLETE

text \<open>
  What \<open>http_parser_execute\<close> reports; the end of the headers carries the version and the method
  of a request.
\<close>

datatype http_event =
    Ev_message_begin
  | Ev_url string
  | Ev_status string
  | Ev_header_field string
  | Ev_header_value string
  | Ev_headers_complete nat nat nat
  | Ev_body string
  | Ev_message_complete

record 'j Http1Parser =
  hp_state :: http_parser_state
  hp_url :: string
  hp_header_field :: string
  hp_header_value :: string
  hp_parsed :: "'j HttpRequest"

definition MAX_CONTENT_LENGTH :: int where "MAX_CONTENT_LENGTH = 2 ^ 24"

definition handle_hdr :: "'j Http1Parser \<Rightarrow> 'j Http1Parser" where
  "handle_hdr hp =
     (if hp_header_field hp \<noteq> [] \<and> hp_header_value hp \<noteq> []
      then hp\<lparr>hp_parsed := (hp_parsed hp)\<lparr>headers := hput (hp_header_field hp) (hp_header_value hp) (headers (hp_parsed hp))\<rparr>,
              hp_header_field := [], hp_header_value := []\<rparr>
      else hp)"

text \<open>
  The reservation for a body of the announced length, for a request: \<open>content_length + 1\<close> and the
  minimum are computed in \<open>int\<close>, the comparison with the capacity as \<open>size_t\<close>; \<open>None\<close> when
  \<open>reserve\<close> throws.  The largest capacity a string may have is \<open>2 ^ 63 - 1\<close> bytes.
\<close>

definition reserve_body :: "nat \<Rightarrow> int \<Rightarrow> unit option" where
  "reserve_body capacity n =
     (let reserve_length = min (sint (word_of_int (n + 1) :: 32 word)) MAX_CONTENT_LENGTH;
          size = unat (word_of_int reserve_length :: 64 word)
      in if size > capacity \<and> size > 2 ^ 63 - 1 then None else Some ())"

definition on_headers_complete :: "nat \<Rightarrow> nat \<Rightarrow> nat \<Rightarrow> nat \<Rightarrow> 'j Http1Parser \<Rightarrow> 'j Http1Parser option" where
  "on_headers_complete capacity major minor mth hp0 =
     (let hp = handle_hdr hp0;
          r = (hp_parsed hp)\<lparr>http_major := major, http_minor := minor, req_method := mth, url := hp_url hp\<rparr>;
          r = (case hget ''content-type'' (headers r) of
                 Some v \<Rightarrow> r\<lparr>content_type := http_content_type_enum v\<rparr> | None \<Rightarrow> r)
      in (case hget ''content-length'' (headers r) of
            None \<Rightarrow> Some (hp\<lparr>hp_parsed := r, hp_state := HP_HEADERS_COMPLETE\<rparr>)
          | Some v \<Rightarrow>
              map_option (\<lambda>_. hp\<lparr>hp_parsed := r\<lparr>content_length := atoi v\<rparr>, hp_state := HP_HEADERS_COMPLETE\<rparr>)
                (reserve_body capacity (atoi v))))"

text \<open>The callbacks of a session that parses requests; \<open>capacity\<close> is the one of the body.\<close>

fun on_http_event :: "nat \<Rightarrow> http_event \<Rightarrow> 'j Http1Parser \<Rightarrow> 'j Http1Parser option" where
  "on_http_event cap Ev_message_begin hp = Some (hp\<lparr>hp_state := HP_MESSAGE_BEGIN\<rparr>)"
| "on_http_event cap (Ev_url s) hp = Some (hp\<lparr>hp_state := HP_URL, hp_url := hp_url hp @ s\<rparr>)"
| "on_http_event cap (Ev_status s) hp = Some (hp\<lparr>hp_state := HP_STATUS\<rparr>)"
| "on_http_event cap (Ev_header_field s) hp =
     (let hp = handle_hdr hp in Some (hp\<lparr>hp_state := HP_HEADER_FIELD, hp_header_field := hp_header_field hp @ s\<rparr>))"
| "on_http_event cap (Ev_header_value s) hp =
     Some (hp\<lparr>hp_state := HP_HEADER_VALUE, hp_header_value := hp_header_value hp @ s\<rparr>)"
| "on_http_event cap (Ev_headers_complete major minor mth) hp = on_headers_complete cap major minor mth hp"
| "on_http_event cap (Ev_body s) hp =
     Some (hp\<lparr>hp_state := HP_BODY, hp_parsed := (hp_parsed hp)\<lparr>body := body (hp_parsed hp) @ s\<rparr>\<rparr>)"
| "on_http_event cap Ev_message_complete hp = Some (hp\<lparr>hp_state := HP_MESSAGE_COMPLETE\<rparr>)"

fun on_http_events :: "nat \<Rightarrow> http_event list \<Rightarrow> 'j Http1Parser \<Rightarrow> 'j Http1Parser option" where
  "on_http_events cap [] hp = Some hp"
| "on_http_events cap (e # es) hp = Option.bind (on_http_event cap e hp) (on_http_events cap es)"

section \<open>Cookies: the text determines the cookie\<close>

definition trimmed :: "string \<Rightarrow> bool" where
  "trimmed s \<longleftrightarrow> CHR '';'' \<notin> set s \<and> s \<noteq> [] \<and> hd s \<notin> set SPACE_CHARS \<and> last s \<notin> set SPACE_CHARS"

definition cookie_reserved :: "string set" where
  "cookie_reserved = {''domain'', ''path'', ''max-age'', ''secure'', ''httponly''}"

definition attr_name :: "string \<Rightarrow> bool" where
  "attr_name s \<longleftrightarrow> trimmed s \<and> CHR ''='' \<notin> set s \<and> strcasekey s \<notin> cookie_reserved"

definition cookie_ok :: "HttpCookie \<Rightarrow> bool" where
  "cookie_ok ck \<longleftrightarrow> attr_name (ck_name ck) \<and> trimmed (ck_value ck) \<and>
     (ck_domain ck = [] \<or> trimmed (ck_domain ck)) \<and> (ck_path ck = [] \<or> trimmed (ck_path ck)) \<and>
     0 \<le> ck_max_age ck \<and> ck_max_age ck < 2 ^ 31"

lemma trim_cookie_word: "trimmed s \<Longrightarrow> trim s SPACE_CHARS = s"
  by (rule trim_id) (simp add: trimmed_def)

lemma trim_space: "trimmed s \<Longrightarrow> trim (CHR '' '' # s) SPACE_CHARS = s"
proof -
  assume s: "trimmed s"
  have "trimR (CHR '' '' # s) SPACE_CHARS = CHR '' '' # s"
    using s by (cases s rule: rev_cases) (auto simp: trimR_eq trimmed_def)
  then show ?thesis
    using s by (cases s) (auto simp: trim_trimL_trimR trimL_eq trimmed_def SPACE_CHARS_def)
qed

lemma find_first_eq:
  "CHR ''='' \<notin> set k \<Longrightarrow> find_first_of (k @ CHR ''='' # v) ''='' = Some (length k)"
  by (induction k) (auto simp: find_first_of_def)

lemma find_first_none: "CHR ''='' \<notin> set k \<Longrightarrow> find_first_of k ''='' = None"
  by (auto simp: find_first_of_def find_none)

definition store_attr :: "string \<Rightarrow> string \<Rightarrow> HttpCookie \<Rightarrow> HttpCookie" where
  "store_attr key val ck =
     (if stricmp_eq key ''domain'' then ck\<lparr>ck_domain := val\<rparr>
      else if stricmp_eq key ''path'' then ck\<lparr>ck_path := val\<rparr>
      else if stricmp_eq key ''max-age'' then ck\<lparr>ck_max_age := atoi val\<rparr>
      else if stricmp_eq key ''secure'' then ck\<lparr>ck_secure := True\<rparr>
      else if stricmp_eq key ''httponly'' then ck\<lparr>ck_httponly := True\<rparr>
      else if val \<noteq> [] then ck\<lparr>ck_name := key, ck_value := val\<rparr>
      else ck)"

lemma cookie_attr_pair:
  assumes "CHR ''='' \<notin> set key" "trimmed key" "trimmed val"
  shows "cookie_attr (key @ ''='' @ val) (v0, ck) = (val, store_attr key val ck)"
    and "cookie_attr (CHR '' '' # key @ ''='' @ val) (v0, ck) = (val, store_attr key val ck)"
proof -
  have f: "find_first_of (key @ ''='' @ val) ''='' = Some (length key)"
    "find_first_of ((CHR '' '' # key) @ ''='' @ val) ''='' = Some (Suc (length key))"
    using find_first_eq[of key val] find_first_eq[of "CHR '' '' # key" val] assms(1) by simp_all
  show "cookie_attr (key @ ''='' @ val) (v0, ck) = (val, store_attr key val ck)"
    "cookie_attr (CHR '' '' # key @ ''='' @ val) (v0, ck) = (val, store_attr key val ck)"
    using f assms by (simp_all add: cookie_attr_def store_attr_def trim_cookie_word trim_space substr_def substr_from_def)
qed

lemma cookie_attr_flag:
  assumes "CHR ''='' \<notin> set key" "trimmed key"
  shows "cookie_attr (CHR '' '' # key) (v0, ck) = (v0, store_attr key v0 ck)"
  using assms find_first_none[of "CHR '' '' # key"] by (simp add: cookie_attr_def store_attr_def trim_space)

lemma reserved_trimmed:
  "trimmed ''domain''" "trimmed ''path''" "trimmed ''max-age''" "trimmed ''secure''" "trimmed ''httponly''"
  by code_simp+

lemma store_reserved:
  "store_attr ''domain'' v ck = ck\<lparr>ck_domain := v\<rparr>" "store_attr ''path'' v ck = ck\<lparr>ck_path := v\<rparr>"
  "store_attr ''max-age'' v ck = ck\<lparr>ck_max_age := atoi v\<rparr>" "store_attr ''secure'' v ck = ck\<lparr>ck_secure := True\<rparr>"
  "store_attr ''httponly'' v ck = ck\<lparr>ck_httponly := True\<rparr>"
  by (simp_all add: store_attr_def stricmp_eq_def strcasekey_def tolower_c_def c_str_def less_eq_char_def)

lemma store_named: "strcasekey key \<notin> cookie_reserved \<Longrightarrow> v \<noteq> [] \<Longrightarrow> store_attr key v ck = ck\<lparr>ck_name := key, ck_value := v\<rparr>"
proof -
  have "strcasekey ''domain'' = ''domain''" "strcasekey ''path'' = ''path''" "strcasekey ''max-age'' = ''max-age''"
    "strcasekey ''secure'' = ''secure''" "strcasekey ''httponly'' = ''httponly''" by code_simp+
  then show "strcasekey key \<notin> cookie_reserved \<Longrightarrow> v \<noteq> [] \<Longrightarrow> store_attr key v ck = ck\<lparr>ck_name := key, ck_value := v\<rparr>"
    by (simp add: store_attr_def stricmp_eq_def cookie_reserved_def)
qed

text \<open>The pieces of the text of a cookie behind its name.\<close>

definition cookie_tail :: "HttpCookie \<Rightarrow> string list" where
  "cookie_tail ck =
     (if ck_domain ck \<noteq> [] then ['' domain='' @ ck_domain ck] else [])
     @ (if ck_path ck \<noteq> [] then ['' path='' @ ck_path ck] else [])
     @ (if ck_max_age ck > 0 then ['' max-age='' @ show_int (ck_max_age ck)] else [])
     @ (if ck_secure ck then ['' secure''] else [])
     @ (if ck_httponly ck then ['' httponly''] else [])"

lemma join_with_concat: "join_with d (w # ws) = w @ concat (map (\<lambda>x. d # x) ws)"
  by (induction ws arbitrary: w) simp_all

lemma getlines_join:
  assumes "\<forall>w \<in> set ws. d \<notin> set w" "ws \<noteq> []" "last ws \<noteq> []"
  shows "getlines d (join_with d ws) = ws"
  using split_from_join[of ws d "[]"] assms by (simp add: getlines_def Let_def)

lemma cookie_dump_join:
  "ck_name ck \<noteq> [] \<Longrightarrow> ck_value ck \<noteq> [] \<Longrightarrow>
     HttpCookie_dump ck = Some (join_with (CHR '';'') ((ck_name ck @ ''='' @ ck_value ck) # cookie_tail ck))"
  by (simp add: HttpCookie_dump_def join_with_concat cookie_tail_def)

lemma trimmed_show_int:
  assumes "0 < i"
  shows "trimmed (show_int i)"
proof -
  have d: "\<forall>c \<in> set (show_nat (nat i)). isdigit_c c" using show_nat_digits by blast
  have "c \<noteq> CHR '';'' \<and> c \<notin> set SPACE_CHARS" if "isdigit_c c" for c
    using that by (auto simp: isdigit_c_def SPACE_CHARS_def less_eq_char_def)
  with d have "\<forall>c \<in> set (show_nat (nat i)). c \<noteq> CHR '';'' \<and> c \<notin> set SPACE_CHARS" by blast
  then show ?thesis
    using assms hd_in_set[of "show_nat (nat i)"] last_in_set[of "show_nat (nat i)"]
    by (auto simp: trimmed_def show_int_def)
qed

lemma cookie_piece:
  "trimmed v \<Longrightarrow> cookie_attr ('' domain='' @ v) (v0, c) = (v, c\<lparr>ck_domain := v\<rparr>)"
  "trimmed v \<Longrightarrow> cookie_attr ('' path='' @ v) (v0, c) = (v, c\<lparr>ck_path := v\<rparr>)"
  "trimmed v \<Longrightarrow> cookie_attr ('' max-age='' @ v) (v0, c) = (v, c\<lparr>ck_max_age := atoi v\<rparr>)"
  "cookie_attr '' secure'' (v0, c) = (v0, c\<lparr>ck_secure := True\<rparr>)"
  "cookie_attr '' httponly'' (v0, c) = (v0, c\<lparr>ck_httponly := True\<rparr>)"
  using cookie_attr_pair(2)[of "''domain''" v v0 c] cookie_attr_pair(2)[of "''path''" v v0 c]
    cookie_attr_pair(2)[of "''max-age''" v v0 c] cookie_attr_flag[of "''secure''" v0 c]
    cookie_attr_flag[of "''httponly''" v0 c]
  by (simp_all add: reserved_trimmed store_reserved)

lemma cookie_opt_piece:
  "fold cookie_attr (if b then [x] else []) st = (if b then cookie_attr x st else st)"
  by simp

lemma cookie_tail_fold:
  assumes "cookie_ok ck"
  shows "snd (fold cookie_attr (cookie_tail ck) (v, HttpCookie_new\<lparr>ck_name := ck_name ck, ck_value := ck_value ck\<rparr>)) = ck"
proof -
  have D: "ck_domain ck \<noteq> [] \<Longrightarrow> trimmed (ck_domain ck)" and P: "ck_path ck \<noteq> [] \<Longrightarrow> trimmed (ck_path ck)"
    and A: "atoi (show_int (ck_max_age ck)) = ck_max_age ck" and M: "0 \<le> ck_max_age ck"
    using assms by (auto simp: cookie_ok_def intro: atoi_show_int)
  note piece = cookie_piece[simplified append_Cons append_Nil]
  have "\<exists>v'. fold cookie_attr (cookie_tail ck) (v, c) =
      (v', c\<lparr>ck_domain := if ck_domain ck \<noteq> [] then ck_domain ck else ck_domain c,
            ck_path := if ck_path ck \<noteq> [] then ck_path ck else ck_path c,
            ck_max_age := if ck_max_age ck > 0 then ck_max_age ck else ck_max_age c,
            ck_secure := ck_secure ck \<or> ck_secure c, ck_httponly := ck_httponly ck \<or> ck_httponly c\<rparr>)" for c
    by (cases "ck_domain ck = []"; cases "ck_path ck = []"; cases "ck_max_age ck > 0"; cases "ck_secure ck"; cases "ck_httponly ck")
      (simp_all add: cookie_tail_def cookie_opt_piece piece D P A trimmed_show_int)
  from this[of "HttpCookie_new\<lparr>ck_name := ck_name ck, ck_value := ck_value ck\<rparr>"] show ?thesis
    using M by (auto simp: HttpCookie_new_def)
qed

lemma cookie_tail_clean: "cookie_ok ck \<Longrightarrow> w \<in> set (cookie_tail ck) \<Longrightarrow> CHR '';'' \<notin> set w \<and> w \<noteq> []"
  using trimmed_show_int[of "ck_max_age ck"]
  by (auto simp: cookie_tail_def cookie_ok_def trimmed_def split: if_splits)

text \<open>
  C32.  Cookies: reading the text written for a cookie gives the cookie back, for any name that
  is not one of the attribute names, any value, domain and path without semicolons and without
  blanks at their ends (the value may contain equal signs), and any age that is not negative.
\<close>

theorem cookie_roundtrip:
  assumes "cookie_ok ck"
  shows "\<exists>str. HttpCookie_dump ck = Some str \<and> HttpCookie_parse str HttpCookie_new = (True, ck)"
proof (intro exI conjI)
  let ?p = "ck_name ck @ ''='' @ ck_value ck"
  have n: "attr_name (ck_name ck)" and v: "trimmed (ck_value ck)" using assms by (auto simp: cookie_ok_def)
  then have ne: "ck_name ck \<noteq> []" "ck_value ck \<noteq> []" by (auto simp: attr_name_def trimmed_def)
  show "HttpCookie_dump ck = Some (join_with (CHR '';'') (?p # cookie_tail ck))"
    by (rule cookie_dump_join[OF ne])
  have "\<forall>w \<in> set (?p # cookie_tail ck). CHR '';'' \<notin> set w \<and> w \<noteq> []"
    using cookie_tail_clean[OF assms] n v by (auto simp: attr_name_def trimmed_def)
  then have g: "getlines (CHR '';'') (join_with (CHR '';'') (?p # cookie_tail ck)) = ?p # cookie_tail ck"
    by (intro getlines_join) (auto simp: last_in_set)
  have "cookie_attr ?p ([], HttpCookie_new) =
      (ck_value ck, HttpCookie_new\<lparr>ck_name := ck_name ck, ck_value := ck_value ck\<rparr>)"
    using cookie_attr_pair(1) n v ne by (simp add: attr_name_def store_named)
  then show "HttpCookie_parse (join_with (CHR '';'') (?p # cookie_tail ck)) HttpCookie_new = (True, ck)"
    unfolding HttpCookie_parse_def Let_def g using cookie_tail_fold[OF assms] ne by simp
qed

theorem cookie_roundtrip_witness:
  "\<exists>str. HttpCookie_dump \<lparr>ck_name = ''sid'', ck_value = ''a=b'', ck_domain = ''.x.org'', ck_path = ''/'',
       ck_max_age = 60, ck_secure = True, ck_httponly = False\<rparr> = Some str \<and>
     HttpCookie_parse str HttpCookie_new = (True, \<lparr>ck_name = ''sid'', ck_value = ''a=b'', ck_domain = ''.x.org'',
       ck_path = ''/'', ck_max_age = 60, ck_secure = True, ck_httponly = False\<rparr>)"
proof -
  have "cookie_ok \<lparr>ck_name = ''sid'', ck_value = ''a=b'', ck_domain = ''.x.org'', ck_path = ''/'',
       ck_max_age = 60, ck_secure = True, ck_httponly = False\<rparr>" by code_simp
  then show ?thesis by (rule cookie_roundtrip)
qed

text \<open>
  Cookies with an attribute the parser does not know are misread: an attribute with a
  value replaces the name and the value of the cookie, and one without a value replaces the name and
  takes over the value of the attribute before it.
\<close>

theorem cookie_unknown_attribute:
  assumes "attr_name (ck_name ck)" "trimmed (ck_value ck)" "attr_name x" "trimmed v"
  shows "HttpCookie_parse (ck_name ck @ ''='' @ ck_value ck @ '';'' @ CHR '' '' # x) HttpCookie_new =
      (True, HttpCookie_new\<lparr>ck_name := x, ck_value := ck_value ck\<rparr>) \<and>
    HttpCookie_parse (ck_name ck @ ''='' @ ck_value ck @ '';'' @ CHR '' '' # x @ ''='' @ v) HttpCookie_new =
      (True, HttpCookie_new\<lparr>ck_name := x, ck_value := v\<rparr>)"
proof -
  let ?p = "ck_name ck @ ''='' @ ck_value ck"
  have ne: "ck_name ck \<noteq> []" "ck_value ck \<noteq> []" "x \<noteq> []" "v \<noteq> []"
    using assms by (auto simp: attr_name_def trimmed_def)
  have p: "cookie_attr ?p ([], HttpCookie_new) =
      (ck_value ck, HttpCookie_new\<lparr>ck_name := ck_name ck, ck_value := ck_value ck\<rparr>)"
    using cookie_attr_pair(1) assms ne by (simp add: attr_name_def store_named)
  have parse: "HttpCookie_parse (?p @ '';'' @ w) HttpCookie_new =
      (let ck' = snd (cookie_attr w (ck_value ck, HttpCookie_new\<lparr>ck_name := ck_name ck, ck_value := ck_value ck\<rparr>))
       in (ck_name ck' \<noteq> [] \<and> ck_value ck' \<noteq> [], ck'))" if w: "CHR '';'' \<notin> set w" "w \<noteq> []" for w
  proof -
    have "getlines (CHR '';'') (join_with (CHR '';'') [?p, w]) = [?p, w]"
      using assms w by (intro getlines_join) (auto simp: attr_name_def trimmed_def)
    then show ?thesis using p by (simp add: HttpCookie_parse_def)
  qed
  have "CHR '';'' \<notin> set (CHR '' '' # x)" "CHR '';'' \<notin> set (CHR '' '' # x @ ''='' @ v)"
    using assms by (auto simp: attr_name_def trimmed_def)
  then show ?thesis
    using parse[of "CHR '' '' # x"] parse[of "CHR '' '' # x @ ''='' @ v"] cookie_attr_flag[of x] cookie_attr_pair(2)[of x v]
      assms ne by (simp add: attr_name_def store_named)
qed

theorem cookie_unknown_attribute_witness:
  "HttpCookie_parse ''sid=1; SameSite'' HttpCookie_new = (True, HttpCookie_new\<lparr>ck_name := ''SameSite'', ck_value := ''1''\<rparr>)"
proof -
  let ?ck = "HttpCookie_new\<lparr>ck_name := ''sid'', ck_value := ''1''\<rparr>"
  have "attr_name (ck_name ?ck)" "trimmed (ck_value ?ck)" "attr_name ''SameSite''" "trimmed ''Lax''" by code_simp+
  from cookie_unknown_attribute[OF this] show ?thesis by simp
qed

section \<open>Framing: the text of a response\<close>

text \<open>
  A reader of messages: the lines up to the empty one, and what follows it; a header line is
  split at the first colon and blank.
\<close>

function read_head :: "string \<Rightarrow> string \<Rightarrow> string list \<times> string" where
  "read_head acc [] = ([acc], [])"
| "read_head acc (c # s) =
     (if c = CR \<and> s \<noteq> [] \<and> hd s = NL
      then (if acc = [] then ([], tl s)
            else (case read_head [] (tl s) of (ls, rest) \<Rightarrow> (acc # ls, rest)))
      else read_head (acc @ [c]) s)"
  by pat_completeness auto
termination by (relation "measure (\<lambda>(acc, s). length s)") auto

definition read_field :: "string \<Rightarrow> string \<times> string" where
  "read_field line =
     (case find_sub '': '' line of Some i \<Rightarrow> (take i line, drop (i + 2) line) | None \<Rightarrow> (line, []))"

definition clean_header :: "string \<times> string \<Rightarrow> bool" where
  "clean_header h \<longleftrightarrow> fst h \<noteq> [] \<and> CR \<notin> set (fst h) \<and> CHR '':'' \<notin> set (fst h) \<and> CR \<notin> set (snd h)"

lemma read_head_line: "CR \<notin> set w \<Longrightarrow> read_head acc (w @ CRLF @ s) =
    (if acc @ w = [] then ([], s) else (case read_head [] s of (ls, rest) \<Rightarrow> ((acc @ w) # ls, rest)))"
  by (induction w arbitrary: acc) (auto simp: CRLF_def)

lemma find_colon: "CHR '':'' \<notin> set k \<Longrightarrow> find_sub '': '' (k @ '': '' @ v) = Some (length k)"
  by (induction k) auto

lemma read_field_line: "CHR '':'' \<notin> set k \<Longrightarrow> read_field (k @ '': '' @ v) = (k, v)"
  using find_colon[of k v] by (simp add: read_field_def)

lemma read_headers:
  "\<forall>h \<in> set hs. clean_header h \<Longrightarrow>
     read_head [] (concat (map header_line hs) @ CRLF @ s) = (map (\<lambda>h. fst h @ '': '' @ snd h) hs, s)"
proof (induction hs)
  case Nil
  then show ?case using read_head_line[of "[]" "[]" s] by simp
next
  case (Cons h hs)
  have "CR \<notin> set (fst h @ '': '' @ snd h)" using Cons.prems by (simp add: clean_header_def)
  note L = read_head_line[OF this, of "[]" "concat (map header_line hs) @ CRLF @ s"]
  have "concat (map header_line (h # hs)) @ CRLF @ s =
      (fst h @ '': '' @ snd h) @ CRLF @ concat (map header_line hs) @ CRLF @ s"
    by (simp add: header_line_def)
  then show ?case using L Cons by simp
qed

lemma put_headers:
  assumes "c_str str \<noteq> []" "hd (c_str str) \<noteq> CHR '':''"
  shows "fold put_header hs str = str @ concat (map header_line hs)"
  using assms
proof (induction hs arbitrary: str)
  case (Cons h hs)
  have "hd str \<noteq> NUL \<and> str \<noteq> []" using Cons.prems(1) by (cases str) (auto simp: c_str_def)
  then have "c_str (str @ header_line h) \<noteq> []" "hd (c_str (str @ header_line h)) = hd (c_str str)"
    by (cases str; simp add: c_str_def)+
  then show ?case using Cons by (simp add: put_header_def)
qed simp

lemma clean_hput:
  "\<forall>h \<in> set hs. clean_header h \<Longrightarrow> clean_header (k, v) \<Longrightarrow> \<forall>h \<in> set (hput k v hs). clean_header h"
proof (induction hs)
  case (Cons h hs)
  obtain a b where h: "h = (a, b)" by (cases h)
  have "clean_header (a, v)" using Cons.prems by (simp add: h clean_header_def)
  then show ?case using Cons by (simp add: h)
qed simp

lemma hget_hput: "hget j (hput k v hs) = (if strcasekey j = strcasekey k then Some v else hget j hs)"
  by (simp only: casemap.get_put StringCaseLess_equiv)

lemma hget_clean: "\<forall>h \<in> set hs. clean_header h \<Longrightarrow> hget k hs = Some v \<Longrightarrow> CR \<notin> set v"
  by (induction hs) (auto simp: clean_header_def split: if_splits)

lemma header_keys:
  "strcasekey ''Content-Type'' = ''content-type''" "strcasekey ''Content-Length'' = ''content-length''"
  "strcasekey ''Date'' = ''date''"
  by code_simp+

lemma content_type_str_clean: "CR \<notin> set (http_content_type_str t)"
  by (cases t) (simp_all add: http_content_type_str_def HTTP_CONTENT_TYPE_MAP_def)

text \<open>Completing the content type changes that header and the content type, and nothing else.\<close>

lemma append_boundary_spec:
  assumes "\<forall>h \<in> set (headers m). clean_header h"
  obtains h where "append_boundary m = m\<lparr>headers := h\<rparr>" "\<forall>x \<in> set h. clean_header x"
    "\<And>k. strcasekey k \<noteq> ''content-type'' \<Longrightarrow> hget k h = hget k (headers m)"
proof (cases "append_boundary m = m")
  case True
  then show thesis using that[of "headers m"] assms by simp
next
  case False
  let ?new = "\<lambda>v. v @ ''; boundary='' @ DEFAULT_MULTIPART_BOUNDARY"
  obtain v where v: "hget ''Content-Type'' (headers m) = Some v"
    "append_boundary m = m\<lparr>headers := hput ''Content-Type'' (?new v) (headers m)\<rparr>"
    using False by (auto simp: append_boundary_def split: if_splits option.splits)
  have "clean_header (''Content-Type'', ?new v)"
    using hget_clean[OF assms v(1)] by (simp add: clean_header_def DEFAULT_MULTIPART_BOUNDARY_def)
  from clean_hput[OF assms this] show thesis
    by (intro that[OF v(2)]) (simp_all add: hget_hput header_keys)
qed

lemma FillContentType_spec:
  assumes "\<forall>h \<in> set (headers m). clean_header h"
  obtains t h where "FillContentType E m = m\<lparr>content_type := t, headers := h\<rparr>" "\<forall>x \<in> set h. clean_header x"
    "\<And>k. strcasekey k \<noteq> ''content-type'' \<Longrightarrow> hget k h = hget k (headers m)"
proof (cases "hget ''Content-Type'' (headers m)")
  case (Some v)
  let ?m = "m\<lparr>content_type := http_content_type_enum v\<rparr>"
  have "\<forall>h \<in> set (headers ?m). clean_header h" using assms by simp
  from append_boundary_spec[OF this] obtain h where "append_boundary ?m = ?m\<lparr>headers := h\<rparr>"
    "\<forall>x \<in> set h. clean_header x" "\<And>k. strcasekey k \<noteq> ''content-type'' \<Longrightarrow> hget k h = hget k (headers ?m)" by blast
  with Some show thesis using that[of h "http_content_type_enum v"] by (simp add: FillContentType_def)
next
  case None
  let ?t = "infer_type E m"
  let ?h = "if ?t \<noteq> CONTENT_TYPE_NONE then hput ''Content-Type'' (http_content_type_str ?t) (headers m) else headers m"
  let ?m = "m\<lparr>content_type := ?t, headers := ?h\<rparr>"
  have "\<forall>h \<in> set (headers ?m). clean_header h"
    using clean_hput[OF assms, of "''Content-Type''" "http_content_type_str ?t"] assms content_type_str_clean
    by (simp add: clean_header_def)
  from append_boundary_spec[OF this] obtain h where "append_boundary ?m = ?m\<lparr>headers := h\<rparr>"
    "\<forall>x \<in> set h. clean_header x" "\<And>k. strcasekey k \<noteq> ''content-type'' \<Longrightarrow> hget k h = hget k (headers ?m)" by blast
  with None show thesis using that[of h ?t]
    by (auto simp: FillContentType_def Let_def hget_hput header_keys split: if_splits)
qed

lemma status_str_clean: "CR \<notin> set (http_status_str s) \<and> length (http_status_str s) \<le> 40"
proof -
  have "\<forall>x \<in> set HTTP_STATUS_MAP. CR \<notin> set (snd x) \<and> length (snd x) \<le> 40" by code_simp
  then have "CR \<notin> set t \<and> length t \<le> 40" if "(s, t) \<in> set HTTP_STATUS_MAP" for s t
    using that by fastforce
  then show ?thesis
    by (auto simp: http_status_str_def table_str_def split: option.split dest!: map_of_SomeD)
qed

lemma show_nat_short: "n < 1000 \<Longrightarrow> length (show_nat n) \<le> 3"
  by (simp add: show_nat.simps[of n] show_nat.simps[of "n div 10"] show_nat.simps[of "n div 10 div 10"])

lemma show_nat_clean: "CR \<notin> set (show_nat n)"
  using show_nat_digits[of CR n] by (auto simp: isdigit_c_def less_eq_char_def)

definition status_text :: "'j HttpResponse \<Rightarrow> string" where
  "status_text m = ''HTTP/'' @ show_nat (http_major m) @ ''.'' @ show_nat (http_minor m) @ '' ''
     @ show_nat (status_code m) @ '' '' @ http_status_str (status_code m)"

lemma status_line_text:
  assumes "http_major m < 10" "http_minor m < 10" "status_code m < 1000"
  shows "status_line m = status_text m @ CRLF"
    and "CR \<notin> set (status_text m)"
    and "c_str (status_text m @ x) \<noteq> [] \<and> hd (c_str (status_text m @ x)) = CHR ''H''"
proof -
  have "length (status_text m @ CRLF) \<le> 255"
    using show_nat_short[of "http_major m"] show_nat_short[of "http_minor m"] show_nat_short[of "status_code m"]
      status_str_clean[of "status_code m"] assms by (simp add: status_text_def CRLF_def)
  then show "status_line m = status_text m @ CRLF"
    by (simp add: status_line_def snprintf_256_def status_text_def CRLF_def)
  show "CR \<notin> set (status_text m)"
    using status_str_clean[of "status_code m"] show_nat_clean by (simp add: status_text_def)
  show "c_str (status_text m @ x) \<noteq> [] \<and> hd (c_str (status_text m @ x)) = CHR ''H''"
    by (simp add: status_text_def c_str_def)
qed

lemma int_of_size_id: "n < 2 ^ 31 \<Longrightarrow> int_of_size n = int n"
  by (simp add: int_of_size_def signed_of_nat signed_take_bit_int_eq_self)

lemma map_read_field: "\<forall>h \<in> set hs. clean_header h \<Longrightarrow> map read_field (map (\<lambda>h. fst h @ '': '' @ snd h) hs) = hs"
  by (induction hs) (use read_field_line in \<open>auto simp: clean_header_def\<close>)

lemma show_int_clean: "CR \<notin> set (show_int i)"
  using show_nat_clean by (simp add: show_int_def)

text \<open>
  C17.  Framing of a response: for a response with a body in memory and no length set, the text
  consists of the status line, one line per header, an empty line and the body.  A reader that
  splits lines and fields gets exactly the headers the response has afterwards, in which the
  content length is the size of the body, the date is set, and every header other than these and
  the content type is unchanged; what follows the empty line is the body.
\<close>

theorem response_framing:
  assumes "http_major m < 10" "http_minor m < 10" "status_code m < 1000"
    and clean: "\<forall>h \<in> set (headers m). clean_header h" and date: "CR \<notin> set date"
    and "hget ''Content-Length'' (headers m) = None" "content_length m = 0" "content m = Content_null"
    and "body m \<noteq> []" "length (body m) < 2 ^ 31"
  shows "\<exists>txt ls m'. HttpResponse_Dump E date True True m = Some (txt, m') \<and>
    read_head [] txt = (status_text m # ls, body m) \<and> map read_field ls = headers m' \<and>
    hget ''Content-Length'' (headers m') = Some (show_int (int (length (body m)))) \<and>
    hget ''Date'' (headers m') = Some date \<and>
    (\<forall>k. strcasekey k \<notin> {''date'', ''content-type'', ''content-length''} \<longrightarrow> hget k (headers m') = hget k (headers m))"
proof -
  note S = status_line_text[OF assms(1-3)]
  let ?m1 = "m\<lparr>headers := hput ''Date'' date (headers m)\<rparr>"
  let ?n = "int (length (body m))"
  have "\<forall>h \<in> set (headers ?m1). clean_header h"
    using clean_hput[OF clean, of "''Date''" date] date by (simp add: clean_header_def)
  then obtain t h where
    f: "FillContentType E ?m1 = ?m1\<lparr>content_type := t, headers := h\<rparr>" "\<forall>x \<in> set h. clean_header x"
      "\<And>k. strcasekey k \<noteq> ''content-type'' \<Longrightarrow> hget k h = hget k (headers ?m1)"
    by (rule FillContentType_spec[where E = E]) (rule that)
  let ?h = "hput ''Content-Length'' (show_int ?n) h"
  let ?m2 = "m\<lparr>content_type := t, content_length := ?n, headers := ?h\<rparr>"
  have cl: "hget ''Content-Length'' h = None" using f(3) assms(6) by (simp add: hget_hput header_keys)
  have L: "FillContentLength E (FillContentType E ?m1) = Some ?m2"
    using cl assms(7,9,10) by (simp add: f(1) FillContentLength_def Let_def int_of_size_id)
  have hs: "\<forall>x \<in> set ?h. clean_header x"
    using clean_hput[OF f(2), of "''Content-Length''" "show_int ?n"] show_int_clean by (simp add: clean_header_def)
  have "c_str (status_line m) \<noteq> []" "hd (c_str (status_line m)) \<noteq> CHR '':''"
    using S(3)[of CRLF] by (simp_all add: S(1))
  note P = put_headers[OF this, of ?h]
  let ?txt = "status_text m @ CRLF @ concat (map header_line ?h) @ CRLF @ body m"
  let ?m' = "?m2\<lparr>content := Content_body\<rparr>"
  have D: "HttpResponse_Dump E date True True m = Some (?txt, ?m')"
    using assms(8,9,10) L P
    by (simp add: HttpResponse_Dump_def Dump_from_def DumpHeaders_def DumpBody_to_def DumpBody_def Content_def
        ContentLength_def append_content_def S(1) Let_def)
  have "read_head [] ?txt = (status_text m # map (\<lambda>h. fst h @ '': '' @ snd h) ?h, body m)"
    using read_head_line[OF S(2), of "[]" "concat (map header_line ?h) @ CRLF @ body m"] read_headers[OF hs, of "body m"]
    by (simp add: status_text_def)
  then show ?thesis
    using D map_read_field[OF hs] f(3) by (intro exI[of _ ?txt] exI[of _ ?m'] exI[of _ "map (\<lambda>h. fst h @ '': '' @ snd h) ?h"])
      (simp add: hget_hput header_keys)
qed

theorem response_framing_witness:
  "\<exists>txt ls m'. HttpResponse_Dump
     \<lparr>ext_readall = \<lambda>_. None, ext_json_clear = (), ext_json_empty = \<lambda>_. True, ext_json_dump = \<lambda>_. [], ext_json_parse = \<lambda>_. (0, ())\<rparr>
     ''today'' True True
     \<lparr>http_major = 1, http_minor = 1, headers = [(''Server'', ''s'')], body = ''hello'', content = Content_null,
      content_length = 0, content_type = CONTENT_TYPE_NONE, json = (), form = [], kv = [], status_code = 200\<rparr> = Some (txt, m') \<and>
   read_head [] txt = (''HTTP/1.1 200 OK'' # ls, ''hello'') \<and> map read_field ls = headers m' \<and>
   hget ''Content-Length'' (headers m') = Some ''5'' \<and> hget ''server'' (headers m') = Some ''s''"
proof -
  let ?m = "\<lparr>http_major = 1, http_minor = 1, headers = [(''Server'', ''s'')], body = ''hello'', content = Content_null,
      content_length = 0, content_type = CONTENT_TYPE_NONE, json = (), form = [], kv = [], status_code = 200\<rparr>"
  let ?E = "\<lparr>ext_readall = \<lambda>_. None, ext_json_clear = (), ext_json_empty = \<lambda>_. True, ext_json_dump = \<lambda>_. [], ext_json_parse = \<lambda>_. (0, ())\<rparr>"
  have st: "status_text ?m = ''HTTP/1.1 200 OK''" and n: "show_int 5 = ''5''" and
    h: "hget ''server'' (headers ?m) = Some ''s''" and s: "strcasekey ''server'' = ''server''" and
    nc: "hget ''Content-Length'' (headers ?m) = None" by code_simp+
  have "\<forall>h \<in> set (headers ?m). clean_header h" "CR \<notin> set ''today''" by (simp_all add: clean_header_def)
  from response_framing[of ?m, OF _ _ _ this nc, of ?E] st n h s show ?thesis by force
qed

section \<open>Requests from the events of the parser\<close>

definition header_events_of :: "(string list \<times> string list) list \<Rightarrow> http_event list" where
  "header_events_of ps = concat (map (\<lambda>(ks, vs). map Ev_header_field ks @ map Ev_header_value vs) ps)"

definition put_all :: "(string \<times> string) list \<Rightarrow> http_headers \<Rightarrow> http_headers" where
  "put_all hs m = fold (\<lambda>(k, v). hput k v) hs m"

definition joined :: "(string list \<times> string list) list \<Rightarrow> (string \<times> string) list" where
  "joined ps = map (\<lambda>(ks, vs). (concat ks, concat vs)) ps"

lemma events_app: "on_http_events cap (es @ fs) hp = Option.bind (on_http_events cap es hp) (on_http_events cap fs)"
  by (induction es arbitrary: hp) (auto split: Option.bind_splits)

text \<open>What a parser still has to do is compared after a pending header has been stored.\<close>

lemma handle_hdr_fields [simp]:
  "hp_state (handle_hdr hp) = hp_state hp" "hp_url (handle_hdr hp) = hp_url hp"
  "body (hp_parsed (handle_hdr hp)) = body (hp_parsed hp)"
  by (simp_all add: handle_hdr_def)

lemma field_events:
  assumes "hp_header_value hp = []"
  shows "\<exists>s. on_http_events cap (map Ev_header_field ks) hp =
    Some (hp\<lparr>hp_state := s, hp_header_field := hp_header_field hp @ concat ks\<rparr>)"
  using assms
proof (induction ks arbitrary: hp)
  case Nil
  then show ?case by (auto intro: exI[of _ "hp_state hp"])
next
  case (Cons k ks)
  let ?hp = "hp\<lparr>hp_state := HP_HEADER_FIELD, hp_header_field := hp_header_field hp @ k\<rparr>"
  have "handle_hdr hp = hp" using Cons.prems by (simp add: handle_hdr_def)
  then show ?case using Cons.IH[of ?hp] Cons.prems by auto
qed

lemma value_events:
  "\<exists>s. on_http_events cap (map Ev_header_value vs) hp =
    Some (hp\<lparr>hp_state := s, hp_header_value := hp_header_value hp @ concat vs\<rparr>)"
proof (induction vs arbitrary: hp)
  case Nil
  then show ?case by (auto intro: exI[of _ "hp_state hp"])
next
  case (Cons v vs)
  from Cons.IH[of "hp\<lparr>hp_state := HP_HEADER_VALUE, hp_header_value := hp_header_value hp @ v\<rparr>"] show ?case by auto
qed

lemma handle_idle: "hp_header_field hp = [] \<Longrightarrow> handle_hdr hp = hp"
  by (simp add: handle_hdr_def)

lemma one_header:
  assumes "ks \<noteq> []" "concat ks \<noteq> []" "concat vs \<noteq> []" "hp_header_field (handle_hdr hp) = []" "hp_header_value (handle_hdr hp) = []"
  shows "\<exists>s. on_http_events cap (map Ev_header_field ks @ map Ev_header_value vs) hp =
    Some ((handle_hdr hp)\<lparr>hp_state := s, hp_header_field := concat ks, hp_header_value := concat vs\<rparr>)"
proof -
  obtain k ks' where ks: "ks = k # ks'" using assms(1) by (cases ks) auto
  let ?h1 = "(handle_hdr hp)\<lparr>hp_state := HP_HEADER_FIELD, hp_header_field := k\<rparr>"
  obtain s where s: "on_http_events cap (map Ev_header_field ks') ?h1 = Some (?h1\<lparr>hp_state := s, hp_header_field := concat ks\<rparr>)"
    using field_events[of ?h1 cap ks'] assms(5) by (auto simp: ks)
  obtain st u f v pr where H: "handle_hdr hp =
      \<lparr>hp_state = st, hp_url = u, hp_header_field = f, hp_header_value = v, hp_parsed = pr\<rparr>"
    by (cases "handle_hdr hp")
  from value_events[of cap vs "?h1\<lparr>hp_state := s, hp_header_field := concat ks\<rparr>"] show ?thesis
    using s assms(4,5) by (auto simp: ks events_app H)
qed

lemma http_header_run:
  assumes "\<forall>(ks, vs) \<in> set ps. ks \<noteq> [] \<and> concat ks \<noteq> [] \<and> concat vs \<noteq> []"
    and "hp_header_field (handle_hdr hp) = []" "hp_header_value (handle_hdr hp) = []"
  shows "\<exists>s hp'. on_http_events cap (header_events_of ps) hp = Some hp' \<and>
    handle_hdr hp' = (handle_hdr hp)\<lparr>hp_state := s,
      hp_parsed := (hp_parsed (handle_hdr hp))\<lparr>headers := put_all (joined ps) (headers (hp_parsed (handle_hdr hp)))\<rparr>\<rparr>"
  using assms
proof (induction ps arbitrary: hp)
  case Nil
  then show ?case by (intro exI[of _ "hp_state hp"] exI[of _ hp]) (simp add: header_events_of_def put_all_def joined_def)
next
  case (Cons p ps)
  obtain ks vs where p: "p = (ks, vs)" by (cases p)
  let ?h1 = "\<lambda>s. (handle_hdr hp)\<lparr>hp_state := s, hp_header_field := concat ks, hp_header_value := concat vs\<rparr>"
  have ne: "ks \<noteq> []" "concat ks \<noteq> []" "concat vs \<noteq> []" using Cons.prems(1) by (auto simp: p)
  obtain s where s: "on_http_events cap (map Ev_header_field ks @ map Ev_header_value vs) hp = Some (?h1 s)"
    using one_header[OF ne Cons.prems(2,3)] by blast
  have h: "handle_hdr (?h1 s) = (handle_hdr hp)\<lparr>hp_state := s,
      hp_parsed := (hp_parsed (handle_hdr hp))\<lparr>headers := hput (concat ks) (concat vs) (headers (hp_parsed (handle_hdr hp)))\<rparr>\<rparr>"
    using ne Cons.prems(2,3) by (subst handle_hdr_def) simp
  have "header_events_of (p # ps) = (map Ev_header_field ks @ map Ev_header_value vs) @ header_events_of ps"
    by (simp add: header_events_of_def p)
  then have run: "on_http_events cap (header_events_of (p # ps)) hp = on_http_events cap (header_events_of ps) (?h1 s)"
    by (simp only: events_app[of cap "map Ev_header_field ks @ map Ev_header_value vs"] s Option.bind.simps)
  obtain s' hp' where "on_http_events cap (header_events_of ps) (?h1 s) = Some hp'"
    "handle_hdr hp' = (handle_hdr (?h1 s))\<lparr>hp_state := s',
      hp_parsed := (hp_parsed (handle_hdr (?h1 s)))\<lparr>headers := put_all (joined ps) (headers (hp_parsed (handle_hdr (?h1 s))))\<rparr>\<rparr>"
    using Cons.IH[of "?h1 s"] Cons.prems by (auto simp: h)
  then show ?case
    by (intro exI[of _ s'] exI[of _ hp']) (simp add: run[unfolded p] h put_all_def joined_def p)
qed

lemma url_events:
  "\<exists>s. on_http_events cap (map Ev_url us) hp = Some (hp\<lparr>hp_state := s, hp_url := hp_url hp @ concat us\<rparr>)"
proof (induction us arbitrary: hp)
  case Nil
  then show ?case by (auto intro: exI[of _ "hp_state hp"])
next
  case (Cons u us)
  from Cons.IH[of "hp\<lparr>hp_state := HP_URL, hp_url := hp_url hp @ u\<rparr>"] show ?case by auto
qed

lemma body_events:
  "\<exists>s. on_http_events cap (map Ev_body bs) hp =
    Some (hp\<lparr>hp_state := s, hp_parsed := (hp_parsed hp)\<lparr>body := body (hp_parsed hp) @ concat bs\<rparr>\<rparr>)"
proof (induction bs arbitrary: hp)
  case Nil
  then show ?case by (auto intro: exI[of _ "hp_state hp"])
next
  case (Cons b bs)
  from Cons.IH[of "hp\<lparr>hp_state := HP_BODY, hp_parsed := (hp_parsed hp)\<lparr>body := body (hp_parsed hp) @ b\<rparr>\<rparr>"]
  show ?case by auto
qed

lemma reserve_ok: "0 \<le> n \<Longrightarrow> n < 2 ^ 31 - 1 \<Longrightarrow> reserve_body cap n = Some ()"
proof -
  assume n: "0 \<le> n" "n < 2 ^ 31 - 1"
  then have "sint (word_of_int (n + 1) :: 32 word) = n + 1"
    using signed_take_bit_int_eq_self[of 31 "n + 1"] by (simp only: signed_of_int) simp
  moreover have "unat (word_of_int (min (n + 1) (2 ^ 24)) :: 64 word) \<le> 2 ^ 24"
  proof -
    define k where "k = nat (min (n + 1) (2 ^ 24))"
    have k: "min (n + 1) (2 ^ 24) = int k" "k \<le> 2 ^ 24" using n by (auto simp: k_def nat_le_iff)
    have "unat (word_of_nat k :: 64 word) = k mod 2 ^ 64" by (simp add: unat_of_nat)
    then show ?thesis using k(2) by (simp only: k(1) of_int_of_nat_eq) simp
  qed
  ultimately show ?thesis by (simp add: reserve_body_def MAX_CONTENT_LENGTH_def Let_def)
qed

lemma headers_done:
  assumes "case hget ''content-length'' (headers (hp_parsed (handle_hdr hp))) of
       None \<Rightarrow> True | Some v \<Rightarrow> 0 \<le> atoi v \<and> atoi v < 2 ^ 31 - 1"
  shows "\<exists>t. on_headers_complete cap ma mi mth hp = Some ((handle_hdr hp)\<lparr>hp_state := HP_HEADERS_COMPLETE,
    hp_parsed := (hp_parsed (handle_hdr hp))\<lparr>http_major := ma, http_minor := mi, req_method := mth, url := hp_url hp,
      content_type := t,
      content_length := (case hget ''content-length'' (headers (hp_parsed (handle_hdr hp))) of
         None \<Rightarrow> content_length (hp_parsed (handle_hdr hp)) | Some v \<Rightarrow> atoi v)\<rparr>\<rparr>)"
proof -
  let ?h = "handle_hdr hp"
  obtain r where r: "r = hp_parsed ?h" by simp
  show ?thesis
  proof (cases "hget ''content-type'' (headers r)")
    case None
    then show ?thesis using assms
      by (intro exI[of _ "content_type r"]) (cases r; auto simp: on_headers_complete_def Let_def r reserve_ok split: option.splits)
  next
    case (Some v)
    then show ?thesis using assms
      by (intro exI[of _ "http_content_type_enum v"]) (cases r; auto simp: on_headers_complete_def Let_def r reserve_ok split: option.splits)
  qed
qed

text \<open>
  C16.  Requests arrive in pieces: however the reads cut the url, the names and values of the
  headers and the body, the callbacks build the same request - the whole url and body, and each header,
  in the order they came, stored under its whole name with its whole value - as long as no value
  is empty and the announced length is absent or fits.
\<close>

theorem http1_request_fragments:
  assumes "\<forall>(ks, vs) \<in> set ps. ks \<noteq> [] \<and> concat ks \<noteq> [] \<and> concat vs \<noteq> []"
    and "hp_header_field hp = []" "hp_header_value hp = []" "hp_url hp = []" "body (hp_parsed hp) = []"
    and hs: "hs = put_all (joined ps) (headers (hp_parsed hp))"
    and cl: "case hget ''content-length'' hs of None \<Rightarrow> True | Some v \<Rightarrow> 0 \<le> atoi v \<and> atoi v < 2 ^ 31 - 1"
  shows "\<exists>hp'. on_http_events cap ([Ev_message_begin] @ map Ev_url us @ header_events_of ps @
      [Ev_headers_complete ma mi mth] @ map Ev_body bs @ [Ev_message_complete]) hp = Some hp' \<and>
    hp_state hp' = HP_MESSAGE_COMPLETE \<and> headers (hp_parsed hp') = hs \<and> url (hp_parsed hp') = concat us \<and>
    body (hp_parsed hp') = concat bs \<and> req_method (hp_parsed hp') = mth \<and>
    http_major (hp_parsed hp') = ma \<and> http_minor (hp_parsed hp') = mi \<and>
    content_length (hp_parsed hp') =
      (case hget ''content-length'' hs of None \<Rightarrow> content_length (hp_parsed hp) | Some v \<Rightarrow> atoi v)"
proof -
  obtain st u f v r where hp: "hp = \<lparr>hp_state = st, hp_url = u, hp_header_field = f, hp_header_value = v, hp_parsed = r\<rparr>"
    by (cases hp)
  let ?h0 = "hp\<lparr>hp_state := HP_MESSAGE_BEGIN\<rparr>"
  obtain s1 where u: "on_http_events cap (map Ev_url us) ?h0 = Some (hp\<lparr>hp_state := s1, hp_url := concat us\<rparr>)"
    using url_events[of cap us ?h0] assms(4) by (auto simp: hp)
  let ?h1 = "hp\<lparr>hp_state := s1, hp_url := concat us\<rparr>"
  have idle: "handle_hdr ?h1 = ?h1" using assms(2) by (simp add: handle_hdr_def)
  obtain s2 hp2 where h: "on_http_events cap (header_events_of ps) ?h1 = Some hp2"
    "handle_hdr hp2 = hp\<lparr>hp_state := s2, hp_url := concat us, hp_parsed := (hp_parsed hp)\<lparr>headers := hs\<rparr>\<rparr>"
    using http_header_run[OF assms(1), of ?h1 cap, unfolded idle] assms(2,3) by (auto simp: hs hp)
  have u2: "hp_url hp2 = concat us" using arg_cong[OF h(2), of hp_url] by simp
  obtain t where c: "on_headers_complete cap ma mi mth hp2 = Some (?h1\<lparr>hp_state := HP_HEADERS_COMPLETE,
      hp_parsed := (hp_parsed hp)\<lparr>headers := hs, http_major := ma, http_minor := mi, req_method := mth, url := concat us,
        content_type := t, content_length := (case hget ''content-length'' hs of
          None \<Rightarrow> content_length (hp_parsed hp) | Some v \<Rightarrow> atoi v)\<rparr>\<rparr>)"
    using headers_done[of hp2 cap ma mi mth] cl by (auto simp: h(2) u2 hp cong: option.case_cong)
  let ?h3 = "?h1\<lparr>hp_state := HP_HEADERS_COMPLETE,
      hp_parsed := (hp_parsed hp)\<lparr>headers := hs, http_major := ma, http_minor := mi, req_method := mth, url := concat us,
        content_type := t, content_length := (case hget ''content-length'' hs of
          None \<Rightarrow> content_length (hp_parsed hp) | Some v \<Rightarrow> atoi v)\<rparr>\<rparr>"
  obtain s4 where b: "on_http_events cap (map Ev_body bs) ?h3 =
      Some (?h3\<lparr>hp_state := s4, hp_parsed := (hp_parsed ?h3)\<lparr>body := concat bs\<rparr>\<rparr>)"
    using body_events[of cap bs ?h3] assms(5) by auto
  show ?thesis
    using b by (simp add: events_app u h(1) c)
qed

definition blank_request :: "unit HttpRequest" where
  "blank_request = \<lparr>http_major = 1, http_minor = 1, headers = [], body = [], content = Content_null, content_length = 0,
     content_type = CONTENT_TYPE_NONE, json = (), form = [], kv = [], req_method = 1, url = [], scheme = ''http'',
     host = ''127.0.0.1'', port = 80, path = ''/'', query_params = []\<rparr>"

definition blank_parser :: "unit Http1Parser" where
  "blank_parser = \<lparr>hp_state = HP_START_REQ_OR_RES, hp_url = [], hp_header_field = [], hp_header_value = [],
     hp_parsed = blank_request\<rparr>"

theorem http1_request_fragments_witness:
  "\<exists>hp'. on_http_events 15 ([Ev_message_begin] @ map Ev_url [''/a'', ''b''] @
      header_events_of [([''Ho'', ''st''], [''x'']), ([''Content-Length''], [''1'', ''2''])] @
      [Ev_headers_complete 1 1 3] @ map Ev_body [''hello '', ''worlds''] @ [Ev_message_complete]) blank_parser = Some hp' \<and>
    url (hp_parsed hp') = ''/ab'' \<and> body (hp_parsed hp') = ''hello worlds'' \<and>
    hget ''host'' (headers (hp_parsed hp')) = Some ''x'' \<and> content_length (hp_parsed hp') = 12"
proof -
  let ?ps = "[([''Ho'', ''st''], [''x'']), ([''Content-Length''], [''1'', ''2''])]"
  have "hget ''content-length'' (put_all (joined ?ps) []) = Some ''12''" "atoi ''12'' = 12"
    "hget ''host'' (put_all (joined ?ps) []) = Some ''x''" by code_simp+
  then show ?thesis
    using http1_request_fragments[of ?ps blank_parser "put_all (joined ?ps) []" 15 "[''/a'', ''b'']" 1 1 3 "[''hello '', ''worlds'']"]
    by (auto simp: blank_parser_def blank_request_def)
qed

text \<open>
  A header with an empty value is merged into the next one: its name is not given up,
  the name of the following header is appended to it, and the value is stored under the joined name.
  So an empty header in front of another hides it.
\<close>

theorem http1_empty_value_merges:
  assumes "hp_header_field hp = []" "hp_header_value hp = []" "k \<noteq> []" "v \<noteq> []" "k1 \<noteq> []"
  shows "\<exists>hp'. on_http_events cap ([Ev_header_field k1, Ev_header_value []] @ [Ev_header_field k, Ev_header_value v]) hp = Some hp' \<and>
    headers (hp_parsed (handle_hdr hp')) = hput (k1 @ k) v (headers (hp_parsed hp)) \<and>
    (strcasekey k \<noteq> strcasekey (k1 @ k) \<longrightarrow>
       hget k (headers (hp_parsed (handle_hdr hp'))) = hget k (headers (hp_parsed hp)))"
  using assms by (simp add: handle_hdr_def Let_def hget_hput)

theorem http1_empty_value_merges_witness:
  "\<exists>hp'. on_http_events 15 [Ev_header_field ''X'', Ev_header_value [], Ev_header_field ''Host'', Ev_header_value ''h''] blank_parser = Some hp' \<and>
    headers (hp_parsed (handle_hdr hp')) = [(''XHost'', ''h'')]"
  using http1_empty_value_merges[of blank_parser "''Host''" "''h''" "''X''" 15]
  by (auto simp: blank_parser_def blank_request_def)

lemma sint_32_high:
  assumes "(2::nat) ^ 31 \<le> n" "n < 2 ^ 32"
  shows "sint (word_of_nat n :: 32 word) = int n - 2 ^ 32"
proof -
  have "signed_take_bit 31 (int n) = signed_take_bit 31 (int n - 2 ^ 32)"
    unfolding signed_take_bit_eq_iff_take_bit_eq by (simp add: take_bit_eq_mod)
  also have "\<dots> = int n - 2 ^ 32" using assms by (intro signed_take_bit_int_eq_self) simp_all
  finally show ?thesis by (simp add: signed_of_nat)
qed
lemma unat_64_negative:
  assumes "- (2 ^ 64) \<le> x" "x < 0"
  shows "unat (word_of_int x :: 64 word) = nat (x + 2 ^ 64)"
proof -
  have "uint (word_of_int x :: 64 word) = x mod 2 ^ 64" by (simp add: uint_word_of_int)
  also have "\<dots> = x + 2 ^ 64" using assms mod_add_self2[of x "2 ^ 64"] mod_pos_pos_trivial[of "x + 2 ^ 64" "2 ^ 64"] by simp
  finally show ?thesis by (simp add: unat_eq_nat_uint)
qed

text \<open>
  C36.  An announced length of two gigabytes or more (up to four) ends the process: the callback
  computes with \<open>int\<close>, the negative reservation is compared as a huge \<open>size_t\<close>, and \<open>reserve\<close> throws
  out of the parser, which catches nothing.
\<close>

theorem http1_length_throws:
  assumes "\<forall>(ks, vs) \<in> set ps. ks \<noteq> [] \<and> concat ks \<noteq> [] \<and> concat vs \<noteq> []"
    and "hp_header_field hp = []" "hp_header_value hp = []" "cap < 2 ^ 63"
    and "hget ''content-length'' (put_all (joined ps) (headers (hp_parsed hp))) = Some (show_nat n)"
    and "2 ^ 31 \<le> n" "n < 2 ^ 32 - 1"
  shows "on_http_events cap (header_events_of ps @ [Ev_headers_complete ma mi mth]) hp = None"
proof -
  obtain s hp2 where h: "on_http_events cap (header_events_of ps) hp = Some hp2"
    "handle_hdr hp2 = hp\<lparr>hp_state := s, hp_parsed := (hp_parsed hp)\<lparr>headers := put_all (joined ps) (headers (hp_parsed hp))\<rparr>\<rparr>"
    using http_header_run[OF assms(1), of hp cap, unfolded handle_idle[OF assms(2)]] assms(2,3) by blast
  have "strtol_10 (show_int (int n)) = int n" by (rule strtol_show_int) (use assms(7) in simp_all)
  then have "atoi (show_nat n) = sint (word_of_nat n :: 32 word)" by (simp add: atoi_def show_int_def)
  also have "\<dots> = int n - 2 ^ 32" using assms(6,7) by (intro sint_32_high) simp_all
  finally have a: "atoi (show_nat n) = int n - 2 ^ 32" .
  have "sint (word_of_int (int n - 2 ^ 32 + 1) :: 32 word) = int n - 2 ^ 32 + 1"
    using signed_take_bit_int_eq_self[of 31 "int n - 2 ^ 32 + 1"] assms(6,7) by (simp only: signed_of_int) simp
  moreover have "unat (word_of_int (int n - 2 ^ 32 + 1) :: 64 word) = nat (int n - 2 ^ 32 + 1 + 2 ^ 64)"
    using assms(6,7) by (intro unat_64_negative) simp_all
  ultimately have "reserve_body cap (int n - 2 ^ 32) = None"
    using assms(4,7) by (simp add: reserve_body_def MAX_CONTENT_LENGTH_def Let_def min_def) (simp add: zless_nat_eq_int_zless)
  then show ?thesis
    using assms(5) by (simp add: events_app h on_headers_complete_def a Let_def split: option.split)
qed

theorem http1_length_throws_witness:
  "on_http_events 15 (header_events_of [([''Content-Length''], [''3000000000''])] @ [Ev_headers_complete 1 1 3]) blank_parser = None"
proof -
  have d: "digit_c 3 = CHR ''3''" "digit_c 0 = CHR ''0''" by code_simp+
  have s: "show_nat 3000000000 = ''3000000000''" by (simp add: show_nat.simps d)
  have "hget ''content-length'' (put_all (joined [([''Content-Length''], [''3000000000''])]) (headers (hp_parsed blank_parser))) =
      Some ''3000000000''" by code_simp
  then have "hget ''content-length'' (put_all (joined [([''Content-Length''], [''3000000000''])]) (headers (hp_parsed blank_parser))) =
      Some (show_nat 3000000000)" by (simp only: s)
  from http1_length_throws[OF _ _ _ _ this] show ?thesis
    by (simp add: blank_parser_def)
qed

end
