(* ===== verification/FileCache.thy ===== *)
theory FileCache
  imports HttpMessage
begin

text \<open>
  \<open>http/server/FileCache.h\<close> and \<open>FileCache.cpp\<close>: the cache of files and directory pages of the
  HTTP server.  A cached file is a shared object, so the cache is a map from paths to identifiers
  and a store of the objects.  The file system and the page of a directory are parameters.
\<close>

section \<open>The file system\<close>

datatype inode =
    Regular (ino_mtime: int) (ino_bytes: string)
  | Directory (ino_mtime: int) nat
  | Special (ino_mtime: int) nat

type_synonym filesys = "string \<Rightarrow> inode option"

record filestat =
  st_mtime :: int
  st_size :: nat
  st_isreg :: bool
  st_isdir :: bool

definition stat_of :: "inode \<Rightarrow> filestat" where
  "stat_of i =
     (case i of
        Regular t s \<Rightarrow> \<lparr>st_mtime = t, st_size = length s, st_isreg = True, st_isdir = False\<rparr>
      | Directory t n \<Rightarrow> \<lparr>st_mtime = t, st_size = n, st_isreg = False, st_isdir = True\<rparr>
      | Special t n \<Rightarrow> \<lparr>st_mtime = t, st_size = n, st_isreg = False, st_isdir = False\<rparr>)"

text \<open>What \<open>read\<close> of at most \<open>n\<close> bytes from the start delivers; a directory cannot be read.\<close>

definition read_ino :: "inode \<Rightarrow> nat \<Rightarrow> string option" where
  "read_ino i n = (case i of Regular _ s \<Rightarrow> Some (take n s) | Directory _ _ \<Rightarrow> None | Special _ _ \<Rightarrow> Some [])"

section \<open>Cached files\<close>

definition HTTP_HEADER_MAX_LENGTH :: nat where "HTTP_HEADER_MAX_LENGTH = 1024"
definition FILE_CACHE_MAX_SIZE :: nat where "FILE_CACHE_MAX_SIZE = 2 ^ 30"

text \<open>
  The buffer is \<open>None\<close> before the first \<open>resize_buf\<close>; the file is behind the room for a header.
  \<open>fc_httpbuf\<close> is the offset and the length of the window of a response.
\<close>

record file_cache =
  fc_filepath :: string
  fc_st :: filestat
  fc_open_time :: int
  fc_stat_time :: int
  fc_stat_cnt :: nat
  fc_buf :: "string option"
  fc_filebuf_len :: nat
  fc_httpbuf :: "(nat \<times> nat) option"
  fc_last_modified :: string
  fc_etag :: string
  fc_content_type :: "string option"

definition is_modified :: "filesys \<Rightarrow> file_cache \<Rightarrow> bool \<times> file_cache" where
  "is_modified fs fc =
     (let st = (case fs (fc_filepath fc) of Some i \<Rightarrow> stat_of i | None \<Rightarrow> fc_st fc)
      in (st_mtime (fc_st fc) \<noteq> st_mtime st, fc\<lparr>fc_st := st\<rparr>))"

definition is_complete :: "file_cache \<Rightarrow> bool" where
  "is_complete fc \<longleftrightarrow> fc_filebuf_len fc = st_size (fc_st fc)"

text \<open>\<open>HBuf::resize\<close> keeps what fits and fills with zeros.\<close>

definition resize_buf :: "nat \<Rightarrow> file_cache \<Rightarrow> file_cache" where
  "resize_buf filesize fc =
     (let old = (case fc_buf fc of Some b \<Rightarrow> b | None \<Rightarrow> []);
          cap = HTTP_HEADER_MAX_LENGTH + filesize
      in fc\<lparr>fc_buf := Some (take cap old @ replicate (cap - length old) NUL), fc_filebuf_len := filesize\<rparr>)"

text \<open>Writing at the start of the file part of the buffer.\<close>

definition fill_file :: "string \<Rightarrow> file_cache \<Rightarrow> file_cache" where
  "fill_file bytes fc =
     (case fc_buf fc of
        None \<Rightarrow> fc
      | Some b \<Rightarrow> fc\<lparr>fc_buf := Some (take HTTP_HEADER_MAX_LENGTH b @ bytes @ drop (HTTP_HEADER_MAX_LENGTH + length bytes) b)\<rparr>)"

definition file_bytes :: "file_cache \<Rightarrow> string option" where
  "file_bytes fc = map_option (\<lambda>b. take (fc_filebuf_len fc) (drop HTTP_HEADER_MAX_LENGTH b)) (fc_buf fc)"

text \<open>A header that is too long is ignored; \<open>None\<close> when it is copied in front of a null pointer.\<close>

definition prepend_header :: "string \<Rightarrow> file_cache \<Rightarrow> file_cache option" where
  "prepend_header header fc =
     (let len = length header
      in if len > HTTP_HEADER_MAX_LENGTH then Some fc
         else case fc_buf fc of
                None \<Rightarrow> if header = [] then Some fc else None
              | Some b \<Rightarrow>
                  Some (fc\<lparr>fc_buf := Some (take (HTTP_HEADER_MAX_LENGTH - len) b @ header @ drop HTTP_HEADER_MAX_LENGTH b),
                           fc_httpbuf := Some (HTTP_HEADER_MAX_LENGTH - len, len + fc_filebuf_len fc)\<rparr>))"

definition http_bytes :: "file_cache \<Rightarrow> string option" where
  "http_bytes fc =
     (case (fc_buf fc, fc_httpbuf fc) of
        (Some b, Some (off, len)) \<Rightarrow> if off + len \<le> length b then Some (take len (drop off b)) else None
      | _ \<Rightarrow> None)"

section \<open>The cache\<close>

record FileCache =
  file_stat_interval :: int
  file_expired_time :: int
  cached_files :: "(string, nat) omap"
  cache_objs :: "nat \<Rightarrow> file_cache option"
  cache_next :: nat

definition FileCache_new :: FileCache where
  "FileCache_new = \<lparr>file_stat_interval = 10, file_expired_time = 60, cached_files = [], cache_objs = Map.empty, cache_next = 0\<rparr>"

definition Get :: "string \<Rightarrow> FileCache \<Rightarrow> nat option" where
  "Get filepath c = omap_get str_lt (c_str filepath) (cached_files c)"

definition set_obj :: "nat \<Rightarrow> file_cache \<Rightarrow> FileCache \<Rightarrow> FileCache" where
  "set_obj i fc c = c\<lparr>cache_objs := (cache_objs c)(i \<mapsto> fc)\<rparr>"

text \<open>Formats of the time and of the entity tag, and the page of a directory.\<close>

record file_formats =
  fmt_gmtime :: "int \<Rightarrow> string"
  fmt_etag :: "int \<Rightarrow> nat \<Rightarrow> string"
  fmt_index_of :: "string \<Rightarrow> string option \<Rightarrow> string"

text \<open>The check of a file that is in the cache: whether it was modified, and what is left to read.\<close>

definition refresh :: "filesys \<Rightarrow> int \<Rightarrow> FileCache \<Rightarrow> bool \<Rightarrow> file_cache \<Rightarrow> bool \<times> bool \<times> file_cache" where
  "refresh fs now c need_read fc =
     (let (modified, fc) =
            (if now - fc_stat_time fc > file_stat_interval c
             then (case is_modified fs fc of
                     (md, fc) \<Rightarrow> (md, fc\<lparr>fc_stat_time := now, fc_stat_cnt := fc_stat_cnt fc + 1\<rparr>))
             else (False, fc))
      in (modified, need_read \<and> \<not> (\<not> modified \<and> is_complete fc), fc))"

definition new_file :: "string \<Rightarrow> inode \<Rightarrow> int \<Rightarrow> file_cache" where
  "new_file filepath i now =
     \<lparr>fc_filepath = filepath, fc_st = stat_of i, fc_open_time = now, fc_stat_time = now, fc_stat_cnt = 1,
      fc_buf = None, fc_filebuf_len = 0, fc_httpbuf = None, fc_last_modified = [], fc_etag = [], fc_content_type = None\<rparr>"

text \<open>Reading the file or making the page; \<open>False\<close> where \<open>Open\<close> returns null.\<close>

definition load :: "file_formats \<Rightarrow> inode \<Rightarrow> bool \<Rightarrow> string option \<Rightarrow> file_cache \<Rightarrow> bool \<times> file_cache" where
  "load F i need_read ctx fc =
     (if st_isreg (fc_st fc) then
        (let (ok, fc) =
               (if need_read then
                  if st_size (fc_st fc) > FILE_CACHE_MAX_SIZE then (False, fc)
                  else let fc = resize_buf (st_size (fc_st fc)) fc
                       in case read_ino i (fc_filebuf_len fc) of
                            None \<Rightarrow> (False, fc)
                          | Some bytes \<Rightarrow> (length bytes = fc_filebuf_len fc, fill_file bytes fc)
                else (True, fc))
         in if \<not> ok then (False, fc)
            else (True, case find_last_idx (\<lambda>c. c = CHR ''.'') (c_str (fc_filepath fc)) of
                          None \<Rightarrow> fc
                        | Some k \<Rightarrow> fc\<lparr>fc_content_type := Some (http_content_type_str_by_suffix (drop (k + 1) (c_str (fc_filepath fc))))\<rparr>))
      else if st_isdir (fc_st fc) then
        (let page = fmt_index_of F (fc_filepath fc) ctx
         in (True, (fill_file page (resize_buf (length page) fc))\<lparr>fc_content_type := Some (http_content_type_str TEXT_HTML)\<rparr>))
      else (True, fc))"

definition stamp :: "file_formats \<Rightarrow> file_cache \<Rightarrow> file_cache" where
  "stamp F fc = fc\<lparr>fc_last_modified := fmt_gmtime F (st_mtime (fc_st fc)),
     fc_etag := fmt_etag F (st_mtime (fc_st fc)) (st_size (fc_st fc))\<rparr>"

text \<open>The part of \<open>Open\<close> behind the opening of the file, for the object \<open>i\<close> of the cache.\<close>

definition open_object ::
    "file_formats \<Rightarrow> inode \<Rightarrow> bool \<Rightarrow> string option \<Rightarrow> nat \<Rightarrow> file_cache \<Rightarrow> FileCache \<Rightarrow> nat option \<times> FileCache" where
  "open_object F ino need_read ctx i fc c =
     (case load F ino need_read ctx fc of
        (False, fc') \<Rightarrow> (None, set_obj i fc' c)
      | (True, fc') \<Rightarrow> (Some i, set_obj i (stamp F fc') c))"

definition Open ::
    "file_formats \<Rightarrow> filesys \<Rightarrow> int \<Rightarrow> string \<Rightarrow> bool \<Rightarrow> string option \<Rightarrow> FileCache \<Rightarrow> nat option \<times> FileCache" where
  "Open F fs now filepath0 need_read ctx c =
     (let filepath = c_str filepath0
      in case Option.bind (Get filepath c) (\<lambda>i. map_option (Pair i) (cache_objs c i)) of
           Some (i, fc) \<Rightarrow>
             (case refresh fs now c need_read fc of
                (modified, need_read, fc) \<Rightarrow>
                  (let c = set_obj i fc c
                   in if modified \<or> need_read
                      then (case fs filepath of
                              None \<Rightarrow> (None, c)
                            | Some ino \<Rightarrow> open_object F ino need_read ctx i fc c)
                      else (Some i, c)))
         | None \<Rightarrow>
             (case fs filepath of
                None \<Rightarrow> (None, c)
              | Some ino \<Rightarrow>
                  (let st = stat_of ino
                   in if st_isreg st \<or> (st_isdir st \<and> filepath \<noteq> [] \<and> last filepath = CHR ''/'')
                      then let fc = new_file filepath ino now; i = cache_next c;
                               c = c\<lparr>cached_files := omap_put str_lt filepath i (cached_files c), cache_next := i + 1\<rparr>
                           in open_object F ino need_read ctx i fc c
                      else (None, c))))"

definition Close_path :: "string \<Rightarrow> FileCache \<Rightarrow> bool \<times> FileCache" where
  "Close_path filepath c =
     (case Get filepath c of
        None \<Rightarrow> (False, c)
      | Some _ \<Rightarrow> (True, c\<lparr>cached_files := omap_erase str_lt (c_str filepath) (cached_files c)\<rparr>))"

text \<open>Closing an object erases its first entry.\<close>

fun erase_value :: "nat \<Rightarrow> (string, nat) omap \<Rightarrow> bool \<times> (string, nat) omap" where
  "erase_value i [] = (False, [])"
| "erase_value i ((k, j) # m) =
     (if j = i then (True, m) else case erase_value i m of (r, m') \<Rightarrow> (r, (k, j) # m'))"

definition Close_object :: "nat \<Rightarrow> FileCache \<Rightarrow> bool \<times> FileCache" where
  "Close_object i c = (case erase_value i (cached_files c) of (r, m) \<Rightarrow> (r, c\<lparr>cached_files := m\<rparr>))"

definition RemoveExpiredFileCache :: "int \<Rightarrow> FileCache \<Rightarrow> FileCache" where
  "RemoveExpiredFileCache now c =
     c\<lparr>cached_files := filter (\<lambda>(k, i). case cache_objs c i of
         Some fc \<Rightarrow> \<not> (now - fc_stat_time fc > file_expired_time c) | None \<Rightarrow> True) (cached_files c)\<rparr>"

section \<open>The objects of the cache stay well formed\<close>

definition obj_ok :: "file_cache \<Rightarrow> bool" where
  "obj_ok fc \<longleftrightarrow>
     (case fc_buf fc of None \<Rightarrow> fc_filebuf_len fc = 0 | Some b \<Rightarrow> length b = HTTP_HEADER_MAX_LENGTH + fc_filebuf_len fc)"

definition cache_ok :: "FileCache \<Rightarrow> bool" where
  "cache_ok c \<longleftrightarrow> omap_inv str_lt (cached_files c) \<and>
     (\<forall>(k, i) \<in> set (cached_files c). i < cache_next c \<and> (\<exists>fc. cache_objs c i = Some fc \<and> fc_filepath fc = k)) \<and>
     (\<forall>i fc. cache_objs c i = Some fc \<longrightarrow> i < cache_next c \<and> obj_ok fc)"

lemma resize_ok [inv_intros]: "obj_ok (resize_buf n fc)"
  by (auto simp: obj_ok_def resize_buf_def Let_def split: option.split)

lemma resize_fields [simp]:
  "fc_filebuf_len (resize_buf n fc) = n" "fc_st (resize_buf n fc) = fc_st fc"
  "fc_filepath (resize_buf n fc) = fc_filepath fc" "fc_buf (resize_buf n fc) \<noteq> None"
  by (simp_all add: resize_buf_def Let_def)

lemma fill_fields [simp]:
  "fc_filebuf_len (fill_file bytes fc) = fc_filebuf_len fc" "fc_st (fill_file bytes fc) = fc_st fc"
  "fc_filepath (fill_file bytes fc) = fc_filepath fc"
  by (simp_all add: fill_file_def split: option.split)

lemma fill_ok [inv_intros]: "obj_ok fc \<Longrightarrow> length bytes \<le> fc_filebuf_len fc \<Longrightarrow> obj_ok (fill_file bytes fc)"
  by (auto simp: obj_ok_def fill_file_def split: option.splits)

lemma fill_bytes:
  "obj_ok fc \<Longrightarrow> length bytes = fc_filebuf_len fc \<Longrightarrow> fc_buf fc \<noteq> None \<Longrightarrow> file_bytes (fill_file bytes fc) = Some bytes"
  by (auto simp: obj_ok_def fill_file_def file_bytes_def)

lemma read_ino_length: "read_ino i n = Some bytes \<Longrightarrow> length bytes \<le> n"
  by (auto simp: read_ino_def split: inode.splits)

lemma obj_ok_upd [simp]:
  "obj_ok (fc\<lparr>fc_content_type := t\<rparr>) = obj_ok fc" "obj_ok (stamp F fc) = obj_ok fc" "obj_ok (fc\<lparr>fc_st := st\<rparr>) = obj_ok fc"
  "obj_ok (fc\<lparr>fc_stat_time := now, fc_stat_cnt := n\<rparr>) = obj_ok fc" "obj_ok (fc\<lparr>fc_httpbuf := w\<rparr>) = obj_ok fc"
  by (simp_all add: obj_ok_def stamp_def cong: option.case_cong)

lemma load_obj_ok [inv_intros]:
  assumes "obj_ok fc"
  shows "obj_ok (snd (load F ino need_read ctx fc))"
proof -
  have r: "obj_ok (fill_file b (resize_buf n fc))" if "length b \<le> n" for b n
    using that by (intro fill_ok resize_ok) simp
  show ?thesis
    using assms r read_ino_length[of ino "st_size (fc_st fc)"]
    by (auto simp: load_def Let_def resize_ok split: option.splits)
qed

lemma load_path [simp]: "fc_filepath (snd (load F ino need_read ctx fc)) = fc_filepath fc"
  by (auto simp: load_def Let_def split: option.splits)

lemma stamp_path [simp]: "fc_filepath (stamp F fc) = fc_filepath fc" "fc_buf (stamp F fc) = fc_buf fc"
  "fc_filebuf_len (stamp F fc) = fc_filebuf_len fc" "fc_st (stamp F fc) = fc_st fc"
  by (simp_all add: stamp_def)

lemma refresh_ok: "obj_ok fc \<Longrightarrow> obj_ok (snd (snd (refresh fs now c nr fc))) \<and>
    fc_filepath (snd (snd (refresh fs now c nr fc))) = fc_filepath fc"
  by (auto simp: refresh_def is_modified_def Let_def)

lemma cache_ok_set [inv_intros]:
  assumes "cache_ok c" "obj_ok fc" "i < cache_next c"
    and "\<And>k. (k, i) \<in> set (cached_files c) \<Longrightarrow> fc_filepath fc = k"
  shows "cache_ok (set_obj i fc c)"
  using assms by (fastforce simp: cache_ok_def set_obj_def)

lemma open_object_ok:
  assumes "cache_ok c" "obj_ok fc" "i < cache_next c" "\<And>k. (k, i) \<in> set (cached_files c) \<Longrightarrow> fc_filepath fc = k"
  shows "cache_ok (snd (open_object F ino need_read ctx i fc c))"
proof -
  obtain ok fc' where l: "load F ino need_read ctx fc = (ok, fc')" by (cases "load F ino need_read ctx fc")
  have "obj_ok fc'" "fc_filepath fc' = fc_filepath fc"
    using load_obj_ok[OF assms(2), of F ino need_read ctx] load_path[of F ino need_read ctx fc] by (simp_all add: l)
  then have "cache_ok (set_obj i fc' c)" "cache_ok (set_obj i (stamp F fc') c)"
    using assms by (auto intro!: cache_ok_set)
  then show ?thesis by (cases ok) (simp_all add: open_object_def l)
qed

lemma open_object_path:
  "cached_files (snd (open_object F ino need_read ctx i fc c)) = cached_files c"
  "cache_next (snd (open_object F ino need_read ctx i fc c)) = cache_next c"
  by (auto simp: open_object_def set_obj_def split: prod.split bool.split)

lemma put_entry: "(k, v) \<in> set (omap_put str_lt k' v' m) \<Longrightarrow> (k = k' \<and> v = v') \<or> (k, v) \<in> set m"
  by (induction m) (auto simp: str_lt_def not_less split: if_splits)

lemma cache_ok_entry:
  "cache_ok c \<Longrightarrow> Get p c = Some i \<Longrightarrow> (c_str p, i) \<in> set (cached_files c)"
proof -
  have "omap_get str_lt k m = Some v \<Longrightarrow> (k, v) \<in> set m" for k v and m :: "(string, nat) omap"
    by (induction m) (auto split: if_splits simp: str_lt_def)
  then show "Get p c = Some i \<Longrightarrow> (c_str p, i) \<in> set (cached_files c)" by (simp add: Get_def)
qed

lemma entry_path: "cache_ok c \<Longrightarrow> (k, i) \<in> set (cached_files c) \<Longrightarrow> cache_objs c i = Some fc \<Longrightarrow> fc_filepath fc = k"
  by (fastforce simp: cache_ok_def)

lemma cache_okI:
  assumes "omap_inv str_lt (cached_files c)"
    and "\<And>k i. (k, i) \<in> set (cached_files c) \<Longrightarrow> i < cache_next c \<and> (\<exists>fc. cache_objs c i = Some fc \<and> fc_filepath fc = k)"
    and "\<And>i fc. cache_objs c i = Some fc \<Longrightarrow> i < cache_next c \<and> obj_ok fc"
  shows "cache_ok c"
  using assms by (auto simp: cache_ok_def)

lemma Open_ok:
  assumes "cache_ok c"
  shows "cache_ok (snd (Open F fs now p need_read ctx c))"
proof (cases "Get p c")
  case (Some i)
  note e = cache_ok_entry[OF assms Some]
  obtain fc where fc: "cache_objs c i = Some fc" "i < cache_next c" "obj_ok fc"
    using assms e by (fastforce simp: cache_ok_def)
  obtain md nr fc' where r: "refresh fs now c need_read fc = (md, nr, fc')" by (cases "refresh fs now c need_read fc")
  have fc': "obj_ok fc'" "fc_filepath fc' = fc_filepath fc" using refresh_ok[OF fc(3), of fs now c need_read] by (simp_all add: r)
  have P: "fc_filepath fc' = k" if "(k, i) \<in> set (cached_files c)" for k
    using entry_path[OF assms that fc(1)] fc'(2) by simp
  have "cache_ok (set_obj i fc' c)" by (rule cache_ok_set[OF assms fc'(1) fc(2) P])
  moreover from this have "cache_ok (snd (open_object F ino nr' ctx i fc' (set_obj i fc' c)))" for ino nr'
    using fc'(1) fc(2) P by (intro open_object_ok) (simp_all add: set_obj_def)
  moreover have "Get (c_str p) c = Some i" using Some by (simp add: Get_def)
  ultimately show ?thesis
    by (simp add: Open_def Let_def fc(1) r split: option.split)
next
  case None
  then have G: "Get (c_str p) c = None" by (simp add: Get_def)
  let ?i = "cache_next c" let ?p = "c_str p"
  let ?c = "c\<lparr>cached_files := omap_put str_lt ?p ?i (cached_files c), cache_next := ?i + 1\<rparr>"
  have O: "obj_ok (new_file ?p ino now)" "fc_filepath (new_file ?p ino now) = ?p" for ino
    by (simp_all add: obj_ok_def new_file_def)
  have old: "k = ?p" if "(k, ?i) \<in> set (omap_put str_lt ?p ?i (cached_files c))" for k
    using put_entry[OF that] assms by (fastforce simp: cache_ok_def)
  have S: "cache_ok (set_obj ?i fc ?c)" if fc: "obj_ok fc" "fc_filepath fc = ?p" for fc
  proof -
    have A: "j < ?i + 1 \<and> (\<exists>fc'. ((cache_objs c)(?i \<mapsto> fc)) j = Some fc' \<and> fc_filepath fc' = k)"
      if "(k, j) \<in> set (omap_put str_lt ?p ?i (cached_files c))" for k j
      using put_entry[OF that]
    proof
      assume "(k, j) \<in> set (cached_files c)"
      then have "j < ?i" "\<exists>fc'. cache_objs c j = Some fc' \<and> fc_filepath fc' = k"
        using assms by (auto simp: cache_ok_def)
      then show ?thesis by auto
    qed (use fc in auto)
    have B: "j < ?i + 1 \<and> obj_ok fc'" if "((cache_objs c)(?i \<mapsto> fc)) j = Some fc'" for j fc'
    proof (cases "j = ?i")
      case False
      then have "cache_objs c j = Some fc'" using that by simp
      then have "j < ?i \<and> obj_ok fc'" using assms by (simp add: cache_ok_def)
      then show ?thesis by simp
    qed (use that fc in auto)
    have "omap_inv str_lt (cached_files c)" using assms by (simp add: cache_ok_def)
    then show ?thesis
    proof (intro cache_okI, goal_cases)
      case 1
      then show ?case by (simp add: set_obj_def strmap.put_inv)
    next
      case (2 k i)
      then show ?case using A[of k i] by (simp add: set_obj_def del: fun_upd_apply)
    next
      case (3 i fc')
      then show ?case using B[of i fc'] by (simp add: set_obj_def del: fun_upd_apply)
    qed
  qed
  have "cache_ok (snd (open_object F ino need_read ctx ?i (new_file ?p ino now) ?c))" for ino
  proof -
    obtain ok fc' where l: "load F ino need_read ctx (new_file ?p ino now) = (ok, fc')" by fastforce
    have "obj_ok fc'" "fc_filepath fc' = ?p"
      using load_obj_ok[OF O(1), of F ino need_read ctx ino] load_path[of F ino need_read ctx "new_file ?p ino now"] O(2)
      by (simp_all add: l)
    then show ?thesis using S by (cases ok) (simp_all add: open_object_def l)
  qed
  then show ?thesis using assms by (simp add: Open_def Let_def G split: option.split)
qed

lemma erase_value_subset: "set (snd (erase_value i m)) \<subseteq> set m"
  by (induction i m rule: erase_value.induct) (auto split: prod.splits)

lemma cache_ok_fewer:
  assumes "cache_ok c" "set m \<subseteq> set (cached_files c)" "omap_inv str_lt m"
  shows "cache_ok (c\<lparr>cached_files := m\<rparr>)"
  using assms by (fastforce simp: cache_ok_def)

lemma erase_value_inv: "omap_inv str_lt m \<Longrightarrow> omap_inv str_lt (snd (erase_value i m))"
proof (induction i m rule: erase_value.induct)
  case (2 i k j m)
  then show ?case using erase_value_subset[of i m] by (auto split: prod.splits)
qed simp

lemma close_object_ok: "cache_ok c \<Longrightarrow> cache_ok (snd (Close_object i c))"
proof -
  assume c: "cache_ok c"
  then have "cache_ok (c\<lparr>cached_files := snd (erase_value i (cached_files c))\<rparr>)"
    using erase_value_subset erase_value_inv by (intro cache_ok_fewer[OF c]) (auto simp: cache_ok_def)
  then show ?thesis by (cases "erase_value i (cached_files c)") (simp add: Close_object_def)
qed

text \<open>An object has one entry: closing it is closing its path.\<close>

lemma erase_value_key:
  "omap_inv str_lt m \<Longrightarrow> (k, i) \<in> set m \<Longrightarrow> (\<And>j. (j, i) \<in> set m \<Longrightarrow> j = k) \<Longrightarrow>
     snd (erase_value i m) = omap_erase str_lt k m"
proof (induction i m rule: erase_value.induct)
  case (2 i k' j m)
  show ?case
  proof (cases "j = i")
    case False
    then have mem: "(k, i) \<in> set m" using 2(3) by auto
    then have "str_lt k' k" using 2(2) by force
    moreover have "snd (erase_value i m) = omap_erase str_lt k m"
      using 2(2,4) by (intro 2(1)[OF False _ mem]) simp_all
    ultimately show ?thesis using False by (cases "erase_value i m") (simp add: strmap.asym)
  next
    case True
    then have "k' = k" using 2(4)[of k'] by simp
    then show ?thesis using True by (simp add: strmap.irrefl)
  qed
qed simp

lemma close_object_path:
  assumes "cache_ok c" "Get p c = Some i"
  shows "snd (Close_object i c) = snd (Close_path p c)"
proof -
  have mem: "(c_str p, i) \<in> set (cached_files c)" using cache_ok_entry[OF assms] .
  have inv: "omap_inv str_lt (cached_files c)" and "\<exists>fc. cache_objs c i = Some fc \<and> fc_filepath fc = c_str p"
    using assms(1) mem unfolding cache_ok_def by blast+
  then have "j = c_str p" if "(j, i) \<in> set (cached_files c)" for j using entry_path[OF assms(1) that] by metis
  then have "snd (erase_value i (cached_files c)) = omap_erase str_lt (c_str p) (cached_files c)"
    using mem inv by (intro erase_value_key)
  then show ?thesis using assms(2) by (cases "erase_value i (cached_files c)") (simp add: Close_object_def Close_path_def)
qed

lemma close_path_get: "cache_ok c \<Longrightarrow> Get q (snd (Close_path p c)) = (if c_str q = c_str p then None else Get q c)"
proof -
  assume "cache_ok c"
  then have "omap_inv str_lt (cached_files c)" by (simp add: cache_ok_def)
  then have "omap_get str_lt (c_str q) (omap_erase str_lt (c_str p) (cached_files c)) =
      (if c_str q = c_str p then None else Get q c)" by (simp only: strmap.get_erase str_lt_equiv Get_def)
  then show ?thesis by (auto simp: Close_path_def Get_def split: option.split)
qed

lemma prepend_ok:
  assumes "cache_ok c" "cache_objs c i = Some fc" "prepend_header header fc = Some fc'"
  shows "cache_ok (set_obj i fc' c)"
proof -
  have "obj_ok fc" "i < cache_next c" using assms(1,2) by (auto simp: cache_ok_def)
  moreover have "obj_ok fc'" "fc_filepath fc' = fc_filepath fc"
    using assms(3) \<open>obj_ok fc\<close> by (auto simp: prepend_header_def obj_ok_def Let_def split: option.splits if_splits)
  ultimately show ?thesis using entry_path[OF assms(1) _ assms(2)] by (intro cache_ok_set[OF assms(1)]) auto
qed

text \<open>
  C22.  Every operation of the file cache keeps it well typed: the paths stay ordered and
  distinct, every entry refers to an object that exists and carries the path it is stored under, new
  objects get identifiers that are not in use, and the buffer of every object, also of those no
  longer in the map but still held by a response, is exactly the room for a header plus the file.
\<close>

theorem filecache_well_formed:
  "cache_ok FileCache_new \<and>
   (cache_ok c \<longrightarrow> cache_ok (snd (Open F fs now p need_read ctx c)) \<and>
     cache_ok (snd (Close_path p c)) \<and> cache_ok (snd (Close_object i c)) \<and> cache_ok (RemoveExpiredFileCache now c) \<and>
     (\<forall>fc fc'. cache_objs c i = Some fc \<longrightarrow> prepend_header header fc = Some fc' \<longrightarrow> cache_ok (set_obj i fc' c)))"
proof (intro conjI impI allI)
  show "cache_ok FileCache_new" by (simp add: cache_ok_def FileCache_new_def)
next
  assume c: "cache_ok c"
  then have inv: "omap_inv str_lt (cached_files c)" by (simp add: cache_ok_def)
  show "cache_ok (snd (Open F fs now p need_read ctx c))" by (rule Open_ok[OF c])
  have "cache_ok (c\<lparr>cached_files := omap_erase str_lt (c_str p) (cached_files c)\<rparr>)"
    using strmap.erase_subset strmap.erase_inv inv by (intro cache_ok_fewer[OF c]) auto
  then show "cache_ok (snd (Close_path p c))" using c by (simp add: Close_path_def split: option.split)
  show "cache_ok (snd (Close_object i c))" by (rule close_object_ok[OF c])
  have "omap_inv str_lt (filter P (cached_files c))" for P using inv by (simp add: omap_inv_def sorted_wrt_filter)
  then show "cache_ok (RemoveExpiredFileCache now c)"
    unfolding RemoveExpiredFileCache_def by (intro cache_ok_fewer[OF c]) auto
qed (rule prepend_ok)

definition demo_formats :: file_formats where
  "demo_formats = \<lparr>fmt_gmtime = show_int, fmt_etag = (\<lambda>t n. show_int t @ ''-'' @ show_nat n), fmt_index_of = (\<lambda>d _. d)\<rparr>"

definition demo_fs :: filesys where
  "demo_fs p = (if p = ''/w/a.txt'' then Some (Regular 5 ''hello'') else if p = ''/w/empty'' then Some (Regular 5 [])
     else if p = ''/w'' then Some (Directory 3 64) else None)"

theorem filecache_well_formed_witness:
  "cache_ok (snd (Open demo_formats demo_fs 100 ''/w/a.txt'' True None FileCache_new)) \<and>
   cached_files (snd (Open demo_formats demo_fs 100 ''/w/a.txt'' True None FileCache_new)) = [(''/w/a.txt'', 0)]"
proof -
  have "cached_files (snd (Open demo_formats demo_fs 100 ''/w/a.txt'' True None FileCache_new)) = [(''/w/a.txt'', 0)]"
    by (simp add: Open_def Let_def Get_def FileCache_new_def demo_fs_def stat_of_def open_object_path)
  then show ?thesis
    using filecache_well_formed[of FileCache_new demo_formats demo_fs 100 "''/w/a.txt''" True None 0 "[]"] by blast
qed

section \<open>What is served\<close>

lemma load_regular:
  assumes "stat_of (Regular t s) = fc_st fc" "length s \<le> FILE_CACHE_MAX_SIZE"
  shows "\<exists>fc'. load F (Regular t s) True ctx fc = (True, fc') \<and> file_bytes fc' = Some s \<and>
    is_complete fc' \<and> fc_st fc' = fc_st fc \<and> fc_buf fc' \<noteq> None"
proof -
  let ?r = "resize_buf (length s) fc"
  have st: "fc_st fc = \<lparr>st_mtime = t, st_size = length s, st_isreg = True, st_isdir = False\<rparr>"
    using assms(1) by (simp add: stat_of_def)
  have b: "file_bytes (fill_file s ?r) = Some s" using resize_ok by (intro fill_bytes) auto
  moreover have "is_complete (fill_file s ?r)" by (simp add: is_complete_def st)
  moreover have "file_bytes (fc\<lparr>fc_content_type := x\<rparr>) = file_bytes fc" "is_complete (fc\<lparr>fc_content_type := x\<rparr>) = is_complete fc"
    for fc x by (simp_all add: file_bytes_def is_complete_def cong: option.case_cong)
  moreover have "fc_buf (fill_file s ?r) \<noteq> None" using b by (auto simp: file_bytes_def)
  ultimately show ?thesis
    using assms(2) by (auto simp: load_def st read_ino_def Let_def split: option.split)
qed

lemma load_unread:
  assumes "st_isreg (fc_st fc)"
  shows "\<exists>ct. load F ino False ctx fc = (True, fc\<lparr>fc_content_type := ct\<rparr>)"
proof (cases "find_last_idx (\<lambda>c. c = CHR ''.'') (c_str (fc_filepath fc))")
  case None
  then show ?thesis using assms by (intro exI[of _ "fc_content_type fc"]) (simp add: load_def)
qed (use assms in \<open>auto simp: load_def\<close>)

text \<open>The bytes that go out: the header and the file, in one block, when the header fits.\<close>

lemma prepend_bytes:
  assumes "obj_ok fc" "file_bytes fc = Some s" "length header \<le> HTTP_HEADER_MAX_LENGTH"
  obtains fc' where "prepend_header header fc = Some fc'" "http_bytes fc' = Some (header @ s)"
proof -
  obtain b where b: "fc_buf fc = Some b" "take (fc_filebuf_len fc) (drop HTTP_HEADER_MAX_LENGTH b) = s"
    using assms(2) by (auto simp: file_bytes_def)
  have len: "length b = HTTP_HEADER_MAX_LENGTH + fc_filebuf_len fc" using assms(1) b(1) by (simp add: obj_ok_def)
  then have s: "drop HTTP_HEADER_MAX_LENGTH b = s" using b(2) by simp
  then have "length s = fc_filebuf_len fc" using len by auto
  with len s b assms(3) that show thesis
    by (simp add: prepend_header_def http_bytes_def Let_def not_less)
qed

lemma load_type:
  assumes "load F (Regular t s) True ctx fc = (True, fc')" "fc_st fc = stat_of (Regular t s)"
  shows "fc_content_type fc' = fc_content_type fc \<or> (\<exists>x. fc_content_type fc' = Some (http_content_type_str_by_suffix x))"
proof -
  have "fc_content_type (fill_file b (resize_buf n fc)) = fc_content_type fc" for b n
    by (auto simp: fill_file_def resize_buf_def Let_def split: option.split)
  then show ?thesis
    using assms by (auto simp: load_def stat_of_def read_ino_def Let_def split: if_splits option.splits)
qed

text \<open>Opening a file that is read now.\<close>

lemma open_regular:
  assumes "cache_ok c" "fs (c_str p) = Some (Regular t s)" "length s \<le> FILE_CACHE_MAX_SIZE"
    and "Get p c = None \<or> (\<exists>i fc. Get p c = Some i \<and> cache_objs c i = Some fc \<and>
           now - fc_stat_time fc > file_stat_interval c \<and> st_mtime (fc_st fc) \<noteq> t)"
  obtains i c' fc where "Open F fs now p True ctx c = (Some i, c')" "cache_objs c' i = Some fc" "Get p c' = Some i"
    "file_bytes fc = Some s" "fc_etag fc = fmt_etag F t (length s)" "fc_last_modified fc = fmt_gmtime F t"
    "obj_ok fc" "cache_ok c'" "fc_filebuf_len fc = length s"
    "Get p c = None \<longrightarrow> fc_content_type fc = None \<or> (\<exists>x. fc_content_type fc = Some (http_content_type_str_by_suffix x))"
proof -
  let ?ino = "Regular t s"
  have G: "Get (c_str p) c = Get p c" by (simp add: Get_def)
  have "\<exists>i c1 fc1. Open F fs now p True ctx c = open_object F ?ino True ctx i fc1 c1 \<and> fc_st fc1 = stat_of ?ino \<and>
      omap_get str_lt (c_str p) (cached_files c1) = Some i \<and> (Get p c = None \<longrightarrow> fc_content_type fc1 = None)"
    using assms(4)
  proof (elim disjE exE conjE)
    assume "Get p c = None"
    then have "Open F fs now p True ctx c = open_object F ?ino True ctx (cache_next c) (new_file (c_str p) ?ino now)
        (c\<lparr>cached_files := omap_put str_lt (c_str p) (cache_next c) (cached_files c), cache_next := cache_next c + 1\<rparr>)"
      using assms(2) by (simp add: Open_def Let_def G stat_of_def)
    moreover have "fc_st (new_file (c_str p) ?ino now) = stat_of ?ino" "fc_content_type (new_file (c_str p) ?ino now) = None"
      by (simp_all add: new_file_def)
    moreover have "omap_get str_lt (c_str p) (omap_put str_lt (c_str p) (cache_next c) (cached_files c)) = Some (cache_next c)"
      by (rule strmap.get_put_same)
    ultimately show ?thesis
      by (intro exI[of _ "cache_next c"] exI[of _ "c\<lparr>cached_files := omap_put str_lt (c_str p) (cache_next c) (cached_files c), cache_next := cache_next c + 1\<rparr>"]
          exI[of _ "new_file (c_str p) ?ino now"]) simp
  next
    fix i fc
    assume a: "Get p c = Some i" "cache_objs c i = Some fc" "now - fc_stat_time fc > file_stat_interval c" "st_mtime (fc_st fc) \<noteq> t"
    have "fc_filepath fc = c_str p" using entry_path[OF assms(1) cache_ok_entry[OF assms(1) a(1)] a(2)] .
    let ?f = "fc\<lparr>fc_st := stat_of ?ino, fc_stat_time := now, fc_stat_cnt := fc_stat_cnt fc + 1\<rparr>"
    have "refresh fs now c True fc = (True, True, ?f)"
      using a assms(2) \<open>fc_filepath fc = c_str p\<close> by (simp add: refresh_def is_modified_def stat_of_def)
    then have "Open F fs now p True ctx c = open_object F ?ino True ctx i ?f (set_obj i ?f c)"
      using a assms(2) by (simp add: Open_def Let_def G)
    then show ?thesis
      using a(1) by (intro exI[of _ i] exI[of _ "set_obj i ?f c"] exI[of _ ?f]) (simp add: set_obj_def Get_def)
  qed
  then obtain i c1 fc1 where o: "Open F fs now p True ctx c = open_object F ?ino True ctx i fc1 c1"
    "fc_st fc1 = stat_of ?ino" "omap_get str_lt (c_str p) (cached_files c1) = Some i"
    "Get p c = None \<longrightarrow> fc_content_type fc1 = None" by (elim exE conjE) (rule that)
  obtain fc2 where l: "load F ?ino True ctx fc1 = (True, fc2)" "file_bytes fc2 = Some s" "fc_st fc2 = stat_of ?ino"
    using load_regular[OF o(2)[symmetric] assms(3), of F ctx] o(2) by auto
  let ?fc = "stamp F fc2"
  have O: "Open F fs now p True ctx c = (Some i, set_obj i ?fc c1)" by (simp add: o(1) open_object_def l(1))
  have "cache_ok (set_obj i ?fc c1)" using Open_ok[OF assms(1), of F fs now p True ctx] by (simp add: O)
  then have "\<forall>j f. cache_objs (set_obj i ?fc c1) j = Some f \<longrightarrow> obj_ok f" by (simp add: cache_ok_def)
  then have ok: "obj_ok ?fc" by (elim allE[of _ i] allE[of _ ?fc]) (simp add: set_obj_def)
  have fb: "file_bytes ?fc = Some s" using l(2) by (simp add: file_bytes_def)
  have tags: "fc_etag ?fc = fmt_etag F t (length s)" "fc_last_modified ?fc = fmt_gmtime F t"
    by (simp_all add: stamp_def l(3) stat_of_def)
  have "length s = fc_filebuf_len ?fc"
    using ok fb by (auto simp: obj_ok_def file_bytes_def)
  moreover have "fc_content_type ?fc = None \<or> (\<exists>x. fc_content_type ?fc = Some (http_content_type_str_by_suffix x))"
    if "Get p c = None"
    using load_type[OF l(1) o(2)] o(4) that by (auto simp: stamp_def)
  moreover have "Get p (set_obj i ?fc c1) = Some i" "cache_objs (set_obj i ?fc c1) i = Some ?fc"
    using o(3) by (simp_all add: set_obj_def Get_def)
  ultimately show thesis
    using that[of i "set_obj i ?fc c1" ?fc] O fb tags ok \<open>cache_ok (set_obj i ?fc c1)\<close> by simp
qed

text \<open>
  C21.  The cache serves the file: opening a regular file for reading, when it is not in the
  cache, or when it is and the last check is long enough ago and its modification time has changed, gives an
  object that holds exactly the bytes the file has now, with the time and the entity tag of
  now; and a header of at most 1024 bytes is sent in front of exactly these bytes.
\<close>

theorem filecache_serves_file:
  assumes "cache_ok c" "fs (c_str p) = Some (Regular t s)" "length s \<le> FILE_CACHE_MAX_SIZE"
    and "Get p c = None \<or> (\<exists>i fc. Get p c = Some i \<and> cache_objs c i = Some fc \<and>
           now - fc_stat_time fc > file_stat_interval c \<and> st_mtime (fc_st fc) \<noteq> t)"
  shows "\<exists>i c' fc. Open F fs now p True ctx c = (Some i, c') \<and> cache_objs c' i = Some fc \<and> Get p c' = Some i \<and>
    file_bytes fc = Some s \<and> fc_etag fc = fmt_etag F t (length s) \<and> fc_last_modified fc = fmt_gmtime F t \<and>
    (length header \<le> HTTP_HEADER_MAX_LENGTH \<longrightarrow>
       (\<exists>fc'. prepend_header header fc = Some fc' \<and> http_bytes fc' = Some (header @ s)))"
proof -
  from open_regular[of c fs p t s now F ctx, OF assms]
  obtain i c' fc where o: "Open F fs now p True ctx c = (Some i, c')" "cache_objs c' i = Some fc" "Get p c' = Some i"
    "file_bytes fc = Some s" "fc_etag fc = fmt_etag F t (length s)" "fc_last_modified fc = fmt_gmtime F t" "obj_ok fc" by metis
  have "\<exists>fc'. prepend_header header fc = Some fc' \<and> http_bytes fc' = Some (header @ s)" if "length header \<le> HTTP_HEADER_MAX_LENGTH"
    using prepend_bytes[OF o(7,4) that] by blast
  then show ?thesis using o by blast
qed

theorem filecache_serves_file_witness:
  "\<exists>i c' fc. Open demo_formats demo_fs 100 ''/w/a.txt'' True None FileCache_new = (Some i, c') \<and>
     cache_objs c' i = Some fc \<and> file_bytes fc = Some ''hello'' \<and> fc_etag fc = ''5-5'' \<and>
     (\<exists>fc'. prepend_header ''HDR'' fc = Some fc' \<and> http_bytes fc' = Some ''HDRhello'')"
proof -
  have "show_int 5 @ ''-'' @ show_nat (Suc (Suc (Suc (Suc (Suc 0))))) = ''5-5''" by code_simp
  then show ?thesis
    using filecache_serves_file[of FileCache_new demo_fs "''/w/a.txt''" 5 "''hello''" 100 demo_formats None "''HDR''"]
    by (auto simp: cache_ok_def FileCache_new_def demo_fs_def demo_formats_def FILE_CACHE_MAX_SIZE_def HTTP_HEADER_MAX_LENGTH_def
        c_str_def Get_def)
qed

text \<open>
  A change that keeps the size can be missed for good: when a request that does not read
  the file (\<open>HEAD\<close>) is the first to notice the new modification time, the object gets the new time
  and the new entity tag but keeps the old bytes, and as it has the right length, every later
  request that reads the file within the interval is answered with the old bytes under the new
  entity tag.
\<close>

theorem filecache_stale_after_head:
  assumes "cache_ok c" "Get p c = Some i" "cache_objs c i = Some fc" "st_isreg (fc_st fc)"
    and "file_bytes fc = Some old" "fs (c_str p) = Some (Regular t new)" "length new = length old" "new \<noteq> old"
    and "now - fc_stat_time fc > file_stat_interval c" "st_mtime (fc_st fc) \<noteq> t"
    and "now' - now \<le> file_stat_interval c"
  shows "\<exists>c1 c2 fc2. Open F fs now p False ctx c = (Some i, c1) \<and> Open F fs now' p True ctx c1 = (Some i, c2) \<and>
    cache_objs c2 i = Some fc2 \<and> file_bytes fc2 = Some old \<and> fc_etag fc2 = fmt_etag F t (length new)"
proof -
  let ?ino = "Regular t new"
  have G: "Get (c_str p) c = Some i" using assms(2) by (simp add: Get_def)
  have path: "fc_filepath fc = c_str p" using entry_path[OF assms(1) cache_ok_entry[OF assms(1,2)] assms(3)] .
  let ?f1 = "fc\<lparr>fc_st := stat_of ?ino, fc_stat_time := now, fc_stat_cnt := fc_stat_cnt fc + 1\<rparr>"
  have "refresh fs now c False fc = (True, False, ?f1)"
    using assms path by (simp add: refresh_def is_modified_def stat_of_def)
  then have O1: "Open F fs now p False ctx c = open_object F ?ino False ctx i ?f1 (set_obj i ?f1 c)"
    using G assms by (simp add: Open_def Let_def)
  obtain ct where l: "load F ?ino False ctx ?f1 = (True, ?f1\<lparr>fc_content_type := ct\<rparr>)"
    using load_unread[of ?f1 F ?ino ctx] by (auto simp: stat_of_def)
  let ?f2 = "stamp F (?f1\<lparr>fc_content_type := ct\<rparr>)"
  let ?c1 = "set_obj i ?f2 (set_obj i ?f1 c)"
  have o1: "Open F fs now p False ctx c = (Some i, ?c1)" unfolding O1 open_object_def l by simp
  have ok: "obj_ok fc" using assms(1,3) by (auto simp: cache_ok_def)
  obtain b where b: "fc_buf fc = Some b" "old = take (fc_filebuf_len fc) (drop HTTP_HEADER_MAX_LENGTH b)"
    using assms(5) by (auto simp: file_bytes_def)
  then have "fc_filebuf_len fc = length old" using ok by (simp add: obj_ok_def)
  then have "refresh fs now' ?c1 True ?f2 = (False, False, ?f2)"
    using assms(7,11) by (simp add: refresh_def is_complete_def stat_of_def set_obj_def stamp_def)
  then have o2: "Open F fs now' p True ctx ?c1 = (Some i, set_obj i ?f2 ?c1)"
    using G by (simp add: Open_def Let_def set_obj_def Get_def)
  have "file_bytes ?f2 = Some old" "fc_etag ?f2 = fmt_etag F t (length new)"
    using b by (simp_all add: file_bytes_def stamp_def stat_of_def)
  then show ?thesis using o1 o2 by (intro exI[of _ ?c1] exI[of _ "set_obj i ?f2 ?c1"] exI[of _ ?f2]) (simp add: set_obj_def)
qed

definition demo_object :: file_cache where
  "demo_object = \<lparr>fc_filepath = ''/w/a.txt'', fc_st = \<lparr>st_mtime = 4, st_size = 5, st_isreg = True, st_isdir = False\<rparr>,
     fc_open_time = 0, fc_stat_time = 0, fc_stat_cnt = 1, fc_buf = Some (replicate HTTP_HEADER_MAX_LENGTH NUL @ ''HELLO''),
     fc_filebuf_len = 5, fc_httpbuf = None, fc_last_modified = ''4'', fc_etag = ''4-5'', fc_content_type = None\<rparr>"

definition demo_cache :: FileCache where
  "demo_cache = \<lparr>file_stat_interval = 10, file_expired_time = 60, cached_files = [(''/w/a.txt'', 0)],
     cache_objs = [0 \<mapsto> demo_object], cache_next = 1\<rparr>"

theorem filecache_stale_after_head_witness:
  "\<exists>c1 c2 fc2. Open demo_formats demo_fs 100 ''/w/a.txt'' False None demo_cache = (Some 0, c1) \<and>
     Open demo_formats demo_fs 105 ''/w/a.txt'' True None c1 = (Some 0, c2) \<and>
     cache_objs c2 0 = Some fc2 \<and> file_bytes fc2 = Some ''HELLO'' \<and> fc_etag fc2 = fmt_etag demo_formats 5 (length ''hello'')"
proof (rule filecache_stale_after_head[where c = demo_cache and fc = demo_object])
  show "cache_ok demo_cache"
    by (rule cache_okI) (auto simp: demo_cache_def demo_object_def obj_ok_def split: if_splits)
  show "demo_fs (c_str ''/w/a.txt'') = Some (Regular 5 ''hello'')" by (simp add: demo_fs_def c_str_def)
qed (simp_all add: demo_cache_def demo_object_def Get_def c_str_def file_bytes_def strmap.irrefl)

text \<open>
  The room for the header: a header of more than 1024 bytes is not sent at all - the window
  of the previous response is sent again - and for an empty file that a \<open>HEAD\<close> request has put
  into the cache without reading it, a following request that reads it finds it complete, and the header
  is copied in front of a null pointer.
\<close>

theorem filecache_header_defects:
  "(length header > HTTP_HEADER_MAX_LENGTH \<longrightarrow>
      prepend_header header fc = Some fc \<and> http_bytes (the (prepend_header header fc)) = http_bytes fc) \<and>
   (cache_ok c \<longrightarrow> Get p c = None \<longrightarrow> fs (c_str p) = Some (Regular t []) \<longrightarrow> 0 \<le> now' - now \<longrightarrow>
     now' - now \<le> file_stat_interval c \<longrightarrow> header \<noteq> [] \<longrightarrow> length header \<le> HTTP_HEADER_MAX_LENGTH \<longrightarrow>
     (\<exists>i c1 c2 fc2. Open F fs now p False ctx c = (Some i, c1) \<and> Open F fs now' p True ctx c1 = (Some i, c2) \<and>
        cache_objs c2 i = Some fc2 \<and> prepend_header header fc2 = None))"
proof (intro conjI impI)
  assume a: "cache_ok c" "Get p c = None" "fs (c_str p) = Some (Regular t [])" "0 \<le> now' - now"
    "now' - now \<le> file_stat_interval c" "header \<noteq> []" "length header \<le> HTTP_HEADER_MAX_LENGTH"
  let ?i = "cache_next c"
  let ?fresh = "new_file (c_str p) (Regular t []) now"
  let ?room = "c\<lparr>cached_files := omap_put str_lt (c_str p) ?i (cached_files c), cache_next := ?i + 1\<rparr>"
  obtain ct where l: "load F (Regular t []) False ctx ?fresh = (True, ?fresh\<lparr>fc_content_type := ct\<rparr>)"
    using load_unread[of ?fresh F "Regular t []" ctx] by (auto simp: new_file_def stat_of_def)
  let ?ready = "stamp F (?fresh\<lparr>fc_content_type := ct\<rparr>)" let ?c1 = "set_obj ?i ?ready ?room"
  have G: "Get (c_str p) c = None" using a(2) by (simp add: Get_def)
  have "Open F fs now p False ctx c = open_object F (Regular t []) False ctx ?i ?fresh ?room"
    using a(3) G by (simp add: Open_def Let_def stat_of_def)
  then have o1: "Open F fs now p False ctx c = (Some ?i, ?c1)" by (simp add: open_object_def l)
  have "Get (c_str p) ?c1 = Some ?i" by (simp add: Get_def set_obj_def strmap.get_put_same)
  moreover have "refresh fs now' ?c1 True ?ready = (False, False, ?ready)"
    using a(5) by (simp add: refresh_def is_complete_def stat_of_def set_obj_def stamp_def new_file_def)
  ultimately have o2: "Open F fs now' p True ctx ?c1 = (Some ?i, set_obj ?i ?ready ?c1)"
    by (simp add: Open_def Let_def set_obj_def)
  have "prepend_header header ?ready = None" using a(6,7) by (simp add: prepend_header_def stamp_def new_file_def)
  then show "\<exists>i c1 c2 fc2. Open F fs now p False ctx c = (Some i, c1) \<and> Open F fs now' p True ctx c1 = (Some i, c2) \<and>
      cache_objs c2 i = Some fc2 \<and> prepend_header header fc2 = None"
    using o1 o2 by (intro exI[of _ ?i] exI[of _ ?c1] exI[of _ "set_obj ?i ?ready ?c1"] exI[of _ ?ready]) (simp add: set_obj_def)
qed (simp_all add: prepend_header_def)

theorem filecache_header_defects_witness:
  "\<exists>i c1 c2 fc2. Open demo_formats demo_fs 100 ''/w/empty'' False None FileCache_new = (Some i, c1) \<and>
     Open demo_formats demo_fs 101 ''/w/empty'' True None c1 = (Some i, c2) \<and>
     cache_objs c2 i = Some fc2 \<and> prepend_header ''HDR'' fc2 = None"
proof -
  have "cache_ok FileCache_new" "Get ''/w/empty'' FileCache_new = None" "demo_fs (c_str ''/w/empty'') = Some (Regular 5 [])"
    by (simp_all add: cache_ok_def FileCache_new_def Get_def demo_fs_def c_str_def)
  then show ?thesis
    using filecache_header_defects[where header = "''HDR''" and c = FileCache_new and p = "''/w/empty''" and fs = demo_fs
        and t = 5 and now = 100 and now' = 101 and F = demo_formats and ctx = None]
    by (simp add: HTTP_HEADER_MAX_LENGTH_def FileCache_new_def)
qed

end
