(* ===== verification/HttpHandler.thy ===== *)
theory HttpHandler
  imports HttpService FileCache
begin

text \<open>
  \<open>http/server/HttpHandler.cpp\<close>: handling a request (processors, API handlers, static files,
  status pages) and the state machine that hands out the response, with the page of
  \<open>http_page.cpp\<close> and the part of \<open>HttpServer.cpp\<close> that serves a request over HTTP/1.
  Application handlers are functions of the request and the response; an asynchronous handler is only
  recorded.  \<open>None\<close> is undefined behaviour or an exception that leaves the handler.
\<close>

section \<open>State\<close>

datatype handler_state =
    WANT_RECV | HANDLE_BEGIN | HANDLE_CONTINUE | HANDLE_END | WANT_SEND | SEND_HEADER | SEND_BODY | SEND_DONE

type_synonym 'j sync_handler =
  "'j HttpRequest \<Rightarrow> 'j HttpResponse \<Rightarrow> int \<times> 'j HttpRequest \<times> 'j HttpResponse"

record ('j, 'a) service_conf =
  sc_preprocessor :: "'j sync_handler option"
  sc_postprocessor :: "'j sync_handler option"
  sc_api :: "('j sync_handler, 'a) HttpService"
  sc_document_root :: string
  sc_home_page :: string
  sc_error_page :: string
  sc_index_of :: string

record 'j HttpHandler =
  hh_state :: handler_state
  hh_req :: "'j HttpRequest"
  hh_resp :: "'j HttpResponse"
  hh_fc :: "nat option"
  hh_header :: string
  hh_body :: string

text \<open>The world around the handler: libraries, formats, files, the time and the date.\<close>

record 'j server_env =
  se_ext :: "'j ext"
  se_formats :: file_formats
  se_fs :: filesys
  se_now :: int
  se_date :: string

definition HTTP_GET :: nat where "HTTP_GET = 1"
definition HTTP_HEAD :: nat where "HTTP_HEAD = 2"

section \<open>Status pages\<close>

definition make_http_status_page :: "nat \<Rightarrow> string" where
  "make_http_status_page code =
     (let szCode = take 7 (show_nat code @ '' ''); msg = http_status_str code
      in ''<!DOCTYPE html>'' @ [NL] @ ''<html>'' @ [NL] @ ''<head>'' @ [NL] @ ''  <title>'' @ szCode @ msg
         @ ''</title>'' @ [NL] @ ''</head>'' @ [NL] @ ''<body>'' @ [NL] @ ''  <center><h1>'' @ szCode @ msg
         @ ''</h1></center>'' @ [NL] @ ''  <hr>'' @ [NL] @ ''</body>'' @ [NL] @ ''</html>'')"

section \<open>Handling a request\<close>

text \<open>The lookup of the API, whose code is not looked at.\<close>

definition find_api ::
    "('j, 'a) service_conf \<Rightarrow> 'j HttpRequest \<Rightarrow> ('j sync_handler option \<times> 'a option) \<times> 'j HttpRequest" where
  "find_api sc r =
     (if svc_api_handlers (sc_api sc) = [] then ((None, None), r)
      else (case GetApi (path r) (req_method r) (query_params r) (sc_api sc) of
              (res, q) \<Rightarrow>
                ((case api_handler res of Some h \<Rightarrow> h | None \<Rightarrow> (None, None)), r\<lparr>query_params := q\<rparr>)))"

definition unsafe_path :: "string \<Rightarrow> bool" where
  "unsafe_path req_path \<longleftrightarrow>
     req_path = [] \<or> hd req_path \<noteq> CHR ''/'' \<or> find_sub ''/../'' req_path \<noteq> None"

text \<open>Not modified: the file is not sent.\<close>

definition validate :: "'j HttpRequest \<Rightarrow> file_cache \<Rightarrow> bool" where
  "validate r fc \<longleftrightarrow>
     (case hget ''if-not-match'' (headers r) of Some v \<Rightarrow> c_str v = c_str (fc_etag fc) | None \<Rightarrow> False) \<or>
     (case hget ''if-modified-since'' (headers r) of Some v \<Rightarrow> c_str v = c_str (fc_last_modified fc) | None \<Rightarrow> False)"

definition file_path :: "('j, 'a) service_conf \<Rightarrow> string \<Rightarrow> string" where
  "file_path sc req_path =
     sc_document_root sc @ req_path @ (if length req_path = 1 then sc_home_page sc else [])"

text \<open>The file service: the status, and the file that is sent; the path is safe here.\<close>

definition file_service ::
    "'j server_env \<Rightarrow> ('j, 'a) service_conf \<Rightarrow> 'j HttpRequest \<Rightarrow> nat option \<Rightarrow> FileCache \<Rightarrow> int \<times> nat option \<times> FileCache" where
  "file_service V sc r fc0 c =
     (let req_path = Path r;
          filepath = file_path sc req_path;
          is_dir = (last filepath = CHR ''/'');
          is_index_of = (sc_index_of sc \<noteq> [] \<and> strstartswith req_path (sc_index_of sc));
          (fc, c) = (if \<not> is_dir \<or> is_index_of
                     then Open (se_formats V) (se_fs V) (se_now V) filepath (req_method r \<noteq> HTTP_HEAD) (Some req_path) c
                     else (fc0, c))
      in (case Option.bind fc (cache_objs c) of
            None \<Rightarrow> (404, None, c)
          | Some obj \<Rightarrow> if validate r obj then (304, None, c) else (200, fc, c)))"

text \<open>The choice between the services; the status is 0 when an asynchronous handler has been started.\<close>

definition run_services ::
    "'j server_env \<Rightarrow> ('j, 'a) service_conf \<Rightarrow> 'j HttpHandler \<Rightarrow> FileCache \<Rightarrow> int \<times> 'a option \<times> 'j HttpHandler \<times> FileCache" where
  "run_services V sc h c =
     (case find_api sc (hh_req h) of
        ((sync, async), r) \<Rightarrow>
          (case sync of
             Some f \<Rightarrow>
               (case f r (hh_resp h) of (code, r, resp) \<Rightarrow> (code, None, h\<lparr>hh_req := r, hh_resp := resp\<rparr>, c))
           | None \<Rightarrow>
               (case async of
                  Some a \<Rightarrow> (0, Some a, h\<lparr>hh_req := r\<rparr>, c)
                | None \<Rightarrow>
                    if sc_document_root sc \<noteq> [] \<and> (req_method r = HTTP_GET \<or> req_method r = HTTP_HEAD) then
                      if unsafe_path (Path r)
                      then (200, None, h\<lparr>hh_req := r, hh_resp := (hh_resp h)\<lparr>status_code := 400\<rparr>\<rparr>, c)
                      else (case file_service V sc r (hh_fc h) c of
                              (code, fc, c) \<Rightarrow> (code, None, h\<lparr>hh_req := r, hh_fc := fc\<rparr>, c))
                    else (501, None, h\<lparr>hh_req := r\<rparr>, c))))"

text \<open>The status and the page of an error.\<close>

definition set_status :: "int \<Rightarrow> 'j HttpResponse \<Rightarrow> 'j HttpResponse" where
  "set_status code resp = (if 100 \<le> code \<and> code < 600 then resp\<lparr>status_code := nat code\<rparr> else resp)"

definition error_page ::
    "'j server_env \<Rightarrow> ('j, 'a) service_conf \<Rightarrow> 'j HttpHandler \<Rightarrow> FileCache \<Rightarrow> 'j HttpHandler \<times> FileCache" where
  "error_page V sc h c =
     (if status_code (hh_resp h) \<ge> 400 \<and> body (hh_resp h) = [] \<and> req_method (hh_req h) \<noteq> HTTP_HEAD then
        (let (fc, c) = (if sc_error_page sc \<noteq> []
                        then Open (se_formats V) (se_fs V) (se_now V) (sc_document_root sc @ ''/'' @ sc_error_page sc) True None c
                        else (hh_fc h, c));
             h = h\<lparr>hh_fc := fc\<rparr>
         in if fc = None
            then (h\<lparr>hh_resp := (hh_resp h)\<lparr>content_type := TEXT_HTML, body := make_http_status_page (status_code (hh_resp h))\<rparr>\<rparr>, c)
            else (h, c))
      else (h, c))"

text \<open>The response takes over the bytes and the tags of a file.\<close>

definition attach_file :: "file_cache \<Rightarrow> 'j HttpResponse \<Rightarrow> 'j HttpResponse" where
  "attach_file fc resp =
     resp\<lparr>content := (case file_bytes fc of Some s \<Rightarrow> Content_data s | None \<Rightarrow> Content_null),
          content_length := int_of_size (fc_filebuf_len fc),
          headers := hput ''Etag'' (c_str (fc_etag fc)) (hput ''Last-Modified'' (c_str (fc_last_modified fc))
            (case fc_content_type fc of
               Some t \<Rightarrow> if c_str t \<noteq> [] then hput ''Content-Type'' (c_str t) (headers resp) else headers resp
             | None \<Rightarrow> headers resp))\<rparr>"

definition attach :: "'j HttpHandler \<Rightarrow> FileCache \<Rightarrow> 'j HttpHandler" where
  "attach h c =
     (case Option.bind (hh_fc h) (cache_objs c) of
        Some fc \<Rightarrow> h\<lparr>hh_resp := attach_file fc (hh_resp h)\<rparr>
      | None \<Rightarrow> h)"

definition run_postprocessor :: "('j, 'a) service_conf \<Rightarrow> 'j HttpHandler \<Rightarrow> 'j HttpHandler" where
  "run_postprocessor sc h =
     (case sc_postprocessor sc of
        None \<Rightarrow> h
      | Some f \<Rightarrow> (case f (hh_req h) (hh_resp h) of (_, r, resp) \<Rightarrow> h\<lparr>hh_req := r, hh_resp := resp\<rparr>))"

text \<open>The code behind the label \<open>make_http_status_page\<close>.\<close>

definition finish_request ::
    "'j server_env \<Rightarrow> ('j, 'a) service_conf \<Rightarrow> int \<Rightarrow> 'j HttpHandler \<Rightarrow> FileCache \<Rightarrow> 'j HttpHandler \<times> FileCache" where
  "finish_request V sc code h c =
     (case error_page V sc (h\<lparr>hh_resp := set_status code (hh_resp h)\<rparr>) c of
        (h, c) \<Rightarrow>
          (let h = run_postprocessor sc (attach h c)
           in (h\<lparr>hh_state := (if code = 0 then HANDLE_CONTINUE else HANDLE_END)\<rparr>, c)))"

definition HandleHttpRequest ::
    "'j server_env \<Rightarrow> ('j, 'a) service_conf \<Rightarrow> (string \<Rightarrow> url_fields) \<Rightarrow> bool \<Rightarrow> 'j HttpHandler \<Rightarrow> FileCache
       \<Rightarrow> (int \<times> 'a option \<times> 'j HttpHandler \<times> FileCache) option" where
  "HandleHttpRequest V sc parse_url ssl h0 c0 =
     map_option (\<lambda>r.
       (let h = h0\<lparr>hh_req := r, hh_state := HANDLE_BEGIN\<rparr>;
            (code, async, h, c) =
              (case sc_preprocessor sc of
                 None \<Rightarrow> run_services V sc h c0
               | Some f \<Rightarrow>
                   (case f r (hh_resp h) of
                      (code, r, resp) \<Rightarrow>
                        (let h = h\<lparr>hh_req := r, hh_resp := resp\<rparr>
                         in if code \<noteq> 0 then (code, None, h, c0) else run_services V sc h c0)));
            (h, c) = finish_request V sc code h c
        in (code, async, h, c)))
       (ParseUrl parse_url (Host ((hh_req h0)\<lparr>scheme := (if ssl then ''https'' else ''http'')\<rparr>)))"

section \<open>Ranges\<close>

text \<open>\<open>%ld\<close> of \<open>sscanf\<close>: blanks, a sign, at least one digit.\<close>

definition scan_ld :: "string \<Rightarrow> (int \<times> string) option" where
  "scan_ld s0 =
     (let s = dropWhile isspace_c s0;
          (sgn, t) = (case s of c # t \<Rightarrow> if c = CHR ''-'' then (- 1, t) else if c = CHR ''+'' then (1, t) else (1 :: int, s)
                      | [] \<Rightarrow> (1, s))
      in if takeWhile isdigit_c t = [] then None
         else Some (max (- (2 ^ 63)) (min (2 ^ 63 - 1) (sgn * int (digits_val 0 t))), dropWhile isdigit_c t))"

text \<open>
  \<open>GetRange\<close>: whether the header is there, and what \<open>sscanf\<close> stores; \<open>None\<close> is a variable that
  is left as it is.
\<close>

definition GetRange :: "'j HttpRequest \<Rightarrow> (int option \<times> int option) option" where
  "GetRange r =
     map_option (\<lambda>v.
       (let s = c_str v in
        if take 6 s \<noteq> ''bytes='' then (None, None)
        else case scan_ld (drop 6 s) of
               None \<Rightarrow> (None, None)
             | Some (from, t) \<Rightarrow>
                 (Some from, if t \<noteq> [] \<and> hd t = CHR ''-'' then map_option fst (scan_ld (tl t)) else None)))
       (hget ''Range'' (headers r))"

text \<open>
  \<open>HFile::readrange\<close> on a file opened for reading: the string and the number of bytes read.  The
  offsets are converted to \<open>size_t\<close>; \<open>resize\<close> throws above \<open>2 ^ 63 - 1\<close>; a seek to a negative offset fails
  and leaves the position at the start.
\<close>

definition file_text :: "inode \<Rightarrow> string" where
  "file_text i = (case i of Regular _ s \<Rightarrow> s | _ \<Rightarrow> [])"

definition readrange :: "inode \<Rightarrow> int \<Rightarrow> int \<Rightarrow> (string \<times> int) option" where
  "readrange i from0 to0 =
     (let filesize = word_of_nat (st_size (stat_of i)) :: 64 word;
          from = word_of_int from0; to1 = word_of_int to0;
          to = (if to1 = 0 \<or> to1 \<ge> filesize then filesize - 1 else to1);
          readbytes = unat (to - from + 1)
      in if readbytes > 2 ^ 63 - 1 then None
         else let got = take readbytes (drop (nat (max 0 from0)) (file_text i))
              in Some (got @ replicate (readbytes - length got) NUL, int_of_size (length got)))"

section \<open>The send machine\<close>

definition set_header :: "string \<Rightarrow> string \<Rightarrow> 'j HttpResponse \<Rightarrow> 'j HttpResponse" where
  "set_header k v resp = resp\<lparr>headers := hput k v (headers resp)\<rparr>"

text \<open>\<open>return_header\<close>: the header is made unless there is one, and is what is sent.\<close>

definition return_header :: "'j server_env \<Rightarrow> 'j HttpHandler \<Rightarrow> (string \<times> 'j HttpHandler) option" where
  "return_header V h =
     (if hh_header h \<noteq> [] then Some (hh_header h, h)
      else map_option (\<lambda>(s, resp). (s, h\<lparr>hh_header := s, hh_resp := resp\<rparr>))
             (HttpResponse_Dump (se_ext V) (se_date V) True False (hh_resp h)))"

definition return_nobody :: "'j server_env \<Rightarrow> 'j HttpHandler \<Rightarrow> (string \<times> 'j HttpHandler) option" where
  "return_nobody V h =
     return_header V (h\<lparr>hh_state := SEND_DONE, hh_resp := (hh_resp h)\<lparr>content_length := 0\<rparr>\<rparr>)"

definition send_head_only :: "'j server_env \<Rightarrow> FileCache \<Rightarrow> 'j HttpHandler \<Rightarrow> (string \<times> 'j HttpHandler) option" where
  "send_head_only V c h =
     return_nobody V (h\<lparr>hh_resp :=
       (case Option.bind (hh_fc h) (cache_objs c) of
          Some fc \<Rightarrow> set_header ''Content-Length'' (show_nat (st_size (fc_st fc)))
                       (set_header ''Accept-Ranges'' ''bytes'' (hh_resp h))
        | None \<Rightarrow> set_header ''Content-Length'' ''0'' (set_header ''Content-Type'' ''text/html'' (hh_resp h)))\<rparr>)"

definition send_range ::
    "'j server_env \<Rightarrow> file_cache \<Rightarrow> int \<Rightarrow> int \<Rightarrow> 'j HttpHandler \<Rightarrow> (string \<times> 'j HttpHandler) option" where
  "send_range V fc from to0 h =
     (case se_fs V (fc_filepath fc) of
        None \<Rightarrow> return_nobody V (h\<lparr>hh_resp := (hh_resp h)\<lparr>status_code := 404\<rparr>\<rparr>)
      | Some ino \<Rightarrow>
          (let total = int (st_size (stat_of ino));
               to = (if to0 = 0 \<or> to0 \<ge> total then total - 1 else to0);
               clen = sint (word_of_int (to - from + 1) :: 32 word);
               h = h\<lparr>hh_resp := (hh_resp h)\<lparr>content_length := clen\<rparr>\<rparr>
           in Option.bind (readrange ino from to) (\<lambda>(str, nread).
                if nread \<noteq> clen
                then return_nobody V (h\<lparr>hh_body := str, hh_resp := (hh_resp h)\<lparr>status_code := 500\<rparr>\<rparr>)
                else return_header V (h\<lparr>hh_body := str, hh_state := SEND_BODY,
                       hh_resp := set_header ''Content-Range''
                         (''bytes '' @ show_int from @ ''-'' @ show_int to @ ''/'' @ show_int total) (hh_resp h)\<rparr>))))"

text \<open>The cached file: the header is copied in front of it and both are sent at once.\<close>

definition send_file ::
    "'j server_env \<Rightarrow> nat \<Rightarrow> file_cache \<Rightarrow> 'j HttpHandler \<Rightarrow> FileCache \<Rightarrow> (string \<times> 'j HttpHandler \<times> FileCache) option" where
  "send_file V i fc h c =
     Option.bind (HttpResponse_Dump (se_ext V) (se_date V) True False (hh_resp h)) (\<lambda>(s, resp).
       Option.bind (prepend_header s fc) (\<lambda>fc.
         map_option (\<lambda>out. (out, h\<lparr>hh_header := s, hh_resp := resp, hh_state := SEND_DONE\<rparr>, set_obj i fc c))
           (if fc_httpbuf fc = None then Some [] else http_bytes fc)))"

text \<open>A response of the application: header and body in one piece up to one megabyte.\<close>

definition send_api :: "'j server_env \<Rightarrow> 'j HttpHandler \<Rightarrow> (string \<times> 'j HttpHandler) option" where
  "send_api V h =
     Option.bind (ContentLength (se_ext V) (hh_resp h)) (\<lambda>(n, resp).
       (let resp = Content resp; h = h\<lparr>hh_resp := resp\<rparr>
        in if content resp = Content_null then return_header V (h\<lparr>hh_state := SEND_DONE\<rparr>)
           else if n > 2 ^ 20 then return_header V (h\<lparr>hh_state := SEND_BODY\<rparr>)
           else Option.bind (HttpResponse_Dump (se_ext V) (se_date V) True False resp) (\<lambda>(s, resp').
                  Option.bind (append_content s (content_bytes resp' (content resp)) n) (\<lambda>s.
                    return_header V (h\<lparr>hh_header := s, hh_resp := resp', hh_state := SEND_DONE\<rparr>)))))"

definition send_header_state ::
    "'j server_env \<Rightarrow> 'j HttpHandler \<Rightarrow> FileCache \<Rightarrow> (string \<times> 'j HttpHandler \<times> FileCache) option" where
  "send_header_state V h c =
     (let with_cache = map_option (\<lambda>(s, h). (s, h, c))
      in if req_method (hh_req h) = HTTP_HEAD then with_cache (send_head_only V c h)
         else case hh_fc h of
                Some i \<Rightarrow>
                  Option.bind (cache_objs c i) (\<lambda>fc.
                    case GetRange (hh_req h) of
                      Some (from, to) \<Rightarrow>
                        Option.bind from (\<lambda>from. Option.bind to (\<lambda>to. with_cache (send_range V fc from to h)))
                    | None \<Rightarrow> send_file V i fc h c)
              | None \<Rightarrow> with_cache (send_api V h))"

definition send_body_state ::
    "'j server_env \<Rightarrow> 'j HttpHandler \<Rightarrow> (string \<times> 'j HttpHandler) option" where
  "send_body_state V h =
     (if hh_body h = [] then
        (let resp = Content (hh_resp h)
         in Option.bind (ContentLength (se_ext V) resp) (\<lambda>(n, resp).
              map_option (\<lambda>s. (s, h\<lparr>hh_resp := resp, hh_state := SEND_DONE\<rparr>))
                (append_content [] (content_bytes resp (content resp)) n)))
      else Some (hh_body h, h\<lparr>hh_state := SEND_DONE\<rparr>))"

text \<open>The end: a file above 16 megabytes leaves the cache, and the buffers are cleared.\<close>

definition send_done_state :: "'j HttpHandler \<Rightarrow> FileCache \<Rightarrow> 'j HttpHandler \<times> FileCache" where
  "send_done_state h c =
     (h\<lparr>hh_fc := None, hh_header := [], hh_body := []\<rparr>,
      case hh_fc h of
        Some i \<Rightarrow> (case cache_objs c i of
                    Some fc \<Rightarrow> if fc_filebuf_len fc > 2 ^ 24 then snd (Close_object i c) else c
                  | None \<Rightarrow> c)
      | None \<Rightarrow> c)"

text \<open>
  \<open>GetSendData\<close> over HTTP/1: what is sent (empty for the result 0), \<open>complete\<close> is the answer of the
  parser.
\<close>

definition GetSendData ::
    "'j server_env \<Rightarrow> bool \<Rightarrow> 'j HttpHandler \<Rightarrow> FileCache \<Rightarrow> (string \<times> 'j HttpHandler \<times> FileCache) option" where
  "GetSendData V complete h c =
     (case hh_state h of
        HANDLE_CONTINUE \<Rightarrow> Some ([], h, c)
      | WANT_RECV \<Rightarrow> if complete then send_header_state V (h\<lparr>hh_state := SEND_HEADER\<rparr>) c else Some ([], h, c)
      | HANDLE_END \<Rightarrow> send_header_state V (h\<lparr>hh_state := SEND_HEADER\<rparr>) c
      | WANT_SEND \<Rightarrow> send_header_state V (h\<lparr>hh_state := SEND_HEADER\<rparr>) c
      | SEND_HEADER \<Rightarrow> send_header_state V h c
      | SEND_BODY \<Rightarrow> map_option (\<lambda>(s, h). (s, h, c)) (send_body_state V h)
      | SEND_DONE \<Rightarrow> (case send_done_state h c of (h, c) \<Rightarrow> Some ([], h, c))
      | HANDLE_BEGIN \<Rightarrow> Some ([], h, c))"

section \<open>The loop of the server\<close>

lemma return_header_state: "return_header V h = Some (s, h') \<Longrightarrow> hh_state h' = hh_state h"
  by (auto simp: return_header_def split: if_splits)

lemma return_nobody_state: "return_nobody V h = Some (s, h') \<Longrightarrow> hh_state h' = SEND_DONE"
  unfolding return_nobody_def by (drule return_header_state) simp

lemma send_range_state: "send_range V fc from to h = Some (s, h') \<Longrightarrow> hh_state h' \<in> {SEND_BODY, SEND_DONE}"
  by (auto simp: send_range_def Let_def split: option.splits Option.bind_splits if_splits
      dest!: return_nobody_state return_header_state)

lemma send_api_state: "send_api V h = Some (s, h') \<Longrightarrow> hh_state h' \<in> {SEND_BODY, SEND_DONE}"
  by (auto simp: send_api_def Let_def split: Option.bind_splits if_splits dest!: return_header_state)

lemma send_file_state: "send_file V i fc h c = Some (s, h', c') \<Longrightarrow> hh_state h' = SEND_DONE"
  by (auto simp: send_file_def split: Option.bind_splits)

lemma send_header_state_next:
  "send_header_state V h c = Some (s, h', c') \<Longrightarrow> hh_state h' \<in> {SEND_BODY, SEND_DONE}"
  by (auto simp: send_header_state_def Let_def send_head_only_def split: option.splits Option.bind_splits if_splits
      dest!: return_nobody_state send_range_state send_file_state send_api_state)

fun send_rank :: "handler_state \<Rightarrow> nat" where
  "send_rank SEND_DONE = 0"
| "send_rank SEND_BODY = 1"
| "send_rank _ = 2"

lemma send_rank_decreases:
  assumes "GetSendData V complete h c = Some (s, h', c')" "s \<noteq> []"
  shows "send_rank (hh_state h') < send_rank (hh_state h)"
proof (cases "hh_state h")
  case SEND_BODY
  then show ?thesis
    using assms by (auto simp: GetSendData_def send_body_state_def Let_def split: if_splits Option.bind_splits)
qed (use assms in \<open>auto simp: GetSendData_def split: if_splits prod.splits dest!: send_header_state_next\<close>)

text \<open>\<open>while (GetSendData(&data, &len)) hio_write(io, data, len);\<close>\<close>

function send_loop ::
    "'j server_env \<Rightarrow> bool \<Rightarrow> 'j HttpHandler \<Rightarrow> FileCache \<Rightarrow> (string \<times> 'j HttpHandler \<times> FileCache) option" where
  "send_loop V complete h c =
     (case GetSendData V complete h c of
        None \<Rightarrow> None
      | Some (s, h', c') \<Rightarrow>
          if s = [] then Some ([], h', c')
          else map_option (\<lambda>(r, hc). (s @ r, hc)) (send_loop V complete h' c'))"
  by pat_completeness auto
termination
  by (relation "measure (\<lambda>(V, complete, h, c). send_rank (hh_state h))") (auto dest: send_rank_decreases)

declare send_loop.simps [simp del]

text \<open>The headers \<open>on_recv\<close> sets in advance, and its part for a complete request without an upgrade:
  what is written, whether the connection is closed, and the state afterwards.\<close>

definition connection_headers :: "string \<Rightarrow> 'j HttpHandler \<Rightarrow> 'j HttpHandler" where
  "connection_headers server h =
     h\<lparr>hh_resp := set_header ''Connection'' (if IsKeepAlive (hh_req h) then ''keep-alive'' else ''close'')
         (set_header ''Server'' server (hh_resp h))\<rparr>"

definition serve_request ::
    "'j server_env \<Rightarrow> ('j, 'a) service_conf \<Rightarrow> (string \<Rightarrow> url_fields) \<Rightarrow> bool \<Rightarrow> string \<Rightarrow> 'j HttpHandler \<Rightarrow> FileCache
       \<Rightarrow> (string \<times> bool \<times> 'a option \<times> 'j HttpHandler \<times> FileCache) option" where
  "serve_request V sc parse_url ssl server h c =
     Option.bind (HandleHttpRequest V sc parse_url ssl (connection_headers server h) c) (\<lambda>(code, async, h', c).
       map_option (\<lambda>(out, h', c). (out, code \<noteq> 0 \<and> \<not> IsKeepAlive (hh_req h), async, h', c)) (send_loop V True h' c))"

section \<open>A small server\<close>

definition demo_env :: "unit server_env" where
  "demo_env = \<lparr>se_ext = \<lparr>ext_readall = \<lambda>_. None, ext_json_clear = (), ext_json_empty = \<lambda>_. True, ext_json_dump = \<lambda>_. [],
       ext_json_parse = \<lambda>_. (0, ())\<rparr>, se_formats = demo_formats, se_fs = demo_fs, se_now = 100, se_date = ''today''\<rparr>"

definition demo_conf :: "(unit, unit) service_conf" where
  "demo_conf = \<lparr>sc_preprocessor = None, sc_postprocessor = None, sc_api = \<lparr>svc_base_url = [], svc_api_handlers = []\<rparr>,
     sc_document_root = ''/w'', sc_home_page = ''index.html'', sc_error_page = [], sc_index_of = []\<rparr>"

definition demo_request :: "string \<Rightarrow> http_headers \<Rightarrow> unit HttpRequest" where
  "demo_request u hs = \<lparr>http_major = 1, http_minor = 1, headers = hs, body = [], content = Content_null, content_length = 0,
     content_type = CONTENT_TYPE_NONE, json = (), form = [], kv = [], req_method = 1, url = u, scheme = [],
     host = ''h'', port = 0, path = [], query_params = []\<rparr>"

definition demo_handler :: "string \<Rightarrow> http_headers \<Rightarrow> string \<Rightarrow> unit HttpHandler" where
  "demo_handler u hs b = \<lparr>hh_state = HANDLE_END, hh_req = demo_request u hs,
     hh_resp = \<lparr>http_major = 1, http_minor = 1, headers = [(''Server'', ''s'')], body = b, content = Content_null,
       content_length = 0, content_type = CONTENT_TYPE_NONE, json = (), form = [], kv = [], status_code = 200\<rparr>,
     hh_fc = None, hh_header = [], hh_body = []\<rparr>"

text \<open>The url \<open>http://h/\<dots>\<close>, taken apart.\<close>

definition demo_url :: "string \<Rightarrow> url_fields" where
  "demo_url u = \<lparr>uf_schema = (0, 4), uf_host = Some (7, 1), uf_port = 0, uf_path = Some 8, uf_query = None\<rparr>"

definition demo_parsed :: "string \<Rightarrow> unit HttpRequest" where
  "demo_parsed u = (demo_request (''http://h'' @ u) [])\<lparr>scheme := ''http'', port := 80, path := u\<rparr>"

lemma demo_parse:
  assumes "u = ''/a.txt'' \<or> u = ''/a/../b''"
  shows "ParseUrl demo_url (Host ((hh_req (demo_handler u [] b))\<lparr>scheme := (if False then ''https'' else ''http'')\<rparr>)) = Some (demo_parsed u)"
proof -
  have "ParseUrl demo_url (Host ((demo_request u [])\<lparr>scheme := ''http''\<rparr>)) = Some (demo_parsed u)"
    using assms by (elim disjE; hypsubst) code_simp+
  then show ?thesis by (simp add: demo_handler_def)
qed

section \<open>Every response is sent, and the loop stops\<close>

text \<open>The head of a response whose length is known.\<close>

lemma dump_head:
  assumes "http_major m < 10" "http_minor m < 10" "status_code m < 1000"
    and clean: "\<forall>h \<in> set (headers m). clean_header h" and date: "CR \<notin> set date"
    and n: "0 < n" "n < 2 ^ 31"
    and len: "hget ''Content-Length'' (headers m) = Some (show_int n) \<or>
      (hget ''Content-Length'' (headers m) = None \<and> content_length m = n)"
  obtains t hs where
    "HttpResponse_Dump E date True False m =
       Some (status_text m @ CRLF @ concat (map header_line hs) @ CRLF,
             m\<lparr>content_type := t, content_length := n, headers := hs\<rparr>)"
    "\<forall>h \<in> set hs. clean_header h" "hget ''Content-Length'' hs = Some (show_int n)" "hget ''Date'' hs = Some date"
    "\<And>k. strcasekey k \<notin> {''date'', ''content-type'', ''content-length''} \<Longrightarrow> hget k hs = hget k (headers m)"
proof -
  note S = status_line_text[OF assms(1-3)]
  let ?m1 = "m\<lparr>headers := hput ''Date'' date (headers m)\<rparr>"
  have "\<forall>h \<in> set (headers ?m1). clean_header h"
    using clean_hput[OF clean, of "''Date''" date] date by (simp add: clean_header_def)
  then obtain t h where
    f: "FillContentType E ?m1 = ?m1\<lparr>content_type := t, headers := h\<rparr>" "\<forall>x \<in> set h. clean_header x"
      "\<And>k. strcasekey k \<noteq> ''content-type'' \<Longrightarrow> hget k h = hget k (headers ?m1)"
    by (rule FillContentType_spec[where E = E]) (rule that)
  have cl: "hget ''Content-Length'' h = hget ''Content-Length'' (headers m)"
    and dt: "hget ''Date'' h = Some date" using f(3) by (simp_all add: hget_hput header_keys)
  have at: "atoi (show_int n) = n" using n by (intro atoi_show_int) simp_all
  define hs where "hs = (if hget ''Content-Length'' (headers m) = None then hput ''Content-Length'' (show_int n) h else h)"
  have L: "FillContentLength E (FillContentType E ?m1) = Some (m\<lparr>content_type := t, content_length := n, headers := hs\<rparr>)"
    using len n(1) by (auto simp: f(1) cl FillContentLength_def Let_def hs_def at)
  have hs: "\<forall>x \<in> set hs. clean_header x"
    using f(2) clean_hput[OF f(2), of "''Content-Length''" "show_int n"] show_int_clean
    by (simp add: clean_header_def hs_def)
  have "c_str (status_line m) \<noteq> []" "hd (c_str (status_line m)) \<noteq> CHR '':''"
    using S(3)[of CRLF] by (simp_all add: S(1))
  note P = put_headers[OF this, of hs]
  have "HttpResponse_Dump E date True False m =
       Some (status_text m @ CRLF @ concat (map header_line hs) @ CRLF,
             m\<lparr>content_type := t, content_length := n, headers := hs\<rparr>)"
    using L P by (simp add: HttpResponse_Dump_def Dump_from_def DumpHeaders_def S(1))
  moreover have "hget ''Content-Length'' hs = Some (show_int n)" "hget ''Date'' hs = Some date"
    using len dt by (auto simp: hs_def cl hget_hput header_keys)
  moreover have "hget k hs = hget k (headers m)" if "strcasekey k \<notin> {''date'', ''content-type'', ''content-length''}" for k
    using that f(3)[of k] by (simp add: hs_def hget_hput header_keys)
  ultimately show thesis using that hs by blast
qed

lemma read_response:
  assumes "http_major m < 10" "http_minor m < 10" "status_code m < 1000" "\<forall>h \<in> set hs. clean_header h"
  obtains ls where "read_head [] (status_text m @ CRLF @ concat (map header_line hs) @ CRLF @ s) = (status_text m # ls, s)"
    "map read_field ls = hs"
proof -
  have "read_head [] (status_text m @ CRLF @ concat (map header_line hs) @ CRLF @ s) =
      (status_text m # map (\<lambda>h. fst h @ '': '' @ snd h) hs, s)"
    using read_head_line[OF status_line_text(2)[OF assms(1-3)], of "[]" "concat (map header_line hs) @ CRLF @ s"]
      read_headers[OF assms(4), of s] by (simp add: status_text_def)
  then show thesis using that map_read_field[OF assms(4)] by blast
qed

lemma send_loop_done:
  "hh_state h = SEND_DONE \<Longrightarrow> send_loop V complete h c = (case send_done_state h c of (h, c) \<Rightarrow> Some ([], h, c))"
  by (simp add: send_loop.simps[of V complete h c] GetSendData_def split: prod.split)

lemma send_loop_step:
  "GetSendData V complete h c = Some (s, h', c') \<Longrightarrow> s \<noteq> [] \<Longrightarrow>
     send_loop V complete h c = map_option (\<lambda>(r, hc). (s @ r, hc)) (send_loop V complete h' c')"
  by (simp add: send_loop.simps[of V complete h c])

text \<open>A response that can be sent: the fields fit the status line, the headers are lines, no length is set.\<close>

definition fresh_response :: "'j HttpResponse \<Rightarrow> bool" where
  "fresh_response m \<longleftrightarrow>
     http_major m < 10 \<and> http_minor m < 10 \<and> status_code m < 1000 \<and> (\<forall>h \<in> set (headers m). clean_header h) \<and>
     hget ''Content-Length'' (headers m) = None \<and> content_length m = 0 \<and> content m = Content_null \<and>
     body m \<noteq> [] \<and> length (body m) < 2 ^ 31"

lemma fresh_response_length:
  assumes "fresh_response m"
  shows "ContentLength E m = Some (int (length (body m)), m\<lparr>content_length := int (length (body m)),
    headers := hput ''Content-Length'' (show_int (int (length (body m)))) (headers m)\<rparr>)"
  using assms by (simp add: fresh_response_def ContentLength_def FillContentLength_def int_of_size_id Let_def)

text \<open>The two pieces of the loop on a response of the application.\<close>

lemma send_first:
  assumes "hh_state h = HANDLE_END" "req_method (hh_req h) \<noteq> HTTP_HEAD" "hh_fc h = None" "hh_header h = []"
    and fr: "fresh_response (hh_resp h)" and date: "CR \<notin> set (se_date V)"
  obtains hd hs resp where
    "hd = status_text (hh_resp h) @ CRLF @ concat (map header_line hs) @ CRLF"
    "\<forall>x \<in> set hs. clean_header x" "hget ''Content-Length'' hs = Some (show_int (int (length (body (hh_resp h)))))"
    "hget ''Date'' hs = Some (se_date V)"
    "\<And>k. strcasekey k \<notin> {''date'', ''content-type'', ''content-length''} \<Longrightarrow> hget k hs = hget k (headers (hh_resp h))"
    "body resp = body (hh_resp h)" "content resp = Content_body" "content_length resp = int (length (body (hh_resp h)))"
    "GetSendData V complete h c =
       (if length (body (hh_resp h)) > 2 ^ 20 then Some (hd, h\<lparr>hh_state := SEND_BODY, hh_header := hd, hh_resp := resp\<rparr>, c)
        else Some (hd @ body (hh_resp h),
               h\<lparr>hh_state := SEND_DONE, hh_header := hd @ body (hh_resp h), hh_resp := resp\<rparr>, c))"
proof -
  let ?m = "hh_resp h" and ?n = "int (length (body (hh_resp h)))"
  let ?m1 = "?m\<lparr>content_length := ?n, headers := hput ''Content-Length'' (show_int ?n) (headers ?m), content := Content_body\<rparr>"
  have F: "http_major ?m < 10" "http_minor ?m < 10" "status_code ?m < 1000" "\<forall>h \<in> set (headers ?m). clean_header h"
    "content ?m = Content_null" "body ?m \<noteq> []" "length (body ?m) < 2 ^ 31"
    using fr by (simp_all add: fresh_response_def)
  have cl: "\<forall>x \<in> set (headers ?m1). clean_header x"
    using clean_hput[OF F(4), of "''Content-Length''" "show_int ?n"] show_int_clean by (simp add: clean_header_def)
  have len: "hget ''Content-Length'' (headers ?m1) = Some (show_int ?n) \<or>
      (hget ''Content-Length'' (headers ?m1) = None \<and> content_length ?m1 = ?n)" by (simp add: hget_hput)
  have F': "http_major ?m1 < 10" "http_minor ?m1 < 10" "status_code ?m1 < 1000" and n: "0 < ?n" "?n < 2 ^ 31"
    using F by simp_all
  have st: "status_text ?m1 = status_text ?m" by (simp add: status_text_def)
  obtain t hs where D: "HttpResponse_Dump (se_ext V) (se_date V) True False ?m1 =
       Some (status_text ?m1 @ CRLF @ concat (map header_line hs) @ CRLF,
             ?m1\<lparr>content_type := t, content_length := ?n, headers := hs\<rparr>)"
    and hs: "\<forall>h \<in> set hs. clean_header h" "hget ''Content-Length'' hs = Some (show_int ?n)"
      "hget ''Date'' hs = Some (se_date V)"
      "\<And>k. strcasekey k \<notin> {''date'', ''content-type'', ''content-length''} \<Longrightarrow> hget k hs = hget k (headers ?m1)"
    by (rule dump_head[where E = "se_ext V", OF F' cl date n len]) (rule that)
  let ?hd = "status_text ?m @ CRLF @ concat (map header_line hs) @ CRLF"
  let ?r = "?m1\<lparr>content_type := t, content_length := ?n, headers := hs\<rparr>"
  have "GetSendData V complete h c =
       (if length (body ?m) > 2 ^ 20 then Some (?hd, h\<lparr>hh_state := SEND_BODY, hh_header := ?hd, hh_resp := ?r\<rparr>, c)
        else Some (?hd @ body ?m, h\<lparr>hh_state := SEND_DONE, hh_header := ?hd @ body ?m, hh_resp := ?r\<rparr>, c))"
    using F(5,6) assms(1-4) D[unfolded st]
    by (simp add: GetSendData_def send_header_state_def send_api_def fresh_response_length[OF fr] Content_def
        return_header_def append_content_def)
  moreover have "hget k hs = hget k (headers ?m)" if "strcasekey k \<notin> {''date'', ''content-type'', ''content-length''}" for k
    using that hs(4)[OF that] by (simp add: hget_hput header_keys)
  ultimately show thesis using hs by (intro that[of ?hd hs ?r]) simp_all
qed

text \<open>
  C18.  Every response reaches the client, once and whole: when a handler has finished with a body in
  memory and the request is not a HEAD and no length was set before, the send loop of the server returns, and what it has written is the status line, the headers
  (with the length of the body) and the body, whether they go out in one piece or, above one megabyte,
  in two.  The machine is then at its end with empty buffers.
\<close>

theorem response_sent:
  assumes "hh_state h = HANDLE_END" "req_method (hh_req h) \<noteq> HTTP_HEAD" "hh_fc h = None" "hh_header h = []" "hh_body h = []"
    and fr: "fresh_response (hh_resp h)" and date: "CR \<notin> set (se_date V)"
  shows "\<exists>txt ls h'. send_loop V complete h c = Some (txt, h', c) \<and>
    read_head [] txt = (status_text (hh_resp h) # ls, body (hh_resp h)) \<and>
    hget ''Content-Length'' (map read_field ls) = Some (show_int (int (length (body (hh_resp h))))) \<and>
    (\<forall>k. strcasekey k \<notin> {''date'', ''content-type'', ''content-length''} \<longrightarrow>
       hget k (map read_field ls) = hget k (headers (hh_resp h))) \<and>
    hh_state h' = SEND_DONE \<and> hh_header h' = [] \<and> hh_body h' = []"
proof -
  from send_first[OF assms(1-4) fr date, of complete c]
  obtain hd hs resp where hd: "hd = status_text (hh_resp h) @ CRLF @ concat (map header_line hs) @ CRLF"
    and hs: "\<forall>x \<in> set hs. clean_header x" "hget ''Content-Length'' hs = Some (show_int (int (length (body (hh_resp h)))))"
      "\<And>k. strcasekey k \<notin> {''date'', ''content-type'', ''content-length''} \<Longrightarrow> hget k hs = hget k (headers (hh_resp h))"
    and resp: "body resp = body (hh_resp h)" "content resp = Content_body" "content_length resp = int (length (body (hh_resp h)))"
    and G: "GetSendData V complete h c =
       (if length (body (hh_resp h)) > 2 ^ 20 then Some (hd, h\<lparr>hh_state := SEND_BODY, hh_header := hd, hh_resp := resp\<rparr>, c)
        else Some (hd @ body (hh_resp h),
               h\<lparr>hh_state := SEND_DONE, hh_header := hd @ body (hh_resp h), hh_resp := resp\<rparr>, c))" by metis
  have b: "body (hh_resp h) \<noteq> []" and hd0: "hd \<noteq> []" using fr hd by (simp_all add: fresh_response_def CRLF_def)
  have R: "\<exists>h'. send_loop V complete h c = Some (hd @ body (hh_resp h), h', c) \<and> hh_state h' = SEND_DONE \<and>
      hh_header h' = [] \<and> hh_body h' = []"
  proof (cases "length (body (hh_resp h)) > 2 ^ 20")
    case True
    let ?h = "h\<lparr>hh_state := SEND_BODY, hh_header := hd, hh_resp := resp\<rparr>"
    have "GetSendData V complete ?h c = Some (body (hh_resp h), ?h\<lparr>hh_state := SEND_DONE\<rparr>, c)"
      using assms(5) resp b by (simp add: GetSendData_def send_body_state_def Content_def ContentLength_def append_content_def)
    then show ?thesis using True G hd0 b assms(3)
      by (simp add: send_loop_step[OF G[simplified True if_True]] send_loop_step send_loop_done send_done_state_def)
  next
    case False
    then show ?thesis using G hd0 assms(3)
      by (simp add: send_loop_step[OF G[simplified False if_False]] send_loop_done send_done_state_def)
  qed
  have "http_major (hh_resp h) < 10" "http_minor (hh_resp h) < 10" "status_code (hh_resp h) < 1000"
    using fr by (simp_all add: fresh_response_def)
  from read_response[OF this hs(1), of "body (hh_resp h)"] obtain ls where
    "read_head [] (hd @ body (hh_resp h)) = (status_text (hh_resp h) # ls, body (hh_resp h))" "map read_field ls = hs"
    using hd by auto
  then show ?thesis using R hs(2,3) by (metis (no_types, lifting))
qed

theorem response_sent_witness:
  "\<exists>txt ls h'. send_loop demo_env True (demo_handler ''/x'' [] ''hello'') FileCache_new = Some (txt, h', FileCache_new) \<and>
     read_head [] txt = (''HTTP/1.1 200 OK'' # ls, ''hello'') \<and> hget ''Content-Length'' (map read_field ls) = Some ''5'' \<and>
     hget ''server'' (map read_field ls) = Some ''s'' \<and> hh_state h' = SEND_DONE"
proof -
  have k: "status_text (hh_resp (demo_handler ''/x'' [] ''hello'')) = ''HTTP/1.1 200 OK''" "show_int 5 = ''5''"
    "hget ''server'' [(''Server'', ''s'')] = Some ''s''" "hget ''Content-Length'' [(''Server'', ''s'')] = None"
    "strcasekey ''server'' = ''server''" by code_simp+
  then have "fresh_response (hh_resp (demo_handler ''/x'' [] ''hello''))"
    by (simp add: fresh_response_def demo_handler_def clean_header_def)
  then show ?thesis
    using response_sent[of "demo_handler ''/x'' [] ''hello''" demo_env True FileCache_new] k
    by (force simp: demo_handler_def demo_request_def demo_env_def HTTP_HEAD_def)
qed

section \<open>Static files\<close>

lemma suffix_type_clean: "CR \<notin> set (http_content_type_str_by_suffix x)"
proof -
  have "CR \<notin> set s" if "(t, s, y) \<in> set HTTP_CONTENT_TYPE_MAP" for t s y
    using that by (auto simp: HTTP_CONTENT_TYPE_MAP_def)
  then have "CR \<notin> set s" if "find P HTTP_CONTENT_TYPE_MAP = Some (t, s, y)" for P t s y
    using that by (metis find_Some_iff nth_mem)
  then show ?thesis by (auto simp: http_content_type_str_by_suffix_def split: option.split dest!: sym[of "Some _"])
qed

lemma c_str_clean: "CR \<notin> set s \<Longrightarrow> CR \<notin> set (c_str s)"
  by (auto simp: c_str_def dest: set_takeWhileD)

lemma tag_keys: "strcasekey ''Etag'' = ''etag''" "strcasekey ''Last-Modified'' = ''last-modified''"
  by code_simp+

lemma attach_file_clean:
  assumes "\<forall>x \<in> set (headers resp). clean_header x" "CR \<notin> set (fc_etag fc)" "CR \<notin> set (fc_last_modified fc)"
    and "fc_content_type fc = None \<or> (\<exists>x. fc_content_type fc = Some (http_content_type_str_by_suffix x))"
  shows "\<forall>x \<in> set (headers (attach_file fc resp)). clean_header x"
    and "strcasekey k \<notin> {''etag'', ''last-modified'', ''content-type''} \<Longrightarrow>
           hget k (headers (attach_file fc resp)) = hget k (headers resp)"
    and "hget ''Etag'' (headers (attach_file fc resp)) = Some (c_str (fc_etag fc))"
proof -
  let ?t = "case fc_content_type fc of Some t \<Rightarrow> if c_str t \<noteq> [] then hput ''Content-Type'' (c_str t) (headers resp) else headers resp
             | None \<Rightarrow> headers resp"
  let ?l = "hput ''Last-Modified'' (c_str (fc_last_modified fc)) ?t"
  have H: "headers (attach_file fc resp) = hput ''Etag'' (c_str (fc_etag fc)) ?l" by (simp add: attach_file_def)
  have t: "\<forall>x \<in> set ?t. clean_header x"
  proof (cases "fc_content_type fc = None")
    case False
    then obtain x where x: "fc_content_type fc = Some (http_content_type_str_by_suffix x)" using assms(4) by auto
    have "clean_header (''Content-Type'', c_str (http_content_type_str_by_suffix x))"
      using c_str_clean[OF suffix_type_clean] by (simp add: clean_header_def)
    from clean_hput[OF assms(1) this] show ?thesis using assms(1) by (simp add: x)
  qed (use assms(1) in simp)
  then have l: "\<forall>x \<in> set ?l. clean_header x"
    using clean_hput[OF t, of "''Last-Modified''"] c_str_clean[OF assms(3)] by (simp add: clean_header_def)
  show "\<forall>x \<in> set (headers (attach_file fc resp)). clean_header x"
    unfolding H using clean_hput[OF l, of "''Etag''"] c_str_clean[OF assms(2)] by (simp add: clean_header_def)
  show "strcasekey k \<notin> {''etag'', ''last-modified'', ''content-type''} \<Longrightarrow>
           hget k (headers (attach_file fc resp)) = hget k (headers resp)"
    unfolding H by (auto simp: hget_hput header_keys tag_keys split: option.split)
  show "hget ''Etag'' (headers (attach_file fc resp)) = Some (c_str (fc_etag fc))" by (simp add: H hget_hput)
qed

text \<open>A request that only the file service answers.\<close>

definition only_files :: "('j, 'a) service_conf \<Rightarrow> bool" where
  "only_files sc \<longleftrightarrow> sc_preprocessor sc = None \<and> sc_postprocessor sc = None \<and> svc_api_handlers (sc_api sc) = [] \<and>
     sc_document_root sc \<noteq> []"

text \<open>A request for a whole file, without conditions.\<close>

definition plain_get :: "('j, 'a) service_conf \<Rightarrow> 'j HttpRequest \<Rightarrow> bool" where
  "plain_get sc r \<longleftrightarrow> req_method r = HTTP_GET \<and> \<not> unsafe_path (Path r) \<and> last (file_path sc (Path r)) \<noteq> CHR ''/'' \<and>
     hget ''if-not-match'' (headers r) = None \<and> hget ''if-modified-since'' (headers r) = None \<and> hget ''Range'' (headers r) = None"

lemma handle_file:
  assumes parse: "ParseUrl parse_url (Host ((hh_req h)\<lparr>scheme := (if ssl then ''https'' else ''http'')\<rparr>)) = Some r"
    and req: "only_files sc" "plain_get sc r"
    and open_file: "Open (se_formats V) (se_fs V) (se_now V) (file_path sc (Path r)) True (Some (Path r)) c = (Some i, c1)"
      "cache_objs c1 i = Some fc"
  shows "HandleHttpRequest V sc parse_url ssl h c =
    Some (200, None, h\<lparr>hh_req := r, hh_state := HANDLE_END, hh_fc := Some i,
                       hh_resp := attach_file fc ((hh_resp h)\<lparr>status_code := 200\<rparr>)\<rparr>, c1)"
proof -
  have M: "req_method r = HTTP_GET" "req_method r \<noteq> HTTP_HEAD" using req(2) by (simp_all add: plain_get_def HTTP_GET_def HTTP_HEAD_def)
  have F: "file_service V sc r fc0 c = (200, Some i, c1)" for fc0
    using req(2) M open_file by (simp add: file_service_def plain_get_def validate_def)
  have "run_services V sc (h\<lparr>hh_req := r, hh_state := HANDLE_BEGIN\<rparr>) c =
      (200, None, h\<lparr>hh_req := r, hh_state := HANDLE_BEGIN, hh_fc := Some i\<rparr>, c1)"
    using req M by (simp add: run_services_def find_api_def only_files_def plain_get_def F)
  moreover have "finish_request V sc 200 (h\<lparr>hh_req := r, hh_state := HANDLE_BEGIN, hh_fc := Some i\<rparr>) c1 =
      (h\<lparr>hh_req := r, hh_state := HANDLE_END, hh_fc := Some i,
         hh_resp := attach_file fc ((hh_resp h)\<lparr>status_code := 200\<rparr>)\<rparr>, c1)"
    using req open_file(2)
    by (simp add: finish_request_def error_page_def set_status_def attach_def run_postprocessor_def only_files_def)
  ultimately show ?thesis using parse req(1) by (simp add: HandleHttpRequest_def only_files_def)
qed

text \<open>
  C19.  A static file reaches the client as it is on the disk: for a plain \<open>GET\<close>, by a service
  without handlers and processors, of a non-empty regular file of at most one gigabyte that is not yet in the cache, the request is answered 200, the head that is made for it carries the
  length of the file and its entity tag, and when that head has at most 1024 bytes the loop of the server
  writes exactly the head and the bytes of the file and leaves a well-formed cache, which keeps the file
  if it has at most 16 megabytes.
\<close>

theorem static_file_sent:
  assumes "ParseUrl parse_url (Host ((hh_req h)\<lparr>scheme := (if ssl then ''https'' else ''http'')\<rparr>)) = Some r"
    and req: "only_files sc" "plain_get sc r"
    and ino: "se_fs V (c_str (file_path sc (Path r))) = Some (Regular t s)" "s \<noteq> []" "length s \<le> FILE_CACHE_MAX_SIZE"
    and cache: "cache_ok c" "Get (file_path sc (Path r)) c = None"
    and resp: "http_major (hh_resp h) < 10" "http_minor (hh_resp h) < 10" "\<forall>x \<in> set (headers (hh_resp h)). clean_header x"
      "hget ''Content-Length'' (headers (hh_resp h)) = None"
    and clean: "CR \<notin> set (se_date V)" "CR \<notin> set (fmt_etag (se_formats V) t (length s))"
      "CR \<notin> set (fmt_gmtime (se_formats V) t)"
  shows "\<exists>h1 c1 hd ls. HandleHttpRequest V sc parse_url ssl h c = Some (200, None, h1, c1) \<and>
    read_head [] hd = (status_text ((hh_resp h)\<lparr>status_code := 200\<rparr>) # ls, []) \<and>
    hget ''Content-Length'' (map read_field ls) = Some (show_int (int (length s))) \<and>
    hget ''Etag'' (map read_field ls) = Some (c_str (fmt_etag (se_formats V) t (length s))) \<and>
    (length hd \<le> HTTP_HEADER_MAX_LENGTH \<longrightarrow>
       (\<exists>h2 c2. send_loop V complete h1 c1 = Some (hd @ s, h2, c2) \<and> hh_state h2 = SEND_DONE \<and> hh_fc h2 = None \<and> cache_ok c2 \<and>
          (Get (file_path sc (Path r)) c2 = None) = (length s > 2 ^ 24)))"
proof -
  let ?p = "file_path sc (Path r)" and ?base = "(hh_resp h)\<lparr>status_code := 200\<rparr>"
  from open_regular[of c "se_fs V" ?p t s "se_now V" "se_formats V" "Some (Path r)", OF cache(1) ino(1,3) disjI1[OF cache(2)]]
  obtain i c1 fc where o: "Open (se_formats V) (se_fs V) (se_now V) ?p True (Some (Path r)) c = (Some i, c1)"
    "cache_objs c1 i = Some fc" "file_bytes fc = Some s" "fc_etag fc = fmt_etag (se_formats V) t (length s)"
    "fc_last_modified fc = fmt_gmtime (se_formats V) t" "obj_ok fc" "cache_ok c1" "fc_filebuf_len fc = length s"
    "fc_content_type fc = None \<or> (\<exists>x. fc_content_type fc = Some (http_content_type_str_by_suffix x))"
    "Get ?p c1 = Some i"
    using cache(2) by metis
  let ?m = "attach_file fc ?base"
  have size: "length s < 2 ^ 31" using ino(3) by (simp add: FILE_CACHE_MAX_SIZE_def)
  note A = attach_file_clean[of ?base fc, OF _ _ _ o(9)]
  have ac: "\<forall>x \<in> set (headers ?m). clean_header x" and et: "hget ''Etag'' (headers ?m) = Some (c_str (fmt_etag (se_formats V) t (length s)))"
    and cl: "hget ''Content-Length'' (headers ?m) = None"
    using A resp(3,4) clean(2,3) by (simp_all add: o(4,5) header_keys)
  have at: "content_length ?m = int (length s)" "http_major ?m = http_major (hh_resp h)" "http_minor ?m = http_minor (hh_resp h)"
    "status_code ?m = 200" using size by (simp_all add: attach_file_def o(8) int_of_size_id)
  have m: "http_major ?m < 10" "http_minor ?m < 10" "status_code ?m < 1000" "0 < int (length s)" "int (length s) < 2 ^ 31"
    "hget ''Content-Length'' (headers ?m) = Some (show_int (int (length s))) \<or>
     (hget ''Content-Length'' (headers ?m) = None \<and> content_length ?m = int (length s))"
    using resp(1,2) ino(2) size at cl by simp_all
  have st: "status_text ?m = status_text ?base" by (simp add: status_text_def at)
  obtain ct hs where D: "HttpResponse_Dump (se_ext V) (se_date V) True False ?m =
       Some (status_text ?m @ CRLF @ concat (map header_line hs) @ CRLF,
             ?m\<lparr>content_type := ct, content_length := int (length s), headers := hs\<rparr>)"
    and hs: "\<forall>h \<in> set hs. clean_header h" "hget ''Content-Length'' hs = Some (show_int (int (length s)))"
      "\<And>k. strcasekey k \<notin> {''date'', ''content-type'', ''content-length''} \<Longrightarrow> hget k hs = hget k (headers ?m)"
    by (rule dump_head[where E = "se_ext V", OF m(1-3) ac clean(1) m(4-6)]) (rule that)
  let ?hd = "status_text ?base @ CRLF @ concat (map header_line hs) @ CRLF"
  obtain ls where ls: "read_head [] ?hd = (status_text ?base # ls, [])" "map read_field ls = hs"
    using read_response[OF m(1-3) hs(1), of "[]"] unfolding st by auto
  let ?h1 = "h\<lparr>hh_req := r, hh_state := HANDLE_END, hh_fc := Some i, hh_resp := ?m\<rparr>"
  have "\<exists>h2 c2. send_loop V complete ?h1 c1 = Some (?hd @ s, h2, c2) \<and> hh_state h2 = SEND_DONE \<and> hh_fc h2 = None \<and> cache_ok c2 \<and>
          (Get ?p c2 = None) = (length s > 2 ^ 24)"
    if short: "length ?hd \<le> HTTP_HEADER_MAX_LENGTH"
  proof -
    obtain fc2 where fc2: "prepend_header ?hd fc = Some fc2" "http_bytes fc2 = Some (?hd @ s)"
      by (rule prepend_bytes[OF o(6,3) short])
    have len: "fc_filebuf_len fc2 = length s" using fc2(1) o(8) by (auto simp: prepend_header_def Let_def split: option.splits if_splits)
    obtain w where win: "fc_httpbuf fc2 = Some w" using fc2(2) by (auto simp: http_bytes_def split: option.splits)
    let ?c2 = "set_obj i fc2 c1" and ?r = "?m\<lparr>content_type := ct, content_length := int (length s), headers := hs\<rparr>"
    let ?h2 = "?h1\<lparr>hh_header := ?hd, hh_resp := ?r, hh_state := SEND_DONE\<rparr>"
    have "GetSendData V complete ?h1 c1 = Some (?hd @ s, ?h2, ?c2)"
      using req(2) D[unfolded st] fc2 win o(2)
      by (simp add: GetSendData_def send_header_state_def send_file_def plain_get_def GetRange_def HTTP_GET_def HTTP_HEAD_def)
    moreover have "send_done_state ?h2 ?c2 = (?h2\<lparr>hh_fc := None, hh_header := [], hh_body := []\<rparr>,
        if length s > 2 ^ 24 then snd (Close_object i ?c2) else ?c2)"
      using len by (simp add: send_done_state_def set_obj_def)
    moreover have ok: "cache_ok ?c2" using prepend_ok[OF o(7,2) fc2(1)] .
    moreover have get: "Get ?p ?c2 = Some i" using o(10) by (simp add: set_obj_def Get_def)
    ultimately show ?thesis
      using close_object_ok[OF ok, of i, unfolded close_object_path[OF ok get]] close_object_path[OF ok get] close_path_get[OF ok] ino(2)
      by (simp add: send_loop_step send_loop_done)
  qed
  moreover have "hget ''Etag'' hs = Some (c_str (fmt_etag (se_formats V) t (length s)))" using hs(3) et by (simp add: tag_keys)
  ultimately show ?thesis
    using handle_file[OF assms(1) req o(1,2)] ls hs(2)
    by (intro exI[of _ ?h1] exI[of _ c1] exI[of _ ?hd] exI[of _ ls]) simp
qed

lemma demo_cache_ok: "cache_ok FileCache_new" "Get p FileCache_new = None"
  by (simp_all add: cache_ok_def FileCache_new_def Get_def)

lemma demo_length: "length ''hello'' \<le> 2 ^ 30"
  by simp

lemma demo_only_files: "only_files demo_conf"
  by (simp add: only_files_def demo_conf_def)

lemma demo_paths: "Path (demo_parsed ''/a.txt'') = ''/a.txt''" "file_path demo_conf ''/a.txt'' = ''/w/a.txt''"
  "Path (demo_parsed ''/a/../b'') = ''/a/../b''" "find_sub ''/../'' ''/a/../b'' = Some 2"
  by code_simp+

lemma demo_plain: "plain_get demo_conf (demo_parsed ''/a.txt'')"
  by code_simp

theorem static_file_sent_witness:
  "\<exists>h1 c1 hd ls. HandleHttpRequest demo_env demo_conf demo_url False (demo_handler ''/a.txt'' [] []) FileCache_new = Some (200, None, h1, c1) \<and>
     read_head [] hd = (''HTTP/1.1 200 OK'' # ls, []) \<and> hget ''Content-Length'' (map read_field ls) = Some ''5'' \<and>
     hget ''Etag'' (map read_field ls) = Some ''5-5'' \<and>
     (1024 < length hd \<or> (\<exists>h2 c2. send_loop demo_env True h1 c1 = Some (hd @ ''hello'', h2, c2) \<and> hh_state h2 = SEND_DONE))"
proof -
  let ?h = "demo_handler ''/a.txt'' [] []"
  have k: "status_text ((hh_resp ?h)\<lparr>status_code := 200\<rparr>) = ''HTTP/1.1 200 OK''" "show_int 5 = ''5''"
    "c_str (fmt_etag demo_formats 5 5) = ''5-5''" "hget ''Content-Length'' [(''Server'', ''s'')] = None"
    "CR \<notin> set (fmt_etag demo_formats 5 5)" "CR \<notin> set (fmt_gmtime demo_formats 5)" by code_simp+
  have f: "se_fs demo_env (c_str (file_path demo_conf (Path (demo_parsed ''/a.txt'')))) = Some (Regular 5 ''hello'')"
    by (simp add: demo_paths demo_env_def demo_fs_def c_str_def)
  have m: "http_major (hh_resp ?h) < 10" "http_minor (hh_resp ?h) < 10" "\<forall>x \<in> set (headers (hh_resp ?h)). clean_header x"
    "hget ''Content-Length'' (headers (hh_resp ?h)) = None" "CR \<notin> set (se_date demo_env)" "se_formats demo_env = demo_formats"
    "length ''hello'' = 5" "''hello'' \<noteq> []" "length ''hello'' \<le> FILE_CACHE_MAX_SIZE"
    using k(4) by (simp_all add: demo_handler_def demo_env_def clean_header_def FILE_CACHE_MAX_SIZE_def)
  note s = static_file_sent[OF demo_parse[OF disjI1[OF refl], of "[]"] demo_only_files demo_plain f m(8,9) demo_cache_ok m(1-5),
      unfolded m(6,7), OF k(5,6), of True, unfolded HTTP_HEADER_MAX_LENGTH_def k(1,3) of_nat_numeral k(2)]
  then obtain h1 c1 hd ls where
    o: "HandleHttpRequest demo_env demo_conf demo_url False ?h FileCache_new = Some (200, None, h1, c1)"
      "read_head [] hd = (''HTTP/1.1 200 OK'' # ls, [])" "hget ''Content-Length'' (map read_field ls) = Some ''5''"
      "hget ''Etag'' (map read_field ls) = Some ''5-5''"
    and l: "length hd \<le> 1024 \<longrightarrow>
      (\<exists>h2 c2. send_loop demo_env True h1 c1 = Some (hd @ ''hello'', h2, c2) \<and> hh_state h2 = SEND_DONE)" by metis
  then show ?thesis by (intro exI[of _ h1] exI[of _ c1] exI[of _ hd] exI[of _ ls]) (auto simp: not_less)
qed

section \<open>Paths\<close>

text \<open>A request that a handler of the application does not answer: what the file service does with it.\<close>

lemma handle_get:
  assumes parse: "ParseUrl parse_url (Host ((hh_req h)\<lparr>scheme := (if ssl then ''https'' else ''http'')\<rparr>)) = Some r"
    and sc: "only_files sc" and get: "req_method r = HTTP_GET"
  shows "HandleHttpRequest V sc parse_url ssl h c =
    (let h0 = h\<lparr>hh_req := r, hh_state := HANDLE_BEGIN\<rparr>;
         (code, h1, c1) =
           (if unsafe_path (Path r) then (200, h0\<lparr>hh_resp := (hh_resp h)\<lparr>status_code := 400\<rparr>\<rparr>, c)
            else case file_service V sc r (hh_fc h) c of (code, fc, c) \<Rightarrow> (code, h0\<lparr>hh_fc := fc\<rparr>, c));
         (h2, c2) = error_page V sc (h1\<lparr>hh_resp := set_status code (hh_resp h1)\<rparr>) c1
     in Some (code, None, (attach h2 c2)\<lparr>hh_state := (if code = 0 then HANDLE_CONTINUE else HANDLE_END)\<rparr>, c2))"
proof -
  have "run_services V sc h' c = (if unsafe_path (Path r) then (200, None, h'\<lparr>hh_resp := (hh_resp h')\<lparr>status_code := 400\<rparr>\<rparr>, c)
      else case file_service V sc r (hh_fc h') c of (code, fc, c) \<Rightarrow> (code, None, h'\<lparr>hh_fc := fc\<rparr>, c))"
    if "hh_req h' = r" for h'
    using sc get that by (cases h') (auto simp: run_services_def find_api_def only_files_def split: prod.split)
  then show ?thesis
    using parse sc
    by (auto simp: HandleHttpRequest_def only_files_def finish_request_def run_postprocessor_def Let_def split: prod.splits)
qed

text \<open>
  A request for a path outside of the document root is answered with success: the check of the
  path sets the status 400, but the local status code is still 200 and overwrites it.  No file is opened and
  none is sent, so the client gets an empty page with the status line of a success.
\<close>

theorem unsafe_path_answered_200:
  assumes "ParseUrl parse_url (Host ((hh_req h)\<lparr>scheme := (if ssl then ''https'' else ''http'')\<rparr>)) = Some r"
    and "only_files sc" "req_method r = HTTP_GET" "find_sub ''/../'' (Path r) \<noteq> None" "hh_fc h = None"
  shows "HandleHttpRequest V sc parse_url ssl h c =
    Some (200, None, h\<lparr>hh_req := r, hh_state := HANDLE_END, hh_resp := (hh_resp h)\<lparr>status_code := 200\<rparr>\<rparr>, c)"
  using assms(4,5) by (simp add: handle_get[OF assms(1-3)] unsafe_path_def error_page_def set_status_def attach_def)

theorem unsafe_path_answered_200_witness:
  "HandleHttpRequest demo_env demo_conf demo_url False (demo_handler ''/a/../b'' [] []) FileCache_new =
     Some (200, None, (demo_handler ''/a/../b'' [] [])\<lparr>hh_req := demo_parsed ''/a/../b'', hh_state := HANDLE_END,
       hh_resp := (hh_resp (demo_handler ''/a/../b'' [] []))\<lparr>status_code := 200\<rparr>\<rparr>, FileCache_new)"
proof (rule unsafe_path_answered_200[OF demo_parse[OF disjI2[OF refl]] demo_only_files])
  show "find_sub ''/../'' (Path (demo_parsed ''/a/../b'')) \<noteq> None" by (simp only: demo_paths option.distinct simp_thms)
qed (simp_all add: demo_parsed_def demo_request_def demo_handler_def HTTP_GET_def)

text \<open>No file and no entry of the cache ends in a step up.\<close>

definition no_step_up :: "filesys \<Rightarrow> FileCache \<Rightarrow> bool" where
  "no_step_up fs c \<longleftrightarrow> (\<forall>q t s. fs q = Some (Regular t s) \<longrightarrow> \<not> suffix ''/..'' q) \<and>
     (\<forall>q i. Get q c = Some i \<longrightarrow> \<not> suffix ''/..'' (c_str q))"

lemma open_step_up:
  assumes up: "no_step_up fs c" and opened: "Open F fs now p need_read ctx c = (Some i, c')"
  shows "suffix ''/..'' (c_str p) \<Longrightarrow> False"
proof -
  assume s: "suffix ''/..'' (c_str p)"
  then have "Get (c_str p) c = None" using up by (cases "Get (c_str p) c") (auto simp: no_step_up_def)
  moreover have "last (c_str p) = CHR ''.''" using s by (auto simp: suffix_def)
  moreover have "\<not> st_isreg (stat_of ino)" if "fs (c_str p) = Some ino" for ino
    using up s that by (cases ino) (auto simp: no_step_up_def stat_of_def)
  ultimately show False using opened by (auto simp: Open_def Let_def split: option.splits if_splits)
qed

lemma Path_no_nul: "NUL \<notin> set (Path r)"
  by (auto simp: Path_def c_str_def dest: set_takeWhileD)

lemma last_step: "sublist ''/../'' (p @ ''/'') \<Longrightarrow> sublist ''/../'' p \<or> suffix ''/..'' p"
proof -
  assume "sublist ''/../'' (p @ ''/'')"
  then obtain a b where ab: "p @ ''/'' = a @ ''/../'' @ b" by (auto simp: sublist_def)
  show ?thesis
  proof (cases b rule: rev_cases)
    case Nil
    then have "p @ ''/'' = (a @ ''/..'') @ ''/''" using ab by simp
    then show ?thesis by (simp only: append_same_eq suffixI simp_thms)
  next
    case (snoc b' x)
    then have "p @ ''/'' = (a @ ''/../'' @ b') @ [x]" using ab by simp
    then show ?thesis by (simp only: append1_eq_conv sublist_appendI simp_thms)
  qed
qed

lemma c_str_clean_id: "NUL \<notin> set s \<Longrightarrow> c_str s = s"
  by (simp add: c_str_id no_nul_def)

lemma Open_get:
  assumes "Open F fs now p need_read ctx c = (Some i, c')"
  shows "Get p c' = Some i"
proof (cases "Option.bind (Get (c_str p) c) (\<lambda>i. map_option (Pair i) (cache_objs c i))")
  case None
  then show ?thesis
    using assms open_object_path[of F]
    by (auto simp: Open_def Let_def open_object_def set_obj_def Get_def strmap.get_put_same split: option.splits if_splits prod.splits bool.splits)
next
  case (Some a)
  then show ?thesis
    using assms by (auto simp: Open_def Let_def open_object_def set_obj_def Get_def bind_eq_Some_conv
        split: option.splits if_splits prod.splits bool.splits)
qed

lemma Open_files:
  "cached_files (snd (Open F fs now p need_read ctx c)) = cached_files c \<or>
   (\<exists>n. cached_files (snd (Open F fs now p need_read ctx c)) = omap_put str_lt (c_str p) n (cached_files c))"
proof (cases "Option.bind (Get (c_str p) c) (\<lambda>i. map_option (Pair i) (cache_objs c i))")
  case None
  then show ?thesis by (auto simp: Open_def Let_def open_object_path split: option.split)
next
  case (Some x)
  obtain i fc where x: "x = (i, fc)" by (cases x)
  obtain md nr fc' where "refresh fs now c need_read fc = (md, nr, fc')" by (cases "refresh fs now c need_read fc") auto
  then show ?thesis using Some by (simp add: Open_def Let_def open_object_path set_obj_def x split: option.split)
qed

lemma Open_entries:
  assumes "Open F fs now p need_read ctx c = (r, c')" "Get q c' = Some j"
  shows "c_str q = c_str p \<or> Get q c = Some j"
proof -
  have "cached_files c' = cached_files c \<or> (\<exists>n. cached_files c' = omap_put str_lt (c_str p) n (cached_files c))"
    using Open_files[of F fs now p need_read ctx c] by (simp add: assms(1))
  then show ?thesis
  proof (elim disjE exE)
    fix n
    assume put: "cached_files c' = omap_put str_lt (c_str p) n (cached_files c)"
    have "Get q c' = (if c_str q = c_str p then Some n else Get q c)"
      by (simp only: Get_def put strmap.get_put str_lt_equiv)
    then show ?thesis using assms(2) by auto
  qed (use assms(2) in \<open>simp add: Get_def\<close>)
qed

lemma Open_no_step_up:
  assumes "no_step_up fs c" "Open F fs now p need_read ctx c = (Some i, c')"
  shows "no_step_up fs c'"
proof -
  have "\<not> suffix ''/..'' (c_str q)" if "Get q c' = Some j" for q j
    using Open_entries[OF assms(2) that]
  proof
    assume "c_str q = c_str p"
    then show ?thesis using open_step_up[OF assms] by auto
  qed (use assms(1) in \<open>auto simp: no_step_up_def\<close>)
  then show ?thesis using assms(1) by (simp add: no_step_up_def)
qed

text \<open>
  C20.  The file service stays below the document root: when a \<open>GET\<close>, to a service without
  handlers and processors, is answered 200 with a file, the
  object is the file of the document root extended by the path of the request, the path starts with a slash
  and has no component that steps up; and the invariant on which this rests (nothing in the file system and
  in the cache is called so) is kept.
\<close>

theorem files_confined:
  assumes parse: "ParseUrl parse_url (Host ((hh_req h)\<lparr>scheme := (if ssl then ''https'' else ''http'')\<rparr>)) = Some r"
    and sc: "only_files sc" "req_method r = HTTP_GET" "NUL \<notin> set (sc_document_root sc)"
    and cache: "cache_ok c" "no_step_up (se_fs V) c" "hh_fc h = None"
    and ans: "HandleHttpRequest V sc parse_url ssl h c = Some (200, async, h1, c1)" "hh_fc h1 = Some i"
  shows "(\<exists>fc. cache_objs c1 i = Some fc \<and> fc_filepath fc = c_str (file_path sc (Path r))) \<and>
    hd (Path r) = CHR ''/'' \<and> \<not> sublist ''/../'' (Path r @ ''/'') \<and> no_step_up (se_fs V) c1"
proof -
  have attach: "hh_fc (attach h c) = hh_fc h" for h :: "'a HttpHandler" and c
    by (simp add: attach_def split: option.split)
  have safe: "\<not> unsafe_path (Path r)"
    using ans cache(3) by (auto simp: handle_get[OF parse sc(1,2)] Let_def error_page_def set_status_def attach split: if_splits)
  have "\<exists>fc0. file_service V sc r fc0 c = (200, Some i, c1) \<and> fc0 = None"
    using ans safe cache(3)
    by (auto simp: handle_get[OF parse sc(1,2)] Let_def error_page_def set_status_def attach split: if_splits prod.splits)
  then have opened: "Open (se_formats V) (se_fs V) (se_now V) (file_path sc (Path r)) True (Some (Path r)) c = (Some i, c1)"
    using sc(2) by (auto simp: file_service_def Let_def HTTP_GET_def HTTP_HEAD_def split: if_splits prod.splits option.splits Option.bind_splits)
  have ok: "cache_ok c1" using Open_ok[OF cache(1)] opened by (metis snd_conv)
  note entry = cache_ok_entry[OF ok Open_get[OF opened]]
  have "\<exists>fc. cache_objs c1 i = Some fc \<and> fc_filepath fc = c_str (file_path sc (Path r))"
    using ok entry unfolding cache_ok_def by blast
  moreover have "\<not> suffix ''/..'' (Path r)"
  proof
    assume s: "suffix ''/..'' (Path r)"
    then have "length (Path r) \<noteq> 1" by (auto simp: suffix_def)
    then have "c_str (file_path sc (Path r)) = sc_document_root sc @ Path r"
      using sc(3) Path_no_nul[of r] by (simp add: file_path_def c_str_clean_id)
    then show False using open_step_up[OF cache(2) opened] s by (simp add: suffix_appendI)
  qed
  moreover have "\<not> sublist ''/../'' (Path r)" using safe by (simp add: unsafe_path_def flip: find_sub_sublist)
  ultimately show ?thesis
    using safe last_step[of "Path r"] Open_no_step_up[OF cache(2) opened] by (auto simp: unsafe_path_def)
qed

theorem files_confined_witness:
  "\<exists>h1 c1 i. HandleHttpRequest demo_env demo_conf demo_url False (demo_handler ''/a.txt'' [] []) FileCache_new = Some (200, None, h1, c1) \<and>
     hh_fc h1 = Some i \<and> (\<exists>fc. cache_objs c1 i = Some fc \<and> fc_filepath fc = ''/w/a.txt'') \<and> no_step_up demo_fs c1"
proof -
  let ?h = "demo_handler ''/a.txt'' [] []" and ?p = "file_path demo_conf (Path (demo_parsed ''/a.txt''))"
  have p: "?p = ''/w/a.txt''" "c_str ''/w/a.txt'' = ''/w/a.txt''" "Path (demo_parsed ''/a.txt'') = ''/a.txt''"
    by (simp_all add: demo_paths c_str_def)
  have "demo_fs (c_str ?p) = Some (Regular 5 ''hello'')" by (simp add: demo_paths demo_fs_def c_str_def)
  then obtain i c1 fc where o: "Open demo_formats demo_fs 100 ?p True (Some (Path (demo_parsed ''/a.txt''))) FileCache_new = (Some i, c1)"
    "cache_objs c1 i = Some fc"
    using open_regular[of FileCache_new demo_fs ?p 5 "''hello''" 100 demo_formats "Some (Path (demo_parsed ''/a.txt''))"] demo_cache_ok
    by (metis (no_types) FILE_CACHE_MAX_SIZE_def demo_length)
  have e: "se_formats demo_env = demo_formats" "se_fs demo_env = demo_fs" "se_now demo_env = 100" by (simp_all add: demo_env_def)
  let ?h1 = "?h\<lparr>hh_req := demo_parsed ''/a.txt'', hh_state := HANDLE_END, hh_fc := Some i,
       hh_resp := attach_file fc ((hh_resp ?h)\<lparr>status_code := 200\<rparr>)\<rparr>"
  have H: "HandleHttpRequest demo_env demo_conf demo_url False ?h FileCache_new = Some (200, None, ?h1, c1)"
    using handle_file[OF demo_parse[OF disjI1[OF refl], of "[]"] demo_only_files demo_plain, of demo_env FileCache_new i c1 fc] o
    by (simp only: e)
  have g: "req_method (demo_parsed ''/a.txt'') = HTTP_GET" "NUL \<notin> set (sc_document_root demo_conf)" "hh_fc ?h = None" "hh_fc ?h1 = Some i"
    by (simp_all add: demo_parsed_def demo_request_def HTTP_GET_def demo_conf_def demo_handler_def)
  have "no_step_up demo_fs FileCache_new" by (auto simp: no_step_up_def demo_fs_def demo_cache_ok suffix_def split: if_splits)
  from files_confined[OF demo_parse[OF disjI1[OF refl], of "[]"] demo_only_files g(1,2) demo_cache_ok(1) _ g(3) H g(4)] this
  show ?thesis using H g(4) by (metis e(2) p(1,2))
qed

section \<open>Answers to a range\<close>

lemma size_regular: "st_size (stat_of (Regular t s)) = length s"
  by (simp add: stat_of_def)

lemma readrange_inside:
  assumes "a \<le> b" "b < length s" "length s < 2 ^ 31" "b = 0 \<Longrightarrow> length s = 1"
  shows "readrange (Regular t s) (int a) (int b) = Some (take (b - a + 1) (drop a s), int (b - a + 1))"
proof -
  have w: "word_of_int (int b) = (word_of_nat b :: 64 word)" "word_of_int (int a) = (word_of_nat a :: 64 word)" by simp_all
  have "unat (word_of_nat b :: 64 word) = b" "unat (word_of_nat (length s) :: 64 word) = length s"
    using assms by (simp_all add: unsigned_of_nat take_bit_nat_eq_self)
  then have "\<not> (word_of_nat b :: 64 word) \<ge> word_of_nat (length s)" using assms(2) by (simp add: word_le_nat_alt)
  moreover have "word_of_nat b = (0 :: 64 word) \<Longrightarrow> b = 0" using \<open>unat (word_of_nat b :: 64 word) = b\<close> by (metis unsigned_0)
  ultimately have cmp: "(if (word_of_nat b :: 64 word) = 0 \<or> word_of_nat b \<ge> (word_of_nat (length s) :: 64 word)
      then word_of_nat (length s) - 1 else word_of_nat b) = (word_of_nat b :: 64 word)"
    using assms(4) by auto
  have d: "word_of_nat b - word_of_nat a = (word_of_nat (b - a) :: 64 word)" using assms(1) by (simp add: of_nat_diff)
  have "unat (word_of_nat (Suc (b - a)) :: 64 word) = Suc (b - a)"
    using assms by (simp only: unsigned_of_nat) (simp add: take_bit_nat_eq_self)
  then have n: "unat (word_of_nat b - word_of_nat a + 1 :: 64 word) = Suc (b - a)"
    by (simp only: d of_nat_Suc add.commute[of _ 1])
  show ?thesis
    using assms(1-3) unfolding readrange_def Let_def w size_regular cmp n by (simp add: file_text_def int_of_size_id)
qed

lemma readrange_reversed:
  assumes "0 < b" "b < length s" "b + 1 < a" "a < 2 ^ 63" "length s < 2 ^ 31"
  shows "readrange (Regular t s) (int a) (int b) = None"
proof -
  have w: "word_of_int (int b) = (word_of_nat b :: 64 word)" "word_of_int (int a) = (word_of_nat a :: 64 word)" by simp_all
  have "unat (word_of_nat b :: 64 word) = b" "unat (word_of_nat (length s) :: 64 word) = length s"
    using assms by (simp_all add: unsigned_of_nat take_bit_nat_eq_self)
  then have cmp: "(word_of_nat b :: 64 word) \<noteq> 0" "\<not> (word_of_nat b :: 64 word) \<ge> word_of_nat (length s)"
    using assms by (auto simp: word_le_nat_alt)
  have "word_of_nat b - word_of_nat a + 1 = (word_of_int (int b - int a + 1) :: 64 word)" by simp
  moreover have "unat (word_of_int (int b - int a + 1) :: 64 word) = nat (int b - int a + 1 + 2 ^ 64)"
    using assms by (intro unat_64_negative) simp_all
  ultimately have "unat (word_of_nat b - word_of_nat a + 1 :: 64 word) > 2 ^ 63 - 1"
    using assms by (simp add: zless_nat_eq_int_zless)
  then show ?thesis
    using assms cmp by (simp add: readrange_def Let_def stat_of_def w)
qed

lemma scan_ld_nat:
  assumes "a < 2 ^ 63" "t = [] \<or> \<not> isdigit_c (hd t)"
  shows "scan_ld (show_nat a @ t) = Some (int a, t)"
proof -
  have d: "\<forall>c \<in> set (show_nat a). isdigit_c c" using show_nat_digits by blast
  obtain c q where q: "show_nat a = c # q" by (cases "show_nat a") auto
  then have c: "isdigit_c c" using d by simp
  have tw: "takeWhile isdigit_c (show_nat a @ t) = show_nat a" "dropWhile isdigit_c (show_nat a @ t) = t"
    using assms(2) d by (auto simp: takeWhile_append dropWhile_append3 takeWhile_eq_Nil_iff dropWhile_eq_self_iff)
  have "digits_val acc (s @ t) = digits_val acc s" if "\<forall>c \<in> set s. isdigit_c c" for s acc
    using that assms(2) by (induction s arbitrary: acc) (cases t; auto)+
  then have "digits_val 0 (show_nat a @ t) = a" using d digits_val_show_nat by metis
  then show ?thesis
    using tw assms(1) c digit_not_special[OF c] by (simp add: scan_ld_def q)
qed

lemma show_nat_no_nul: "NUL \<notin> set (show_nat a)"
  using show_nat_digits[of NUL a] by (auto simp: isdigit_c_def less_eq_char_def)

lemma GetRange_text:
  assumes "hget ''Range'' (headers r) = Some (''bytes='' @ show_nat a @ ''-'' @ t)" "a < 2 ^ 63" "NUL \<notin> set t"
  shows "GetRange r = Some (Some (int a), map_option fst (scan_ld t))"
proof -
  have c: "c_str (''bytes='' @ show_nat a @ ''-'' @ t) = ''bytes='' @ show_nat a @ ''-'' @ t"
    using assms(3) show_nat_no_nul by (intro c_str_clean_id) auto
  have s: "scan_ld (show_nat a @ ''-'' @ t) = Some (int a, ''-'' @ t)"
    using assms(2) by (intro scan_ld_nat) (simp_all add: isdigit_c_def less_eq_char_def)
  show ?thesis using assms(1) s c by (simp add: GetRange_def del: show_nat.simps)
qed

text \<open>A handler that is about to answer a request for a range of the file of five bytes.\<close>

definition demo_range :: "string \<Rightarrow> unit HttpHandler" where
  "demo_range v = (demo_handler ''/a.txt'' [(''Range'', v)] [])\<lparr>hh_fc := Some 0\<rparr>"

definition demo_loaded :: FileCache where
  "demo_loaded = FileCache_new\<lparr>cached_files := [(''/w/a.txt'', 0)], cache_objs := [0 \<mapsto> new_file ''/w/a.txt'' (Regular 5 ''hello'') 90],
     cache_next := 1\<rparr>"

lemma demo_range_simps:
  "hh_state (demo_range v) = HANDLE_END" "req_method (hh_req (demo_range v)) = HTTP_GET" "hh_header (demo_range v) = []"
  "hh_fc (demo_range v) = Some 0" "cache_objs demo_loaded 0 = Some (new_file ''/w/a.txt'' (Regular 5 ''hello'') 90)"
  "se_fs demo_env (fc_filepath (new_file ''/w/a.txt'' (Regular 5 ''hello'') 90)) = Some (Regular 5 ''hello'')"
  "hget ''Range'' (headers (hh_req (demo_range v))) = Some v"
  by (simp_all add: demo_range_def demo_handler_def demo_request_def demo_loaded_def new_file_def demo_env_def demo_fs_def HTTP_GET_def
      casemap.irrefl)

text \<open>
  C38.  A part of a file: for a \<open>GET\<close> with a range \<open>a-b\<close> that does not begin behind its end, of a non-empty
  file below two gigabytes, the loop writes a head whose \<open>Content-Length\<close> is the size of the
  range and whose \<open>Content-Range\<close> names it, followed by exactly these bytes.  An end past the file is cut to
  the last byte, and so is the end 0: \<open>bytes=0-0\<close>, which asks for the first byte, gets the whole
  file.  The status line is that of the response as it is, 200 and not 206.
\<close>

theorem range_sent:
  assumes "hh_state h = HANDLE_END" "req_method (hh_req h) = HTTP_GET" "hh_header h = []"
    and obj: "hh_fc h = Some i" "cache_objs c i = Some fc" "se_fs V (fc_filepath fc) = Some (Regular t s)"
    and range: "hget ''Range'' (headers (hh_req h)) = Some (''bytes='' @ show_nat a @ ''-'' @ show_nat b)"
      "e = (if b = 0 \<or> length s \<le> b then length s - 1 else b)" "a \<le> e" "s \<noteq> []" "length s < 2 ^ 31" "b < 2 ^ 63"
    and resp: "http_major (hh_resp h) < 10" "http_minor (hh_resp h) < 10" "status_code (hh_resp h) < 1000"
      "\<forall>x \<in> set (headers (hh_resp h)). clean_header x" "hget ''Content-Length'' (headers (hh_resp h)) = None"
      "CR \<notin> set (se_date V)"
  shows "\<exists>txt ls h' c'. send_loop V complete h c = Some (txt, h', c') \<and>
    read_head [] txt = (status_text (hh_resp h) # ls, take (e - a + 1) (drop a s)) \<and>
    hget ''Content-Length'' (map read_field ls) = Some (show_int (int (e - a + 1))) \<and>
    hget ''Content-Range'' (map read_field ls) =
      Some (''bytes '' @ show_int (int a) @ ''-'' @ show_int (int e) @ ''/'' @ show_int (int (length s))) \<and>
    hh_state h' = SEND_DONE"
proof -
  let ?n = "int (e - a + 1)" and ?str = "take (e - a + 1) (drop a s)"
  have e: "e < length s" "e = 0 \<Longrightarrow> length s = 1" using range(2,4) by (cases s; force split: if_splits)+
  have cut: "(if int b = 0 \<or> int b \<ge> int (length s) then int (length s) - 1 else int b) = int e"
    using range(2,4) by (cases s) auto
  have a: "a < 2 ^ 63" using range(3,5) e(1) by simp
  have get_range: "GetRange (hh_req h) = Some (Some (int a), Some (int b))"
    using GetRange_text[OF range(1)] scan_ld_nat[of b "[]"] show_nat_no_nul[of b] a range(6) by simp
  let ?cr = "''bytes '' @ show_int (int a) @ ''-'' @ show_int (int e) @ ''/'' @ show_int (int (length s))"
  let ?m = "set_header ''Content-Range'' ?cr ((hh_resp h)\<lparr>content_length := ?n\<rparr>)"
  have key: "strcasekey ''Content-Range'' = ''content-range''" by code_simp
  have "clean_header (''Content-Range'', ?cr)" using show_int_clean by (simp add: clean_header_def)
  then have mc: "\<forall>x \<in> set (headers ?m). clean_header x" using clean_hput[OF resp(4)] by (simp add: set_header_def)
  have mh: "http_major ?m < 10" "http_minor ?m < 10" "status_code ?m < 1000" "0 < ?n" "?n < 2 ^ 31"
    "hget ''Content-Length'' (headers ?m) = Some (show_int ?n) \<or> (hget ''Content-Length'' (headers ?m) = None \<and> content_length ?m = ?n)"
    and cr: "hget ''Content-Range'' (headers ?m) = Some ?cr" and st: "status_text ?m = status_text (hh_resp h)"
    using resp(1-3,5) range(3,5) e(1) by (simp_all add: set_header_def hget_hput header_keys key status_text_def)
  obtain ct hs where D: "HttpResponse_Dump (se_ext V) (se_date V) True False ?m =
       Some (status_text ?m @ CRLF @ concat (map header_line hs) @ CRLF,
             ?m\<lparr>content_type := ct, content_length := ?n, headers := hs\<rparr>)"
    and hs: "\<forall>h \<in> set hs. clean_header h" "hget ''Content-Length'' hs = Some (show_int ?n)"
      "\<And>k. strcasekey k \<notin> {''date'', ''content-type'', ''content-length''} \<Longrightarrow> hget k hs = hget k (headers ?m)"
    by (rule dump_head[where E = "se_ext V", OF mh(1-3) mc resp(6) mh(4-6)]) (rule that)
  let ?hd = "status_text (hh_resp h) @ CRLF @ concat (map header_line hs) @ CRLF"
  obtain ls where ls: "read_head [] (?hd @ ?str) = (status_text (hh_resp h) # ls, ?str)" "map read_field ls = hs"
    using read_response[OF mh(1-3) hs(1), of ?str] unfolding st by auto
  have clen: "sint (word_of_int (int e - int a + 1) :: 32 word) = ?n"
  proof -
    have n: "int e - int a + 1 = ?n" using range(3) by simp
    show ?thesis unfolding n using e(1) range(5) by (simp only: signed_of_int) (simp add: signed_take_bit_int_eq_self)
  qed
  have ne: "?str \<noteq> []" using range(3) e(1) by simp
  let ?h1 = "h\<lparr>hh_header := ?hd, hh_body := ?str, hh_state := SEND_BODY,
                hh_resp := ?m\<lparr>content_type := ct, content_length := ?n, headers := hs\<rparr>\<rparr>"
  have "send_range V fc (int a) (int b) (h\<lparr>hh_state := SEND_HEADER\<rparr>) = Some (?hd, ?h1)"
    using clen readrange_inside[OF range(3) e(1) range(5) e(2), of t] D[unfolded st] assms(3) obj(3)
    unfolding send_range_def Let_def obj(3) option.case size_regular cut by (simp add: return_header_def)
  then have G: "GetSendData V complete h c = Some (?hd, ?h1, c)"
    using assms(1,2) obj get_range by (simp add: GetSendData_def send_header_state_def HTTP_GET_def HTTP_HEAD_def)
  have G2: "GetSendData V complete ?h1 c = Some (?str, ?h1\<lparr>hh_state := SEND_DONE\<rparr>, c)"
    using ne by (simp add: GetSendData_def send_body_state_def)
  obtain h' c' where fin: "send_done_state (?h1\<lparr>hh_state := SEND_DONE\<rparr>) c = (h', c')" "hh_state h' = SEND_DONE"
    by (simp add: send_done_state_def)
  have "send_loop V complete h c = Some (?hd @ ?str, h', c')"
    using send_loop_step[OF G] send_loop_step[OF G2 ne] fin by (simp add: send_loop_done CRLF_def)
  then show ?thesis
    using ls hs(2) hs(3)[of "''Content-Range''"] cr fin(2) key
    by (intro exI[of _ "?hd @ ?str"] exI[of _ ls] exI[of _ h'] exI[of _ c']) simp
qed



theorem range_sent_witness:
  "\<exists>txt ls h' c'. send_loop demo_env True (demo_range ''bytes=0-0'') demo_loaded = Some (txt, h', c') \<and>
     read_head [] txt = (''HTTP/1.1 200 OK'' # ls, ''hello'') \<and> hget ''Content-Length'' (map read_field ls) = Some ''5'' \<and>
     hget ''Content-Range'' (map read_field ls) = Some ''bytes 0-4/5''"
proof -
  have k: "status_text (hh_resp (demo_range ''bytes=0-0'')) = ''HTTP/1.1 200 OK''"
    "''bytes='' @ show_nat 0 @ ''-'' @ show_nat 0 = ''bytes=0-0''" "show_int (int (4 - 0 + 1)) = ''5''"
    "''bytes '' @ show_int (int 0) @ ''-'' @ show_int (int 4) @ ''/'' @ show_int (int 5) = ''bytes 0-4/5''"
    "take (4 - 0 + 1) (drop 0 ''hello'') = ''hello''" "hget ''Content-Length'' [(''Server'', ''s'')] = None" by code_simp+
  have m: "http_major (hh_resp (demo_range r)) < 10" "http_minor (hh_resp (demo_range r)) < 10" "status_code (hh_resp (demo_range r)) < 1000"
    "\<forall>x \<in> set (headers (hh_resp (demo_range r))). clean_header x" "hget ''Content-Length'' (headers (hh_resp (demo_range r))) = None"
    "CR \<notin> set (se_date demo_env)" "length ''hello'' = 5"
    "4 = (if (0 :: nat) = 0 \<or> length ''hello'' \<le> 0 then length ''hello'' - 1 else 0)" "(0 :: nat) \<le> 4" "''hello'' \<noteq> []"
    "length ''hello'' < 2 ^ 31" "(0 :: nat) < 2 ^ 63" for r
    using k(6) by (simp_all add: demo_range_def demo_handler_def clean_header_def demo_env_def)
  from range_sent[OF demo_range_simps(1-6), where a = 0 and b = 0 and e = 4 and complete = True,
      OF demo_range_simps(7)[of "''bytes=0-0''", folded k(2)] m(8-12) m(1-6)]
  show ?thesis unfolding k m(7) by blast
qed

text \<open>
  Ranges that stop the server: an open range (\<open>bytes=5-\<close>) and a suffix
  (\<open>bytes=-5\<close>) leave the last offset unset, which is read all the same, and for a range that ends
  more than one byte before it starts the size wraps and the string throws; all of them are correct or
  harmless requests of a client.
\<close>

theorem range_errors:
  assumes "hh_state h = HANDLE_END" "req_method (hh_req h) = HTTP_GET"
    and obj: "hh_fc h = Some i" "cache_objs c i = Some fc" "se_fs V (fc_filepath fc) = Some (Regular t s)"
    and "a < 2 ^ 63" "length s < 2 ^ 31"
    and "hget ''Range'' (headers (hh_req h)) = Some (''bytes='' @ show_nat a @ ''-'') \<or>
      hget ''Range'' (headers (hh_req h)) = Some (''bytes=-'' @ show_nat a) \<or>
      (\<exists>b. hget ''Range'' (headers (hh_req h)) = Some (''bytes='' @ show_nat a @ ''-'' @ show_nat b) \<and>
         0 < b \<and> b < length s \<and> b + 1 < a)"
  shows "send_loop V complete h c = None"
proof -
  have L: "send_loop V complete h c = None" if "GetSendData V complete h c = None"
    using that by (simp add: send_loop.simps[of V complete h c])
  have S: "GetSendData V complete h c = None" if "GetRange (hh_req h) = Some (from, None)" for "from"
    using that assms(1,2) obj by (simp add: GetSendData_def send_header_state_def HTTP_GET_def HTTP_HEAD_def)
  from assms(8) show ?thesis
  proof (elim disjE exE conjE)
    assume "hget ''Range'' (headers (hh_req h)) = Some (''bytes='' @ show_nat a @ ''-'')"
    from GetRange_text[of "hh_req h" a "[]"] this assms(6) show ?thesis by (intro L S[of "Some (int a)"]) (simp add: scan_ld_def)
  next
    assume r: "hget ''Range'' (headers (hh_req h)) = Some (''bytes=-'' @ show_nat a)"
    have c: "c_str (''bytes=-'' @ show_nat a) = ''bytes=-'' @ show_nat a"
      using show_nat_no_nul by (intro c_str_clean_id) auto
    have "\<exists>v. scan_ld (CHR ''-'' # show_nat a) = Some (v, [])"
      using show_nat_digits[of _ a] by (simp add: scan_ld_def isspace_c_def) (auto simp: takeWhile_eq_Nil_iff)
    then obtain v where "scan_ld (CHR ''-'' # show_nat a) = Some (v, [])" by blast
    then have "GetRange (hh_req h) = Some (Some v, None)" using r c by (simp add: GetRange_def)
    then show ?thesis by (intro L S)
  next
    fix b
    assume r: "hget ''Range'' (headers (hh_req h)) = Some (''bytes='' @ show_nat a @ ''-'' @ show_nat b)"
      and b: "0 < b" "b < length s" "b + 1 < a"
    have g: "GetRange (hh_req h) = Some (Some (int a), Some (int b))"
      using GetRange_text[OF r assms(6)] scan_ld_nat[of b "[]"] show_nat_no_nul[of b] b assms(7) by simp
    have "readrange (Regular t s) (int a) (int b) = None" by (rule readrange_reversed[OF b assms(6,7)])
    then have "send_range V fc (int a) (int b) h' = None" for h'
      using obj(3) b by (simp add: send_range_def Let_def stat_of_def)
    then show ?thesis
      using g assms(1,2) obj by (intro L) (simp add: GetSendData_def send_header_state_def HTTP_GET_def HTTP_HEAD_def)
  qed
qed

theorem range_errors_witness:
  "send_loop demo_env True (demo_range ''bytes=3-'') demo_loaded = None \<and>
   send_loop demo_env True (demo_range ''bytes=-3'') demo_loaded = None \<and>
   send_loop demo_env True (demo_range ''bytes=3-1'') demo_loaded = None"
proof (intro conjI)
  have k: "show_nat 3 = ''3''" "show_nat 1 = ''1''" by code_simp+
  have m: "(3 :: nat) < 2 ^ 63" "length ''hello'' < 2 ^ 31" "0 < (1 :: nat) \<and> 1 < length ''hello'' \<and> 1 + 1 < (3 :: nat)" by simp_all
  note R = range_errors[OF demo_range_simps(1,2,4-6) m(1,2), of _ True]
  show "send_loop demo_env True (demo_range ''bytes=3-'') demo_loaded = None"
    by (rule R, rule disjI1) (simp only: demo_range_simps(7) k append.simps)
  show "send_loop demo_env True (demo_range ''bytes=-3'') demo_loaded = None"
    by (rule R, rule disjI2, rule disjI1) (simp only: demo_range_simps(7) k append.simps)
  show "send_loop demo_env True (demo_range ''bytes=3-1'') demo_loaded = None"
    using m(3) by (intro R disjI2 exI[of _ 1]) (simp only: demo_range_simps(7) k append.simps simp_thms)
qed

end
