(* ===== verification/WebSocket.thy ===== *)
theory WebSocket
  imports Prelude
begin

unbundle bit_operations_syntax

text \<open>
  WebSocket frames: \<open>http/websocket_parser.c\<close> (building frames and the incremental parser),
  \<open>http/wsdef.c\<close>, \<open>http/WebSocketParser.cpp\<close> (the callbacks that assemble messages) and the
  send path of \<open>http/WebSocketChannel.h\<close>.  Bytes are \<open>8 word\<close>; sizes keep the width they have
  in the code.
\<close>

type_synonym byte = "8 word"

section \<open>Building frames\<close>

type_synonym websocket_flags = "32 word"

abbreviation WS_OP_MASK :: "32 word" where "WS_OP_MASK \<equiv> 0xF"
abbreviation WS_FIN :: "32 word" where "WS_FIN \<equiv> 0x10"
abbreviation WS_HAS_MASK :: "32 word" where "WS_HAS_MASK \<equiv> 0x20"

datatype ws_opcode =
    WS_OPCODE_CONTINUE
  | WS_OPCODE_TEXT
  | WS_OPCODE_BINARY
  | WS_OPCODE_CLOSE
  | WS_OPCODE_PING
  | WS_OPCODE_PONG

fun opcode_flags :: "ws_opcode \<Rightarrow> websocket_flags" where
  "opcode_flags WS_OPCODE_CONTINUE = 0x0"
| "opcode_flags WS_OPCODE_TEXT = 0x1"
| "opcode_flags WS_OPCODE_BINARY = 0x2"
| "opcode_flags WS_OPCODE_CLOSE = 0x8"
| "opcode_flags WS_OPCODE_PING = 0x9"
| "opcode_flags WS_OPCODE_PONG = 0xA"

text \<open>\<open>websocket_decode\<close>, the XOR with the mask from \<open>mask_offset\<close> on, and the next offset.\<close>

fun decode_loop :: "byte list \<Rightarrow> nat \<Rightarrow> byte list \<Rightarrow> byte list" where
  "decode_loop key k [] = []"
| "decode_loop key k (b # bs) = (b XOR key ! (k mod 4)) # decode_loop key (k + 1) bs"

definition websocket_decode :: "byte list \<Rightarrow> byte list \<Rightarrow> 8 word \<Rightarrow> byte list \<times> 8 word" where
  "websocket_decode src key mask_offset =
     (decode_loop key (unat mask_offset) src,
      word_of_nat ((length src + unat mask_offset) mod 4))"

definition websocket_calc_frame_size :: "websocket_flags \<Rightarrow> 64 word \<Rightarrow> 64 word" where
  "websocket_calc_frame_size flags data_len =
     (let size = data_len + 2;
          size = (if 126 \<le> data_len then if 0xFFFF < data_len then size + 8 else size + 2 else size)
      in if flags AND WS_HAS_MASK \<noteq> 0 then size + 4 else size)"

text \<open>The second byte without its mask bit, and the extended length.\<close>

definition frame_length :: "64 word \<Rightarrow> byte \<times> byte list" where
  "frame_length data_len =
     (if data_len < 126 then (ucast data_len, [])
      else if data_len \<le> 0xFFFF then
        (126, [ucast (drop_bit 8 data_len), ucast (data_len AND 0xFF)])
      else
        (127, [ucast (drop_bit 56 data_len AND 0xFF), ucast (drop_bit 48 data_len AND 0xFF),
               ucast (drop_bit 40 data_len AND 0xFF), ucast (drop_bit 32 data_len AND 0xFF),
               ucast (drop_bit 24 data_len AND 0xFF), ucast (drop_bit 16 data_len AND 0xFF),
               ucast (drop_bit 8 data_len AND 0xFF), ucast (data_len AND 0xFF)]))"

text \<open>
  \<open>frame\<close> is what the buffer held before (without a mask pointer the four bytes it already holds
  are the mask); the result is the bytes written.
\<close>

definition websocket_build_frame ::
    "byte list \<Rightarrow> websocket_flags \<Rightarrow> byte list option \<Rightarrow> byte list \<Rightarrow> byte list" where
  "websocket_build_frame frame flags key data =
     (let data_len = word_of_nat (length data);
          b0 = (if flags AND WS_FIN \<noteq> 0 then 0x80 else 0) OR ucast (flags AND WS_OP_MASK);
          b1 = (if flags AND WS_HAS_MASK \<noteq> 0 then 0x80 else 0);
          (l, ext) = frame_length data_len;
          header = [b0, b1 OR l] @ ext;
          body_offset = length header
      in if flags AND WS_HAS_MASK \<noteq> 0 then
           let kb = (case key of Some m \<Rightarrow> m | None \<Rightarrow> take 4 (drop body_offset frame))
           in header @ kb @ fst (websocket_decode data kb 0)
         else header @ data)"

definition ws_calc_frame_size :: "32 word \<Rightarrow> bool \<Rightarrow> 32 word" where
  "ws_calc_frame_size data_len has_mask =
     (let size = data_len + 2;
          size = (if 126 \<le>s data_len then if 0xFFFF <s data_len then size + 8 else size + 2 else size)
      in if has_mask then size + 4 else size)"

definition ws_build_frame ::
    "byte list \<Rightarrow> byte list \<Rightarrow> byte list \<Rightarrow> bool \<Rightarrow> ws_opcode \<Rightarrow> bool \<Rightarrow> byte list" where
  "ws_build_frame out data key has_mask opcode fin =
     (let flags = opcode_flags opcode;
          flags = (if fin then flags OR WS_FIN else flags);
          flags = (if has_mask then flags OR WS_HAS_MASK else flags)
      in websocket_build_frame out flags (Some key) data)"

section \<open>The incremental parser\<close>

datatype ws_state = ws_start | ws_head | ws_length | ws_mask | ws_body

text \<open>The member \<open>offset\<close>, which is written and never read, is left out.\<close>

record websocket_parser =
  wp_st :: ws_state
  wp_flags :: websocket_flags
  wp_mask :: "byte list"
  wp_mask_offset :: "8 word"
  wp_length :: "64 word"
  wp_require :: "64 word"

definition websocket_parser_init :: websocket_parser where
  "websocket_parser_init =
     \<lparr>wp_st = ws_start, wp_flags = 0, wp_mask = [0, 0, 0, 0], wp_mask_offset = 0, wp_length = 0, wp_require = 0\<rparr>"

definition websocket_parser_decode :: "byte list \<Rightarrow> websocket_parser \<Rightarrow> byte list \<times> websocket_parser" where
  "websocket_parser_decode src p =
     (decode_loop (wp_mask p) (unat (wp_mask_offset p)) src,
      p\<lparr>wp_mask_offset := word_of_nat ((length src + unat (wp_mask_offset p)) mod 4)\<rparr>)"

subsection \<open>The callbacks of \<open>WebSocketParser\<close>\<close>

datatype websocket_parser_state = WS_FRAME_BEGIN | WS_FRAME_HEADER | WS_FRAME_BODY | WS_FRAME_END

text \<open>\<open>ws_calls\<close> are the calls of \<open>onMessage\<close> so far.\<close>

record WebSocketParser =
  ws_parser :: websocket_parser
  ws_state :: websocket_parser_state
  ws_opcode :: "32 word"
  ws_message :: "byte list"
  ws_calls :: "(32 word \<times> byte list) list"

datatype ws_error =
    Int_overflow
  | Length_error
  | Out_of_bounds

definition on_parser :: "(websocket_parser \<Rightarrow> websocket_parser) \<Rightarrow> WebSocketParser \<Rightarrow> WebSocketParser" where
  "on_parser f w = w\<lparr>ws_parser := f (ws_parser w)\<rparr>"

definition MAX_PAYLOAD_LENGTH :: int where "MAX_PAYLOAD_LENGTH = 2 ^ 24"

text \<open>
  \<open>reserve_length\<close> is an \<open>int\<close>: a negative one is compared as a huge \<open>size_t\<close>, and \<open>reserve\<close>
  throws \<open>std::length_error\<close>.
\<close>

definition on_frame_header :: "WebSocketParser \<Rightarrow> ws_error + WebSocketParser" where
  "on_frame_header w =
     (let opcode = wp_flags (ws_parser w) AND WS_OP_MASK;
          w = (if opcode \<noteq> 0 then w\<lparr>ws_opcode := opcode\<rparr> else w);
          len = sint (ucast (wp_length (ws_parser w)) :: 32 word)
      in if len = 2 ^ 31 - 1 then Inl Int_overflow
         else let reserve_length = min (len + 1) MAX_PAYLOAD_LENGTH in
           if reserve_length < 0 then Inl Length_error
           else let w = (if ws_state w = WS_FRAME_BEGIN \<or> ws_state w = WS_FRAME_END
                         then w\<lparr>ws_message := []\<rparr> else w)
                in Inr (w\<lparr>ws_state := WS_FRAME_HEADER\<rparr>))"

definition on_frame_body :: "byte list \<Rightarrow> WebSocketParser \<Rightarrow> WebSocketParser" where
  "on_frame_body at w =
     (let w = w\<lparr>ws_state := WS_FRAME_BODY\<rparr> in
      if wp_flags (ws_parser w) AND WS_HAS_MASK \<noteq> 0 then
        case websocket_parser_decode at (ws_parser w) of
          (dst, p) \<Rightarrow> w\<lparr>ws_parser := p, ws_message := ws_message w @ dst\<rparr>
      else w\<lparr>ws_message := ws_message w @ at\<rparr>)"

definition on_frame_end :: "WebSocketParser \<Rightarrow> WebSocketParser" where
  "on_frame_end w =
     (let w = w\<lparr>ws_state := WS_FRAME_END\<rparr> in
      if wp_flags (ws_parser w) AND WS_FIN \<noteq> 0
      then w\<lparr>ws_calls := ws_calls w @ [(ws_opcode w, ws_message w)]\<rparr> else w)"

subsection \<open>\<open>websocket_parser_execute\<close>\<close>

text \<open>What the states \<open>s_length\<close> and \<open>s_mask\<close> do once they have all their bytes.\<close>

definition enter_body :: "WebSocketParser \<Rightarrow> ws_error + WebSocketParser" where
  "enter_body w =
     (if wp_length (ws_parser w) \<noteq> 0 then
        on_frame_header (on_parser (\<lambda>p. p\<lparr>wp_st := ws_body, wp_require := wp_length p\<rparr>) w)
      else map_sum id on_frame_end
             (on_frame_header (on_parser (\<lambda>p. p\<lparr>wp_st := ws_start\<rparr>) w)))"

definition enter_mask :: "WebSocketParser \<Rightarrow> ws_error + WebSocketParser" where
  "enter_mask w =
     (if wp_flags (ws_parser w) AND WS_HAS_MASK \<noteq> 0
      then Inr (on_parser (\<lambda>p. p\<lparr>wp_st := ws_mask, wp_require := 4\<rparr>) w)
      else enter_body w)"

text \<open>The \<open>while\<close> loops: the bytes left and the parser.\<close>

fun length_loop :: "byte list \<Rightarrow> websocket_parser \<Rightarrow> byte list \<times> websocket_parser" where
  "length_loop [] p = ([], p)"
| "length_loop (c # cs) p =
     (if wp_require p = 0 then (c # cs, p)
      else length_loop cs (p\<lparr>wp_length := push_bit 8 (wp_length p) OR ucast c,
                             wp_require := wp_require p - 1\<rparr>))"

fun mask_loop :: "byte list \<Rightarrow> websocket_parser \<Rightarrow> byte list \<times> websocket_parser" where
  "mask_loop [] p = ([], p)"
| "mask_loop (c # cs) p =
     (if wp_require p = 0 then (c # cs, p)
      else mask_loop cs (p\<lparr>wp_mask := (wp_mask p)[unat (4 - wp_require p) := c],
                           wp_require := wp_require p - 1\<rparr>))"

text \<open>
  One round of the loop at the non-empty bytes \<open>c # cs\<close> that start at address \<open>addr\<close>: the bytes
  left.  \<open>p + parser->require <= end\<close> compares addresses, so a huge \<open>require\<close> wraps around.
\<close>

definition ws_step ::
    "64 word \<Rightarrow> byte \<Rightarrow> byte list \<Rightarrow> WebSocketParser \<Rightarrow> ws_error + byte list \<times> WebSocketParser" where
  "ws_step addr c cs w =
     (let p = ws_parser w; data = c # cs in
      case wp_st p of
        ws_start \<Rightarrow>
          (let flags = ucast (c AND 0xF);
               flags = (if c AND 0x80 \<noteq> 0 then flags OR WS_FIN else flags)
           in Inr (cs, on_parser (\<lambda>p. p\<lparr>wp_st := ws_head, wp_flags := flags, wp_length := 0,
                                        wp_mask_offset := 0\<rparr>) w))
      | ws_head \<Rightarrow>
          (let p = p\<lparr>wp_length := ucast c AND 0x7F\<rparr>;
               p = (if c AND 0x80 \<noteq> 0 then p\<lparr>wp_flags := wp_flags p OR WS_HAS_MASK\<rparr> else p);
               w = w\<lparr>ws_parser := p\<rparr>
           in if 126 \<le> wp_length p then
                Inr (cs, w\<lparr>ws_parser := p\<lparr>wp_require := if wp_length p = 127 then 8 else 2,
                                          wp_length := 0, wp_st := ws_length\<rparr>\<rparr>)
              else map_sum id (Pair cs) (enter_mask w))
      | ws_length \<Rightarrow>
          (case length_loop data p of
             (rest, p) \<Rightarrow>
               if wp_require p = 0 then map_sum id (Pair rest) (enter_mask (w\<lparr>ws_parser := p\<rparr>))
               else Inr (rest, w\<lparr>ws_parser := p\<rparr>))
      | ws_mask \<Rightarrow>
          (case mask_loop data p of
             (rest, p) \<Rightarrow>
               if wp_require p = 0 then map_sum id (Pair rest) (enter_body (w\<lparr>ws_parser := p\<rparr>))
               else Inr (rest, w\<lparr>ws_parser := p\<rparr>))
      | ws_body \<Rightarrow>
          if wp_require p = 0 then
            Inr (cs, on_frame_end (on_parser (\<lambda>p. p\<lparr>wp_st := ws_start\<rparr>) w))
          else if addr + wp_require p \<le> addr + word_of_nat (length data) then
            if length data < unat (wp_require p) then Inl Out_of_bounds
            else Inr (drop (unat (wp_require p)) data,
                   on_frame_end (on_parser (\<lambda>p. p\<lparr>wp_require := 0, wp_st := ws_start\<rparr>)
                     (on_frame_body (take (unat (wp_require p)) data) w)))
          else
            Inr ([], on_parser (\<lambda>p. p\<lparr>wp_require := wp_require p - word_of_nat (length data)\<rparr>)
                   (on_frame_body data w)))"

fun and_then :: "'e + 'a \<Rightarrow> ('a \<Rightarrow> 'e + 'b) \<Rightarrow> 'e + 'b" where
  "and_then (Inl e) f = Inl e"
| "and_then (Inr a) f = f a"

lemma and_then_Inr [simp]: "and_then r Inr = r"
  by (cases r) simp_all

lemma and_then_assoc: "and_then (and_then r f) g = and_then r (\<lambda>a. and_then (f a) g)"
  by (cases r) simp_all

lemma and_then_map: "and_then (map_sum id h r) f = and_then r (\<lambda>a. f (h a))"
  by (cases r) simp_all

lemma and_then_eq_Inr: "and_then r f = Inr b \<longleftrightarrow> (\<exists>a. r = Inr a \<and> f a = Inr b)"
  by (cases r) simp_all

lemma on_frame_header_parser: "on_frame_header w = Inr w' \<Longrightarrow> ws_parser w' = ws_parser w"
  by (auto simp: on_frame_header_def Let_def split: if_splits)

lemma on_frame_end_parser [simp]: "ws_parser (on_frame_end w) = ws_parser w"
  by (simp add: on_frame_end_def Let_def)

lemma on_parser_simps [simp]:
  "ws_parser (on_parser f w) = f (ws_parser w)" "ws_calls (on_parser f w) = ws_calls w"
  "ws_state (on_parser f w) = ws_state w" "ws_message (on_parser f w) = ws_message w"
  "ws_opcode (on_parser f w) = ws_opcode w"
  by (simp_all add: on_parser_def)

definition stalled :: "WebSocketParser \<Rightarrow> bool" where
  "stalled w \<longleftrightarrow> wp_st (ws_parser w) \<in> {ws_length, ws_mask} \<and> wp_require (ws_parser w) = 0"

lemma enter_body_moves: "enter_body w = Inr w' \<Longrightarrow> \<not> stalled w'"
  by (auto simp: enter_body_def stalled_def map_sum_def split: if_splits sum.splits dest!: on_frame_header_parser)

lemma enter_mask_moves: "enter_mask w = Inr w' \<Longrightarrow> \<not> stalled w'"
  by (auto simp: enter_mask_def stalled_def split: if_splits dest!: enter_body_moves)

lemma length_loop_rest:
  "length_loop data p = (rest, p') \<Longrightarrow> (wp_require p = 0 \<and> rest = data) \<or> data = [] \<or> length rest < length data"
proof (induction data p rule: length_loop.induct)
  case (2 c cs p)
  then show ?case by (cases "cs = []") (fastforce split: if_splits)+
qed simp

lemma mask_loop_rest:
  "mask_loop data p = (rest, p') \<Longrightarrow> (wp_require p = 0 \<and> rest = data) \<or> data = [] \<or> length rest < length data"
proof (induction data p rule: mask_loop.induct)
  case (2 c cs p)
  then show ?case by (cases "cs = []") (fastforce split: if_splits)+
qed simp

text \<open>Every round consumes a byte or leaves a state that has nothing to collect.\<close>

lemma ws_step_progress:
  assumes "ws_step addr c cs w = Inr (rest, w')"
  shows "length rest \<le> length cs \<or> (rest = c # cs \<and> stalled w \<and> \<not> stalled w')"
proof (cases "wp_st (ws_parser w)")
  case ws_length
  obtain r p where l: "length_loop (c # cs) (ws_parser w) = (r, p)" by (cases "length_loop (c # cs) (ws_parser w)")
  have "rest = r" "wp_require p = 0 \<longrightarrow> \<not> stalled w'"
    using assms ws_length l by (auto simp: ws_step_def map_sum_def Let_def split: if_splits sum.splits dest!: enter_mask_moves)
  with length_loop_rest[OF l] ws_length l show ?thesis by (auto simp: stalled_def)
next
  case ws_mask
  obtain r p where l: "mask_loop (c # cs) (ws_parser w) = (r, p)" by (cases "mask_loop (c # cs) (ws_parser w)")
  have "rest = r" "wp_require p = 0 \<longrightarrow> \<not> stalled w'"
    using assms ws_mask l by (auto simp: ws_step_def map_sum_def Let_def split: if_splits sum.splits dest!: enter_body_moves)
  with mask_loop_rest[OF l] ws_mask l show ?thesis by (auto simp: stalled_def)
next
  case ws_body
  have "unat (wp_require (ws_parser w)) \<noteq> 0" if "wp_require (ws_parser w) \<noteq> 0"
    using that by (simp add: unat_eq_0)
  with assms ws_body show ?thesis by (auto simp: ws_step_def Let_def split: if_splits)
qed (use assms in \<open>auto simp: ws_step_def Let_def map_sum_def split: if_splits sum.splits\<close>)

function ws_execute :: "64 word \<Rightarrow> byte list \<Rightarrow> WebSocketParser \<Rightarrow> ws_error + WebSocketParser" where
  "ws_execute addr [] w = Inr w"
| "ws_execute addr (c # cs) w =
     (case ws_step addr c cs w of
        Inl e \<Rightarrow> Inl e
      | Inr (rest, w') \<Rightarrow>
          ws_execute (addr + word_of_nat (length (c # cs) - length rest)) rest w')"
  by pat_completeness auto
termination
  by (relation "(\<lambda>(addr, data, w). length data) <*mlex*> measure (\<lambda>(addr, data, w). if stalled w then 1 else 0)")
    (auto simp: mlex_prod_def dest!: ws_step_progress)
text \<open>\<open>FeedRecvData\<close>: every callback returns 0, so all bytes are parsed when no error stops it.\<close>

definition FeedRecvData :: "64 word \<Rightarrow> byte list \<Rightarrow> WebSocketParser \<Rightarrow> ws_error + 32 word \<times> WebSocketParser" where
  "FeedRecvData addr data w =
     map_sum id (Pair (ucast (word_of_nat (length data) :: 64 word))) (ws_execute addr data w)"

definition WebSocketParser_new :: "32 word \<Rightarrow> WebSocketParser" where
  "WebSocketParser_new opcode =
     \<lparr>ws_parser = websocket_parser_init, ws_state = WS_FRAME_BEGIN, ws_opcode = opcode, ws_message = [], ws_calls = []\<rparr>"

text \<open>Reads that arrive one after the other, each at its own address.\<close>

fun feed_reads :: "(64 word \<times> byte list) list \<Rightarrow> WebSocketParser \<Rightarrow> ws_error + WebSocketParser" where
  "feed_reads [] w = Inr w"
| "feed_reads ((addr, data) # reads) w =
     and_then (FeedRecvData addr data w) (\<lambda>(n, w). feed_reads reads w)"

section \<open>The parser byte by byte\<close>

text \<open>
  The reference for the parser: one byte per call, with a limit on the length of a frame that
  keeps the address comparison from wrapping around.
\<close>

definition ws_byte :: "byte \<Rightarrow> WebSocketParser \<Rightarrow> ws_error + WebSocketParser" where
  "ws_byte c w =
     (if wp_st (ws_parser w) = ws_body \<and> 2 ^ 63 \<le> unat (wp_require (ws_parser w)) then Inl Out_of_bounds
      else map_sum id snd (ws_step 0 c [] w))"

fun ws_run :: "byte list \<Rightarrow> WebSocketParser \<Rightarrow> ws_error + WebSocketParser" where
  "ws_run [] w = Inr w"
| "ws_run (c # cs) w = and_then (ws_byte c w) (ws_run cs)"

lemma ws_run_append: "ws_run (xs @ ys) w = and_then (ws_run xs w) (ws_run ys)"
proof (induction xs arbitrary: w)
  case (Cons x xs)
  then have "ws_run (xs @ ys) = (\<lambda>w. and_then (ws_run xs w) (ws_run ys))" by (intro ext)
  then show ?case by (simp add: and_then_assoc)
qed simp

definition ws_wf :: "WebSocketParser \<Rightarrow> bool" where
  "ws_wf w \<longleftrightarrow> (wp_st (ws_parser w) \<in> {ws_length, ws_mask, ws_body} \<longrightarrow> wp_require (ws_parser w) \<noteq> 0)"

lemma enter_body_wf: "enter_body w = Inr w' \<Longrightarrow> ws_wf w'"
  by (auto simp: enter_body_def ws_wf_def map_sum_def split: if_splits sum.splits dest!: on_frame_header_parser)

lemma enter_mask_wf: "enter_mask w = Inr w' \<Longrightarrow> ws_wf w'"
  by (auto simp: enter_mask_def split: if_splits dest!: enter_body_wf) (simp add: ws_wf_def)

lemma ws_run_length:
  assumes "wp_st p = ws_length" "wp_require p \<noteq> 0"
  shows "ws_run data (w\<lparr>ws_parser := p\<rparr>) =
    (case length_loop data p of (rest, p') \<Rightarrow>
       if wp_require p' = 0 then and_then (enter_mask (w\<lparr>ws_parser := p'\<rparr>)) (ws_run rest)
       else Inr (w\<lparr>ws_parser := p'\<rparr>))"
  using assms
proof (induction data arbitrary: p)
  case (Cons c cs)
  let ?p = "p\<lparr>wp_length := push_bit 8 (wp_length p) OR ucast c, wp_require := wp_require p - 1\<rparr>"
  show ?case
  proof (cases "wp_require ?p = 0")
    case True
    then have "length_loop cs ?p = (cs, ?p)" by (cases cs) auto
    with True Cons.prems show ?thesis
      by (simp add: ws_byte_def ws_step_def and_then_map)
  next
    case False
    then show ?thesis using Cons by (simp add: ws_byte_def ws_step_def)
  qed
qed simp

lemma ws_run_mask:
  assumes "wp_st p = ws_mask" "wp_require p \<noteq> 0"
  shows "ws_run data (w\<lparr>ws_parser := p\<rparr>) =
    (case mask_loop data p of (rest, p') \<Rightarrow>
       if wp_require p' = 0 then and_then (enter_body (w\<lparr>ws_parser := p'\<rparr>)) (ws_run rest)
       else Inr (w\<lparr>ws_parser := p'\<rparr>))"
  using assms
proof (induction data arbitrary: p)
  case (Cons c cs)
  let ?p = "p\<lparr>wp_mask := (wp_mask p)[unat (4 - wp_require p) := c], wp_require := wp_require p - 1\<rparr>"
  show ?case
  proof (cases "wp_require ?p = 0")
    case True
    then have "mask_loop cs ?p = (cs, ?p)" by (cases cs) auto
    with True Cons.prems show ?thesis
      by (simp add: ws_byte_def ws_step_def and_then_map)
  next
    case False
    then show ?thesis using Cons by (simp add: ws_byte_def ws_step_def)
  qed
qed simp

lemma decode_loop_append:
  "decode_loop key k (xs @ ys) = decode_loop key k xs @ decode_loop key (k + length xs) ys"
  by (induction xs arbitrary: k) simp_all

lemma decode_loop_mod: "decode_loop key (k mod 4) xs = decode_loop key k xs"
proof (induction xs arbitrary: k)
  case (Cons x xs)
  have "decode_loop key (k mod 4 + 1) xs = decode_loop key ((k mod 4 + 1) mod 4) xs" using Cons by simp
  also have "(k mod 4 + 1) mod 4 = (k + 1) mod 4" by (simp add: mod_simps)
  finally show ?case using Cons[of "k + 1"] by simp
qed simp

lemma length_decode_loop [simp]: "length (decode_loop key k xs) = length xs"
  by (induction xs arbitrary: k) simp_all

lemma decode_loop_twice: "decode_loop key k (decode_loop key k xs) = xs"
  by (induction xs arbitrary: k) (simp_all add: xor.assoc)

lemma unat_mod4: "unat (word_of_nat (n mod 4) :: 8 word) = n mod 4"
proof -
  have "n mod 4 < 4" by simp
  then show ?thesis by (simp add: unat_of_nat)
qed

lemma on_frame_body_append:
  "on_frame_body ys (on_frame_body xs w) = on_frame_body (xs @ ys) w"
proof -
  let ?p = "ws_parser w"
  have "decode_loop (wp_mask ?p) ((length xs + unat (wp_mask_offset ?p)) mod 4) ys =
      decode_loop (wp_mask ?p) (unat (wp_mask_offset ?p) + length xs) ys"
    by (simp add: decode_loop_mod add.commute)
  moreover have "(length ys + (length xs + n) mod 4) mod 4 = (length xs + (length ys + n)) mod 4" for n
    by (simp add: mod_simps ac_simps)
  ultimately show ?thesis
    by (simp add: on_frame_body_def websocket_parser_decode_def Let_def unat_mod4 decode_loop_append add.assoc)
qed

lemma on_frame_body_parser:
  "wp_st (ws_parser (on_frame_body xs w)) = wp_st (ws_parser w)"
  "wp_require (ws_parser (on_frame_body xs w)) = wp_require (ws_parser w)"
  "wp_length (ws_parser (on_frame_body xs w)) = wp_length (ws_parser w)"
  "wp_flags (ws_parser (on_frame_body xs w)) = wp_flags (ws_parser w)"
  by (simp_all add: on_frame_body_def websocket_parser_decode_def Let_def)

lemma on_frame_body_require:
  "on_frame_body xs (on_parser (\<lambda>p. p\<lparr>wp_require := f p\<rparr>) w) =
   on_parser (\<lambda>p. p\<lparr>wp_require := f (ws_parser w)\<rparr>) (on_frame_body xs w)"
  by (simp add: on_frame_body_def websocket_parser_decode_def Let_def on_parser_def)

lemma ws_run_body:
  assumes "wp_st (ws_parser w) = ws_body" "ds \<noteq> []" "length ds \<le> unat (wp_require (ws_parser w))"
    "unat (wp_require (ws_parser w)) < 2 ^ 63"
  shows "ws_run ds w =
    Inr (if length ds = unat (wp_require (ws_parser w))
         then on_frame_end (on_parser (\<lambda>p. p\<lparr>wp_require := 0, wp_st := ws_start\<rparr>) (on_frame_body ds w))
         else on_parser (\<lambda>p. p\<lparr>wp_require := wp_require p - word_of_nat (length ds)\<rparr>) (on_frame_body ds w))"
  using assms
proof (induction ds arbitrary: w)
  case (Cons d ds)
  let ?r = "wp_require (ws_parser w)"
  have r: "?r \<noteq> 0" using Cons.prems(3) by (auto simp: unat_eq_0)
  show ?case
  proof (cases "?r = 1")
    case True
    then have "ds = []" using Cons.prems(3) by simp
    with True Cons.prems show ?thesis by (simp add: ws_byte_def ws_step_def)
  next
    case False
    have gt: "1 < unat ?r" using r False by (simp add: word_unat_eq_iff)
    then have "\<not> ?r \<le> 1" by (simp add: word_le_nat_alt)
    then have b: "ws_byte d w = Inr (on_parser (\<lambda>p. p\<lparr>wp_require := wp_require p - 1\<rparr>) (on_frame_body [d] w))"
      using Cons.prems r by (simp add: ws_byte_def ws_step_def Let_def)
    let ?w = "on_parser (\<lambda>p. p\<lparr>wp_require := wp_require p - 1\<rparr>) (on_frame_body [d] w)"
    have u: "unat (?r - 1) = unat ?r - 1" using r by (simp add: unat_minus_one)
    show ?thesis
    proof (cases "ds = []")
      case True
      with b gt show ?thesis by simp
    next
      case ne: False
      have "ws_run ds ?w =
        Inr (if length ds = unat (?r - 1)
             then on_frame_end (on_parser (\<lambda>p. p\<lparr>wp_require := 0, wp_st := ws_start\<rparr>) (on_frame_body ds ?w))
             else on_parser (\<lambda>p. p\<lparr>wp_require := wp_require p - word_of_nat (length ds)\<rparr>) (on_frame_body ds ?w))"
        using Cons.IH[of ?w] Cons.prems ne u by (simp add: on_frame_body_parser)
      moreover have "on_frame_body ds ?w = on_parser (\<lambda>p. p\<lparr>wp_require := ?r - 1\<rparr>) (on_frame_body (d # ds) w)"
        by (simp add: on_frame_body_require on_frame_body_append on_frame_body_parser)
      moreover have "length ds = unat (?r - 1) \<longleftrightarrow> length (d # ds) = unat ?r" using u gt by auto
      ultimately show ?thesis
        using b by (simp add: on_parser_def on_frame_body_parser diff_diff_eq add.commute)
    qed
  qed
qed simp

lemma length_loop_left: "length_loop data p = (rest, p') \<Longrightarrow> wp_require p' \<noteq> 0 \<Longrightarrow> rest = []"
  by (induction data p rule: length_loop.induct) (auto split: if_splits)

lemma mask_loop_left: "mask_loop data p = (rest, p') \<Longrightarrow> wp_require p' \<noteq> 0 \<Longrightarrow> rest = []"
  by (induction data p rule: mask_loop.induct) (auto split: if_splits)

text \<open>The parser on a whole read is the parser byte by byte, wherever the read is stored.\<close>

lemma ws_step_run:
  assumes "ws_wf w" "unat addr + length (c # cs) < 2 ^ 63" "ws_run (c # cs) w = Inr w'"
  shows "\<exists>rest w1. ws_step addr c cs w = Inr (rest, w1) \<and> ws_run rest w1 = Inr w' \<and> ws_wf w1 \<and>
     length rest \<le> length cs"
proof (cases "wp_st (ws_parser w)")
  case ws_start
  with assms(3) show ?thesis
    by (auto simp: ws_byte_def ws_step_def ws_wf_def Let_def)
next
  case ws_head
  have head: "ws_step addr c cs w = map_sum id (\<lambda>(r, w1). (cs, w1)) (ws_step 0 c [] w)"
    using ws_head by (simp add: ws_step_def Let_def sum.map_comp comp_def id_def)
  then obtain r w1 where s: "ws_step 0 c [] w = Inr (r, w1)" "ws_run cs w1 = Inr w'"
    using assms(3) ws_head by (cases "ws_step 0 c [] w") (auto simp: ws_byte_def)
  have "ws_wf w1"
    using s(1) ws_head by (auto simp: ws_step_def Let_def map_sum_def split: if_splits sum.splits dest!: enter_mask_wf)
      (auto simp: ws_wf_def)
  with s head show ?thesis by auto
next
  case ws_length
  obtain rest p where l: "length_loop (c # cs) (ws_parser w) = (rest, p)" by (cases "length_loop (c # cs) (ws_parser w)")
  have r: "wp_require (ws_parser w) \<noteq> 0" using assms(1) ws_length by (simp add: ws_wf_def)
  have "length rest \<le> length cs" using length_loop_rest[OF l] r by auto
  moreover have "ws_run (c # cs) w = (if wp_require p = 0 then and_then (enter_mask (w\<lparr>ws_parser := p\<rparr>)) (ws_run rest)
       else Inr (w\<lparr>ws_parser := p\<rparr>))"
    using ws_run_length[OF ws_length r, of "c # cs" w] l by simp
  ultimately show ?thesis
    using assms(3) ws_length l length_loop_left[OF l]
    by (auto simp: ws_step_def and_then_eq_Inr ws_wf_def[of "w\<lparr>ws_parser := p\<rparr>"] dest: enter_mask_wf split: if_splits)
next
  case ws_mask
  obtain rest p where l: "mask_loop (c # cs) (ws_parser w) = (rest, p)" by (cases "mask_loop (c # cs) (ws_parser w)")
  have r: "wp_require (ws_parser w) \<noteq> 0" using assms(1) ws_mask by (simp add: ws_wf_def)
  have "length rest \<le> length cs" using mask_loop_rest[OF l] r by auto
  moreover have "ws_run (c # cs) w = (if wp_require p = 0 then and_then (enter_body (w\<lparr>ws_parser := p\<rparr>)) (ws_run rest)
       else Inr (w\<lparr>ws_parser := p\<rparr>))"
    using ws_run_mask[OF ws_mask r, of "c # cs" w] l by simp
  ultimately show ?thesis
    using assms(3) ws_mask l mask_loop_left[OF l]
    by (auto simp: ws_step_def and_then_eq_Inr ws_wf_def[of "w\<lparr>ws_parser := p\<rparr>"] dest: enter_body_wf split: if_splits)
next
  case ws_body
  let ?r = "wp_require (ws_parser w)" and ?data = "c # cs"
  have r: "?r \<noteq> 0" using assms(1) ws_body by (simp add: ws_wf_def)
  then have r0: "0 < unat ?r" by (simp add: unat_gt_0)
  have small: "unat ?r < 2 ^ 63"
    using assms(3) ws_body by (auto simp: ws_byte_def split: if_splits)
  have len: "unat (word_of_nat (length ?data) :: 64 word) = length ?data"
    using assms(2) by (simp add: unat_of_nat del: of_nat_Suc)
  have "unat (addr + ?r) = unat addr + unat ?r" "unat (addr + word_of_nat (length ?data)) = unat addr + length ?data"
    using assms(2) small len by (simp_all add: unat_word_ariths)
  then have cmp: "addr + ?r \<le> addr + word_of_nat (length ?data) \<longleftrightarrow> unat ?r \<le> length ?data"
    by (simp add: word_le_nat_alt)
  show ?thesis
  proof (cases "unat ?r \<le> length ?data")
    case True
    let ?t = "take (unat ?r) ?data"
    let ?w = "on_frame_end (on_parser (\<lambda>p. p\<lparr>wp_require := 0, wp_st := ws_start\<rparr>) (on_frame_body ?t w))"
    have "ws_run ?t w = Inr ?w" using ws_run_body[OF ws_body _ _ small, of ?t] True r0 by simp
    moreover have "ws_run ?data w = and_then (ws_run ?t w) (ws_run (drop (unat ?r) ?data))"
      using ws_run_append[of ?t "drop (unat ?r) ?data" w] by (simp only: append_take_drop_id)
    ultimately have "ws_run (drop (unat ?r) ?data) ?w = Inr w'" using assms(3) by simp
    moreover have "ws_step addr c cs w = Inr (drop (unat ?r) ?data, ?w)"
      unfolding ws_step_def Let_def using ws_body r True cmp by simp
    moreover have "length (drop (unat ?r) ?data) \<le> length cs" using r0 by simp
    ultimately show ?thesis by (simp add: ws_wf_def)
  next
    case False
    let ?w = "on_parser (\<lambda>p. p\<lparr>wp_require := wp_require p - word_of_nat (length ?data)\<rparr>) (on_frame_body ?data w)"
    have "ws_run ?data w = Inr ?w" using ws_run_body[OF ws_body _ _ small, of ?data] False by simp
    then have "w' = ?w" using assms(3) by (simp only: sum.inject)
    moreover have "ws_step addr c cs w = Inr ([], ?w)"
      unfolding ws_step_def Let_def using ws_body r False cmp by simp
    moreover have "?r - word_of_nat (length ?data) \<noteq> 0"
      using False len by (metis eq_iff_diff_eq_0 order_refl)
    ultimately show ?thesis by (auto simp: ws_wf_def on_frame_body_parser)
  qed
qed

lemma ws_execute_run:
  "ws_wf w \<Longrightarrow> unat addr + length data < 2 ^ 63 \<Longrightarrow> ws_run data w = Inr w' \<Longrightarrow>
   ws_execute addr data w = Inr w' \<and> ws_wf w'"
proof (induction "length data" arbitrary: addr data w rule: less_induct)
  case less
  show ?case
  proof (cases data)
    case Nil
    with less.prems show ?thesis by simp
  next
    case (Cons c cs)
    obtain rest w1 where s: "ws_step addr c cs w = Inr (rest, w1)" "ws_run rest w1 = Inr w'" "ws_wf w1"
        "length rest \<le> length cs"
      using ws_step_run[of w addr c cs w'] less.prems Cons by auto
    let ?n = "length (c # cs) - length rest"
    have n: "unat (word_of_nat ?n :: 64 word) = ?n"
      using less.prems(2) Cons by (simp add: unat_of_nat del: of_nat_Suc)
    have "unat (addr + word_of_nat ?n) = unat addr + ?n"
      using less.prems(2) Cons n by (subst unat_word_ariths) simp
    then have "unat (addr + word_of_nat ?n) + length rest < 2 ^ 63"
      using less.prems(2) Cons s(4) by simp
    with less.hyps[of rest w1] s Cons show ?thesis by simp
  qed
qed

lemma feed_reads_run:
  "ws_wf w \<Longrightarrow> \<forall>(addr, data) \<in> set reads. unat addr + length data < 2 ^ 63 \<Longrightarrow>
   ws_run (concat (map snd reads)) w = Inr w' \<Longrightarrow> feed_reads reads w = Inr w'"
proof (induction reads arbitrary: w)
  case (Cons r reads)
  obtain addr data where r: "r = (addr, data)" by (cases r)
  obtain w1 where w1: "ws_run data w = Inr w1" "ws_run (concat (map snd reads)) w1 = Inr w'"
    using Cons.prems(3) by (auto simp: r ws_run_append and_then_eq_Inr)
  then have "ws_execute addr data w = Inr w1 \<and> ws_wf w1"
    using ws_execute_run[OF Cons.prems(1) _ w1(1), of addr] Cons.prems(2) by (auto simp: r)
  then show ?case using Cons.IH[of w1] Cons.prems(2) w1(2) by (simp add: r FeedRecvData_def)
qed simp

section \<open>Frames through the parser\<close>

lemma and_FF: "x AND 0xFF = take_bit 8 x" for x :: "64 word"
  by (simp add: take_bit_eq_mask mask_eq_exp_minus_1)

lemma low_byte: "ucast (ucast (x AND 0xFF :: 64 word) :: byte) = x AND 0xFF"
  "ucast (ucast x :: byte) = x AND 0xFF" for x :: "64 word"
  unfolding and_FF by (auto intro!: bit_word_eqI simp: bit_simps)

lemma next_byte: "push_bit 8 (drop_bit (k + 8) x) OR (drop_bit k x AND 0xFF) = drop_bit k x" for x :: "64 word"
proof -
  have "k + (8 + (n - 8)) = k + n" if "8 \<le> n" for n using that by simp
  then show ?thesis unfolding and_FF by (intro bit_word_eqI) (auto simp: bit_simps add.assoc not_less)
qed

lemma length_loop_all:
  "length ext \<le> 8 \<Longrightarrow> wp_require p = word_of_nat (length ext) \<Longrightarrow>
   length_loop (ext @ rest) p =
     (rest, p\<lparr>wp_length := foldl (\<lambda>a c. push_bit 8 a OR ucast c) (wp_length p) ext, wp_require := 0\<rparr>)"
proof (induction ext arbitrary: p)
  case Nil
  then show ?case by (cases rest; cases p) auto
next
  case (Cons c ext)
  have "(word_of_nat (length (c # ext)) :: 64 word) \<noteq> 0"
    using Cons.prems(1) by (subst unat_eq_0[symmetric]) (simp add: unat_of_nat del: of_nat_Suc)
  with Cons show ?case by simp
qed

lemma mask_loop_all:
  assumes "wp_require p = 4" "length key = 4" "length (wp_mask p) = 4"
  shows "mask_loop (key @ rest) p = (rest, p\<lparr>wp_mask := key, wp_require := 0\<rparr>)"
proof -
  obtain a b c d where k: "key = [a, b, c, d]"
    using assms(2) by (auto simp: length_Suc_conv numeral_eq_Suc)
  obtain x y z u where "wp_mask p = [x, y, z, u]"
    using assms(3) by (auto simp: length_Suc_conv numeral_eq_Suc)
  with k assms(1) show ?thesis by (cases rest; cases p) simp_all
qed

lemma head_byte:
  fixes l m :: byte
  assumes "l < 128" "m \<in> {0, 0x80}"
  shows "ucast (m OR l) AND 0x7F = (ucast l :: 64 word)" "(m OR l) AND 0x80 \<noteq> 0 \<longleftrightarrow> m \<noteq> 0"
proof -
  have l: "take_bit 7 l = l"
    using assms(1) by (simp add: word_unat_eq_iff unsigned_take_bit_eq take_bit_nat_eq_self word_less_nat_alt)
  have 7: "x AND 0x7F = take_bit 7 x" for x :: "64 word"
    by (simp add: take_bit_eq_mask mask_eq_exp_minus_1)
  have "take_bit 7 (m OR l) = take_bit 7 m OR l" using l by simp
  moreover have "take_bit 7 m = 0" using assms(2) by auto
  ultimately have "take_bit 7 (m OR l) = l" by simp
  moreover have "take_bit 7 (ucast x :: 64 word) = ucast (take_bit 7 x)" for x :: byte
    by (auto intro!: bit_word_eqI simp: bit_simps)
  ultimately have "take_bit 7 (ucast (m OR l) :: 64 word) = ucast l" by metis
  then show "ucast (m OR l) AND 0x7F = (ucast l :: 64 word)" by (simp only: 7)
  have "bit l 7 = bit (take_bit 7 l) 7" using l by simp
  then have "\<not> bit l 7" by (simp add: bit_simps)
  then have "bit (m OR l) 7 \<longleftrightarrow> m \<noteq> 0" using assms(2) by (auto simp: bit_or_iff)
  moreover have "x AND 0x80 \<noteq> 0 \<longleftrightarrow> bit x 7" for x :: byte
    using bit_iff_and_push_bit_not_eq_0[of x 7] by (simp add: push_bit_eq_mult)
  ultimately show "(m OR l) AND 0x80 \<noteq> 0 \<longleftrightarrow> m \<noteq> 0" by (simp only:)
qed

lemma frame_length_code:
  assumes "frame_length N = (l, ext)"
  shows "l < 128" "N < 126 \<Longrightarrow> ext = [] \<and> ucast l = N"
    "\<not> N < 126 \<Longrightarrow> (l = 126 \<and> length ext = 2 \<or> l = 127 \<and> length ext = 8) \<and>
       foldl (\<lambda>a c. push_bit 8 a OR ucast c) 0 ext = N"
proof -
  have small: "ucast (ucast N :: byte) = N" if "N < 126"
  proof -
    have "unat N < 126" using that by (simp add: word_less_nat_alt)
    then show ?thesis by (simp add: word_unat_eq_iff unsigned_ucast_eq unsigned_take_bit_eq take_bit_nat_eq_self)
  qed
  have "(ucast N :: byte) < 128" if "N < 126"
  proof -
    have "unat N < 126" using that by (simp add: word_less_nat_alt)
    then show ?thesis by (simp add: word_less_nat_alt unsigned_ucast_eq unsigned_take_bit_eq take_bit_nat_eq_self)
  qed
  with assms show "l < 128" by (auto simp: frame_length_def split: if_splits)
  show "N < 126 \<Longrightarrow> ext = [] \<and> ucast l = N"
    using assms small by (auto simp: frame_length_def)
  show "\<not> N < 126 \<Longrightarrow> (l = 126 \<and> length ext = 2 \<or> l = 127 \<and> length ext = 8) \<and>
       foldl (\<lambda>a c. push_bit 8 a OR ucast c) 0 ext = N"
  proof (cases "N \<le> 0xFFFF")
    case True
    assume n: "\<not> N < 126"
    have "unat (drop_bit 16 N) = 0"
      unfolding unat_drop_bit_eq using True by (simp add: drop_bit_eq_div word_le_nat_alt)
    then have "drop_bit 16 N = 0" by (simp only: unat_eq_0)
    then have "drop_bit 8 N AND 0xFF = drop_bit 8 N" using next_byte[of 8 N] by simp
    then show ?thesis
      using assms n True next_byte[of 0 N] by (auto simp: frame_length_def low_byte)
  next
    case False
    assume n: "\<not> N < 126"
    have "drop_bit 64 N = 0" by (intro bit_word_eqI) (simp add: bit_simps)
    then show ?thesis
      using assms n False next_byte[of 56 N] next_byte[of 48 N] next_byte[of 40 N] next_byte[of 32 N]
        next_byte[of 24 N] next_byte[of 16 N] next_byte[of 8 N] next_byte[of 0 N]
      by (auto simp: frame_length_def low_byte)
  qed
qed

text \<open>The fixed header with the extended length takes the parser to the mask or the body.\<close>

lemma header_run:
  assumes st: "wp_st (ws_parser w) = ws_start" and m: "m \<in> {0, 0x80}" and fl: "frame_length N = (l, ext)"
  shows "\<exists>p. ws_run (b0 # (m OR l) # ext @ rest) w = and_then (enter_mask (w\<lparr>ws_parser := p\<rparr>)) (ws_run rest) \<and>
     wp_flags p = (let f = (if b0 AND 0x80 \<noteq> 0 then ucast (b0 AND 0xF) OR WS_FIN else ucast (b0 AND 0xF))
                   in if m \<noteq> 0 then f OR WS_HAS_MASK else f) \<and>
     wp_length p = N \<and> wp_mask_offset p = 0 \<and> wp_mask p = wp_mask (ws_parser w)"
proof -
  let ?f = "if b0 AND 0x80 \<noteq> 0 then ucast (b0 AND 0xF) OR WS_FIN else ucast (b0 AND 0xF)"
  let ?F = "if m \<noteq> 0 then ?f OR WS_HAS_MASK else ?f"
  let ?hd = "(ws_parser w)\<lparr>wp_st := ws_head, wp_flags := ?f, wp_length := 0, wp_mask_offset := 0\<rparr>"
  note code = frame_length_code[OF fl]
  have b0: "ws_byte b0 w = Inr (w\<lparr>ws_parser := ?hd\<rparr>)"
    using st by (simp add: ws_byte_def ws_step_def Let_def on_parser_def)
  show ?thesis
  proof (cases "N < 126")
    case True
    then have ext: "ext = []" "ucast (m OR l) AND 0x7F = N" using code head_byte[OF code(1) m] by auto
    let ?p = "?hd\<lparr>wp_length := N, wp_flags := ?F\<rparr>"
    have "\<not> 126 \<le> N" using True by simp
    then have "ws_byte (m OR l) (w\<lparr>ws_parser := ?hd\<rparr>) = enter_mask (w\<lparr>ws_parser := ?p\<rparr>)"
      using ext(2) head_byte(2)[OF code(1) m]
      by (cases "ws_parser w") (simp add: ws_byte_def ws_step_def Let_def sum.map_comp comp_def sum.map_id[unfolded id_def])
    then have "ws_run (b0 # (m OR l) # ext @ rest) w = and_then (enter_mask (w\<lparr>ws_parser := ?p\<rparr>)) (ws_run rest)"
      unfolding ws_run.simps b0 and_then.simps ext(1) append_Nil by (rule arg_cong)
    then show ?thesis by (intro exI[of _ ?p]) (simp add: Let_def)
  next
    case False
    let ?p = "?hd\<lparr>wp_st := ws_length, wp_flags := ?F, wp_length := 0, wp_require := word_of_nat (length ext)\<rparr>"
    have l: "l = 126 \<and> length ext = 2 \<or> l = 127 \<and> length ext = 8" "foldl (\<lambda>a c. push_bit 8 a OR ucast c) 0 ext = N"
      using code(3)[OF False] by auto
    have len: "ucast (m OR l) AND 0x7F = (if length ext = 2 then 126 else 127 :: 64 word)"
      using head_byte(1)[OF code(1) m] l(1) by auto
    have b1: "ws_byte (m OR l) (w\<lparr>ws_parser := ?hd\<rparr>) = Inr (w\<lparr>ws_parser := ?p\<rparr>)"
      using len l(1) head_byte(2)[OF code(1) m]
      by (elim disjE) (simp_all add: ws_byte_def ws_step_def Let_def)
    have "length ext \<le> 8" "wp_require ?p \<noteq> 0" using l(1) by auto
    then have "ws_run (ext @ rest) (w\<lparr>ws_parser := ?p\<rparr>) =
        and_then (enter_mask (w\<lparr>ws_parser := ?p\<lparr>wp_length := N, wp_require := 0\<rparr>\<rparr>)) (ws_run rest)"
      using ws_run_length[of ?p "ext @ rest" w] length_loop_all[of ext ?p rest] l(2) by simp
    then show ?thesis
      using b0 b1 by (intro exI[of _ "?p\<lparr>wp_length := N, wp_require := 0\<rparr>"]) (simp add: Let_def)
  qed
qed

definition ws_ready :: "WebSocketParser \<Rightarrow> bool" where
  "ws_ready w \<longleftrightarrow> wp_st (ws_parser w) = ws_start \<and> ws_state w \<in> {WS_FRAME_BEGIN, WS_FRAME_END} \<and>
     length (wp_mask (ws_parser w)) = 4"

lemma body_run:
  assumes n: "wp_length (ws_parser w) = word_of_nat (length data)" "length data < 2 ^ 31 - 1"
    and st: "ws_state w \<in> {WS_FRAME_BEGIN, WS_FRAME_END}" "length (wp_mask (ws_parser w)) = 4"
    and off: "wp_mask_offset (ws_parser w) = 0"
    and body: "body = (if wp_flags (ws_parser w) AND WS_HAS_MASK \<noteq> 0
                       then decode_loop (wp_mask (ws_parser w)) 0 data else data)"
  shows "\<exists>w'. and_then (enter_body w) (ws_run body) = Inr w' \<and> ws_ready w' \<and>
     (let op = (if wp_flags (ws_parser w) AND WS_OP_MASK \<noteq> 0 then wp_flags (ws_parser w) AND WS_OP_MASK
                else ws_opcode w)
      in ws_opcode w' = op \<and>
         ws_calls w' = ws_calls w @ (if wp_flags (ws_parser w) AND WS_FIN \<noteq> 0 then [(op, data)] else []))"
proof -
  let ?N = "word_of_nat (length data) :: 64 word"
  let ?op = "if wp_flags (ws_parser w) AND WS_OP_MASK \<noteq> 0 then wp_flags (ws_parser w) AND WS_OP_MASK else ws_opcode w"
  have u: "unat ?N = length data" using n(2) by (simp add: unat_of_nat)
  have "(ucast ?N :: 32 word) = word_of_nat (length data)"
    using n(2) by (simp add: word_unat_eq_iff unsigned_ucast_eq unsigned_take_bit_eq take_bit_nat_eq_self unat_of_nat)
  moreover have "sint (word_of_nat (length data) :: 32 word) = int (length data)"
    using n(2) by (simp add: signed_of_nat signed_take_bit_int_eq_self)
  ultimately have len: "sint (ucast ?N :: 32 word) = int (length data)" by simp
  have header: "on_frame_header (on_parser f w) =
      Inr (on_parser f w\<lparr>ws_opcode := ?op, ws_message := [], ws_state := WS_FRAME_HEADER\<rparr>)"
    if "wp_length (f (ws_parser w)) = ?N" "wp_flags (f (ws_parser w)) = wp_flags (ws_parser w)" for f
  proof -
    have "\<not> min (int (length data) + 1) MAX_PAYLOAD_LENGTH < 0" by (simp add: MAX_PAYLOAD_LENGTH_def)
    moreover have "int (length data) \<noteq> 2 ^ 31 - 1" using n(2) by simp
    ultimately show ?thesis
      using that st(1) len by (auto simp: on_frame_header_def Let_def on_parser_def)
  qed
  show ?thesis
  proof (cases "data = []")
    case True
    then have "enter_body w = Inr (on_frame_end (on_parser (\<lambda>p. p\<lparr>wp_st := ws_start\<rparr>) w
        \<lparr>ws_opcode := ?op, ws_message := [], ws_state := WS_FRAME_HEADER\<rparr>))"
      using n(1) by (simp add: enter_body_def header)
    with True body st(2) show ?thesis
      by (simp add: ws_ready_def on_frame_end_def Let_def)
  next
    case False
    let ?w = "on_parser (\<lambda>p. p\<lparr>wp_st := ws_body, wp_require := wp_length p\<rparr>) w
        \<lparr>ws_opcode := ?op, ws_message := [], ws_state := WS_FRAME_HEADER\<rparr>"
    have "?N \<noteq> 0" using False u by (metis length_0_conv unat_0)
    then have enter: "enter_body w = Inr ?w" using n(1) by (simp add: enter_body_def header)
    have lb: "length body = length data" using body by simp
    then have "body \<noteq> []" using False by auto
    then have "ws_run body ?w = Inr (on_frame_end (on_parser (\<lambda>p. p\<lparr>wp_require := 0, wp_st := ws_start\<rparr>) (on_frame_body body ?w)))"
      using ws_run_body[of ?w body] lb n u by simp
    then show ?thesis
      using enter st(2) body off
      by (auto simp: ws_ready_def on_frame_end_def on_frame_body_def websocket_parser_decode_def
          decode_loop_twice Let_def on_parser_def)
  qed
qed

record ws_frame =
  fr_opcode :: ws_opcode
  fr_fin :: bool
  fr_masked :: bool
  fr_key :: "byte list"
  fr_data :: "byte list"

definition frame_bytes :: "ws_frame \<Rightarrow> byte list" where
  "frame_bytes f = ws_build_frame [] (fr_data f) (fr_key f) (fr_masked f) (fr_opcode f) (fr_fin f)"

definition frame_ok :: "ws_frame \<Rightarrow> bool" where
  "frame_ok f \<longleftrightarrow> length (fr_key f) = 4 \<and> length (fr_data f) < 2 ^ 31 - 1"

text \<open>The messages that frames stand for, as the callbacks deliver them.\<close>

fun delivered :: "32 word \<Rightarrow> ws_frame list \<Rightarrow> (32 word \<times> byte list) list" where
  "delivered op [] = []"
| "delivered op (f # fs) =
     (let op = (if fr_opcode f = WS_OPCODE_CONTINUE then op else opcode_flags (fr_opcode f))
      in (if fr_fin f then [(op, fr_data f)] else []) @ delivered op fs)"

definition frame_flags :: "ws_frame \<Rightarrow> websocket_flags" where
  "frame_flags f =
     (let flags = (if fr_fin f then opcode_flags (fr_opcode f) OR WS_FIN else opcode_flags (fr_opcode f))
      in if fr_masked f then flags OR WS_HAS_MASK else flags)"

definition first_byte :: "ws_frame \<Rightarrow> byte" where
  "first_byte f = (if fr_fin f then 0x80 else 0) OR ucast (opcode_flags (fr_opcode f))"

lemma frame_flags_bits:
  "frame_flags f AND WS_OP_MASK = opcode_flags (fr_opcode f)"
  "frame_flags f AND WS_FIN \<noteq> 0 \<longleftrightarrow> fr_fin f"
  "frame_flags f AND WS_HAS_MASK \<noteq> 0 \<longleftrightarrow> fr_masked f"
  "opcode_flags (fr_opcode f) = 0 \<longleftrightarrow> fr_opcode f = WS_OPCODE_CONTINUE"
  by (cases "fr_opcode f"; cases "fr_fin f"; cases "fr_masked f"; simp add: frame_flags_def)+

lemma first_byte_bits:
  "(let g = (if first_byte f AND 0x80 \<noteq> 0 then ucast (first_byte f AND 0xF) OR WS_FIN
             else ucast (first_byte f AND 0xF))
    in if fr_masked f then g OR WS_HAS_MASK else g) = frame_flags f"
  by (cases "fr_opcode f"; cases "fr_fin f"; cases "fr_masked f"; simp add: frame_flags_def first_byte_def)

lemma frame_bytes_eq:
  assumes "frame_length (word_of_nat (length (fr_data f))) = (l, ext)"
  shows "frame_bytes f = first_byte f # ((if fr_masked f then 0x80 else 0) OR l) # ext @
     (if fr_masked f then fr_key f @ decode_loop (fr_key f) 0 (fr_data f) else fr_data f)"
proof -
  have "frame_bytes f = websocket_build_frame [] (frame_flags f) (Some (fr_key f)) (fr_data f)"
    by (simp add: frame_bytes_def ws_build_frame_def frame_flags_def Let_def)
  moreover have "(if fr_fin f then 0x80 else 0) OR ucast (frame_flags f AND WS_OP_MASK) = first_byte f"
    by (simp only: frame_flags_bits first_byte_def)
  ultimately show ?thesis
    using assms frame_flags_bits(2,3)[of f]
    by (simp add: websocket_build_frame_def websocket_decode_def Let_def)
qed

lemma frame_run:
  assumes ok: "frame_ok f" and w: "ws_ready w"
  shows "\<exists>w'. ws_run (frame_bytes f) w = Inr w' \<and> ws_ready w' \<and>
     (let op = (if fr_opcode f = WS_OPCODE_CONTINUE then ws_opcode w else opcode_flags (fr_opcode f))
      in ws_opcode w' = op \<and> ws_calls w' = ws_calls w @ (if fr_fin f then [(op, fr_data f)] else []))"
proof -
  let ?N = "word_of_nat (length (fr_data f)) :: 64 word"
  let ?m = "if fr_masked f then 0x80 else 0 :: byte"
  let ?body = "if fr_masked f then fr_key f @ decode_loop (fr_key f) 0 (fr_data f) else fr_data f"
  obtain l ext where fl: "frame_length ?N = (l, ext)" by (cases "frame_length ?N")
  have st: "wp_st (ws_parser w) = ws_start" using w by (simp add: ws_ready_def)
  have m: "?m \<in> {0, 0x80}" "?m \<noteq> 0 \<longleftrightarrow> fr_masked f" by auto
  obtain p where p: "ws_run (frame_bytes f) w = and_then (enter_mask (w\<lparr>ws_parser := p\<rparr>)) (ws_run ?body)"
      "wp_flags p = frame_flags f" "wp_length p = ?N" "wp_mask_offset p = 0" "wp_mask p = wp_mask (ws_parser w)"
    using header_run[OF st m(1) fl, of "first_byte f" ?body] unfolding frame_bytes_eq[OF fl] m(2) first_byte_bits by blast
  define q where "q = (if fr_masked f then p\<lparr>wp_st := ws_mask, wp_mask := fr_key f, wp_require := 0\<rparr> else p)"
  have "ws_run (frame_bytes f) w =
      and_then (enter_body (w\<lparr>ws_parser := q\<rparr>)) (ws_run (if fr_masked f then decode_loop (fr_key f) 0 (fr_data f) else fr_data f))"
  proof (cases "fr_masked f")
    case True
    let ?p = "p\<lparr>wp_st := ws_mask, wp_require := 4\<rparr>"
    have "enter_mask (w\<lparr>ws_parser := p\<rparr>) = Inr (w\<lparr>ws_parser := ?p\<rparr>)"
      using p(2) True frame_flags_bits(3)[of f] by (simp add: enter_mask_def on_parser_def)
    moreover have "mask_loop (fr_key f @ decode_loop (fr_key f) 0 (fr_data f)) ?p =
        (decode_loop (fr_key f) 0 (fr_data f), ?p\<lparr>wp_mask := fr_key f, wp_require := 0\<rparr>)"
      using ok w p(5) by (intro mask_loop_all) (simp_all add: frame_ok_def ws_ready_def)
    ultimately show ?thesis
      using p(1) True ws_run_mask[of ?p "fr_key f @ decode_loop (fr_key f) 0 (fr_data f)" w] by (simp add: q_def)
  next
    case False
    then show ?thesis
      using p(1,2) frame_flags_bits(3)[of f] by (simp add: enter_mask_def q_def)
  qed
  moreover have "wp_flags q = frame_flags f" "wp_length q = ?N" "wp_mask_offset q = 0" "length (wp_mask q) = 4"
    "fr_masked f \<Longrightarrow> wp_mask q = fr_key f"
    using p ok w by (simp_all add: q_def frame_ok_def ws_ready_def)
  ultimately show ?thesis
    using body_run[of "w\<lparr>ws_parser := q\<rparr>" "fr_data f"] ok w frame_flags_bits[of f]
    by (auto simp: frame_ok_def ws_ready_def Let_def split: if_splits)
qed

lemma frames_run:
  "\<forall>f \<in> set fs. frame_ok f \<Longrightarrow> ws_ready w \<Longrightarrow>
   \<exists>w'. ws_run (concat (map frame_bytes fs)) w = Inr w' \<and> ws_ready w' \<and>
     ws_calls w' = ws_calls w @ delivered (ws_opcode w) fs"
proof (induction fs arbitrary: w)
  case (Cons f fs)
  obtain w1 where w1: "ws_run (frame_bytes f) w = Inr w1" "ws_ready w1"
      "let op = (if fr_opcode f = WS_OPCODE_CONTINUE then ws_opcode w else opcode_flags (fr_opcode f))
       in ws_opcode w1 = op \<and> ws_calls w1 = ws_calls w @ (if fr_fin f then [(op, fr_data f)] else [])"
    using frame_run[of f w] Cons.prems by auto
  obtain w2 where "ws_run (concat (map frame_bytes fs)) w1 = Inr w2" "ws_ready w2"
      "ws_calls w2 = ws_calls w1 @ delivered (ws_opcode w1) fs"
    using Cons.IH[of w1] Cons.prems w1(2) by auto
  then show ?case using w1 by (intro exI[of _ w2]) (simp add: ws_run_append Let_def)
qed simp

lemma ws_new_ready: "ws_ready (WebSocketParser_new op)" "ws_wf (WebSocketParser_new op)"
  "ws_calls (WebSocketParser_new op) = []" "ws_opcode (WebSocketParser_new op) = op"
  by (simp_all add: ws_ready_def ws_wf_def WebSocketParser_new_def websocket_parser_init_def)

lemma ws_reads:
  assumes "\<forall>f \<in> set fs. frame_ok f" "concat (map snd reads) = concat (map frame_bytes fs)"
    and "\<forall>(addr, data) \<in> set reads. unat addr + length data < 2 ^ 63"
  shows "\<exists>w. feed_reads reads (WebSocketParser_new op) = Inr w \<and> ws_calls w = delivered op fs"
proof -
  obtain w where "ws_run (concat (map frame_bytes fs)) (WebSocketParser_new op) = Inr w" "ws_calls w = delivered op fs"
    using frames_run[OF assms(1) ws_new_ready(1)] by (auto simp: ws_new_ready)
  then show ?thesis
    using feed_reads_run[OF ws_new_ready(2) assms(3)] unfolding assms(2) by blast
qed

text \<open>
  C1.  Frames survive the stream: whatever frames are built (any opcode, with or without mask and
  FIN bit, any data below two gigabytes) and however the bytes are cut into reads, a parser that
  is fed the reads in order stops at no error and calls \<open>onMessage\<close> once per final frame, in
  order, with the opcode of the message and the unmasked data of that frame.
\<close>

theorem ws_stream:
  assumes "\<forall>f \<in> set fs. frame_ok f" "concat (map snd reads) = concat (map frame_bytes fs)"
    and "\<forall>(addr, data) \<in> set reads. unat addr + length data < 2 ^ 63"
  shows "\<exists>w. feed_reads reads (WebSocketParser_new op) = Inr w \<and> ws_calls w = delivered op fs"
  using assms by (rule ws_reads)

theorem ws_stream_witness:
  "let hi = \<lparr>fr_opcode = WS_OPCODE_TEXT, fr_fin = True, fr_masked = True, fr_key = [1, 2, 3, 4], fr_data = [104, 105]\<rparr>;
       ping = \<lparr>fr_opcode = WS_OPCODE_PING, fr_fin = True, fr_masked = False, fr_key = [0, 0, 0, 0], fr_data = []\<rparr>
   in frame_bytes hi = [0x81, 0x82, 1, 2, 3, 4, 105, 107] \<and> frame_bytes ping = [0x89, 0] \<and>
      (\<exists>w. feed_reads [(0x1000, [0x81]), (0x2000, [0x82, 1, 2, 3, 4, 105]), (0x1000, [107, 0x89, 0])]
              (WebSocketParser_new 0) = Inr w \<and> ws_calls w = [(1, [104, 105]), (9, [])])"
proof -
  let ?hi = "\<lparr>fr_opcode = WS_OPCODE_TEXT, fr_fin = True, fr_masked = True, fr_key = [1, 2, 3, 4], fr_data = [104, 105]\<rparr>"
  let ?ping = "\<lparr>fr_opcode = WS_OPCODE_PING, fr_fin = True, fr_masked = False, fr_key = [0, 0, 0, 0], fr_data = []\<rparr>"
  have b: "frame_bytes ?hi = [0x81, 0x82, 1, 2, 3, 4, 105, 107]" "frame_bytes ?ping = [0x89, 0]"
    by code_simp+
  then show ?thesis
    using ws_stream[of "[?hi, ?ping]" "[(0x1000, [0x81]), (0x2000, [0x82, 1, 2, 3, 4, 105]), (0x1000, [107, 0x89, 0])]" 0]
    by (simp add: frame_ok_def)
qed

text \<open>
  C35.  A message sent in two fragments is not reassembled: the header of the continuation clears
  the message because the first fragment has left the state \<open>WS_FRAME_END\<close>, so \<open>onMessage\<close> gets
  the opcode of the first and the data of the second fragment only.
\<close>

theorem ws_fragments_lost:
  assumes "frame_ok f" "frame_ok g" "\<not> fr_fin f" "fr_opcode f \<noteq> WS_OPCODE_CONTINUE"
    and "fr_fin g" "fr_opcode g = WS_OPCODE_CONTINUE" "fr_data f \<noteq> []"
    and "unat addr + length (frame_bytes f @ frame_bytes g) < 2 ^ 63"
  shows "\<exists>n w. FeedRecvData addr (frame_bytes f @ frame_bytes g) (WebSocketParser_new op) = Inr (n, w) \<and>
     ws_calls w = [(opcode_flags (fr_opcode f), fr_data g)] \<and>
     (opcode_flags (fr_opcode f), fr_data f @ fr_data g) \<notin> set (ws_calls w)"
proof -
  obtain w where w: "feed_reads [(addr, frame_bytes f @ frame_bytes g)] (WebSocketParser_new op) = Inr w"
      "ws_calls w = delivered op [f, g]"
    using ws_reads[of "[f, g]" "[(addr, frame_bytes f @ frame_bytes g)]" op] assms by auto
  then have "\<exists>n. FeedRecvData addr (frame_bytes f @ frame_bytes g) (WebSocketParser_new op) = Inr (n, w)"
    by (auto simp: and_then_eq_Inr)
  with w(2) assms show ?thesis by auto
qed

theorem ws_fragments_lost_witness:
  "\<exists>n w. FeedRecvData 0x1000 [0x01, 0x01, 0x61, 0x80, 0x01, 0x62] (WebSocketParser_new 0) = Inr (n, w) \<and>
     ws_calls w = [(1, [0x62])]"
proof -
  let ?f = "\<lparr>fr_opcode = WS_OPCODE_TEXT, fr_fin = False, fr_masked = False, fr_key = [0, 0, 0, 0], fr_data = [0x61]\<rparr>"
  let ?g = "\<lparr>fr_opcode = WS_OPCODE_CONTINUE, fr_fin = True, fr_masked = False, fr_key = [0, 0, 0, 0], fr_data = [0x62]\<rparr>"
  have "frame_bytes ?f = [0x01, 0x01, 0x61]" "frame_bytes ?g = [0x80, 0x01, 0x62]" by code_simp+
  then show ?thesis
    using ws_fragments_lost[of ?f ?g "0x1000" 0] by (auto simp: frame_ok_def)
qed

text \<open>
  The announced length is trusted: a header that announces \<open>2^64 - 1\<close> bytes makes the address
  comparison wrap around, so the next byte makes the parser hand over memory far beyond the read;
  a header that announces \<open>2^31\<close> bytes makes the callback reserve a negative size, which throws,
  and one that announces \<open>2^31 - 1\<close> bytes overflows the addition before it.
\<close>

theorem ws_announced_length_unsafe:
  "(0 < unat (addr + 10) \<and> unat (addr + 10) + length (b # rest) < 2 ^ 64 \<longrightarrow>
      ws_execute addr ([0x82, 0x7F, 0xFF, 0xFF, 0xFF, 0xFF, 0xFF, 0xFF, 0xFF, 0xFF] @ b # rest)
        (WebSocketParser_new op) = Inl Out_of_bounds) \<and>
   ws_execute addr ([0x82, 0x7F, 0, 0, 0, 0, 0x80, 0, 0, 0] @ rest) (WebSocketParser_new op) = Inl Length_error \<and>
   ws_execute addr ([0x82, 0x7F, 0, 0, 0, 0, 0x7F, 0xFF, 0xFF, 0xFF] @ rest) (WebSocketParser_new op) = Inl Int_overflow"
proof -
  let ?w = "\<lambda>f N. on_parser (\<lambda>p. p\<lparr>wp_st := ws_length, wp_flags := f, wp_length := N, wp_require := 0\<rparr>) (WebSocketParser_new op)"
  have run: "ws_execute addr (0x82 # 0x7F # ext @ tail) (WebSocketParser_new op) =
      and_then (enter_mask (?w 0x12 (foldl (\<lambda>a c. push_bit 8 a OR ucast c) 0 ext))) (ws_execute (addr + 10) tail)"
    if eight: "length ext = 8" for ext tail
  proof -
    let ?p = "websocket_parser_init\<lparr>wp_st := ws_length, wp_flags := 0x12, wp_length := 0, wp_require := 8\<rparr>"
    obtain e es where e: "ext = e # es" "length es = 7" using eight by (cases ext) auto
    have "length_loop (ext @ tail) ?p =
        (tail, ?p\<lparr>wp_length := foldl (\<lambda>a c. push_bit 8 a OR ucast c) 0 ext, wp_require := 0\<rparr>)"
      using length_loop_all[of ext ?p tail] eight by simp
    moreover have "length (e # es @ tail) - length tail = 8" using e(2) by simp
    ultimately show ?thesis
      using eight unfolding e(1)
      by (cases "enter_mask (?w 0x12 (foldl (\<lambda>a c. push_bit 8 a OR ucast c) 0 (e # es)))")
        (simp_all add: ws_step_def WebSocketParser_new_def on_parser_def websocket_parser_init_def add.assoc)
  qed
  have op: "enter_mask (?w 0x12 N) =
      (let len = sint (ucast N :: 32 word) in
       if len = 2 ^ 31 - 1 then Inl Int_overflow
       else if len + 1 < 0 then Inl Length_error
       else Inr (on_parser (\<lambda>p. p\<lparr>wp_st := ws_body, wp_flags := 0x12, wp_length := N, wp_require := N\<rparr>)
                  (WebSocketParser_new op)\<lparr>ws_opcode := 2, ws_state := WS_FRAME_HEADER\<rparr>))" if "N \<noteq> 0" for N
    using that by (simp add: enter_mask_def enter_body_def on_frame_header_def MAX_PAYLOAD_LENGTH_def Let_def
        WebSocketParser_new_def on_parser_def min_def)
  have l: "foldl (\<lambda>a c. push_bit 8 a OR ucast c) 0 ([0xFF, 0xFF, 0xFF, 0xFF, 0xFF, 0xFF, 0xFF, 0xFF] :: byte list) = (- 1 :: 64 word)"
    "foldl (\<lambda>a c. push_bit 8 a OR ucast c) 0 ([0, 0, 0, 0, 0x80, 0, 0, 0] :: byte list) = (0x80000000 :: 64 word)"
    "foldl (\<lambda>a c. push_bit 8 a OR ucast c) 0 ([0, 0, 0, 0, 0x7F, 0xFF, 0xFF, 0xFF] :: byte list) = (0x7FFFFFFF :: 64 word)"
    by code_simp+
  have s: "sint (ucast (- 1 :: 64 word) :: 32 word) = - 1" "sint (ucast (0x80000000 :: 64 word) :: 32 word) = - (2 ^ 31)"
    "sint (ucast (0x7FFFFFFF :: 64 word) :: 32 word) = 2 ^ 31 - 1"
    by code_simp+
  have "ws_execute addr ([0x82, 0x7F, 0xFF, 0xFF, 0xFF, 0xFF, 0xFF, 0xFF, 0xFF, 0xFF] @ b # rest)
        (WebSocketParser_new op) = Inl Out_of_bounds"
    if a: "0 < unat (addr + 10)" "unat (addr + 10) + length (b # rest) < 2 ^ 64"
  proof -
    have len: "unat (word_of_nat (length (b # rest)) :: 64 word) = length (b # rest)"
      using a(2) by (simp add: unat_of_nat del: of_nat_Suc)
    define q where "q = addr + 10"
    have "q \<noteq> 0" using a(1) by (metis less_irrefl unat_0 q_def)
    then have "unat (q + - 1) = unat q - 1" by (simp add: unat_minus_one)
    moreover have "unat (q + word_of_nat (length (b # rest))) = unat q + length (b # rest)"
      using a(2) len by (subst unat_word_ariths) (simp add: q_def)
    ultimately have "q + - 1 \<le> q + word_of_nat (length (b # rest))"
      by (simp add: word_le_nat_alt)
    moreover have "unat (- 1 :: 64 word) = 2 ^ 64 - 1" by (simp add: unsigned_minus_1_eq_mask mask_eq_exp_minus_1)
    then have "length (b # rest) < unat (- 1 :: 64 word)" using a by simp
    ultimately show ?thesis
      using run[of "[0xFF, 0xFF, 0xFF, 0xFF, 0xFF, 0xFF, 0xFF, 0xFF]" "b # rest"] op[of "- 1"] s(1) unfolding l(1) q_def[symmetric]
      by (simp add: ws_step_def Let_def)
  qed
  moreover have "ws_execute addr ([0x82, 0x7F, 0, 0, 0, 0, 0x80, 0, 0, 0] @ rest) (WebSocketParser_new op) = Inl Length_error"
    using run[of "[0, 0, 0, 0, 0x80, 0, 0, 0]" rest] op[of "0x80000000"] s(2) unfolding l(2) by (simp add: Let_def)
  moreover have "ws_execute addr ([0x82, 0x7F, 0, 0, 0, 0, 0x7F, 0xFF, 0xFF, 0xFF] @ rest) (WebSocketParser_new op) = Inl Int_overflow"
    using run[of "[0, 0, 0, 0, 0x7F, 0xFF, 0xFF, 0xFF]" rest] op[of "0x7FFFFFFF"] s(3) unfolding l(3) by (simp add: Let_def)
  ultimately show ?thesis by blast
qed

theorem ws_announced_length_unsafe_witness:
  "ws_execute 0x1000 ([0x82, 0x7F, 0xFF, 0xFF, 0xFF, 0xFF, 0xFF, 0xFF, 0xFF, 0xFF] @ 0x61 # [])
     (WebSocketParser_new 0) = Inl Out_of_bounds"
  using ws_announced_length_unsafe[of "0x1000" "0x61" "[]" 0, THEN conjunct1] by (rule mp) simp

section \<open>Sending: \<open>WebSocketChannel::send\<close>\<close>

lemma unat_half: "unat (drop_bit 1 n) = unat n div 2" for n :: "64 word"
  using unat_drop_bit_eq[of 1 n] drop_bit_eq_div[of 1 "unat n"] by simp

text \<open>\<open>ceil2e\<close> of \<open>base/hmath.h\<close>: the exponent loop and the shifts.\<close>

function ceil_loop :: "64 word \<Rightarrow> nat \<Rightarrow> nat" where
  "ceil_loop n e = (let n = drop_bit 1 n in if n \<noteq> 0 then ceil_loop n (e + 1) else e)"
  by pat_completeness auto
termination
proof (relation "measure (\<lambda>(n, e). unat n)")
  fix n m :: "64 word" and e :: nat
  assume "m = drop_bit 1 n" "m \<noteq> 0"
  then have "unat m = unat n div 2" "unat m \<noteq> 0" by (simp_all only: unat_half unat_eq_0 not_False_eq_True)
      (metis unat_half unat_eq_0)
  then show "((m, e + 1), (n, e)) \<in> measure (\<lambda>(n, e). unat n)" by simp
qed simp

declare ceil_loop.simps [simp del]

definition ceil2e :: "64 word \<Rightarrow> 64 word" where
  "ceil2e num = (if num = 0 \<or> num = 1 then 1 else (push_bit 1 ^^ ceil_loop (num - 1) 1) 1)"

lemma ceil_loop_bounds:
  "n \<noteq> 0 \<Longrightarrow> \<exists>k. ceil_loop n e = e + k \<and> 2 ^ k \<le> unat n \<and> unat n < 2 ^ (k + 1)"
proof (induction n e rule: ceil_loop.induct)
  case (1 n e)
  let ?m = "drop_bit 1 n"
  have m: "unat ?m = unat n div 2" by (rule unat_half)
  have n: "0 < unat n" using 1(2) by (simp add: unat_gt_0)
  show ?case
  proof (cases "?m = 0")
    case True
    then have "unat n < 2" using m by simp
    with True n show ?thesis by (subst ceil_loop.simps) (intro exI[of _ 0], simp)
  next
    case False
    then obtain k where "ceil_loop ?m (e + 1) = e + 1 + k" "2 ^ k \<le> unat ?m" "unat ?m < 2 ^ (k + 1)"
      using 1(1)[OF refl False] by auto
    with m False show ?thesis by (subst ceil_loop.simps) (intro exI[of _ "k + 1"], auto)
  qed
qed

lemma push_bit_funpow: "(push_bit 1 ^^ e) (1 :: 64 word) = 2 ^ e"
  by (induction e) (simp_all add: push_bit_eq_mult)

lemma ceil2e_bound:
  assumes "unat num \<le> 2 ^ 63"
  shows "unat num \<le> unat (ceil2e num)"
proof (cases "num = 0 \<or> num = 1")
  case False
  then have "num - 1 \<noteq> 0" and u: "unat (num - 1) = unat num - 1" by (simp_all add: unat_minus_one)
  then obtain k where k: "ceil_loop (num - 1) 1 = 1 + k" "2 ^ k \<le> unat (num - 1)" "unat (num - 1) < 2 ^ (k + 1)"
    using ceil_loop_bounds by blast
  have "unat num \<noteq> 0" using False by (simp add: unat_eq_0)
  then have "(2 :: nat) ^ k < 2 ^ 63" using k(2) u assms by linarith
  then have "k < 63" by (simp only: power_strict_increasing_iff[of "2 :: nat"]) 
  then have "k + 1 < 64" by simp
  then have "(2 :: nat) ^ (k + 1) < 2 ^ 64" by (rule power_strict_increasing) simp
  then have "unat (word_of_nat (2 ^ (k + 1)) :: 64 word) = 2 ^ (k + 1)"
    by (simp only: unat_of_nat mod_less) simp
  then have "unat (2 ^ (k + 1) :: 64 word) = 2 ^ (k + 1)"
    by (simp only: of_nat_power of_nat_numeral)
  moreover have "ceil2e num = 2 ^ (k + 1)"
    using False k(1) unfolding ceil2e_def push_bit_funpow by (simp only: if_False add.commute)
  ultimately show ?thesis using k(3) u by simp
qed (auto simp: ceil2e_def)

datatype ws_session_type = WS_CLIENT | WS_SERVER

text \<open>
  The bytes given to \<open>write\<close> and the send buffer afterwards; \<open>rand\<close> is the mask a client draws.
\<close>

definition ws_send ::
    "ws_session_type \<Rightarrow> byte list \<Rightarrow> byte list \<Rightarrow> byte list \<Rightarrow> ws_opcode \<Rightarrow> ws_error + byte list \<times> byte list" where
  "ws_send type rand sendbuf data opcode =
     (let has_mask = (type = WS_CLIENT);
          key = (if has_mask then rand else [0, 0, 0, 0]);
          frame_size = ws_calc_frame_size (word_of_nat (length data)) has_mask;
          sendbuf = (if word_of_nat (length sendbuf) < (scast frame_size :: 64 word)
                     then sendbuf @ replicate (unat (ceil2e (scast frame_size)) - length sendbuf) 0
                     else sendbuf);
          frame = ws_build_frame sendbuf data key has_mask opcode True
      in if length sendbuf < length frame \<or> length sendbuf < unat frame_size then Inl Out_of_bounds
         else let sendbuf = frame @ drop (length frame) sendbuf
              in Inr (take (unat frame_size) sendbuf, sendbuf))"

lemma frame_length_size:
  assumes "frame_length (word_of_nat n) = (l, ext)" "n < 2 ^ 31"
  shows "length ext = (if 126 \<le> n then if 65535 < n then 8 else 2 else 0)"
proof -
  have "unat (word_of_nat n :: 64 word) = n" using assms(2) by (simp add: unat_of_nat)
  then show ?thesis
    using assms(1) by (auto simp: frame_length_def word_less_nat_alt word_le_nat_alt split: if_splits)
qed

lemma frame_bytes_size:
  assumes "frame_ok f" "length (fr_data f) < 2 ^ 31 - 14"
  shows "unat (ws_calc_frame_size (word_of_nat (length (fr_data f))) (fr_masked f)) = length (frame_bytes f)"
    and "length (frame_bytes f) < 2 ^ 31"
proof -
  let ?n = "length (fr_data f)"
  have n: "?n < 2147483634" using assms(2) by simp
  obtain l ext where fl: "frame_length (word_of_nat ?n) = (l, ext)" by (cases "frame_length (word_of_nat ?n)")
  have len: "length (frame_bytes f) = 2 + (if 126 \<le> ?n then if 65535 < ?n then 8 else 2 else 0) + (if fr_masked f then 4 else 0) + ?n"
    using frame_length_size[OF fl] n assms(1) by (simp add: frame_bytes_eq[OF fl] frame_ok_def)
  then show short: "length (frame_bytes f) < 2 ^ 31" using n by (simp split: if_splits)
  have s: "sint (word_of_nat ?n :: 32 word) = int ?n"
    using n by (simp add: signed_of_nat signed_take_bit_int_eq_self)
  have c: "(126 \<le>s (word_of_nat ?n :: 32 word)) = (126 \<le> ?n)" "(0xFFFF <s (word_of_nat ?n :: 32 word)) = (65535 < ?n)"
    unfolding word_sle_eq word_sless_alt s by simp_all
  have "ws_calc_frame_size (word_of_nat ?n) (fr_masked f) = word_of_nat (length (frame_bytes f))"
    unfolding ws_calc_frame_size_def Let_def c len by simp
  moreover have "unat (word_of_nat m :: 32 word) = m" if "m < 2 ^ 31" for m
    using that by (simp add: unat_of_nat)
  then have "unat (word_of_nat (length (frame_bytes f)) :: 32 word) = length (frame_bytes f)"
    using short .
  ultimately show "unat (ws_calc_frame_size (word_of_nat ?n) (fr_masked f)) = length (frame_bytes f)" by simp
qed

text \<open>
  C28.  Sending fits and arrives: for data that keeps the \<open>int\<close> sizes in range, \<open>send\<close> makes its
  buffer large enough before it builds the frame, hands exactly the bytes of the frame to
  \<open>write\<close> (their number is what both size functions compute), and a peer that reads them gets
  one message with the opcode and the data, for the masked frames of a client as for the frames
  of a server.
\<close>

theorem ws_send_delivers:
  assumes "length rand = 4" "length data < 2 ^ 31 - 14" "length sendbuf < 2 ^ 63"
    and "unat addr + length data + 14 < 2 ^ 63"
  shows "\<exists>sent buf n w. ws_send type rand sendbuf data opcode = Inr (sent, buf) \<and>
     length sent = unat (ws_calc_frame_size (word_of_nat (length data)) (type = WS_CLIENT)) \<and>
     length sent = unat (websocket_calc_frame_size (if type = WS_CLIENT then WS_HAS_MASK else 0)
                           (word_of_nat (length data))) \<and>
     FeedRecvData addr sent (WebSocketParser_new op) = Inr (n, w) \<and>
     ws_calls w = [(if opcode = WS_OPCODE_CONTINUE then op else opcode_flags opcode, data)]"
proof -
  let ?key = "if type = WS_CLIENT then rand else [0, 0, 0, 0]"
  let ?f = "\<lparr>fr_opcode = opcode, fr_fin = True, fr_masked = (type = WS_CLIENT), fr_key = ?key, fr_data = data\<rparr>"
  let ?size = "ws_calc_frame_size (word_of_nat (length data)) (type = WS_CLIENT)"
  let ?sent = "frame_bytes ?f"
  have ok: "frame_ok ?f" using assms(1,2) by (simp add: frame_ok_def)
  have size: "unat ?size = length ?sent" "length ?sent < 2 ^ 31"
    using frame_bytes_size[OF ok] assms(2) by simp_all
  obtain l ext where fl: "frame_length (word_of_nat (length data)) = (l, ext)"
    by (cases "frame_length (word_of_nat (length data))")
  have len: "length ?sent = 2 + length ext + (if type = WS_CLIENT then 4 else 0) + length data"
    "length ext = (if 126 \<le> length data then if 65535 < length data then 8 else 2 else 0)"
    using frame_bytes_eq[of ?f l ext] fl assms(1,2) frame_length_size[OF fl] by simp_all
  have u: "unat (word_of_nat m :: 64 word) = m" if "m < 2 ^ 63" for m
    using that by (simp add: unat_of_nat)
  have "?size = word_of_nat (length ?sent)" by (simp flip: size(1))
  then have "sint ?size = int (length ?sent)"
    using size(2) by (simp add: signed_of_nat signed_take_bit_int_eq_self)
  then have sc: "(scast ?size :: 64 word) = word_of_nat (length ?sent)"
    unfolding scast_eq by (simp only: of_int_of_nat_eq)
  let ?buf = "if word_of_nat (length sendbuf) < (scast ?size :: 64 word)
      then sendbuf @ replicate (unat (ceil2e (scast ?size)) - length sendbuf) 0 else sendbuf"
  have fits: "length ?sent \<le> length ?buf"
    using ceil2e_bound[of "scast ?size"] size(2) assms(3) u[of "length ?sent"] u[of "length sendbuf"]
    by (auto simp: sc word_less_nat_alt)
  have "ws_build_frame ?buf data ?key (type = WS_CLIENT) opcode True = ?sent"
    by (simp add: frame_bytes_def ws_build_frame_def websocket_build_frame_def Let_def)
  then have sent: "ws_send type rand sendbuf data opcode = Inr (?sent, ?sent @ drop (length ?sent) ?buf)"
    using fits size(1) unfolding ws_send_def Let_def by simp
  have wsize: "length ?sent = unat (websocket_calc_frame_size (if type = WS_CLIENT then WS_HAS_MASK else 0) (word_of_nat (length data)))"
  proof -
    have cmp: "126 \<le> (word_of_nat (length data) :: 64 word) \<longleftrightarrow> 126 \<le> length data"
      "(0xFFFF :: 64 word) < word_of_nat (length data) \<longleftrightarrow> 65535 < length data"
      using u[of "length data"] assms(2) by (simp_all add: word_le_nat_alt word_less_nat_alt)
    have "websocket_calc_frame_size (if type = WS_CLIENT then WS_HAS_MASK else 0) (word_of_nat (length data)) =
        word_of_nat (length ?sent)"
      unfolding websocket_calc_frame_size_def Let_def cmp len by simp
    then show ?thesis using u[of "length ?sent"] size(2) by simp
  qed
  have "length ?sent \<le> length data + 14" using len by simp
  then obtain w where w: "feed_reads [(addr, ?sent)] (WebSocketParser_new op) = Inr w" "ws_calls w = delivered op [?f]"
    using ws_reads[of "[?f]" "[(addr, ?sent)]" op] ok assms(4) by auto
  then obtain n where "FeedRecvData addr ?sent (WebSocketParser_new op) = Inr (n, w)"
    by (auto simp: and_then_eq_Inr)
  then show ?thesis using sent size(1) wsize w(2) by auto
qed

theorem ws_send_delivers_witness:
  "\<exists>sent buf n w. ws_send WS_CLIENT [1, 2, 3, 4] [] [104, 105] WS_OPCODE_TEXT = Inr (sent, buf) \<and>
     length sent = 8 \<and> FeedRecvData 0x1000 sent (WebSocketParser_new 0) = Inr (n, w) \<and> ws_calls w = [(1, [104, 105])]"
proof -
  have "unat (ws_calc_frame_size (word_of_nat (length [104 :: byte, 105])) True) = 8" by code_simp
  then show ?thesis
    using ws_send_delivers[of "[1, 2, 3, 4]" "[104, 105]" "[]" "0x1000" WS_CLIENT WS_OPCODE_TEXT 0] by auto
qed

end
