(* ===== verification/Spec2Isabelle.thy ===== *)
theory Spec2Isabelle
  imports HBase HBuf Timers CustomEvents Dns IniParser HMain Netmt Order HttpService FileCache HttpHandler WebSocket
begin

text \<open>
  A model of the netmt management tool and of the parts of the libhv library it is built on.

  The program.  \<open>netmtServer\<close> (\<open>src/source/netmtServer\<close>) is a daemon that \<open>netmtClient\<close> programs
  (\<open>src/source/netmtClient\<close>) connect to over TCP: the server keeps a table of the clients,
  assembles the commands typed at it and exchanges messages with them.  Its
  \<open>main\<close> parses the command line, reads an INI file, and starts and supervises
  worker processes (\<open>cpputil/hmain\<close>, \<open>order.c\<close>).  Both rest on libhv
  (\<open>src/public/libhv\<close>): string and buffer helpers (\<open>base\<close>, \<open>cpputil\<close>), an event loop (\<open>event\<close>), which
  keeps its timers in an intrusive heap, makes the timers that are due pending and runs their callbacks, and is posted events
  by other threads through a queue, and an HTTP and WebSocket
  stack (\<open>http\<close>), whose layers call each other: the server loop feeds the bytes of a
  connection to a parser, the parser builds a request, the service
  finds the handler of the request or the file cache provides a file, the response is
  written back; an upgraded connection exchanges WebSocket frames.

  Theories and the code they model, in the order of the imports:
  \<^item> \<open>Prelude\<close>, \<open>OrderedMap\<close>: what the code uses of the C and C++ libraries - C strings,
    searching, \<open>atoi\<close> and \<open>printf\<close> of decimals, \<open>std::map\<close> with a comparator (the locale
    \<open>comparator\<close>, interpreted for the order of \<open>std::string\<close> and for the order without letter case).
  \<^item> \<open>HString\<close> (\<open>cpputil/hstring.cpp\<close>), \<open>HUrl\<close> (\<open>cpputil/hurl.cpp\<close>), \<open>HBase\<close> (\<open>base/hbase.c\<close>),
    \<open>HBuf\<close> (\<open>base/hbuf.h\<close>), \<open>ListH\<close> (\<open>base/list.h\<close>): splitting, trimming, replacing,
    percent-encoding, bounded copies, directory walks, the variable-length and the
    ring buffer, intrusive lists in an explicit store.
  \<^item> \<open>HeapH\<close> (\<open>base/heap.h\<close>): the heap of linked nodes, refined to an array heap and that to a priority queue (the
    locale \<open>min_queue\<close>, interpreted on the pointers); \<open>HTime\<close> (\<open>base/htime.c\<close>): the calendar, formats, and
    \<open>cron_next_timeout\<close>.
  \<^item> \<open>Timers\<close> (\<open>event/hloop.c\<close>, \<open>hevent.h\<close>): timers, idle events and pending events over \<open>HeapH\<close> and \<open>HTime\<close>, with
    freed events as missing ones; what a callback may do is the locale \<open>loop_callbacks\<close>, interpreted on
    callbacks that call the loop.
  \<^item> \<open>Containers\<close> (\<open>base/queue.h\<close>, \<open>array.h\<close>): the growing queue and array (the locale \<open>refined_ops\<close>, interpreted on
    both); \<open>CustomEvents\<close> (\<open>event/hloop.c\<close>): posting events to a loop through the queue.
  \<^item> \<open>Dns\<close> (\<open>protocol/dns.c\<close>): names, records, packets and lookups over the memory of the caller.
  \<^item> \<open>IniParser\<close> (\<open>cpputil/iniparser.cpp\<close>): the tree of an INI file, loading, editing and saving.
  \<^item> \<open>HMain\<close> (\<open>cpputil/hmain.cpp\<close>): options, the process title and context, pid files, signals
    and the supervision of the workers; \<open>Order\<close> (\<open>netmtServer/order.c\<close>, \<open>order.h\<close>, \<open>cat.h\<close>): the
    command line tool over it.
  \<^item> \<open>Netmt\<close> (\<open>netmtServer\<close>, \<open>netmtClient\<close>): the client table and the message exchange, over
    \<open>ListH\<close>.
  \<^item> \<open>HttpDef\<close> (\<open>http/httpdef.c\<close>), \<open>HttpContent\<close> (\<open>http/http_content.cpp\<close>,
    \<open>multipart_parser.c\<close>): codes and content types, query strings, multipart forms.
  \<^item> \<open>HttpMessage\<close> (\<open>http/HttpMessage.cpp\<close>, \<open>Http1Parser\<close>): cookies, headers, the
    texts of requests and responses, and the callbacks that build a request from parser events.
  \<^item> \<open>HttpService\<close> (\<open>http/server/HttpService.cpp\<close>): the table of handlers and the routes.
  \<^item> \<open>FileCache\<close> (\<open>http/server/FileCache.cpp\<close>): the cached files and their buffers.
  \<^item> \<open>HttpHandler\<close> (\<open>http/server/HttpHandler.cpp\<close>, \<open>http_page.cpp\<close>, the serving part of
    \<open>HttpServer.cpp\<close>): the choice between processors, API handlers and files, status pages, ranges, and the
    state machine that hands out a response piece by piece.
  \<^item> \<open>WebSocket\<close> (\<open>http/websocket_parser.c\<close>, \<open>wsdef.c\<close>, \<open>WebSocketParser.cpp\<close>,
    \<open>WebSocketChannel.h\<close>): building frames, the incremental parser, assembling messages.

  State and effects.  A struct or class is a record with the fields of the code, an
  operation a function that returns the new record; shared objects (list nodes, cached files)
  live in an explicit store.  Undefined behaviour - a read out of bounds, an
  uninitialised variable, a failed assertion - and exceptions that leave the modelled code are the value \<open>None\<close>
  or an error value.  Integers are kept at their width where wrap-around or sign matters (\<open>size_t\<close> and \<open>int\<close>
  in buffers, frames, reservations); elsewhere they are \<open>nat\<close> or \<open>int\<close> with the bound in the hypotheses.

  What the lemmas show.  Refinements: buffers, lists, queues and arrays behave as sequences, the heap as a priority queue,
  the INI tree as a map, under every sequence of operations.  Round trips: whatever the code writes it reads back (INI files, query
  strings, forms, cookies, percent-encoding, DNS packets, frames in any fragmentation).  Invariants by
  induction over reachable states: the client table, the blocks of the ring buffer, the supervision of
  workers, the objects of the file cache, the paths the file service can reach, the events of a loop with its heap, lists
  and counters.  Liveness: the loop of the server over the send machine ends, and has then written the whole response; the passes
  of the event loop over its timers and its pending events end, given clocks that agree to the second
  (\<open>Timers.timers_clock_ok\<close>; without that a pass may not end, \<open>Timers.timers_ahead_spin\<close>).  Functional results on every branch for the parsers and for the
  routing.  Several properties state what the code does where it differs from what it means to
  do; they are the findings of the manifest.

  Loops and fuel.  Loops over a list or string are structural, others have a measure; a loop that may not end is a
  \<open>partial_function (option)\<close>, and that it returns is proved (\<open>HString.replace\<close>, the sifting of \<open>HeapH\<close>, the loops of
  \<open>Timers\<close>), or that it does not.  Only the walks over the list of clients in \<open>Netmt\<close> (\<open>list_for_each\<close>, \<open>on_send\<close>)
  run on fuel, as the links may form a cycle; one unit for every client is enough, and the properties say so.

  Not modelled: the descriptors and the polling backends of the event loop and \<open>hloop_run\<close>, sockets, TLS and threads (system calls and
  scheduling), logging, HTTP/2 (calls of nghttp2), the third-party code in the tree
  (\<open>json.hpp\<close>, \<open>http_parser.c\<close>, the digests and \<open>base64.c\<close>), the command library under
  \<open>src/public/cmd\<close>, which nothing in the tool calls, the \<open>evpp\<close> templates, the HTTP clients, examples and
  tests.  \<open>pub/com/iniconfopt.cpp\<close> does not compile as it stands.
\<close>

end
